(* ===== verification/Prelude.thy ===== *)
theory Prelude
  imports Main "HOL-Library.Word" "HOL-Library.Monad_Syntax"
    "HOL-Library.List_Lexorder" "HOL-Library.Product_Lexorder"
begin

text \<open>
  Shared vocabulary of the development.

  Code that can abort (a failed \<open>redisAssert\<close>, a dereference of \<open>NULL\<close> or of freed memory,
  an access outside an array, an allocation that fails)
  is a function into \<open>option\<close>, \<open>None\<close> standing for the abort, and is written in the
  \<open>do\<close>-notation of the option monad with the server state passed explicitly.
  Two weakest-precondition style predicates speak about such code:
  \<open>returns m Q\<close> (the code does not abort and its result satisfies \<open>Q\<close>) and
  \<open>whenever m Q\<close> (if the code returns, its result satisfies \<open>Q\<close>). Their compositional rules are
  collected in \<open>wp\<close>.
  \<open>foldM\<close> is the \<open>for\<close> loop over a list of items; \<open>returns_foldM\<close> and
  \<open>whenever_foldM\<close> are its invariant rules.
\<close>

unbundle bit_operations_syntax

named_theorems wp \<comment> \<open>weakest-precondition rewriting for option-valued code\<close>
named_theorems flag_simps \<comment> \<open>tests and updates of bit masks\<close>

type_synonym u8 = "8 word"
type_synonym u16 = "16 word"
type_synonym u32 = "32 word"
type_synonym u64 = "64 word"

text \<open>Binary strings. Their order (\<open>List_Lexorder\<close> over unsigned bytes) is that of \<open>memcmp\<close> with the
  shorter string first, which is what \<open>compareStringObjects\<close> computes.\<close>

type_synonym bytes = "u8 list"

text \<open>Addresses. \<open>NULL\<close> is \<open>0\<close>.\<close>

type_synonym ptr = nat

abbreviation (input) NULL :: ptr where "NULL \<equiv> 0"

subsection \<open>Code that may abort\<close>

definition returns :: "'a option \<Rightarrow> ('a \<Rightarrow> bool) \<Rightarrow> bool" where
  "returns m Q \<longleftrightarrow> (\<exists>x. m = Some x \<and> Q x)"

definition whenever :: "'a option \<Rightarrow> ('a \<Rightarrow> bool) \<Rightarrow> bool" where
  "whenever m Q \<longleftrightarrow> (\<forall>x. m = Some x \<longrightarrow> Q x)"

text \<open>\<open>redisAssert(e)\<close>.\<close>

definition redisAssert :: "bool \<Rightarrow> unit option" where
  "redisAssert b = (if b then Some () else None)"

primrec foldM :: "('a \<Rightarrow> 's \<Rightarrow> 's option) \<Rightarrow> 'a list \<Rightarrow> 's \<Rightarrow> 's option" where
  "foldM f [] s = Some s"
| "foldM f (x # xs) s = do { s' \<leftarrow> f x s; foldM f xs s' }"

lemma returns_Some [wp]: "returns (Some x) Q \<longleftrightarrow> Q x"
  by (simp add: returns_def)

lemma returns_None [wp]: "\<not> returns None Q"
  by (simp add: returns_def)

lemma returns_bind [wp]: "returns (m \<bind> f) Q \<longleftrightarrow> returns m (\<lambda>x. returns (f x) Q)"
  by (cases m) (auto simp: returns_def)

lemma returns_if [wp]:
  "returns (if b then m else n) Q \<longleftrightarrow> (b \<longrightarrow> returns m Q) \<and> (\<not> b \<longrightarrow> returns n Q)"
  by simp

lemma returns_assert [wp]: "returns (redisAssert b) Q \<longleftrightarrow> b \<and> Q ()"
  by (simp add: returns_def redisAssert_def)

lemma whenever_Some [wp]: "whenever (Some x) Q \<longleftrightarrow> Q x"
  by (simp add: whenever_def)

lemma whenever_None [wp]: "whenever None Q"
  by (simp add: whenever_def)

lemma whenever_bind [wp]: "whenever (m \<bind> f) Q \<longleftrightarrow> whenever m (\<lambda>x. whenever (f x) Q)"
  by (cases m) (auto simp: whenever_def)

lemma whenever_if [wp]:
  "whenever (if b then m else n) Q \<longleftrightarrow> (b \<longrightarrow> whenever m Q) \<and> (\<not> b \<longrightarrow> whenever n Q)"
  by simp

lemma whenever_assert [wp]: "whenever (redisAssert b) Q \<longleftrightarrow> (b \<longrightarrow> Q ())"
  by (simp add: whenever_def redisAssert_def)

lemma returns_mono: "returns m P \<Longrightarrow> (\<And>x. P x \<Longrightarrow> Q x) \<Longrightarrow> returns m Q"
  by (auto simp: returns_def)

lemma whenever_mono: "whenever m P \<Longrightarrow> (\<And>x. P x \<Longrightarrow> Q x) \<Longrightarrow> whenever m Q"
  by (auto simp: whenever_def)

lemma whenever_conj: "whenever m (\<lambda>x. P x \<and> Q x) \<longleftrightarrow> whenever m P \<and> whenever m Q"
  by (auto simp: whenever_def)

lemma wheneverD: "whenever m Q \<Longrightarrow> m = Some x \<Longrightarrow> Q x"
  by (simp add: whenever_def)

lemma returns_whenever: "returns m Q \<Longrightarrow> whenever m Q"
  by (auto simp: returns_def whenever_def)

lemma returnsD: "returns m Q \<Longrightarrow> \<exists>x. m = Some x \<and> Q x"
  by (simp add: returns_def)

text \<open>Taking a run apart one step at a time.\<close>

lemmas opt_bind = Option.bind_eq_Some_conv

lemma bind_SomeE: "m \<bind> f = Some y \<Longrightarrow> (\<And>x. m = Some x \<Longrightarrow> f x = Some y \<Longrightarrow> P) \<Longrightarrow> P"
  by (cases m) auto

lemma if_eqD: "x = (if c then a else b) \<Longrightarrow> x = a \<or> x = b"
  by (simp split: if_splits)

declare Let_def [wp]

lemma returns_map_option [wp]: "returns (map_option f m) Q \<longleftrightarrow> returns m (\<lambda>x. Q (f x))"
  by (auto simp: returns_def)

lemma whenever_map_option [wp]: "whenever (map_option f m) Q \<longleftrightarrow> whenever m (\<lambda>x. Q (f x))"
  by (auto simp: whenever_def)

subsection \<open>Loops\<close>

lemma foldM_append: "foldM f (xs @ ys) s = foldM f xs s \<bind> foldM f ys"
proof (induction xs arbitrary: s)
  case (Cons x xs)
  then show ?case by (cases "f x s") simp_all
qed simp

lemma returns_foldM:
  assumes "I s" and "\<And>x s. x \<in> set xs \<Longrightarrow> I s \<Longrightarrow> returns (f x s) I"
  shows "returns (foldM f xs s) I"
  using assms
proof (induction xs arbitrary: s)
  case Nil
  then show ?case by (simp add: wp)
next
  case (Cons x xs)
  have "returns (f x s) I" by (rule Cons.prems(2)) (simp_all add: Cons.prems(1))
  then show ?case
    by (simp add: wp) (erule returns_mono, rule Cons.IH, auto intro: Cons.prems(2))
qed

lemma whenever_foldM:
  assumes "I s" and "\<And>x s. x \<in> set xs \<Longrightarrow> I s \<Longrightarrow> whenever (f x s) I"
  shows "whenever (foldM f xs s) I"
  using assms
proof (induction xs arbitrary: s)
  case Nil
  then show ?case by (simp add: wp)
next
  case (Cons x xs)
  have "whenever (f x s) I" by (rule Cons.prems(2)) (simp_all add: Cons.prems(1))
  then show ?case
    by (simp add: wp) (erule whenever_mono, rule Cons.IH, auto intro: Cons.prems(2))
qed

text \<open>A loop over \<open>0, \<dots>, n - 1\<close> with an invariant that counts the items done.\<close>

lemma returns_foldM_upt:
  assumes "I 0 s" and "\<And>j s. j < n \<Longrightarrow> I j s \<Longrightarrow> returns (f j s) (I (Suc j))"
  shows "returns (foldM f [0..<n] s) (I n)"
proof -
  have "returns (foldM f [k..<n] s) (I n)" if "k \<le> n" "I k s" for k s
    using that
  proof (induction "n - k" arbitrary: k s)
    case 0
    then show ?case by (simp add: wp)
  next
    case (Suc m)
    then have k: "k < n" by simp
    have "returns (f k s) (I (Suc k))" by (rule assms(2)[OF k Suc.prems(2)])
    then show ?case using k Suc.hyps(2)
      by (simp add: upt_conv_Cons wp) (erule returns_mono, rule Suc.hyps(1), auto)
  qed
  then show ?thesis using assms(1) by blast
qed

lemma whenever_foldM_upt:
  assumes "I 0 s" and "\<And>j s. j < n \<Longrightarrow> I j s \<Longrightarrow> whenever (f j s) (I (Suc j))"
  shows "whenever (foldM f [0..<n] s) (I n)"
proof -
  have "whenever (foldM f [k..<n] s) (I n)" if "k \<le> n" "I k s" for k s
    using that
  proof (induction "n - k" arbitrary: k s)
    case 0
    then show ?case by (simp add: wp)
  next
    case (Suc m)
    then have k: "k < n" by simp
    have "whenever (f k s) (I (Suc k))" by (rule assms(2)[OF k Suc.prems(2)])
    then show ?case using k Suc.hyps(2)
      by (simp add: upt_conv_Cons wp) (erule whenever_mono, rule Suc.hyps(1), auto)
  qed
  then show ?thesis using assms(1) by blast
qed

subsection \<open>Memory cells\<close>

text \<open>\<open>*p\<close>: reading through a pointer that is not allocated aborts.\<close>

definition deref :: "(ptr \<Rightarrow> 'a option) \<Rightarrow> ptr \<Rightarrow> 'a option" where
  "deref h p = h p"

lemma returns_deref [wp]: "returns (deref h p) Q \<longleftrightarrow> (\<exists>n. h p = Some n \<and> Q n)"
  by (simp add: returns_def deref_def)

lemma whenever_deref [wp]: "whenever (deref h p) Q \<longleftrightarrow> (\<forall>n. h p = Some n \<longrightarrow> Q n)"
  by (simp add: whenever_def deref_def)

subsection \<open>Bit masks\<close>

text \<open>\<open>has f k\<close>: the test \<open>f & (1<<k)\<close> of the code.\<close>

lemma mask_test [flag_simps]:
  fixes f :: "'a::len word"
  shows "f AND 1 \<noteq> 0 \<longleftrightarrow> bit f 0"
    and "f AND 2 \<noteq> 0 \<longleftrightarrow> bit f 1"
    and "f AND 4 \<noteq> 0 \<longleftrightarrow> bit f 2"
    and "f AND 8 \<noteq> 0 \<longleftrightarrow> bit f 3"
    and "f AND 16 \<noteq> 0 \<longleftrightarrow> bit f 4"
    and "f AND 32 \<noteq> 0 \<longleftrightarrow> bit f 5"
    and "f AND 64 \<noteq> 0 \<longleftrightarrow> bit f 6"
    and "f AND 128 \<noteq> 0 \<longleftrightarrow> bit f 7"
    and "f AND 256 \<noteq> 0 \<longleftrightarrow> bit f 8"
  using and_exp_eq_0_iff_not_bit[of f 0] and_exp_eq_0_iff_not_bit[of f 1]
    and_exp_eq_0_iff_not_bit[of f 2] and_exp_eq_0_iff_not_bit[of f 3]
    and_exp_eq_0_iff_not_bit[of f 4] and_exp_eq_0_iff_not_bit[of f 5]
    and_exp_eq_0_iff_not_bit[of f 6] and_exp_eq_0_iff_not_bit[of f 7]
    and_exp_eq_0_iff_not_bit[of f 8]
  by simp_all

lemma mask_test_pow [flag_simps]: "f AND push_bit k 1 \<noteq> 0 \<longleftrightarrow> bit (f::'a::len word) k"
  using and_exp_eq_0_iff_not_bit[of f k] by (simp add: push_bit_of_1)

subsection \<open>Association lists with distinct keys\<close>

lemma map_of_filter_neq:
  "map_of (filter (\<lambda>e. fst e \<noteq> k) xs) k' = (if k' = k then None else map_of xs k')"
  by (induction xs) auto

lemma map_of_snoc_new:
  "map_of xs k = None \<Longrightarrow> map_of (xs @ [(k, v)]) k' = (if k' = k then Some v else map_of xs k')"
  by (auto simp: map_add_def split: option.splits)

end
