(* ===== verification/Crc16.thy ===== *)
theory Crc16
  imports Prelude
begin

text \<open>
  crc16.c: the table driven CRC16-CCITT (XMODEM) that keyHashSlot reduces to a slot, and its equivalence
  with the bit by bit division by the polynomial 0x1021 that the header comment of the file
  specifies (no reflection, initial value and final XOR zero).
\<close>

definition crc16tab :: "u16 list" where
  "crc16tab = [
    0x0000, 0x1021, 0x2042, 0x3063, 0x4084, 0x50a5, 0x60c6, 0x70e7,
    0x8108, 0x9129, 0xa14a, 0xb16b, 0xc18c, 0xd1ad, 0xe1ce, 0xf1ef,
    0x1231, 0x0210, 0x3273, 0x2252, 0x52b5, 0x4294, 0x72f7, 0x62d6,
    0x9339, 0x8318, 0xb37b, 0xa35a, 0xd3bd, 0xc39c, 0xf3ff, 0xe3de,
    0x2462, 0x3443, 0x0420, 0x1401, 0x64e6, 0x74c7, 0x44a4, 0x5485,
    0xa56a, 0xb54b, 0x8528, 0x9509, 0xe5ee, 0xf5cf, 0xc5ac, 0xd58d,
    0x3653, 0x2672, 0x1611, 0x0630, 0x76d7, 0x66f6, 0x5695, 0x46b4,
    0xb75b, 0xa77a, 0x9719, 0x8738, 0xf7df, 0xe7fe, 0xd79d, 0xc7bc,
    0x48c4, 0x58e5, 0x6886, 0x78a7, 0x0840, 0x1861, 0x2802, 0x3823,
    0xc9cc, 0xd9ed, 0xe98e, 0xf9af, 0x8948, 0x9969, 0xa90a, 0xb92b,
    0x5af5, 0x4ad4, 0x7ab7, 0x6a96, 0x1a71, 0x0a50, 0x3a33, 0x2a12,
    0xdbfd, 0xcbdc, 0xfbbf, 0xeb9e, 0x9b79, 0x8b58, 0xbb3b, 0xab1a,
    0x6ca6, 0x7c87, 0x4ce4, 0x5cc5, 0x2c22, 0x3c03, 0x0c60, 0x1c41,
    0xedae, 0xfd8f, 0xcdec, 0xddcd, 0xad2a, 0xbd0b, 0x8d68, 0x9d49,
    0x7e97, 0x6eb6, 0x5ed5, 0x4ef4, 0x3e13, 0x2e32, 0x1e51, 0x0e70,
    0xff9f, 0xefbe, 0xdfdd, 0xcffc, 0xbf1b, 0xaf3a, 0x9f59, 0x8f78,
    0x9188, 0x81a9, 0xb1ca, 0xa1eb, 0xd10c, 0xc12d, 0xf14e, 0xe16f,
    0x1080, 0x00a1, 0x30c2, 0x20e3, 0x5004, 0x4025, 0x7046, 0x6067,
    0x83b9, 0x9398, 0xa3fb, 0xb3da, 0xc33d, 0xd31c, 0xe37f, 0xf35e,
    0x02b1, 0x1290, 0x22f3, 0x32d2, 0x4235, 0x5214, 0x6277, 0x7256,
    0xb5ea, 0xa5cb, 0x95a8, 0x8589, 0xf56e, 0xe54f, 0xd52c, 0xc50d,
    0x34e2, 0x24c3, 0x14a0, 0x0481, 0x7466, 0x6447, 0x5424, 0x4405,
    0xa7db, 0xb7fa, 0x8799, 0x97b8, 0xe75f, 0xf77e, 0xc71d, 0xd73c,
    0x26d3, 0x36f2, 0x0691, 0x16b0, 0x6657, 0x7676, 0x4615, 0x5634,
    0xd94c, 0xc96d, 0xf90e, 0xe92f, 0x99c8, 0x89e9, 0xb98a, 0xa9ab,
    0x5844, 0x4865, 0x7806, 0x6827, 0x18c0, 0x08e1, 0x3882, 0x28a3,
    0xcb7d, 0xdb5c, 0xeb3f, 0xfb1e, 0x8bf9, 0x9bd8, 0xabbb, 0xbb9a,
    0x4a75, 0x5a54, 0x6a37, 0x7a16, 0x0af1, 0x1ad0, 0x2ab3, 0x3a92,
    0xfd2e, 0xed0f, 0xdd6c, 0xcd4d, 0xbdaa, 0xad8b, 0x9de8, 0x8dc9,
    0x7c26, 0x6c07, 0x5c64, 0x4c45, 0x3ca2, 0x2c83, 0x1ce0, 0x0cc1,
    0xef1f, 0xff3e, 0xcf5d, 0xdf7c, 0xaf9b, 0xbfba, 0x8fd9, 0x9ff8,
    0x6e17, 0x7e36, 0x4e55, 0x5e74, 0x2e93, 0x3eb2, 0x0ed1, 0x1ef0
  ]"

text \<open>One turn of the loop: \<open>crc = (crc<<8) ^ crc16tab[((crc>>8) ^ *buf++) & 0x00FF]\<close>.\<close>

definition crc16_step :: "u16 \<Rightarrow> u8 \<Rightarrow> u16" where
  "crc16_step crc b =
     push_bit 8 crc XOR crc16tab ! unat ((drop_bit 8 crc XOR ucast b) AND 0x00FF)"

fun crc16_loop :: "u16 \<Rightarrow> bytes \<Rightarrow> u16" where
  "crc16_loop crc [] = crc"
| "crc16_loop crc (b # buf) = crc16_loop (crc16_step crc b) buf"

definition crc16 :: "bytes \<Rightarrow> u16" where
  "crc16 buf = crc16_loop 0 buf"

subsection \<open>Reference: polynomial division, one bit at a time\<close>

definition crc_bit :: "u16 \<Rightarrow> u16" where
  "crc_bit c = (if bit c 15 then push_bit 1 c XOR 0x1021 else push_bit 1 c)"

definition crc_bits8 :: "u16 \<Rightarrow> u16" where
  "crc_bits8 c = crc_bit (crc_bit (crc_bit (crc_bit (crc_bit (crc_bit (crc_bit (crc_bit c)))))))"

definition crc_byte :: "u16 \<Rightarrow> u8 \<Rightarrow> u16" where
  "crc_byte c b = crc_bits8 (c XOR push_bit 8 (ucast b))"

definition crc16_spec :: "bytes \<Rightarrow> u16" where
  "crc16_spec buf = foldl crc_byte 0 buf"

subsection \<open>The table is the reference on one byte\<close>

lemma length_crc16tab: "length crc16tab = 256"
  by (simp add: crc16tab_def)

lemma upt_256: "[0..<256::nat] = [
      0, 1, 2, 3, 4, 5, 6, 7, 8, 9, 10, 11, 12, 13, 14, 15,
      16, 17, 18, 19, 20, 21, 22, 23, 24, 25, 26, 27, 28, 29, 30, 31,
      32, 33, 34, 35, 36, 37, 38, 39, 40, 41, 42, 43, 44, 45, 46, 47,
      48, 49, 50, 51, 52, 53, 54, 55, 56, 57, 58, 59, 60, 61, 62, 63,
      64, 65, 66, 67, 68, 69, 70, 71, 72, 73, 74, 75, 76, 77, 78, 79,
      80, 81, 82, 83, 84, 85, 86, 87, 88, 89, 90, 91, 92, 93, 94, 95,
      96, 97, 98, 99, 100, 101, 102, 103, 104, 105, 106, 107, 108, 109, 110, 111,
      112, 113, 114, 115, 116, 117, 118, 119, 120, 121, 122, 123, 124, 125, 126, 127,
      128, 129, 130, 131, 132, 133, 134, 135, 136, 137, 138, 139, 140, 141, 142, 143,
      144, 145, 146, 147, 148, 149, 150, 151, 152, 153, 154, 155, 156, 157, 158, 159,
      160, 161, 162, 163, 164, 165, 166, 167, 168, 169, 170, 171, 172, 173, 174, 175,
      176, 177, 178, 179, 180, 181, 182, 183, 184, 185, 186, 187, 188, 189, 190, 191,
      192, 193, 194, 195, 196, 197, 198, 199, 200, 201, 202, 203, 204, 205, 206, 207,
      208, 209, 210, 211, 212, 213, 214, 215, 216, 217, 218, 219, 220, 221, 222, 223,
      224, 225, 226, 227, 228, 229, 230, 231, 232, 233, 234, 235, 236, 237, 238, 239,
      240, 241, 242, 243, 244, 245, 246, 247, 248, 249, 250, 251, 252, 253, 254, 255]"
  by code_simp

lemma crc16tab_all: "map (\<lambda>i. crc_bits8 (push_bit 8 (word_of_nat i))) [0..<256] = crc16tab"
  unfolding upt_256 crc16tab_def list.map
  by (simp add: crc_bits8_def crc_bit_def)

lemma crc16tab_nth: "i < 256 \<Longrightarrow> crc16tab ! i = crc_bits8 (push_bit 8 (word_of_nat i))"
  by (simp flip: crc16tab_all)

lemma crc_bit_xor: "crc_bit (a XOR b) = crc_bit a XOR crc_bit b"
  by (rule bit_word_eqI) (auto simp: crc_bit_def bit_simps)

lemma crc_bits8_xor: "crc_bits8 (a XOR b) = crc_bits8 a XOR crc_bits8 b"
  by (simp add: crc_bits8_def crc_bit_xor)

lemma crc_bits8_low:
  assumes "\<And>k. 8 \<le> k \<Longrightarrow> \<not> bit c k"
  shows "crc_bits8 c = push_bit 8 c"
proof -
  have "crc_bit (push_bit n c) = push_bit (Suc n) c" if "n < 8" for n
  proof -
    have "\<not> bit (push_bit n c) 15" using that assms[of "15 - n"] by (simp add: bit_push_bit_iff)
    then show ?thesis by (simp add: crc_bit_def push_bit_push_bit del: push_bit_Suc)
  qed
  from this[of 0] this[of 1] this[of 2] this[of 3] this[of 4] this[of 5] this[of 6] this[of 7]
  show ?thesis by (simp add: crc_bits8_def eval_nat_numeral del: push_bit_Suc)
qed

lemma eval_256: "(2::nat) ^ 8 = 256"
  by simp

text \<open>One table step is eight steps of the division.\<close>

lemma crc16_step_spec: "crc16_step crc b = crc_byte crc b"
proof -
  let ?hi = "drop_bit 8 crc" and ?lo = "take_bit 8 crc"
  define w where "w = ?hi XOR ucast b"
  have m: "(0x00FF::u16) = mask 8" by (simp add: mask_eq_exp_minus_1)
  have w: "w AND 0x00FF = w" unfolding m w_def
    by (rule bit_word_eqI) (auto simp: bit_simps dest: bit_imp_le_length)
  have "w = take_bit 8 w" using w by (simp add: m take_bit_eq_mask)
  then have bound: "unat w < 256"
    using take_bit_nat_less_exp[of 8 "unat w"] by (metis unsigned_take_bit_eq eval_256)
  have split: "crc XOR push_bit 8 (ucast b) = push_bit 8 w XOR ?lo"
    unfolding w_def by (rule bit_word_eqI) (auto simp: bit_simps)
  have lo: "crc_bits8 ?lo = push_bit 8 ?lo"
    by (rule crc_bits8_low) (simp add: bit_simps)
  have "push_bit 8 ?lo = push_bit 8 crc"
    by (rule bit_word_eqI) (auto simp: bit_simps)
  then show ?thesis
    using bound lo w split unfolding crc16_step_def crc_byte_def w_def[symmetric]
    by (simp add: crc16tab_nth crc_bits8_xor xor.commute)
qed

lemma crc16_step_index:
  "unat ((drop_bit 8 crc XOR ucast b) AND 0x00FF :: u16) < length crc16tab"
proof -
  have "(drop_bit 8 crc XOR ucast b) AND 0x00FF \<le> (0x00FF :: u16)" by (rule word_and_le1)
  then show ?thesis by (simp add: length_crc16tab word_le_nat_alt)
qed

lemma crc16_loop_spec: "crc16_loop crc buf = foldl crc_byte crc buf"
  by (induction buf arbitrary: crc) (simp_all add: crc16_step_spec)

text \<open>Property C38.
  The table driven CRC of crc16.c computes, on every byte string, the remainder defined bit by bit by
  the polynomial 0x1021 with initial value zero: the table is the right one, every entry of
  it, and the loop folds it correctly.\<close>

theorem crc16_is_polynomial_division: "crc16 buf = crc16_spec buf"
  by (simp add: crc16_def crc16_spec_def crc16_loop_spec)

end
