(* ===== verification/KeySlot.thy ===== *)
theory KeySlot
  imports Crc16
begin

text \<open>
  \<open>keyHashSlot\<close> of cluster.c: which of the 16384 slots a key belongs to, hash tags included.
\<close>

text \<open>The loops \<open>for (s = from; s < keylen; s++) if (key[s] == c) break;\<close>.\<close>

function scan_byte :: "bytes \<Rightarrow> u8 \<Rightarrow> nat \<Rightarrow> nat" where
  "scan_byte key c s = (if s < length key \<and> key ! s \<noteq> c then scan_byte key c (Suc s) else s)"
  by pat_completeness auto
termination
  by (relation "measure (\<lambda>(key, c, s). length key - s)") auto

declare scan_byte.simps [simp del]

definition keyHashSlot :: "bytes \<Rightarrow> nat" where
  "keyHashSlot key =
     (let keylen = length key; s = scan_byte key 0x7B 0
      in if s = keylen then unat (crc16 key AND 0x3FFF)
         else let e = scan_byte key 0x7D (s + 1)
              in if e = keylen \<or> e = s + 1 then unat (crc16 key AND 0x3FFF)
                 else unat (crc16 (take (e - s - 1) (drop (s + 1) key)) AND 0x3FFF))"

lemma scan_byte_bounds: "s \<le> length key \<Longrightarrow> s \<le> scan_byte key c s \<and> scan_byte key c s \<le> length key"
proof (induction key c s rule: scan_byte.induct)
  case (1 key c s)
  then show ?case
    by (cases "s < length key \<and> key ! s \<noteq> c") (auto simp: scan_byte.simps[of key c s])
qed

lemma scan_byte_skip:
  assumes "c \<notin> set ys"
  shows "scan_byte (xs @ ys @ zs) c (length xs) = scan_byte (xs @ ys @ zs) c (length (xs @ ys))"
  using assms
proof (induction ys arbitrary: xs)
  case Nil
  then show ?case by simp
next
  case (Cons y ys)
  have "scan_byte (xs @ (y # ys) @ zs) c (length xs) = scan_byte (xs @ (y # ys) @ zs) c (Suc (length xs))"
    using Cons.prems by (subst scan_byte.simps) (auto simp: nth_append)
  also have "\<dots> = scan_byte ((xs @ [y]) @ ys @ zs) c (length (xs @ [y]))" by simp
  also have "\<dots> = scan_byte ((xs @ [y]) @ ys @ zs) c (length ((xs @ [y]) @ ys))"
    using Cons.prems by (intro Cons.IH) auto
  finally show ?case by simp
qed

lemma scan_byte_hit: "scan_byte (xs @ c # zs) c (length xs) = length xs"
  by (subst scan_byte.simps) simp

lemma scan_byte_end: "scan_byte xs c (length xs) = length xs"
  by (subst scan_byte.simps) simp

lemma scan_byte_found:
  assumes "c \<notin> set ys"
  shows "scan_byte (xs @ ys @ c # zs) c (length xs) = length xs + length ys"
  using scan_byte_skip[OF assms, of xs "c # zs"] scan_byte_hit[of "xs @ ys" c zs] by simp

lemma scan_byte_missing:
  assumes "c \<notin> set ys"
  shows "scan_byte (xs @ ys) c (length xs) = length (xs @ ys)"
  using scan_byte_skip[OF assms, of xs "[]"] scan_byte_end[of "xs @ ys" c] by simp

lemma unat_and_3FFF: "unat ((w::u16) AND 0x3FFF) < 16384"
proof -
  have "w AND 0x3FFF \<le> 0x3FFF" by (rule word_and_le1)
  then show ?thesis by (simp add: word_le_nat_alt)
qed

lemma keyHashSlot_less: "keyHashSlot key < 16384"
  by (simp add: keyHashSlot_def Let_def unat_and_3FFF)

text \<open>Every key belongs to one of the 16384 slots, so indexing the slot table by the
  result of \<open>keyHashSlot\<close> is always in bounds.\<close>

theorem keyHashSlot_in_range: "keyHashSlot key < 16384"
  by (rule keyHashSlot_less)

text \<open>The slot of a key without usable hash tag is that of the whole key.\<close>

lemma keyHashSlot_no_brace: "0x7B \<notin> set key \<Longrightarrow> keyHashSlot key = unat (crc16 key AND 0x3FFF)"
  using scan_byte_missing[of "0x7B" key "[]"] by (simp add: keyHashSlot_def)

lemma keyHashSlot_unclosed:
  assumes "0x7B \<notin> set pre" and "0x7D \<notin> set rest"
  shows "keyHashSlot (pre @ 0x7B # rest) = unat (crc16 (pre @ 0x7B # rest) AND 0x3FFF)"
  using scan_byte_found[OF assms(1), of "[]" rest]
    scan_byte_missing[OF assms(2), of "pre @ [0x7B]"]
  by (simp add: keyHashSlot_def)

text \<open>Hash tags: when the first opening brace of a key is followed by a non-empty run of bytes
  up to the next closing brace, only that run is hashed, whatever precedes the tag and follows
  it (and whatever braces the tag or the rest contains); so all keys with one tag share a slot.
  With an empty tag the whole key is hashed.\<close>

theorem keyHashSlot_hash_tag:
  assumes "0x7B \<notin> set pre" and "0x7D \<notin> set tag"
  shows "keyHashSlot (pre @ [0x7B] @ tag @ [0x7D] @ rest) =
    unat (crc16 (if tag = [] then pre @ [0x7B] @ tag @ [0x7D] @ rest else tag) AND 0x3FFF)"
proof -
  have s: "scan_byte (pre @ 0x7B # tag @ 0x7D # rest) 0x7B 0 = length pre"
    using scan_byte_found[OF assms(1), of "[]"] by simp
  have e: "scan_byte (pre @ 0x7B # tag @ 0x7D # rest) 0x7D (Suc (length pre))
         = Suc (length pre) + length tag"
    using scan_byte_found[OF assms(2), of "pre @ [0x7B]"] by simp
  show ?thesis by (auto simp: keyHashSlot_def Let_def s e)
qed

text \<open>The keys \<open>{user1000}.following\<close> and \<open>{u\<close>: the first is hashed by its tag.\<close>

theorem keyHashSlot_hash_tag_witness:
  "keyHashSlot ([0x61] @ [0x7B] @ [0x62, 0x7B] @ [0x7D] @ [0x7D]) = unat (crc16 [0x62, 0x7B] AND 0x3FFF)"
  using keyHashSlot_hash_tag[of "[0x61]" "[0x62, 0x7B]" "[0x7D]"] by simp

end
