(* ===== verification/Bitmap.thy ===== *)
theory Bitmap
  imports Prelude
begin

text \<open>
  The slot bitmaps of cluster.c: 2048 bytes in which bit \<open>pos & 7\<close> of byte \<open>pos / 8\<close> stands
  for slot \<open>pos\<close> (\<open>bitmapTestBit\<close>, \<open>bitmapSetBit\<close>, \<open>bitmapClearBit\<close>).
  The locale \<open>bit_array\<close> is the interface the slot accounting relies on: what a test returns after a
  set or a clear; the counting lemmas are proved once from it and reach the code's bitmaps
  through the interpretation \<open>bm\<close>.
\<close>

type_synonym bitmap = "nat \<Rightarrow> u8"

definition bitmapTestBit :: "bitmap \<Rightarrow> nat \<Rightarrow> bool" where
  "bitmapTestBit bitmap pos =
     (let byte = pos div 8; bit = pos mod 8 in (bitmap byte AND push_bit bit 1) \<noteq> 0)"

definition bitmapSetBit :: "bitmap \<Rightarrow> nat \<Rightarrow> bitmap" where
  "bitmapSetBit bitmap pos =
     (let byte = pos div 8; bit = pos mod 8
      in bitmap(byte := bitmap byte OR push_bit bit 1))"

definition bitmapClearBit :: "bitmap \<Rightarrow> nat \<Rightarrow> bitmap" where
  "bitmapClearBit bitmap pos =
     (let byte = pos div 8; bit = pos mod 8
      in bitmap(byte := bitmap byte AND NOT (push_bit bit 1)))"

definition zero_bitmap :: bitmap where
  "zero_bitmap = (\<lambda>_. 0)"

text \<open>\<open>memcmp(a, b, 2048) == 0\<close>.\<close>

definition bitmap_equal :: "bitmap \<Rightarrow> bitmap \<Rightarrow> bool" where
  "bitmap_equal a b = (\<forall>i\<in>{..<2048}. a i = b i)"

subsection \<open>The interface\<close>

locale bit_array =
  fixes test :: "'b \<Rightarrow> nat \<Rightarrow> bool"
    and set1 :: "'b \<Rightarrow> nat \<Rightarrow> 'b"
    and clear1 :: "'b \<Rightarrow> nat \<Rightarrow> 'b"
    and none :: 'b
  assumes test_set1: "test (set1 b i) j \<longleftrightarrow> i = j \<or> test b j"
    and test_clear1: "test (clear1 b i) j \<longleftrightarrow> i \<noteq> j \<and> test b j"
    and test_none: "\<not> test none j"
begin

lemma card_none: "card {j. j < n \<and> test none j} = 0"
  by (simp add: test_none)

lemma card_set1:
  assumes "i < n"
  shows "card {j. j < n \<and> test (set1 b i) j}
       = card {j. j < n \<and> test b j} + (if test b i then 0 else 1)"
proof -
  have "{j. j < n \<and> test (set1 b i) j} = insert i {j. j < n \<and> test b j}"
    using assms by (auto simp: test_set1)
  then show ?thesis by (simp add: assms card_insert_if)
qed

lemma card_clear1:
  assumes "i < n"
  shows "card {j. j < n \<and> test (clear1 b i) j}
       = card {j. j < n \<and> test b j} - (if test b i then 1 else 0)"
proof -
  have "{j. j < n \<and> test (clear1 b i) j} = {j. j < n \<and> test b j} - {i}"
    by (auto simp: test_clear1)
  then show ?thesis by (simp add: assms card_Diff_singleton_if)
qed

lemma card_pos: "i < n \<Longrightarrow> test b i \<Longrightarrow> 0 < card {j. j < n \<and> test b j}"
  by (rule card_gt_0_iff[THEN iffD2]) auto

lemma set_clear: "i \<noteq> j \<Longrightarrow> test (set1 (clear1 b i) j) k \<longleftrightarrow> test (clear1 (set1 b j) i) k"
  by (auto simp: test_set1 test_clear1)

end

subsection \<open>The code's bitmaps provide it\<close>

lemma bitmapTestBit_bit: "bitmapTestBit b p \<longleftrightarrow> bit (b (p div 8)) (p mod 8)"
  by (simp only: bitmapTestBit_def Let_def mask_test_pow)

lemma div_mod_8_eq: "(p div 8 = q div 8 \<and> p mod 8 = q mod 8) \<longleftrightarrow> p = (q::nat)"
  by (metis div_mult_mod_eq)

interpretation bm: bit_array bitmapTestBit bitmapSetBit bitmapClearBit zero_bitmap
proof (unfold_locales, goal_cases)
  case (1 b i j)
  have "bit (1::u8) n \<longleftrightarrow> n = 0" for n by (simp add: bit_1_iff)
  then show ?case using div_mod_8_eq[of i j]
    by (auto simp: bitmapTestBit_bit bitmapSetBit_def Let_def bit_simps)
next
  case (2 b i j)
  then show ?case using div_mod_8_eq[of i j]
    by (auto simp: bitmapTestBit_bit bitmapClearBit_def Let_def bit_simps)
next
  case (3 j)
  then show ?case by (simp add: bitmapTestBit_bit zero_bitmap_def)
qed

declare bm.test_set1 [simp] bm.test_clear1 [simp] bm.test_none [simp]

lemma bitmap_equal_test:
  assumes "bitmap_equal a b" and "j < 16384"
  shows "bitmapTestBit a j = bitmapTestBit b j"
proof -
  have "j div 8 < 2048" using assms(2) by simp
  with assms(1) show ?thesis by (simp add: bitmap_equal_def bitmapTestBit_bit)
qed

lemma bit_eqI8: "(\<And>k. k < 8 \<Longrightarrow> bit (x::u8) k = bit y k) \<Longrightarrow> x = y"
  by (rule bit_word_eqI) simp

text \<open>Conversely two bitmaps that agree on every slot are byte for byte equal.\<close>

lemma bitmap_equal_iff:
  "bitmap_equal a b \<longleftrightarrow> (\<forall>j<16384. bitmapTestBit a j = bitmapTestBit b j)"
proof
  assume "bitmap_equal a b"
  then show "\<forall>j<16384. bitmapTestBit a j = bitmapTestBit b j"
    by (simp add: bitmap_equal_test)
next
  assume *: "\<forall>j<16384. bitmapTestBit a j = bitmapTestBit b j"
  show "bitmap_equal a b"
    unfolding bitmap_equal_def
  proof (intro ballI bit_eqI8)
    fix i k :: nat
    assume "i \<in> {..<2048}" and "k < 8"
    then have "8 * i + k < 16384" and "(8 * i + k) div 8 = i" and "(8 * i + k) mod 8 = k"
      by auto
    with * show "bit (a i) k = bit (b i) k" by (metis bitmapTestBit_bit)
  qed
qed

end
