(* ===== verification/ClusterState.thy ===== *)
theory ClusterState
  imports Bitmap
begin

text \<open>
  The data of the cluster bus, from cluster.h and the fields of \<open>redisServer\<close> that cluster.c reads
  or writes. A node is addressed by a pointer into \<open>heap\<close>, a link by a pointer into \<open>links\<close>;
  freed addresses are \<open>None\<close> and \<open>zmalloc\<close> hands out addresses never used before (\<open>brk\<close>).
  The dictionary of nodes is the list of its entries in iteration order.
  The data set is database 0 (\<open>db0\<close>: key to value, a string, \<open>expires0\<close>) and the sizes of the
  other databases. Clocks are fields of the state (constant during one event), random numbers are an oracle stream,
  the C library's parser of IPv6 literals is the field \<open>inet6\<close> (the normalised text, if valid),
  packets sent are appended to \<open>outbox\<close> and calls that leave the modelled components
  to \<open>effects\<close>.
\<close>

subsection \<open>Constants of cluster.h\<close>

definition REDIS_CLUSTER_SLOTS :: nat where
  "REDIS_CLUSTER_SLOTS = 16384"

abbreviation (input) "REDIS_CLUSTER_NAMELEN \<equiv> (40::nat)"
abbreviation (input) "REDIS_CLUSTER_PORT_INCR \<equiv> (10000::int)"
abbreviation (input) "REDIS_CLUSTER_FAIL_REPORT_VALIDITY_MULT \<equiv> (2::int)"
abbreviation (input) "REDIS_CLUSTER_FAIL_UNDO_TIME_MULT \<equiv> (2::int)"
abbreviation (input) "REDIS_CLUSTER_SLAVE_VALIDITY_MULT \<equiv> (10::int)"
abbreviation (input) "REDIS_CLUSTER_MF_TIMEOUT \<equiv> (5000::int)"

abbreviation (input) "REDIS_NODE_MASTER \<equiv> (1::u32)"
abbreviation (input) "REDIS_NODE_SLAVE \<equiv> (2::u32)"
abbreviation (input) "REDIS_NODE_PFAIL \<equiv> (4::u32)"
abbreviation (input) "REDIS_NODE_FAIL \<equiv> (8::u32)"
abbreviation (input) "REDIS_NODE_MYSELF \<equiv> (16::u32)"
abbreviation (input) "REDIS_NODE_HANDSHAKE \<equiv> (32::u32)"
abbreviation (input) "REDIS_NODE_NOADDR \<equiv> (64::u32)"
abbreviation (input) "REDIS_NODE_MEET \<equiv> (128::u32)"

abbreviation (input) "CLUSTER_TODO_HANDLE_FAILOVER \<equiv> (1::u32)"
abbreviation (input) "CLUSTER_TODO_UPDATE_STATE \<equiv> (2::u32)"
abbreviation (input) "CLUSTER_TODO_SAVE_CONFIG \<equiv> (4::u32)"
abbreviation (input) "CLUSTER_TODO_FSYNC_CONFIG \<equiv> (8::u32)"

abbreviation (input) "CLUSTERMSG_TYPE_PING \<equiv> (0::u16)"
abbreviation (input) "CLUSTERMSG_TYPE_PONG \<equiv> (1::u16)"
abbreviation (input) "CLUSTERMSG_TYPE_MEET \<equiv> (2::u16)"
abbreviation (input) "CLUSTERMSG_TYPE_FAIL \<equiv> (3::u16)"
abbreviation (input) "CLUSTERMSG_TYPE_PUBLISH \<equiv> (4::u16)"
abbreviation (input) "CLUSTERMSG_TYPE_FAILOVER_AUTH_REQUEST \<equiv> (5::u16)"
abbreviation (input) "CLUSTERMSG_TYPE_FAILOVER_AUTH_ACK \<equiv> (6::u16)"
abbreviation (input) "CLUSTERMSG_TYPE_UPDATE \<equiv> (7::u16)"
abbreviation (input) "CLUSTERMSG_TYPE_MFSTART \<equiv> (8::u16)"

abbreviation (input) "CLUSTERMSG_FLAG0_PAUSED \<equiv> (1::u8)"
abbreviation (input) "CLUSTERMSG_FLAG0_FORCEACK \<equiv> (2::u8)"

text \<open>\<open>REDIS_CLUSTER_OK\<close> and \<open>REDIS_CLUSTER_FAIL\<close>.\<close>

datatype cluster_status = CLUSTER_OK | CLUSTER_FAIL

datatype cant_failover = CANT_FAILOVER_NONE | CANT_FAILOVER_DATA_AGE
  | CANT_FAILOVER_WAITING_DELAY | CANT_FAILOVER_EXPIRED | CANT_FAILOVER_WAITING_VOTES

datatype retval = REDIS_OK | REDIS_ERR

subsection \<open>Nodes and links\<close>

record clusterNodeFailReport =
  fr_node :: ptr
  fr_time :: int

record clusterNode =
  n_ctime :: int
  n_name :: bytes
  n_flags :: u32
  n_configEpoch :: u64
  n_slots :: bitmap
  n_numslots :: int
  n_slaves :: "ptr list"
  n_slaveof :: ptr
  n_ping_sent :: int
  n_pong_received :: int
  n_fail_time :: int
  n_voted_time :: int
  n_repl_offset_time :: int
  n_repl_offset :: int
  n_ip :: bytes
  n_port :: int
  n_link :: ptr
  n_fail_reports :: "clusterNodeFailReport list"

record clusterLink =
  l_ctime :: int
  l_fd :: int
  l_node :: ptr
  l_peer_ip :: bytes \<comment> \<open>what \<open>anetPeerToString(fd)\<close> answers\<close>

definition nodeIsMaster :: "clusterNode \<Rightarrow> bool" where
  "nodeIsMaster n \<longleftrightarrow> (n_flags n AND REDIS_NODE_MASTER) \<noteq> 0"

definition nodeIsSlave :: "clusterNode \<Rightarrow> bool" where
  "nodeIsSlave n \<longleftrightarrow> (n_flags n AND REDIS_NODE_SLAVE) \<noteq> 0"

definition nodeInHandshake :: "clusterNode \<Rightarrow> bool" where
  "nodeInHandshake n \<longleftrightarrow> (n_flags n AND REDIS_NODE_HANDSHAKE) \<noteq> 0"

definition nodeHasAddr :: "clusterNode \<Rightarrow> bool" where
  "nodeHasAddr n \<longleftrightarrow> \<not> ((n_flags n AND REDIS_NODE_NOADDR) \<noteq> 0)"

definition nodeTimedOut :: "clusterNode \<Rightarrow> bool" where
  "nodeTimedOut n \<longleftrightarrow> (n_flags n AND REDIS_NODE_PFAIL) \<noteq> 0"

definition nodeFailed :: "clusterNode \<Rightarrow> bool" where
  "nodeFailed n \<longleftrightarrow> (n_flags n AND REDIS_NODE_FAIL) \<noteq> 0"

lemma node_flag_bits [flag_simps]:
  "nodeIsMaster n \<longleftrightarrow> bit (n_flags n) 0"
  "nodeIsSlave n \<longleftrightarrow> bit (n_flags n) 1"
  "nodeTimedOut n \<longleftrightarrow> bit (n_flags n) 2"
  "nodeFailed n \<longleftrightarrow> bit (n_flags n) 3"
  "nodeInHandshake n \<longleftrightarrow> bit (n_flags n) 5"
  "nodeHasAddr n \<longleftrightarrow> \<not> bit (n_flags n) 6"
  by (simp_all add: nodeIsMaster_def nodeIsSlave_def nodeTimedOut_def nodeFailed_def
      nodeInHandshake_def nodeHasAddr_def flag_simps)

subsection \<open>Packets\<close>

text \<open>
  A packet after the \<open>ntoh\<close> conversions. \<open>m_totlen\<close> and \<open>m_ver\<close> are what the header claims;
  the length of the receive buffer is a separate argument of the parser.
\<close>

record clusterMsgDataGossip =
  g_nodename :: bytes
  g_ping_sent :: u32
  g_pong_received :: u32
  g_ip :: bytes
  g_port :: u16
  g_flags :: u16

datatype clusterMsgData =
    NoData
  | PingData "clusterMsgDataGossip list"
  | FailData bytes
  | PublishData u32 u32 bytes
  | UpdateData u64 bytes bitmap

record clusterMsg =
  m_totlen :: u32
  m_ver :: u16
  m_type :: u16
  m_count :: u16
  m_currentEpoch :: u64
  m_configEpoch :: u64
  m_offset :: u64
  m_sender :: bytes
  m_myslots :: bitmap
  m_slaveof :: bytes
  m_port :: u16
  m_flags :: u16
  m_state :: cluster_status
  m_mflags0 :: u8
  m_data :: clusterMsgData

text \<open>\<open>REDIS_NODE_NULL_NAME\<close>: forty zero bytes.\<close>

definition REDIS_NODE_NULL_NAME :: bytes where
  "REDIS_NODE_NULL_NAME = replicate 40 0"

subsection \<open>The state\<close>

record clusterState =
  c_myself :: ptr
  c_currentEpoch :: u64
  c_state :: cluster_status
  c_size :: int
  c_nodes :: "(bytes \<times> ptr) list"
  c_nodes_black_list :: "(bytes \<times> int) list"
  c_migrating_slots_to :: "nat \<Rightarrow> ptr"
  c_importing_slots_from :: "nat \<Rightarrow> ptr"
  c_slots :: "nat \<Rightarrow> ptr"
  c_slots_to_keys :: "(nat \<times> bytes) list"
  c_failover_auth_time :: int
  c_failover_auth_count :: int
  c_failover_auth_sent :: bool
  c_failover_auth_rank :: int
  c_failover_auth_epoch :: u64
  c_cant_failover_reason :: cant_failover
  c_mf_end :: int
  c_mf_slave :: ptr
  c_mf_master_offset :: int
  c_mf_can_start :: bool
  c_lastVoteEpoch :: u64
  c_todo_before_sleep :: u32
  c_stats_bus_messages_sent :: int
  c_stats_bus_messages_received :: int

text \<open>The replication link to the master (\<open>server.master\<close>), as far as cluster.c looks at it.\<close>

record masterClient =
  mc_lastinteraction :: int
  mc_reploff :: int

datatype repl_state = REPL_NONE | REPL_CONNECT | REPL_CONNECTED | REPL_OTHER

datatype effect =
    SaveConfig bool u64 u64 \<comment> \<open>fsync; currentEpoch and lastVoteEpoch written\<close>
  | ReplicationSetMaster bytes int
  | ReplicationUnsetMaster
  | PublishMessage bytes bytes
  | CloseFd int
  | PropagateDel bytes \<comment> \<open>a \<open>DEL\<close> to the append only file and the replicas\<close>

record server = clusterState +
  heap :: "ptr \<Rightarrow> clusterNode option"
  links :: "ptr \<Rightarrow> clusterLink option"
  brk :: ptr
  rng :: "nat \<Rightarrow> nat"
  mstime :: int
  unixtime :: int
  srv_mstime :: int
  cluster_node_timeout :: int
  cluster_migration_barrier :: int
  repl_ping_slave_period :: int
  srv_port :: u16
  masterhost :: "bytes option"
  masterport :: int
  srv_master :: "masterClient option"
  cached_master :: "masterClient option"
  repl_state :: repl_state
  repl_down_since :: int
  master_repl_offset :: int
  clients_paused :: bool
  clients_pause_end_time :: int
  num_pubsub :: nat
  num_repl_slaves :: nat
  db0 :: "bytes \<Rightarrow> bytes option"
  expires0 :: "bytes \<Rightarrow> int option"
  other_dbs :: "nat list"
  among_minority_time :: int
  first_call_time :: int
  lastlog_time :: int
  cron_iteration :: u64
  inet6 :: "bytes \<Rightarrow> bytes option"
  outbox :: "(ptr \<times> clusterMsg) list"
  effects :: "effect list"

abbreviation myself :: "'a clusterState_scheme \<Rightarrow> ptr" where
  "myself s \<equiv> c_myself s"

text \<open>The node \<open>createClusterNode\<close> builds, name and flags given.\<close>

definition newClusterNode :: "bytes \<Rightarrow> u32 \<Rightarrow> int \<Rightarrow> clusterNode" where
  "newClusterNode nodename flags now =
     \<lparr>n_ctime = now, n_name = nodename, n_flags = flags, n_configEpoch = 0,
      n_slots = zero_bitmap, n_numslots = 0, n_slaves = [], n_slaveof = NULL,
      n_ping_sent = 0, n_pong_received = 0, n_fail_time = 0, n_voted_time = 0,
      n_repl_offset_time = 0, n_repl_offset = 0, n_ip = [], n_port = 0, n_link = NULL,
      n_fail_reports = []\<rparr>"

text \<open>A server whose memory is all zeros, with an empty node table: the state the process starts
  from, before any configuration is loaded. The first address handed out is 1.\<close>

definition zero_server :: server where
  "zero_server =
     \<lparr>c_myself = NULL, c_currentEpoch = 0, c_state = CLUSTER_OK, c_size = 0, c_nodes = [],
      c_nodes_black_list = [], c_migrating_slots_to = (\<lambda>_. NULL),
      c_importing_slots_from = (\<lambda>_. NULL), c_slots = (\<lambda>_. NULL), c_slots_to_keys = [],
      c_failover_auth_time = 0, c_failover_auth_count = 0, c_failover_auth_sent = False,
      c_failover_auth_rank = 0, c_failover_auth_epoch = 0,
      c_cant_failover_reason = CANT_FAILOVER_NONE, c_mf_end = 0, c_mf_slave = NULL,
      c_mf_master_offset = 0, c_mf_can_start = False, c_lastVoteEpoch = 0,
      c_todo_before_sleep = 0, c_stats_bus_messages_sent = 0,
      c_stats_bus_messages_received = 0,
      heap = (\<lambda>_. None), links = (\<lambda>_. None), brk = 1, rng = (\<lambda>_. 0), mstime = 0,
      unixtime = 0, srv_mstime = 0, cluster_node_timeout = 15000,
      cluster_migration_barrier = 1, repl_ping_slave_period = 10, srv_port = 6379,
      masterhost = None, masterport = 0, srv_master = None, cached_master = None,
      repl_state = REPL_NONE, repl_down_since = 0, master_repl_offset = 0,
      clients_paused = False, clients_pause_end_time = 0, num_pubsub = 0,
      num_repl_slaves = 0, db0 = (\<lambda>_. None), expires0 = (\<lambda>_. None), other_dbs = [], among_minority_time = 0, first_call_time = 0,
      lastlog_time = 0, cron_iteration = 0,
      inet6 = (\<lambda>_. None), outbox = [], effects = []\<rparr>"

text \<open>Writing a field of \<open>*p\<close>.\<close>

definition node_upd :: "ptr \<Rightarrow> (clusterNode \<Rightarrow> clusterNode) \<Rightarrow> server \<Rightarrow> server option" where
  "node_upd p f s = (case heap s p of None \<Rightarrow> None | Some n \<Rightarrow> Some (s\<lparr>heap := (heap s)(p \<mapsto> f n)\<rparr>))"

lemma returns_node_upd [wp]:
  "returns (node_upd p f s) Q \<longleftrightarrow> (\<exists>n. heap s p = Some n \<and> Q (s\<lparr>heap := (heap s)(p \<mapsto> f n)\<rparr>))"
  by (auto simp: node_upd_def returns_def split: option.splits)

lemma whenever_node_upd [wp]:
  "whenever (node_upd p f s) Q \<longleftrightarrow> (\<forall>n. heap s p = Some n \<longrightarrow> Q (s\<lparr>heap := (heap s)(p \<mapsto> f n)\<rparr>))"
  by (auto simp: node_upd_def whenever_def split: option.splits)

subsection \<open>clusterDoBeforeSleep\<close>

definition clusterDoBeforeSleep :: "u32 \<Rightarrow> server \<Rightarrow> server" where
  "clusterDoBeforeSleep flags s = s\<lparr>c_todo_before_sleep := c_todo_before_sleep s OR flags\<rparr>"

definition do_log :: "effect \<Rightarrow> server \<Rightarrow> server" where
  "do_log e s = s\<lparr>effects := effects s @ [e]\<rparr>"

end
