(* ===== verification/Keyspace.thy ===== *)
theory Keyspace
  imports ClusterState KeySlot
begin

text \<open>
  The keys of database 0 and their index by slot (db.c). In cluster mode every key is also an element of
  \<open>slots_to_keys\<close>, a skiplist ordered by slot and then key. The locale \<open>slot_index\<close> is the
  contract of t_zset.c that db.c relies on; it is interpreted on the ordered list of the
  skiplist's elements, which is how the state holds it (a node of the skiplist is the rest of the
  list from that node on). \<open>keys_inv\<close> says that the index and the dictionary agree.
\<close>

subsection \<open>The contract of the skiplist\<close>

locale slot_index =
  fixes entries :: "'z \<Rightarrow> (nat \<times> 'o::linorder) list"
    and insert :: "nat \<Rightarrow> 'o \<Rightarrow> 'z \<Rightarrow> 'z"
    and delete :: "nat \<Rightarrow> 'o \<Rightarrow> 'z \<Rightarrow> 'z"
    and first :: "nat \<Rightarrow> 'z \<Rightarrow> (nat \<times> 'o) list"
    and last_in :: "nat \<Rightarrow> 'z \<Rightarrow> (nat \<times> 'o) option"
    and rank :: "nat \<times> 'o \<Rightarrow> 'z \<Rightarrow> nat"
    and wf :: "'z \<Rightarrow> bool"
  assumes ordered: "wf z \<Longrightarrow> sorted (entries z) \<and> distinct (entries z)"
    and insert_wf: "wf z \<Longrightarrow> (s, k) \<notin> set (entries z) \<Longrightarrow> wf (insert s k z)"
    and insert_set: "wf z \<Longrightarrow> set (entries (insert s k z)) = {(s, k)} \<union> set (entries z)"
    and delete_wf: "wf z \<Longrightarrow> wf (delete s k z)"
    and delete_set: "wf z \<Longrightarrow> set (entries (delete s k z)) = set (entries z) - {(s, k)}"
    and first_eq: "wf z \<Longrightarrow> first s z = (if \<exists>e \<in> set (entries z). fst e = s
        then filter (\<lambda>e. s \<le> fst e) (entries z) else [])"
    and last_eq: "wf z \<Longrightarrow> last_in s z = (if \<exists>e \<in> set (entries z). fst e = s
        then Some (last (filter (\<lambda>e. fst e = s) (entries z))) else None)"
    and rank_nth: "wf z \<Longrightarrow> i < length (entries z) \<Longrightarrow> rank (entries z ! i) z = Suc i"
begin

definition in_slot :: "nat \<Rightarrow> 'z \<Rightarrow> (nat \<times> 'o) list" where
  "in_slot s z = filter (\<lambda>e. fst e = s) (entries z)"

text \<open>An ordered list is the smaller slots, the slot, the larger slots.\<close>

lemma split_by_slot:
  assumes "sorted (xs :: (nat \<times> 'o) list)"
  shows "xs = filter (\<lambda>e. fst e < s) xs @ filter (\<lambda>e. fst e = s) xs @ filter (\<lambda>e. s < fst e) xs"
  using assms
proof (induction xs)
  case (Cons x xs)
  then have ge: "\<forall>e \<in> set xs. fst x \<le> fst e" by (auto simp: less_eq_prod_def)
  consider "fst x < s" | "fst x = s" | "s < fst x" by linarith
  then show ?case
  proof cases
    case 2
    then have "filter (\<lambda>e. fst e < s) xs = []" using ge by (auto simp: filter_empty_conv)
    then show ?thesis using Cons 2 by simp
  next
    case 3
    then have "filter (\<lambda>e. fst e < s) xs = []" "filter (\<lambda>e. fst e = s) xs = []"
      using ge by (auto simp: filter_empty_conv)
    then show ?thesis using Cons 3 by simp
  qed (use Cons in simp)
qed simp

lemma in_slot_empty: "in_slot s z = [] \<longleftrightarrow> \<not> (\<exists>e \<in> set (entries z). fst e = s)"
  by (auto simp: in_slot_def filter_empty_conv)

lemma first_split:
  assumes "wf z"
  shows "first s z = (if in_slot s z = [] then [] else in_slot s z @ filter (\<lambda>e. s < fst e) (entries z))"
proof -
  have "filter (\<lambda>e. s \<le> fst e) (entries z) = in_slot s z @ filter (\<lambda>e. s < fst e) (entries z)"
    using arg_cong[OF split_by_slot[of "entries z" s], of "filter (\<lambda>e. s \<le> fst e)"] ordered[OF assms]
    by (simp add: in_slot_def conj_commute cong: filter_cong) (metis (mono_tags, lifting) filter_cong less_imp_le order_refl)
  then show ?thesis by (simp add: first_eq[OF assms] in_slot_empty)
qed

text \<open>The distance between the ranks of the first and the last element of a slot counts the slot.\<close>

lemma count_by_rank:
  assumes wf: "wf z" and ne: "in_slot s z \<noteq> []"
  shows "int (length (entries z)) - (int (rank (hd (first s z)) z) - 1)
       - (int (length (entries z)) - int (rank (the (last_in s z)) z)) = int (length (in_slot s z))"
proof -
  define A where "A = filter (\<lambda>e. fst e < s) (entries z)"
  define B where "B = filter (\<lambda>e. s < fst e) (entries z)"
  have split: "entries z = A @ in_slot s z @ B"
    using split_by_slot[of "entries z" s] ordered[OF wf] by (simp add: A_def B_def in_slot_def)
  have "hd (first s z) = entries z ! length A"
    using ne by (simp add: first_split[OF wf] split nth_append hd_conv_nth)
  moreover have "the (last_in s z) = entries z ! (length A + (length (in_slot s z) - 1))"
  proof -
    have "last_in s z = Some (last (in_slot s z))"
      using ne in_slot_empty[of s z] by (simp add: last_eq[OF wf] in_slot_def)
    moreover have "entries z ! (length A + i) = (in_slot s z @ B) ! i" for i
      unfolding split by (rule nth_append_length_plus)
    ultimately show ?thesis using ne by (simp add: nth_append last_conv_nth)
  qed
  moreover have "length A < length (entries z)" "length A + (length (in_slot s z) - 1) < length (entries z)"
    using ne arg_cong[OF split, of length] by (cases "in_slot s z"; simp)+
  ultimately show ?thesis using ne rank_nth[OF wf] by (cases "in_slot s z") auto
qed

lemma in_slot_set: "set (in_slot s z) = {e \<in> set (entries z). fst e = s}"
  by (auto simp: in_slot_def)

lemma takeWhile_first:
  assumes "wf z"
  shows "takeWhile (\<lambda>e. fst e = s) (first s z) = in_slot s z"
proof -
  have nil: "takeWhile (\<lambda>e. fst e = s) (filter (\<lambda>e. s < fst e) (entries z)) = []"
  proof (cases "filter (\<lambda>e. s < fst e) (entries z)")
    case (Cons e es)
    then have "e \<in> set (filter (\<lambda>e. s < fst e) (entries z))" by simp
    then have "s < fst e" by simp
    then show ?thesis using Cons by simp
  qed simp
  have "takeWhile (\<lambda>e. fst e = s) (in_slot s z @ ys) = in_slot s z @ takeWhile (\<lambda>e. fst e = s) ys" for ys
    by (rule takeWhile_append2) (simp add: in_slot_set)
  then show ?thesis using nil by (simp add: first_split[OF assms])
qed

end

subsection \<open>The skiplist as its ordered list\<close>

definition zsl_insert :: "nat \<Rightarrow> bytes \<Rightarrow> (nat \<times> bytes) list \<Rightarrow> (nat \<times> bytes) list" where
  "zsl_insert s k z = takeWhile (\<lambda>e. e < (s, k)) z @ (s, k) # dropWhile (\<lambda>e. e < (s, k)) z"

definition zsl_delete :: "nat \<Rightarrow> bytes \<Rightarrow> (nat \<times> bytes) list \<Rightarrow> (nat \<times> bytes) list" where
  "zsl_delete s k z = remove1 (s, k) z"

definition zsl_first_in_slot :: "nat \<Rightarrow> (nat \<times> bytes) list \<Rightarrow> (nat \<times> bytes) list" where
  "zsl_first_in_slot s z =
     (case dropWhile (\<lambda>e. fst e < s) z of [] \<Rightarrow> [] | e # es \<Rightarrow> if fst e \<le> s then e # es else [])"

definition zsl_last_in_slot :: "nat \<Rightarrow> (nat \<times> bytes) list \<Rightarrow> (nat \<times> bytes) option" where
  "zsl_last_in_slot s z =
     (case rev (takeWhile (\<lambda>e. fst e \<le> s) z) of [] \<Rightarrow> None | e # _ \<Rightarrow> if s \<le> fst e then Some e else None)"

definition zsl_rank :: "nat \<times> bytes \<Rightarrow> (nat \<times> bytes) list \<Rightarrow> nat" where
  "zsl_rank e z = (let r = length (takeWhile (\<lambda>x. x \<le> e) z) in if r > 0 \<and> z ! (r - 1) = e then r else 0)"

definition zsl_wf :: "(nat \<times> bytes) list \<Rightarrow> bool" where
  "zsl_wf z \<longleftrightarrow> sorted z \<and> distinct z"


lemma sorted_insert_point:
  assumes "sorted xs"
  shows "sorted (takeWhile (\<lambda>e. e < x) xs @ x # dropWhile (\<lambda>e. e < (x::'a::linorder)) xs)"
  using assms
proof (induction xs)
  case (Cons y ys)
  then show ?case
    by (cases "y < x") (auto dest: set_takeWhileD set_dropWhileD)
qed simp

lemma dropWhile_sorted:
  "sorted z \<Longrightarrow> dropWhile (\<lambda>e. fst e < s) z = filter (\<lambda>e. s \<le> fst e) (z :: (nat \<times> bytes) list)"
proof (induction z)
  case (Cons e z)
  then have "fst e \<le> fst x" if "x \<in> set z" for x using that by (auto simp: less_eq_prod_def)
  then have "s \<le> fst e \<Longrightarrow> filter (\<lambda>e. s \<le> fst e) z = z" by (fastforce simp: filter_id_conv)
  then show ?case using Cons by auto
qed simp

lemma takeWhile_sorted:
  "sorted z \<Longrightarrow> takeWhile (\<lambda>e. fst e \<le> s) z = filter (\<lambda>e. fst e \<le> s) (z :: (nat \<times> bytes) list)"
proof (induction z)
  case (Cons e z)
  then have "fst e \<le> fst x" if "x \<in> set z" for x using that by (auto simp: less_eq_prod_def)
  then have "\<not> fst e \<le> s \<Longrightarrow> filter (\<lambda>e. fst e \<le> s) z = []" by (fastforce simp: filter_empty_conv)
  then show ?case using Cons by auto
qed simp

lemma zsl_first_eq:
  assumes "zsl_wf z"
  shows "zsl_first_in_slot s z = (if \<exists>e \<in> set z. fst e = s then filter (\<lambda>e. s \<le> fst e) z else [])"
proof (cases "filter (\<lambda>e. s \<le> fst e) z")
  case Nil
  then show ?thesis using assms by (simp add: zsl_first_in_slot_def dropWhile_sorted zsl_wf_def)
next
  case (Cons x xs)
  have "sorted (filter (\<lambda>e. s \<le> fst e) z)" using assms by (simp add: zsl_wf_def sorted_wrt_filter)
  then have "\<forall>e \<in> set xs. fst x \<le> fst e" by (auto simp: Cons less_eq_prod_def)
  moreover have st: "e \<in> insert x (set xs) \<longleftrightarrow> e \<in> set z \<and> s \<le> fst e" for e
    using arg_cong[OF Cons, of set] by auto
  ultimately have "fst x \<le> s" if "e \<in> set z" "fst e = s" for e
    using that(2) iffD2[OF st[of e]] that(1) by (metis insertE order_refl)
  moreover have "x \<in> set z" "s \<le> fst x" using st[of x] by auto
  ultimately have "fst x \<le> s \<longleftrightarrow> (\<exists>e \<in> set z. fst e = s)" by (auto intro: bexI[of _ x])
  then show ?thesis using assms Cons by (simp add: zsl_first_in_slot_def dropWhile_sorted zsl_wf_def)
qed

lemma zsl_last_eq:
  assumes "zsl_wf z"
  shows "zsl_last_in_slot s z = (if \<exists>e \<in> set z. fst e = s then Some (last (filter (\<lambda>e. fst e = s) z)) else None)"
proof (cases "rev (filter (\<lambda>e. fst e \<le> s) z)")
  case Nil
  then show ?thesis using assms by (auto simp: zsl_last_in_slot_def takeWhile_sorted zsl_wf_def filter_empty_conv)
next
  case (Cons x xs)
  then have eq: "filter (\<lambda>e. fst e \<le> s) z = rev xs @ [x]" by (metis rev.simps(2) rev_rev_ident)
  have "sorted (filter (\<lambda>e. fst e \<le> s) z)" using assms by (simp add: zsl_wf_def sorted_wrt_filter)
  then have le: "\<forall>e \<in> set xs. fst e \<le> fst x" by (auto simp: eq sorted_append less_eq_prod_def)
  have st: "e \<in> insert x (set xs) \<longleftrightarrow> e \<in> set z \<and> fst e \<le> s" for e
    using arg_cong[OF eq, of set] by auto
  have "s \<le> fst x" if "e \<in> set z" "fst e = s" for e
    using that(2) iffD2[OF st[of e]] that(1) le by (metis insertE order_refl)
  moreover have x: "x \<in> set z" "fst x \<le> s" using st[of x] by auto
  ultimately have ex: "s \<le> fst x \<longleftrightarrow> (\<exists>e \<in> set z. fst e = s)" by (auto intro: bexI[of _ x])
  have "filter (\<lambda>e. fst e = s) z = filter (\<lambda>e. fst e = s) (rev xs @ [x])"
    unfolding eq[symmetric] by (auto simp: filter_filter intro!: filter_cong)
  with x have "s \<le> fst x \<Longrightarrow> last (filter (\<lambda>e. fst e = s) z) = x" by simp
  then show ?thesis using assms Cons ex by (simp add: zsl_last_in_slot_def takeWhile_sorted zsl_wf_def)
qed

lemma zsl_rank_nth:
  assumes "zsl_wf z" and i: "i < length z"
  shows "zsl_rank (z ! i) z = Suc i"
proof -
  have "takeWhile (\<lambda>x. x \<le> z ! i) z = take (Suc i) z"
  proof (rule takeWhile_eq_take_P_nth)
    show "j < Suc i \<Longrightarrow> j < length z \<Longrightarrow> z ! j \<le> z ! i" for j
      using assms by (simp add: zsl_wf_def sorted_iff_nth_mono)
    show "Suc i < length z \<Longrightarrow> \<not> z ! Suc i \<le> z ! i"
      using assms by (auto simp: zsl_wf_def sorted_iff_nth_mono nth_eq_iff_index_eq dest!: order_antisym[rotated])
  qed
  then show ?thesis using i by (simp add: zsl_rank_def)
qed

interpretation zi: slot_index "\<lambda>z. z" zsl_insert zsl_delete zsl_first_in_slot zsl_last_in_slot zsl_rank zsl_wf
proof (unfold_locales, goal_cases)
  case (2 z s k)
  have "distinct (zsl_insert s k z)" using 2
    by (auto simp: zsl_wf_def zsl_insert_def dest: set_takeWhileD set_dropWhileD)
      (metis distinct_append takeWhile_dropWhile_id disjoint_iff_not_equal)
  then show ?case using 2 sorted_insert_point[of z "(s, k)"] by (simp add: zsl_wf_def zsl_insert_def)
next
  case (3 z s k)
  show ?case by (simp add: zsl_insert_def) (metis Un_insert_right insert_is_Un set_append takeWhile_dropWhile_id)
next
  case (4 z s k)
  then show ?case by (simp add: zsl_wf_def zsl_delete_def sorted_remove1)
qed (simp_all add: zsl_wf_def zsl_delete_def zsl_first_eq zsl_last_eq zsl_rank_nth)

subsection \<open>Keys and their index\<close>

definition slotToKeyAdd :: "bytes \<Rightarrow> server \<Rightarrow> server" where
  "slotToKeyAdd key s = s\<lparr>c_slots_to_keys := zsl_insert (keyHashSlot key) key (c_slots_to_keys s)\<rparr>"

definition slotToKeyDel :: "bytes \<Rightarrow> server \<Rightarrow> server" where
  "slotToKeyDel key s = s\<lparr>c_slots_to_keys := zsl_delete (keyHashSlot key) key (c_slots_to_keys s)\<rparr>"

definition slotToKeyFlush :: "server \<Rightarrow> server" where
  "slotToKeyFlush s = s\<lparr>c_slots_to_keys := []\<rparr>"

text \<open>In cluster mode.\<close>

definition dbAdd :: "bytes \<Rightarrow> bytes \<Rightarrow> server \<Rightarrow> server option" where
  "dbAdd key val s = do {
     redisAssert (db0 s key = None);
     Some (slotToKeyAdd key (s\<lparr>db0 := (db0 s)(key \<mapsto> val)\<rparr>))
   }"

definition dbOverwrite :: "bytes \<Rightarrow> bytes \<Rightarrow> server \<Rightarrow> server option" where
  "dbOverwrite key val s = do {
     redisAssert (db0 s key \<noteq> None);
     Some (s\<lparr>db0 := (db0 s)(key \<mapsto> val)\<rparr>)
   }"

definition dbDelete :: "bytes \<Rightarrow> server \<Rightarrow> bool \<times> server" where
  "dbDelete key s =
     (let s1 = s\<lparr>expires0 := (expires0 s)(key := None)\<rparr>
      in if db0 s1 key \<noteq> None then (True, slotToKeyDel key (s1\<lparr>db0 := (db0 s1)(key := None)\<rparr>))
         else (False, s1))"

definition dbExists :: "bytes \<Rightarrow> server \<Rightarrow> bool" where
  "dbExists key s \<longleftrightarrow> db0 s key \<noteq> None"

fun getKeysInSlot_loop :: "nat \<Rightarrow> (nat \<times> bytes) list \<Rightarrow> nat \<Rightarrow> bytes list" where
  "getKeysInSlot_loop hashslot [] count = []"
| "getKeysInSlot_loop hashslot (n # ns) 0 = []"
| "getKeysInSlot_loop hashslot (n # ns) (Suc count) =
     (if fst n = hashslot then snd n # getKeysInSlot_loop hashslot ns count else [])"

definition getKeysInSlot :: "nat \<Rightarrow> nat \<Rightarrow> server \<Rightarrow> bytes list" where
  "getKeysInSlot hashslot count s =
     getKeysInSlot_loop hashslot (zsl_first_in_slot hashslot (c_slots_to_keys s)) count"

fun delKeysInSlot_loop :: "nat \<Rightarrow> (nat \<times> bytes) list \<Rightarrow> nat \<times> server \<Rightarrow> nat \<times> server" where
  "delKeysInSlot_loop hashslot [] st = st"
| "delKeysInSlot_loop hashslot (n # ns) (j, s) =
     (if fst n = hashslot then delKeysInSlot_loop hashslot ns (j + 1, snd (dbDelete (snd n) s)) else (j, s))"

definition delKeysInSlot :: "nat \<Rightarrow> server \<Rightarrow> nat \<times> server" where
  "delKeysInSlot hashslot s =
     delKeysInSlot_loop hashslot (zsl_first_in_slot hashslot (c_slots_to_keys s)) (0, s)"

definition countKeysInSlot :: "nat \<Rightarrow> server \<Rightarrow> int" where
  "countKeysInSlot hashslot s =
     (let zsl = c_slots_to_keys s
      in case zsl_first_in_slot hashslot zsl of
           [] \<Rightarrow> 0
         | zn # _ \<Rightarrow>
             let count = int (length zsl) - (int (zsl_rank zn zsl) - 1)
             in case zsl_last_in_slot hashslot zsl of
                  None \<Rightarrow> count
                | Some zn \<Rightarrow> count - (int (length zsl) - int (zsl_rank zn zsl)))"

subsection \<open>Index and dictionary agree\<close>

definition keys_inv :: "server \<Rightarrow> bool" where
  "keys_inv s \<longleftrightarrow> zsl_wf (c_slots_to_keys s) \<and>
     set (c_slots_to_keys s) = (\<lambda>k. (keyHashSlot k, k)) ` dom (db0 s)"

lemma keys_inv_mem: "keys_inv s \<Longrightarrow> (h, k) \<in> set (c_slots_to_keys s) \<longleftrightarrow> db0 s k \<noteq> None \<and> h = keyHashSlot k"
  by (auto simp: keys_inv_def)

lemma dbAdd_keys_inv:
  assumes inv: "keys_inv s" and new: "db0 s key = None"
  shows "returns (dbAdd key val s) (\<lambda>s'. keys_inv s' \<and> db0 s' = (db0 s)(key \<mapsto> val))"
proof -
  have wf: "zsl_wf (c_slots_to_keys s)" and nin: "(keyHashSlot key, key) \<notin> set (c_slots_to_keys s)"
    using inv new keys_inv_mem[OF inv] by (auto simp: keys_inv_def)
  show ?thesis
    using new inv zi.insert_wf[OF wf nin] zi.insert_set[OF wf, of "keyHashSlot key" key]
    by (auto simp: dbAdd_def slotToKeyAdd_def wp keys_inv_def)
qed

lemma dbDelete_keys_inv:
  assumes "keys_inv s"
  shows "keys_inv (snd (dbDelete key s))"
proof -
  have wf: "zsl_wf (c_slots_to_keys s)" using assms by (simp add: keys_inv_def)
  show ?thesis
    using assms zi.delete_wf[OF wf, of "keyHashSlot key" key] zi.delete_set[OF wf, of "keyHashSlot key" key]
    by (auto simp: dbDelete_def slotToKeyDel_def Let_def keys_inv_def)
qed

lemma dbDelete_db0: "db0 (snd (dbDelete key s)) = (db0 s)(key := None)"
  by (auto simp: dbDelete_def slotToKeyDel_def Let_def)

text \<open>Property C29. The slot index is exact. Starting from agreement of dictionary and index, adding a new key, deleting any
  key and overwriting an existing one keep the agreement, never trip the assertions, and change the
  dictionary at that key only; deleting answers whether the key was there and clears its expire.\<close>

theorem keys_index_exact:
  assumes "keys_inv s"
  shows "(db0 s key = None \<longrightarrow> returns (dbAdd key val s) (\<lambda>s'. keys_inv s' \<and> db0 s' = (db0 s)(key \<mapsto> val))) \<and>
    (db0 s key \<noteq> None \<longrightarrow> returns (dbOverwrite key val s) (\<lambda>s'. keys_inv s' \<and> db0 s' = (db0 s)(key \<mapsto> val))) \<and>
    (let (r, s') = dbDelete key s in keys_inv s' \<and> db0 s' = (db0 s)(key := None) \<and>
       expires0 s' = (expires0 s)(key := None) \<and> (r \<longleftrightarrow> db0 s key \<noteq> None))"
proof (intro conjI impI, goal_cases)
  case 1
  then show ?case by (rule dbAdd_keys_inv[OF assms])
next
  case 2
  then show ?case using assms by (auto simp: dbOverwrite_def wp keys_inv_def insert_absorb dom_def[symmetric])
next
  case 3
  have "expires0 (snd (dbDelete key s)) = (expires0 s)(key := None)"
    "fst (dbDelete key s) \<longleftrightarrow> db0 s key \<noteq> None"
    by (auto simp: dbDelete_def slotToKeyDel_def Let_def)
  then show ?case using dbDelete_keys_inv[OF assms, of key] dbDelete_db0[of key s] by (simp add: case_prod_beta Let_def)
qed

lemma zero_server_keys_inv: "keys_inv zero_server"
  by (simp add: keys_inv_def zero_server_def zsl_wf_def)

theorem keys_index_exact_witness:
  "returns (dbAdd [0x61] [0x62] zero_server) keys_inv"
proof -
  have new: "db0 zero_server [0x61] = None" by (simp add: zero_server_def)
  show ?thesis
    by (rule returns_mono[OF mp[OF conjunct1[OF keys_index_exact[OF zero_server_keys_inv]] new]]) simp
qed

lemma in_slot_keys:
  assumes "keys_inv s"
  shows "set (zi.in_slot slot (c_slots_to_keys s)) = (\<lambda>k. (slot, k)) ` {k. db0 s k \<noteq> None \<and> keyHashSlot k = slot}"
  using keys_inv_mem[OF assms] by (auto simp: zi.in_slot_set)

lemma in_slot_length:
  assumes "keys_inv s"
  shows "length (zi.in_slot slot (c_slots_to_keys s)) = card {k. db0 s k \<noteq> None \<and> keyHashSlot k = slot}"
proof -
  have "distinct (zi.in_slot slot (c_slots_to_keys s))" using assms by (simp add: zi.in_slot_def keys_inv_def zsl_wf_def)
  then have "length (zi.in_slot slot (c_slots_to_keys s)) = card (set (zi.in_slot slot (c_slots_to_keys s)))"
    by (simp add: distinct_card)
  also have "\<dots> = card {k. db0 s k \<noteq> None \<and> keyHashSlot k = slot}"
    unfolding in_slot_keys[OF assms] by (rule card_image) (simp add: inj_on_def)
  finally show ?thesis .
qed

lemma countKeysInSlot_card:
  assumes "keys_inv s"
  shows "countKeysInSlot slot s = int (card {k. db0 s k \<noteq> None \<and> keyHashSlot k = slot})"
proof -
  let ?z = "c_slots_to_keys s"
  have wf: "zsl_wf ?z" using assms by (simp add: keys_inv_def)
  show ?thesis
  proof (cases "zi.in_slot slot ?z")
    case Nil
    then show ?thesis using in_slot_length[OF assms, of slot] zi.first_split[OF wf, of slot]
      by (simp add: countKeysInSlot_def)
  next
    case (Cons e es)
    then have f: "zsl_first_in_slot slot ?z = e # es @ filter (\<lambda>e. slot < fst e) ?z"
      using zi.first_split[OF wf, of slot] by simp
    have "zsl_last_in_slot slot ?z \<noteq> None"
      using zi.last_eq[OF wf, of slot] zi.in_slot_empty[of slot ?z] Cons by simp
    then show ?thesis
      using zi.count_by_rank[OF wf, of slot] Cons in_slot_length[OF assms, of slot]
      by (auto simp: countKeysInSlot_def f Let_def)
  qed
qed

text \<open>Counting by ranks. \<open>countKeysInSlot\<close>, which subtracts the ranks of the last and the first index entry of the
  slot, is the number of keys of the database that hash to the slot.\<close>

theorem countKeysInSlot_exact:
  assumes "keys_inv s"
  shows "countKeysInSlot slot s = int (card {k. db0 s k \<noteq> None \<and> keyHashSlot k = slot})"
  using assms by (rule countKeysInSlot_card)

theorem countKeysInSlot_exact_witness: "countKeysInSlot 7 zero_server = 0"
  using countKeysInSlot_exact[OF zero_server_keys_inv, of 7] by (simp add: zero_server_def)

lemma getKeysInSlot_loop_eq: "getKeysInSlot_loop h ns c = map snd (take c (takeWhile (\<lambda>e. fst e = h) ns))"
  by (induction h ns c rule: getKeysInSlot_loop.induct) auto

lemma getKeysInSlot_keys:
  assumes "keys_inv s"
  shows "set (getKeysInSlot slot count s) \<subseteq> {k. db0 s k \<noteq> None \<and> keyHashSlot k = slot} \<and>
     distinct (getKeysInSlot slot count s) \<and>
     length (getKeysInSlot slot count s) = min count (card {k. db0 s k \<noteq> None \<and> keyHashSlot k = slot})"
proof -
  let ?l = "zi.in_slot slot (c_slots_to_keys s)"
  have wf: "zsl_wf (c_slots_to_keys s)" using assms by (simp add: keys_inv_def)
  have eq: "getKeysInSlot slot count s = map snd (take count ?l)"
    by (simp add: getKeysInSlot_def getKeysInSlot_loop_eq zi.takeWhile_first[OF wf])
  have "distinct ?l" using wf by (simp add: zi.in_slot_def zsl_wf_def)
  then have "distinct (map snd ?l)" using in_slot_keys[OF assms, of slot] by (auto simp: distinct_map inj_on_def)
  then have "distinct (map snd (take count ?l))" by (simp add: take_map[symmetric])
  moreover have "set (map snd (take count ?l)) \<subseteq> snd ` set ?l" by (auto dest: in_set_takeD)
  ultimately show ?thesis using in_slot_keys[OF assms, of slot] in_slot_length[OF assms, of slot]
    by (simp add: eq image_image min.commute)
qed

text \<open>Reading the keys of a slot: \<open>getKeysInSlot\<close> returns \<open>count\<close> different keys of the slot, all of them if there
  are fewer, and nothing else.\<close>

theorem getKeysInSlot_exact:
  assumes "keys_inv s"
  shows "set (getKeysInSlot slot count s) \<subseteq> {k. db0 s k \<noteq> None \<and> keyHashSlot k = slot} \<and>
     distinct (getKeysInSlot slot count s) \<and>
     length (getKeysInSlot slot count s) = min count (card {k. db0 s k \<noteq> None \<and> keyHashSlot k = slot})"
  using assms by (rule getKeysInSlot_keys)

theorem getKeysInSlot_exact_witness: "length (getKeysInSlot 7 10 zero_server) = 0"
  using getKeysInSlot_exact[OF zero_server_keys_inv, of 7 10] by (simp add: zero_server_def)

text \<open>Deleting keys touches the dictionary, the expires and the index only.\<close>

definition but_keys :: "server \<Rightarrow> server" where
  "but_keys s = s\<lparr>db0 := (\<lambda>_. None), expires0 := (\<lambda>_. None), c_slots_to_keys := []\<rparr>"

lemma dbDelete_but_keys: "but_keys (snd (dbDelete key s)) = but_keys s"
  by (simp add: dbDelete_def slotToKeyDel_def but_keys_def Let_def)

lemma delKeysInSlot_loop_eq:
  assumes "keys_inv s"
  shows "let r = delKeysInSlot_loop h ns (j, s); ks = takeWhile (\<lambda>e. fst e = h) ns
     in fst r = j + length ks \<and> keys_inv (snd r) \<and>
        (\<forall>k. db0 (snd r) k = (if k \<in> snd ` set ks then None else db0 s k)) \<and> but_keys (snd r) = but_keys s"
  using assms
proof (induction ns arbitrary: j s)
  case (Cons n ns)
  show ?case
  proof (cases "fst n = h")
    case True
    then show ?thesis
      using Cons.IH[OF dbDelete_keys_inv[OF Cons.prems, of "snd n"], of "j + 1"]
      by (simp add: Let_def dbDelete_db0 dbDelete_but_keys)
  next
    case False
    then show ?thesis using Cons.prems by simp
  qed
qed simp

lemma delKeysInSlot_spec:
  assumes "keys_inv s"
  shows "let (n, s') = delKeysInSlot slot s in
     keys_inv s' \<and> (\<forall>k. db0 s' k = (if keyHashSlot k = slot then None else db0 s k)) \<and>
     n = card {k. db0 s k \<noteq> None \<and> keyHashSlot k = slot} \<and> but_keys s' = but_keys s"
proof -
  have wf: "zsl_wf (c_slots_to_keys s)" using assms by (simp add: keys_inv_def)
  have "snd ` set (zi.in_slot slot (c_slots_to_keys s)) = {k. db0 s k \<noteq> None \<and> keyHashSlot k = slot}"
    unfolding in_slot_keys[OF assms] by (simp add: image_image)
  then have "(if k \<in> snd ` set (zi.in_slot slot (c_slots_to_keys s)) then None else db0 s k)
      = (if keyHashSlot k = slot then None else db0 s k)" for k by auto
  then show ?thesis
    using delKeysInSlot_loop_eq[OF assms, of slot "zsl_first_in_slot slot (c_slots_to_keys s)" 0]
      in_slot_length[OF assms, of slot]
    by (simp add: delKeysInSlot_def zi.takeWhile_first[OF wf] Let_def case_prod_beta)
qed

text \<open>\<open>delKeysInSlot\<close> deletes exactly the keys of the slot from the database, answers how many there were,
  and keeps the index exact; nothing but dictionary, expires and index changes.\<close>

theorem delKeysInSlot_exact:
  assumes "keys_inv s"
  shows "let (n, s') = delKeysInSlot slot s in
     keys_inv s' \<and> (\<forall>k. db0 s' k = (if keyHashSlot k = slot then None else db0 s k)) \<and>
     n = card {k. db0 s k \<noteq> None \<and> keyHashSlot k = slot} \<and> but_keys s' = but_keys s"
  using assms by (rule delKeysInSlot_spec)

theorem delKeysInSlot_exact_witness: "keys_inv (snd (delKeysInSlot 7 zero_server))"
  using delKeysInSlot_exact[OF zero_server_keys_inv, of 7] by (simp add: case_prod_beta Let_def)

end
