(* ===== verification/CString.thy ===== *)
theory CString
  imports Prelude
begin

text \<open>
  What the code uses of the C library on strings: numbers read with \<open>strtoll\<close>, \<open>strtoull\<close> and \<open>atoi\<close>, numbers
  printed with \<open>%d\<close>, \<open>%lld\<close> and \<open>%llu\<close>, and comparison without regard to case. A C string ends at its first zero
  byte, which binary-safe strings may contain. The lemmas show that printing and reading are inverse.
\<close>

text \<open>A string literal.\<close>

definition str :: "string \<Rightarrow> bytes" where
  "str s = map of_char s"

definition cstr :: "bytes \<Rightarrow> bytes" where
  "cstr s = takeWhile (\<lambda>c. c \<noteq> 0) s"

definition isspace :: "u8 \<Rightarrow> bool" where
  "isspace c \<longleftrightarrow> c = 0x20 \<or> 0x09 \<le> c \<and> c \<le> 0x0D"

definition isdigit :: "u8 \<Rightarrow> bool" where
  "isdigit c \<longleftrightarrow> 0x30 \<le> c \<and> c \<le> 0x39"

definition tolower8 :: "u8 \<Rightarrow> u8" where
  "tolower8 c = (if 0x41 \<le> c \<and> c \<le> 0x5A then c + 0x20 else c)"

text \<open>\<open>!strcasecmp(a,b)\<close>.\<close>

definition strcaseeq :: "bytes \<Rightarrow> bytes \<Rightarrow> bool" where
  "strcaseeq a b \<longleftrightarrow> map tolower8 (cstr a) = map tolower8 (cstr b)"

subsection \<open>Reading numbers\<close>

fun scan_digits :: "bytes \<Rightarrow> nat \<Rightarrow> nat \<times> bytes" where
  "scan_digits [] v = (v, [])"
| "scan_digits (c # cs) v = (if isdigit c then scan_digits cs (10 * v + unat (c - 0x30)) else (v, c # cs))"

text \<open>The number at the front of a string and the rest of it; with no digits, zero and the whole string.\<close>

definition strtol_parse :: "bytes \<Rightarrow> int \<times> bytes" where
  "strtol_parse s =
     (let s1 = dropWhile isspace s;
          (neg, s2) = (case s1 of [] \<Rightarrow> (False, [])
             | c # cs \<Rightarrow> if c = 0x2D then (True, cs) else if c = 0x2B then (False, cs) else (False, s1))
      in if s2 = [] \<or> \<not> isdigit (hd s2) then (0, s)
         else let (v, rest) = scan_digits s2 0 in (if neg then - int v else int v, rest))"

definition LLONG_MAX :: int where "LLONG_MAX = 2 ^ 63 - 1"
definition LLONG_MIN :: int where "LLONG_MIN = - (2 ^ 63)"

text \<open>\<open>strtoll(s,&eptr,10)\<close>: the value, whether it was out of range, and the rest.\<close>

definition strtoll :: "bytes \<Rightarrow> int \<times> bool \<times> bytes" where
  "strtoll s = (let (v, rest) = strtol_parse (cstr s)
     in if v > LLONG_MAX then (LLONG_MAX, True, rest)
        else if v < LLONG_MIN then (LLONG_MIN, True, rest) else (v, False, rest))"

definition strtoull :: "bytes \<Rightarrow> u64" where
  "strtoull s = (let v = fst (strtol_parse (cstr s))
     in if \<bar>v\<bar> > 2 ^ 64 - 1 then - 1 else word_of_int v)"

text \<open>\<open>atoi\<close> converts the result of \<open>strtol\<close> to 32 bits.\<close>

definition atoi :: "bytes \<Rightarrow> int" where
  "atoi s = sint (word_of_int (fst (strtoll s)) :: 32 word)"

subsection \<open>Printing numbers\<close>

fun print_nat :: "nat \<Rightarrow> bytes" where
  "print_nat n = (if n < 10 then [0x30 + of_nat n] else print_nat (n div 10) @ [0x30 + of_nat (n mod 10)])"

declare print_nat.simps [simp del]

definition print_int :: "int \<Rightarrow> bytes" where
  "print_int i = (if i < 0 then 0x2D # print_nat (nat (- i)) else print_nat (nat i))"

subsection \<open>Reading what was printed\<close>

lemma digit_value: "d < 10 \<Longrightarrow> isdigit (0x30 + of_nat d) \<and> unat ((0x30 + of_nat d :: u8) - 0x30) = d"
proof -
  assume d: "d < 10"
  have u: "unat (of_nat d :: u8) = d" using d by (simp add: unat_of_nat take_bit_nat_eq_self)
  have "unat (0x30 + of_nat d :: u8) = 48 + d"
    using d u by (subst unat_add_lem[THEN iffD1]) auto
  then have "isdigit (0x30 + of_nat d)" using d by (simp add: isdigit_def word_le_nat_alt)
  then show ?thesis using u by simp
qed

lemma print_nat_digits: "c \<in> set (print_nat n) \<Longrightarrow> isdigit c"
proof (induction n rule: print_nat.induct)
  case (1 n)
  then show ?case using digit_value[of n] digit_value[of "n mod 10"]
    by (subst (asm) (2) print_nat.simps) (auto split: if_splits)
qed

lemma print_nat_nonempty [simp]: "print_nat n \<noteq> []"
  by (subst print_nat.simps) simp

lemma scan_digits_append:
  assumes "\<forall>c \<in> set xs. isdigit c"
  shows "scan_digits (xs @ ys) v = scan_digits ys (fst (scan_digits xs v))"
  using assms by (induction xs arbitrary: v) auto

lemma scan_print_nat: "fst (scan_digits (print_nat n) v) = v * 10 ^ length (print_nat n) + n"
proof (induction n arbitrary: v rule: print_nat.induct)
  case (1 n)
  show ?case
  proof (cases "n < 10")
    case True
    then show ?thesis using digit_value[of n] by (simp add: print_nat.simps[of n])
  next
    case False
    have d: "\<forall>c \<in> set (print_nat (n div 10)). isdigit c" using print_nat_digits by blast
    have "fst (scan_digits (print_nat n) v) =
        10 * (v * 10 ^ length (print_nat (n div 10)) + n div 10) + n mod 10"
      using False 1[OF False, of v] digit_value[of "n mod 10"]
      by (simp add: print_nat.simps[of n] scan_digits_append[OF d])
    then show ?thesis using False by (simp add: print_nat.simps[of n])
  qed
qed

lemma scan_digits_print:
  assumes "rest = [] \<or> \<not> isdigit (hd rest)"
  shows "scan_digits (print_nat n @ rest) 0 = (n, rest)"
proof -
  have d: "\<forall>c \<in> set (print_nat n). isdigit c" using print_nat_digits by blast
  have "scan_digits rest v = (v, rest)" for v using assms by (cases rest) auto
  then show ?thesis using scan_digits_append[OF d, of rest 0] scan_print_nat[of n 0] by simp
qed

lemma isdigit_facts: "isdigit c \<Longrightarrow> c \<noteq> 0 \<and> \<not> isspace c \<and> c \<noteq> 0x2D \<and> c \<noteq> 0x2B \<and> c \<noteq> 0x5B"
  by (auto simp: isdigit_def isspace_def word_le_nat_alt)

lemma hd_print_nat: "isdigit (hd (print_nat n))"
  using print_nat_digits[of "hd (print_nat n)" n] by simp

lemma parse_print_nat:
  assumes "rest = [] \<or> \<not> isdigit (hd rest)"
  shows "strtol_parse (print_nat n @ rest) = (int n, rest)"
proof -
  obtain c cs where p: "print_nat n = c # cs" by (cases "print_nat n") simp_all
  then have "isdigit c" using hd_print_nat[of n] by simp
  then show ?thesis
    using isdigit_facts[of c] scan_digits_print[OF assms, of n] p by (simp add: strtol_parse_def Let_def)
qed

lemma parse_print_int:
  assumes "rest = [] \<or> \<not> isdigit (hd rest)"
  shows "strtol_parse (print_int i @ rest) = (i, rest)"
proof (cases "i < 0")
  case True
  have "dropWhile isspace (0x2D # print_nat (nat (- i)) @ rest) = 0x2D # print_nat (nat (- i)) @ rest"
    by (simp add: isspace_def)
  moreover have "hd (print_nat (nat (- i)) @ rest) = hd (print_nat (nat (- i)))" by (simp add: hd_append)
  ultimately show ?thesis
    using True scan_digits_print[OF assms, of "nat (- i)"] hd_print_nat
    by (simp add: strtol_parse_def print_int_def Let_def)
next
  case False
  then show ?thesis using parse_print_nat[OF assms, of "nat i"] by (simp add: print_int_def)
qed

lemma cstr_print_nat [simp]: "cstr (print_nat n) = print_nat n"
proof -
  have "\<forall>c \<in> set (print_nat n). c \<noteq> 0" using print_nat_digits isdigit_facts by blast
  then show ?thesis by (simp add: cstr_def takeWhile_eq_all_conv)
qed

lemma cstr_print_int [simp]: "cstr (print_int i) = print_int i"
  using cstr_print_nat[of "nat (- i)"] cstr_print_nat[of "nat i"] by (simp add: print_int_def cstr_def)

lemma strtoll_print_int:
  assumes "LLONG_MIN \<le> i" "i \<le> LLONG_MAX"
  shows "strtoll (print_int i) = (i, False, [])"
  using parse_print_int[of "[]" i] assms by (simp add: strtoll_def)

lemma strtoull_print_nat: "strtoull (print_nat (unat w)) = (w :: u64)"
proof -
  have le: "\<not> \<bar>int (unat w)\<bar> > 2 ^ 64 - 1" using uint_lt2p[of w] by simp
  have "strtol_parse (cstr (print_nat (unat w))) = (int (unat w), [])" using parse_print_nat[of "[]" "unat w"] by simp
  then show ?thesis unfolding strtoull_def Let_def using le by (simp only: fst_conv if_False) simp
qed

lemma atoi_print_int:
  assumes "- (2 ^ 31) \<le> i" "i < 2 ^ 31"
  shows "atoi (print_int i) = i"
proof -
  have "strtoll (print_int i) = (i, False, [])"
    by (rule strtoll_print_int) (use assms in \<open>simp_all add: LLONG_MIN_def LLONG_MAX_def\<close>)
  then show ?thesis using assms by (simp add: atoi_def signed_take_bit_int_eq_self signed_of_int)
qed

end
