(* ===== verification/ClusterQuery.thy ===== *)
theory ClusterQuery
  imports Keyspace CString
begin

text \<open>
  Where a command is served (cluster.c, \<open>getNodeByQuery\<close>): the keys of a command (db.c), their slot, and the state of that
  slot decide whether this node executes the command, refuses it, or redirects the client. \<open>processCommand_cluster\<close> is the part
  of \<open>processCommand\<close> (redis.c) that acts on the decision. Looking a key up may delete it when it has expired.
\<close>

subsection \<open>Expiring keys\<close>

text \<open>Whether a data set is being loaded, and since when a script runs.\<close>

record env =
  loading :: bool
  lua_time_start :: "int option"

definition getExpire :: "bytes \<Rightarrow> server \<Rightarrow> int option" where
  "getExpire key s = (case expires0 s key of None \<Rightarrow> Some (- 1)
     | Some t \<Rightarrow> do { redisAssert (db0 s key \<noteq> None); Some t })"

definition propagateExpire :: "bytes \<Rightarrow> server \<Rightarrow> server" where
  "propagateExpire key s = do_log (PropagateDel key) s"

definition expire_clock :: "env \<Rightarrow> server \<Rightarrow> int" where
  "expire_clock env s = (case lua_time_start env of Some t0 \<Rightarrow> t0 | None \<Rightarrow> mstime s)"

definition expireIfNeeded :: "env \<Rightarrow> bytes \<Rightarrow> server \<Rightarrow> (bool \<times> server) option" where
  "expireIfNeeded env key s = do {
     t \<leftarrow> getExpire key s;
     if t < 0 then Some (False, s)
     else if loading env then Some (False, s)
     else let now = expire_clock env s
          in if masterhost s \<noteq> None then Some (now > t, s)
             else if now \<le> t then Some (False, s)
             else Some (dbDelete key (propagateExpire key s))
   }"

text \<open>The value is found or not; the statistics of hits and misses are not kept.\<close>

definition lookupKeyRead :: "env \<Rightarrow> bytes \<Rightarrow> server \<Rightarrow> (bytes option \<times> server) option" where
  "lookupKeyRead env key s = do { (_, s1) \<leftarrow> expireIfNeeded env key s; Some (db0 s1 key, s1) }"

subsection \<open>The keys of a command\<close>

datatype getkeys_proc = ZunionInterGetKeys | EvalGetKeys | SortGetKeys

record redisCommand =
  cmd_exec :: bool \<comment> \<open>\<open>proc == execCommand\<close>\<close>
  cmd_flags :: u32
  getkeys_proc :: "getkeys_proc option"
  firstkey :: int
  lastkey :: int
  keystep :: int

definition REDIS_CMD_READONLY :: u32 where "REDIS_CMD_READONLY = 2"
definition REDIS_CMD_ASKING :: u32 where "REDIS_CMD_ASKING = 4096"

text \<open>A step that is not positive would never end.\<close>

function table_keys :: "int \<Rightarrow> int \<Rightarrow> int \<Rightarrow> int \<Rightarrow> int list option" where
  "table_keys j last_key step argc =
     (if j > last_key then Some []
      else if \<not> j < argc \<or> step \<le> 0 then None
      else map_option ((#) j) (table_keys (j + step) last_key step argc))"
  by auto
termination by (relation "measure (\<lambda>(j, l, step, argc). nat (l + 1 - j))") auto

definition getKeysUsingCommandTable :: "redisCommand \<Rightarrow> bytes list \<Rightarrow> int list option" where
  "getKeysUsingCommandTable cmd argv =
     (if firstkey cmd = 0 then Some []
      else let argc = int (length argv);
               last_key = (if lastkey cmd < 0 then argc + lastkey cmd else lastkey cmd)
           in if last_key - firstkey cmd + 1 < 0 then None
              else table_keys (firstkey cmd) last_key (keystep cmd) argc)"

text \<open>A negative number of keys makes the allocation fail or the array be written before its start.\<close>

definition zunionInterGetKeys :: "bytes list \<Rightarrow> int list option" where
  "zunionInterGetKeys argv =
     (if length argv \<le> 2 then None
      else let num = atoi (argv ! 2)
           in if num > int (length argv) - 3 then Some []
              else if num < 0 then None
              else Some (map (\<lambda>i. 3 + int i) [0..<nat num] @ [1]))"

definition evalGetKeys :: "bytes list \<Rightarrow> int list option" where
  "evalGetKeys argv =
     (if length argv \<le> 2 then None
      else let num = atoi (argv ! 2)
           in if num > int (length argv) - 3 then Some []
              else if num < 0 then None
              else Some (map (\<lambda>i. 3 + int i) [0..<nat num]))"

text \<open>Lines 2172 to 2185: \<open>keys\<close> is the array, of which the first \<open>num\<close> elements are the result.\<close>

function sort_scan :: "bytes list \<Rightarrow> nat \<Rightarrow> int list \<Rightarrow> int list" where
  "sort_scan argv i keys =
     (if i < length argv then
        if strcaseeq (argv ! i) (str ''limit'') then sort_scan argv (i + 3) keys
        else if strcaseeq (argv ! i) (str ''store'') \<and> i + 1 < length argv
        then sort_scan argv (i + 1) [hd keys, int i + 1]
        else if strcaseeq (argv ! i) (str ''get'') \<or> strcaseeq (argv ! i) (str ''by'') then sort_scan argv (i + 2) keys
        else sort_scan argv (i + 1) keys
      else keys)"
  by auto
termination by (relation "measure (\<lambda>(argv, i, keys). length argv - i)") auto

declare table_keys.simps [simp del] sort_scan.simps [simp del]

definition sortGetKeys :: "bytes list \<Rightarrow> int list option" where
  "sortGetKeys argv = (let num = 1 in Some (take num (sort_scan argv 2 [1])))"

definition getKeysFromCommand :: "redisCommand \<Rightarrow> bytes list \<Rightarrow> int list option" where
  "getKeysFromCommand cmd argv = (case getkeys_proc cmd of
       Some ZunionInterGetKeys \<Rightarrow> zunionInterGetKeys argv
     | Some EvalGetKeys \<Rightarrow> evalGetKeys argv
     | Some SortGetKeys \<Rightarrow> sortGetKeys argv
     | None \<Rightarrow> getKeysUsingCommandTable cmd argv)"

text \<open>The arguments at the indices.\<close>

definition keys_at :: "bytes list \<Rightarrow> int list \<Rightarrow> bytes list option" where
  "keys_at argv idx = (if \<forall>i \<in> set idx. 0 \<le> i \<and> i < int (length argv) then Some (map (\<lambda>i. argv ! nat i) idx) else None)"

subsection \<open>The node that serves a query\<close>

datatype redir = REDIR_NONE | REDIR_CROSS_SLOT | REDIR_UNSTABLE | REDIR_ASK | REDIR_MOVED

record redisClient =
  cl_flags :: u32
  cl_mstate :: "(redisCommand \<times> bytes list) list"

definition REDIS_MASTER :: u32 where "REDIS_MASTER = 2"
definition REDIS_MULTI :: u32 where "REDIS_MULTI = 8"
definition REDIS_ASKING :: u32 where "REDIS_ASKING = 512"
definition REDIS_DIRTY_EXEC :: u32 where "REDIS_DIRTY_EXEC = 4096"
definition REDIS_READONLY :: u32 where "REDIS_READONLY = 131072"

text \<open>The local variables of \<open>getNodeByQuery\<close>.\<close>

record query =
  q_firstkey :: "bytes option"
  q_slot :: nat
  q_n :: ptr
  q_multiple :: bool
  q_migrating :: bool
  q_importing :: bool
  q_missing :: nat

definition query0 :: query where
  "query0 = \<lparr>q_firstkey = None, q_slot = 0, q_n = NULL, q_multiple = False, q_migrating = False, q_importing = False, q_missing = 0\<rparr>"

text \<open>Lines 6576 to 6616 for one key; \<open>None\<close> when its slot is another one than the first key's.\<close>

definition query_slot :: "bytes \<Rightarrow> server \<Rightarrow> query \<Rightarrow> query option option" where
  "query_slot thiskey s q =
     (let thisslot = keyHashSlot thiskey
      in case q_firstkey q of
           None \<Rightarrow> do {
             let n = c_slots s thisslot;
             redisAssert (n \<noteq> NULL);
             let q1 = q\<lparr>q_firstkey := Some thiskey, q_slot := thisslot, q_n := n\<rparr>;
             Some (Some (if n = myself s \<and> c_migrating_slots_to s thisslot \<noteq> NULL then q1\<lparr>q_migrating := True\<rparr>
                         else if c_importing_slots_from s thisslot \<noteq> NULL then q1\<lparr>q_importing := True\<rparr>
                         else q1))
           }
         | Some first \<Rightarrow>
             Some (if first \<noteq> thiskey then
                     if q_slot q \<noteq> thisslot then None else Some (q\<lparr>q_multiple := True\<rparr>)
                   else Some q))"

text \<open>Lines 6619 to 6623.\<close>

definition query_missing :: "env \<Rightarrow> bytes \<Rightarrow> query \<Rightarrow> server \<Rightarrow> (query \<times> server) option" where
  "query_missing env thiskey q s =
     (if q_migrating q \<or> q_importing q then do {
        (v, s1) \<leftarrow> lookupKeyRead env thiskey s;
        Some (if v = None then q\<lparr>q_missing := q_missing q + 1\<rparr> else q, s1)
      }
      else Some (q, s))"

fun query_keys :: "env \<Rightarrow> bytes list \<Rightarrow> query \<Rightarrow> server \<Rightarrow> (query option \<times> server) option" where
  "query_keys env [] q s = Some (Some q, s)"
| "query_keys env (k # ks) q s = do {
     r \<leftarrow> query_slot k s q;
     (case r of
        None \<Rightarrow> Some (None, s)
      | Some q1 \<Rightarrow> do { (q2, s1) \<leftarrow> query_missing env k q1 s; query_keys env ks q2 s1 })
   }"

text \<open>The loop over the commands of a transaction.\<close>

fun query_commands :: "env \<Rightarrow> (redisCommand \<times> bytes list) list \<Rightarrow> query \<Rightarrow> server \<Rightarrow> (query option \<times> server) option" where
  "query_commands env [] q s = Some (Some q, s)"
| "query_commands env ((mcmd, margv) # ms) q s = do {
     idx \<leftarrow> getKeysFromCommand mcmd margv;
     ks \<leftarrow> keys_at margv idx;
     (r, s1) \<leftarrow> query_keys env ks q s;
     (case r of None \<Rightarrow> Some (None, s1) | Some q1 \<Rightarrow> query_commands env ms q1 s1)
   }"

text \<open>Lines 6640 to 6676: the node, and the code of the redirection.\<close>

definition query_decide :: "redisClient \<Rightarrow> redisCommand \<Rightarrow> query \<Rightarrow> server \<Rightarrow> (ptr \<times> redir) option" where
  "query_decide c cmd q s =
     (if q_migrating q \<and> q_missing q \<noteq> 0 then Some (c_migrating_slots_to s (q_slot q), REDIR_ASK)
      else if q_importing q \<and> (cl_flags c AND REDIS_ASKING \<noteq> 0 \<or> cmd_flags cmd AND REDIS_CMD_ASKING \<noteq> 0) then
        Some (if q_multiple q \<and> q_missing q \<noteq> 0 then (NULL, REDIR_UNSTABLE) else (myself s, REDIR_NONE))
      else do {
        me \<leftarrow> deref (heap s) (myself s);
        Some (if cl_flags c AND REDIS_READONLY \<noteq> 0 \<and> cmd_flags cmd AND REDIS_CMD_READONLY \<noteq> 0 \<and>
                 nodeIsSlave me \<and> n_slaveof me = q_n q
              then (myself s, REDIR_NONE)
              else (q_n q, if q_n q \<noteq> myself s then REDIR_MOVED else REDIR_NONE))
      })"

text \<open>The node, the slot when one is assigned to \<open>*hashslot\<close>, the code, and the state after the lookups.\<close>

definition getNodeByQuery ::
  "env \<Rightarrow> redisClient \<Rightarrow> redisCommand \<Rightarrow> bytes list \<Rightarrow> server \<Rightarrow> ((ptr \<times> nat option \<times> redir) \<times> server) option" where
  "getNodeByQuery env c cmd argv s =
     (if cmd_exec cmd \<and> cl_flags c AND REDIS_MULTI = 0 then Some ((myself s, None, REDIR_NONE), s)
      else do {
        (r, s1) \<leftarrow> query_commands env (if cmd_exec cmd then cl_mstate c else [(cmd, argv)]) query0 s;
        (case r of
           None \<Rightarrow> Some ((NULL, None, REDIR_CROSS_SLOT), s1)
         | Some q \<Rightarrow>
             if q_n q = NULL then Some ((myself s1, None, REDIR_NONE), s1)
             else do {
               (n, code) \<leftarrow> query_decide c cmd q s1;
               Some ((n, Some (q_slot q), code), s1)
             })
      })"

subsection \<open>Acting on the decision\<close>

datatype routed =
    Proceed
  | ClusterDown
  | CrossSlot
  | TryAgain
  | Redirect bool nat bytes int \<comment> \<open>ASK or MOVED, the slot, the address\<close>

definition flagTransaction :: "redisClient \<Rightarrow> redisClient" where
  "flagTransaction c = (if cl_flags c AND REDIS_MULTI \<noteq> 0 then c\<lparr>cl_flags := cl_flags c OR REDIS_DIRTY_EXEC\<rparr> else c)"

text \<open>Lines 2786 to 2839 of redis.c, in cluster mode.\<close>

definition processCommand_cluster ::
  "env \<Rightarrow> redisClient \<Rightarrow> redisCommand \<Rightarrow> bytes list \<Rightarrow> server \<Rightarrow> ((routed \<times> redisClient) \<times> server) option" where
  "processCommand_cluster env c cmd argv s =
     (if cl_flags c AND REDIS_MASTER = 0 \<and> \<not> (getkeys_proc cmd = None \<and> firstkey cmd = 0) then
        if c_state s \<noteq> CLUSTER_OK then Some ((ClusterDown, flagTransaction c), s)
        else do {
          ((n, slot, code), s1) \<leftarrow> getNodeByQuery env c cmd argv s;
          if n = NULL then
            (if code = REDIR_CROSS_SLOT then Some ((CrossSlot, flagTransaction c), s1)
             else if code = REDIR_UNSTABLE then Some ((TryAgain, flagTransaction c), s1)
             else None)
          else if n \<noteq> myself s1 then do {
            nd \<leftarrow> deref (heap s1) n;
            Some ((Redirect (code = REDIR_ASK) (the slot) (n_ip nd) (n_port nd), flagTransaction c), s1)
          }
          else Some ((Proceed, c), s1)
        }
      else Some ((Proceed, c), s))"

subsection \<open>Looking keys up\<close>

definition expires_ok :: "server \<Rightarrow> bool" where
  "expires_ok s \<longleftrightarrow> dom (expires0 s) \<subseteq> dom (db0 s)"

definition expired :: "env \<Rightarrow> bytes \<Rightarrow> server \<Rightarrow> bool" where
  "expired env k s \<longleftrightarrow> masterhost s = None \<and> \<not> loading env \<and>
     (\<exists>t. expires0 s k = Some t \<and> 0 \<le> t \<and> t < expire_clock env s)"

definition present :: "env \<Rightarrow> bytes \<Rightarrow> server \<Rightarrow> bool" where
  "present env k s \<longleftrightarrow> db0 s k \<noteq> None \<and> \<not> expired env k s"

text \<open>What lookups leave alone: everything but the data set and the commands propagated; the index of slots stays exact.\<close>

definition looked :: "env \<Rightarrow> server \<Rightarrow> server \<Rightarrow> bool" where
  "looked env s s' \<longleftrightarrow> but_keys (s'\<lparr>effects := []\<rparr>) = but_keys (s\<lparr>effects := []\<rparr>) \<and> (expires_ok s \<longrightarrow> expires_ok s') \<and>
     (keys_inv s \<longrightarrow> keys_inv s') \<and> (\<forall>k. present env k s' = present env k s)"

lemma looked_refl [simp]: "looked env s s"
  by (simp add: looked_def)

lemma looked_trans: "looked env s s1 \<Longrightarrow> looked env s1 s2 \<Longrightarrow> looked env s s2"
  by (simp add: looked_def)

lemma looked_fields:
  assumes "looked env s s'"
  shows "c_slots s' = c_slots s" "c_migrating_slots_to s' = c_migrating_slots_to s"
    "c_importing_slots_from s' = c_importing_slots_from s" "c_myself s' = c_myself s" "heap s' = heap s"
  using assms arg_cong[of "but_keys (s'\<lparr>effects := []\<rparr>)" "but_keys (s\<lparr>effects := []\<rparr>)"]
  unfolding looked_def
  by (auto dest: arg_cong[where f = c_slots] arg_cong[where f = c_migrating_slots_to] arg_cong[where f = c_importing_slots_from]
      arg_cong[where f = c_myself] arg_cong[where f = heap] simp: but_keys_def)

lemma looked_delete:
  assumes e: "expired env k s"
  shows "looked env s (snd (dbDelete k (propagateExpire k s)))"
proof -
  let ?s1 = "propagateExpire k s"
  have f: "db0 ?s1 = db0 s" "expires0 ?s1 = expires0 s" "masterhost ?s1 = masterhost s" "mstime ?s1 = mstime s"
    "keys_inv ?s1 = keys_inv s" by (simp_all add: propagateExpire_def do_log_def keys_inv_def)
  let ?s' = "snd (dbDelete k ?s1)"
  have g: "db0 ?s' = (db0 s)(k := None)" "expires0 ?s' = (expires0 s)(k := None)" "masterhost ?s' = masterhost s" "mstime ?s' = mstime s"
    using f by (auto simp: dbDelete_def slotToKeyDel_def Let_def fun_eq_iff)
  have c: "expire_clock env ?s' = expire_clock env s" using g(4) by (cases "lua_time_start env") (simp_all add: expire_clock_def)
  have "but_keys (?s'\<lparr>effects := []\<rparr>) = but_keys (s\<lparr>effects := []\<rparr>)"
    by (simp add: dbDelete_def slotToKeyDel_def but_keys_def propagateExpire_def do_log_def Let_def)
  moreover have "expires_ok s \<Longrightarrow> expires_ok ?s'" using g by (auto simp: expires_ok_def split: if_splits)
  moreover have "keys_inv s \<Longrightarrow> keys_inv ?s'" using dbDelete_keys_inv[of ?s1 k] f by simp
  moreover have "present env k' ?s' = present env k' s" for k'
    using e g c by (cases "k' = k") (simp_all add: present_def expired_def)
  ultimately show ?thesis by (simp add: looked_def)
qed

lemma lookupKeyRead_spec:
  assumes ok: "expires_ok s"
  shows "\<exists>v s'. lookupKeyRead env k s = Some (v, s') \<and> (v \<noteq> None \<longleftrightarrow> present env k s) \<and> looked env s s'"
proof (cases "expires0 s k")
  case None
  then show ?thesis by (simp add: lookupKeyRead_def expireIfNeeded_def getExpire_def present_def expired_def)
next
  case (Some t)
  then have db: "\<exists>v. db0 s k = Some v" using ok by (auto simp: expires_ok_def)
  show ?thesis
  proof (cases "expired env k s")
    case True
    have "db0 (snd (dbDelete k (propagateExpire k s))) k = None"
      by (simp add: dbDelete_def slotToKeyDel_def Let_def)
    moreover obtain r s' where "dbDelete k (propagateExpire k s) = (r, s')" by fastforce
    ultimately show ?thesis
      using True Some db looked_delete[OF True]
      by (auto simp: lookupKeyRead_def expireIfNeeded_def getExpire_def redisAssert_def present_def expired_def Let_def)
  next
    case False
    then show ?thesis using Some db
      by (auto simp: lookupKeyRead_def expireIfNeeded_def getExpire_def redisAssert_def present_def expired_def Let_def)
  qed
qed

lemma query_missing_spec:
  assumes ok: "expires_ok s"
  shows "\<exists>s'. query_missing env k q s = Some (q\<lparr>q_missing := q_missing q +
      (if (q_migrating q \<or> q_importing q) \<and> \<not> present env k s then 1 else 0)\<rparr>, s') \<and> looked env s s'"
proof (cases "q_migrating q \<or> q_importing q")
  case True
  obtain v s' where "lookupKeyRead env k s = Some (v, s')" "v \<noteq> None \<longleftrightarrow> present env k s" "looked env s s'"
    using lookupKeyRead_spec[OF ok] by blast
  then show ?thesis using True by (cases v) (simp_all add: query_missing_def)
next
  case False
  then show ?thesis by (simp add: query_missing_def)
qed

text \<open>The keys after the first one.\<close>

lemma query_keys_rest:
  assumes "expires_ok s" and "q_firstkey q = Some k0" and "q_slot q = keyHashSlot k0"
  shows "\<exists>r s'. query_keys env ks q s = Some (r, s') \<and> looked env s s' \<and>
     r = (if \<forall>k \<in> set ks. keyHashSlot k = q_slot q
          then Some (q\<lparr>q_multiple := q_multiple q \<or> (\<exists>k \<in> set ks. k \<noteq> k0),
             q_missing := q_missing q + (if q_migrating q \<or> q_importing q then length (filter (\<lambda>k. \<not> present env k s) ks) else 0)\<rparr>)
          else None)"
  using assms
proof (induction ks arbitrary: q s)
  case (Cons k ks)
  show ?case
  proof (cases "keyHashSlot k = q_slot q")
    case False
    then show ?thesis using Cons.prems by (auto simp: query_slot_def)
  next
    case True
    define q1 where "q1 = q\<lparr>q_multiple := q_multiple q \<or> k \<noteq> k0\<rparr>"
    have q1: "query_slot k s q = Some (Some q1)"
      using True Cons.prems by (cases q; cases "k = k0") (simp_all add: query_slot_def q1_def)
    define m where "m = (if (q_migrating q1 \<or> q_importing q1) \<and> \<not> present env k s then 1 else (0 :: nat))"
    define q2 where "q2 = q1\<lparr>q_missing := q_missing q1 + m\<rparr>"
    obtain s1 where m: "query_missing env k q1 s = Some (q2, s1)" "looked env s s1"
      using query_missing_spec[OF Cons.prems(1), of env k q1] by (auto simp: q2_def m_def)
    have ok1: "expires_ok s1" using m(2) Cons.prems(1) by (simp add: looked_def)
    have q2: "q_firstkey q2 = Some k0" "q_slot q2 = keyHashSlot k0" using Cons.prems by (simp_all add: q2_def q1_def)
    define w where "w = (if q_migrating q \<or> q_importing q then length (filter (\<lambda>k. \<not> present env k s) ks) else 0)"
    have w: "(if q_migrating q2 \<or> q_importing q2 then length (filter (\<lambda>k. \<not> present env k s1) ks) else 0) = w"
      using m(2) by (simp add: w_def q2_def q1_def looked_def)
    obtain r s' where r: "query_keys env ks q2 s1 = Some (r, s')" "looked env s1 s'"
      "r = (if \<forall>k \<in> set ks. keyHashSlot k = q_slot q2
          then Some (q2\<lparr>q_multiple := q_multiple q2 \<or> (\<exists>k \<in> set ks. k \<noteq> k0), q_missing := q_missing q2 + w\<rparr>) else None)"
      using Cons.IH[OF ok1 q2] unfolding w by blast
    have run: "query_keys env (k # ks) q s = Some (r, s')" using q1 m(1) r(1) by simp
    have mw: "(if q_migrating q \<or> q_importing q then length (filter (\<lambda>k. \<not> present env k s) (k # ks)) else 0) = m + w"
      by (simp add: m_def w_def q1_def)
    have "r = (if \<forall>k \<in> set (k # ks). keyHashSlot k = q_slot q
          then Some (q\<lparr>q_multiple := q_multiple q \<or> (\<exists>k \<in> set (k # ks). k \<noteq> k0), q_missing := q_missing q + (m + w)\<rparr>) else None)"
      using r(3) True Cons.prems by (simp add: q2_def q1_def disj_assoc add.assoc)
    then show ?thesis using run looked_trans[OF m(2) r(2)] unfolding mw by blast
  qed
qed simp

text \<open>All the commands of a transaction are one list of keys.\<close>

fun commands_keys :: "(redisCommand \<times> bytes list) list \<Rightarrow> bytes list option" where
  "commands_keys [] = Some []"
| "commands_keys ((cmd, argv) # ms) = do {
     idx \<leftarrow> getKeysFromCommand cmd argv;
     ks \<leftarrow> keys_at argv idx;
     ks' \<leftarrow> commands_keys ms;
     Some (ks @ ks')
   }"

lemma query_keys_append:
  "query_keys env (xs @ ys) q s = do {
     (r, s1) \<leftarrow> query_keys env xs q s;
     (case r of None \<Rightarrow> Some (None, s1) | Some q1 \<Rightarrow> query_keys env ys q1 s1) }"
proof (induction xs arbitrary: q s)
  case (Cons x xs)
  show ?case
  proof (cases "query_slot x s q")
    case (Some r)
    then show ?thesis
    proof (cases r)
      case (Some q1)
      then show ?thesis using \<open>query_slot x s q = Some r\<close> Cons by (cases "query_missing env x q1 s") auto
    qed simp
  qed simp
qed simp

lemma query_commands_keys:
  "commands_keys ms = Some ks \<Longrightarrow> query_commands env ms q s = query_keys env ks q s"
proof (induction ms arbitrary: ks q s rule: commands_keys.induct)
  case (2 cmd argv ms)
  then obtain idx ks1 ks2 where k: "getKeysFromCommand cmd argv = Some idx" "keys_at argv idx = Some ks1"
    "commands_keys ms = Some ks2" "ks = ks1 @ ks2"
    by (auto simp: opt_bind)
  then show ?case using 2(1)[OF k(1,2) k(3)] by (cases "query_keys env ks1 q s") (auto simp: query_keys_append split: option.splits)
qed simp

subsection \<open>The route of a command\<close>

text \<open>The keys that \<open>getNodeByQuery\<close> looks at: those of the command, or of the queued commands at \<open>EXEC\<close>.\<close>

definition query_keys_of :: "redisClient \<Rightarrow> redisCommand \<Rightarrow> bytes list \<Rightarrow> bytes list option" where
  "query_keys_of c cmd argv = commands_keys (if cmd_exec cmd then cl_mstate c else [(cmd, argv)])"

text \<open>The decision as a function of the slot of the first key, the state of that slot and the presence of the keys.\<close>

definition route :: "env \<Rightarrow> redisClient \<Rightarrow> redisCommand \<Rightarrow> bytes list \<Rightarrow> server \<Rightarrow> ptr \<times> nat option \<times> redir" where
  "route env c cmd ks s =
     (let slot = keyHashSlot (hd ks);
          owner = c_slots s slot;
          migrating = (owner = myself s \<and> c_migrating_slots_to s slot \<noteq> NULL);
          importing = (\<not> migrating \<and> c_importing_slots_from s slot \<noteq> NULL);
          missing = (\<exists>k \<in> set ks. \<not> present env k s);
          asking = (cl_flags c AND REDIS_ASKING \<noteq> 0 \<or> cmd_flags cmd AND REDIS_CMD_ASKING \<noteq> 0);
          me = the (heap s (myself s))
      in if \<exists>k \<in> set ks. keyHashSlot k \<noteq> slot then (NULL, None, REDIR_CROSS_SLOT)
         else if migrating \<and> missing then (c_migrating_slots_to s slot, Some slot, REDIR_ASK)
         else if importing \<and> asking then
           (if missing \<and> (\<exists>k \<in> set ks. k \<noteq> hd ks) then (NULL, Some slot, REDIR_UNSTABLE) else (myself s, Some slot, REDIR_NONE))
         else if cl_flags c AND REDIS_READONLY \<noteq> 0 \<and> cmd_flags cmd AND REDIS_CMD_READONLY \<noteq> 0 \<and>
                 nodeIsSlave me \<and> n_slaveof me = owner
         then (myself s, Some slot, REDIR_NONE)
         else (owner, Some slot, if owner \<noteq> myself s then REDIR_MOVED else REDIR_NONE))"

lemma query_keys_all:
  assumes ok: "expires_ok s" and ks: "ks \<noteq> []" and own: "c_slots s (keyHashSlot (hd ks)) \<noteq> NULL"
  shows "\<exists>r s'. query_keys env ks query0 s = Some (r, s') \<and> looked env s s' \<and>
     (if \<exists>k \<in> set ks. keyHashSlot k \<noteq> keyHashSlot (hd ks) then r = None
      else \<exists>q. r = Some q \<and> q_slot q = keyHashSlot (hd ks) \<and> q_n q = c_slots s (keyHashSlot (hd ks)) \<and>
        (q_multiple q \<longleftrightarrow> (\<exists>k \<in> set ks. k \<noteq> hd ks)) \<and>
        (q_migrating q \<longleftrightarrow> q_n q = myself s \<and> c_migrating_slots_to s (q_slot q) \<noteq> NULL) \<and>
        (q_importing q \<longleftrightarrow> \<not> q_migrating q \<and> c_importing_slots_from s (q_slot q) \<noteq> NULL) \<and>
        (q_migrating q \<or> q_importing q \<longrightarrow> (q_missing q \<noteq> 0 \<longleftrightarrow> (\<exists>k \<in> set ks. \<not> present env k s))))"
proof -
  obtain k0 rest where k: "ks = k0 # rest" using ks by (cases ks) auto
  define slot where "slot = keyHashSlot k0"
  define mig where "mig \<longleftrightarrow> c_slots s slot = myself s \<and> c_migrating_slots_to s slot \<noteq> NULL"
  define imp where "imp \<longleftrightarrow> \<not> mig \<and> c_importing_slots_from s slot \<noteq> NULL"
  define q1 where "q1 = \<lparr>q_firstkey = Some k0, q_slot = slot, q_n = c_slots s slot, q_multiple = False,
      q_migrating = mig, q_importing = imp, q_missing = 0\<rparr>"
  have q1: "query_slot k0 s query0 = Some (Some q1)"
    using own k by (simp add: query_slot_def query0_def q1_def slot_def mig_def imp_def redisAssert_def Let_def)
  define m where "m = (if (mig \<or> imp) \<and> \<not> present env k0 s then 1 else (0 :: nat))"
  define q2 where "q2 = q1\<lparr>q_missing := m\<rparr>"
  obtain s1 where m: "query_missing env k0 q1 s = Some (q2, s1)" "looked env s s1"
    using query_missing_spec[OF ok, of env k0 q1] by (auto simp: q2_def m_def q1_def)
  have ok1: "expires_ok s1" using m(2) ok by (simp add: looked_def)
  have q2: "q_firstkey q2 = Some k0" "q_slot q2 = keyHashSlot k0" by (simp_all add: q2_def q1_def slot_def)
  define w where "w = length (filter (\<lambda>k. \<not> present env k s) rest)"
  have w: "length (filter (\<lambda>k. \<not> present env k s1) rest) = w" using m(2) by (simp add: w_def looked_def)
  obtain r s' where r: "query_keys env rest q2 s1 = Some (r, s')" "looked env s1 s'"
    "r = (if \<forall>k \<in> set rest. keyHashSlot k = q_slot q2
        then Some (q2\<lparr>q_multiple := q_multiple q2 \<or> (\<exists>k \<in> set rest. k \<noteq> k0),
           q_missing := q_missing q2 + (if q_migrating q2 \<or> q_importing q2 then w else 0)\<rparr>) else None)"
    using query_keys_rest[OF ok1 q2, of env rest] unfolding w by blast
  have run: "query_keys env ks query0 s = Some (r, s')" using k q1 m(1) r(1) by simp
  have w0: "w \<noteq> 0 \<longleftrightarrow> (\<exists>k \<in> set rest. \<not> present env k s)" by (auto simp: w_def filter_empty_conv)
  show ?thesis
  proof (cases "\<forall>k \<in> set rest. keyHashSlot k = slot")
    case True
    let ?q = "q2\<lparr>q_multiple := q_multiple q2 \<or> (\<exists>k \<in> set rest. k \<noteq> k0),
           q_missing := q_missing q2 + (if q_migrating q2 \<or> q_importing q2 then w else 0)\<rparr>"
    have "r = Some ?q" using r(3) True by (simp add: q2_def q1_def)
    moreover have "mig \<or> imp \<Longrightarrow> q_missing ?q \<noteq> 0 \<longleftrightarrow> (\<exists>k \<in> set ks. \<not> present env k s)"
      using w0 by (auto simp: k q2_def q1_def m_def)
    ultimately show ?thesis
      using run looked_trans[OF m(2) r(2)] True
      by (auto simp: k q2_def q1_def slot_def[symmetric] mig_def imp_def)
  next
    case False
    then show ?thesis using run looked_trans[OF m(2) r(2)] r(3) k by (auto simp: q2_def q1_def slot_def)
  qed
qed

lemma getNodeByQuery_route:
  assumes ok: "expires_ok s" and ks: "query_keys_of c cmd argv = Some ks" "ks \<noteq> []"
    and own: "c_slots s (keyHashSlot (hd ks)) \<noteq> NULL" and me: "heap s (myself s) = Some me"
    and multi: "cmd_exec cmd \<longrightarrow> cl_flags c AND REDIS_MULTI \<noteq> 0"
  shows "returns (getNodeByQuery env c cmd argv s) (\<lambda>(r, s'). r = route env c cmd ks s \<and> looked env s s')"
proof -
  have cmds: "query_commands env (if cmd_exec cmd then cl_mstate c else [(cmd, argv)]) query0 s = query_keys env ks query0 s"
    using query_commands_keys ks(1) by (simp add: query_keys_of_def)
  obtain r s' where r: "query_keys env ks query0 s = Some (r, s')" "looked env s s'" and
    q: "if \<exists>k \<in> set ks. keyHashSlot k \<noteq> keyHashSlot (hd ks) then r = None
      else \<exists>q. r = Some q \<and> q_slot q = keyHashSlot (hd ks) \<and> q_n q = c_slots s (keyHashSlot (hd ks)) \<and>
        (q_multiple q \<longleftrightarrow> (\<exists>k \<in> set ks. k \<noteq> hd ks)) \<and>
        (q_migrating q \<longleftrightarrow> q_n q = myself s \<and> c_migrating_slots_to s (q_slot q) \<noteq> NULL) \<and>
        (q_importing q \<longleftrightarrow> \<not> q_migrating q \<and> c_importing_slots_from s (q_slot q) \<noteq> NULL) \<and>
        (q_migrating q \<or> q_importing q \<longrightarrow> (q_missing q \<noteq> 0 \<longleftrightarrow> (\<exists>k \<in> set ks. \<not> present env k s)))"
    using query_keys_all[OF ok ks(2) own, of env] by blast
  note f = looked_fields[OF r(2)]
  have ex: "\<not> (cmd_exec cmd \<and> cl_flags c AND REDIS_MULTI = 0)" using multi by blast
  show ?thesis
  proof (cases "\<exists>k \<in> set ks. keyHashSlot k \<noteq> keyHashSlot (hd ks)")
    case True
    then have "getNodeByQuery env c cmd argv s = Some ((NULL, None, REDIR_CROSS_SLOT), s')"
      using q r(1) cmds ex by (simp add: getNodeByQuery_def)
    moreover have "route env c cmd ks s = (NULL, None, REDIR_CROSS_SLOT)" using True by (simp add: route_def)
    ultimately show ?thesis using r(2) by (simp add: wp)
  next
    case False
    obtain q where q: "r = Some q" "q_slot q = keyHashSlot (hd ks)" "q_n q = c_slots s (keyHashSlot (hd ks))"
        "q_multiple q \<longleftrightarrow> (\<exists>k \<in> set ks. k \<noteq> hd ks)"
        "q_migrating q \<longleftrightarrow> q_n q = myself s \<and> c_migrating_slots_to s (q_slot q) \<noteq> NULL"
        "q_importing q \<longleftrightarrow> \<not> q_migrating q \<and> c_importing_slots_from s (q_slot q) \<noteq> NULL"
        "q_migrating q \<or> q_importing q \<longrightarrow> (q_missing q \<noteq> 0 \<longleftrightarrow> (\<exists>k \<in> set ks. \<not> present env k s))"
      using q[unfolded if_not_P[OF False]] by (elim exE conjE) (rule that)
    have d: "\<exists>n code. query_decide c cmd q s' = Some (n, code) \<and> route env c cmd ks s = (n, Some (q_slot q), code)"
    proof -
      define slot where "slot = keyHashSlot (hd ks)"
      define missing where "missing \<longleftrightarrow> (\<exists>k \<in> set ks. \<not> present env k s)"
      define asking where "asking \<longleftrightarrow> cl_flags c AND REDIS_ASKING \<noteq> 0 \<or> cmd_flags cmd AND REDIS_CMD_ASKING \<noteq> 0"
      define local where "local \<longleftrightarrow> cl_flags c AND REDIS_READONLY \<noteq> 0 \<and> cmd_flags cmd AND REDIS_CMD_READONLY \<noteq> 0 \<and>
          nodeIsSlave me \<and> n_slaveof me = c_slots s slot"
      have rt: "route env c cmd ks s =
          (if q_migrating q \<and> missing then (c_migrating_slots_to s slot, Some slot, REDIR_ASK)
           else if q_importing q \<and> asking then
             (if missing \<and> q_multiple q then (NULL, Some slot, REDIR_UNSTABLE) else (myself s, Some slot, REDIR_NONE))
           else if local then (myself s, Some slot, REDIR_NONE)
           else (c_slots s slot, Some slot, if c_slots s slot \<noteq> myself s then REDIR_MOVED else REDIR_NONE))"
        unfolding route_def Let_def slot_def[symmetric] missing_def[symmetric] asking_def[symmetric] q(4)[symmetric]
        using False q(2,3,5,6) me by (simp only: slot_def[symmetric] if_False option.sel local_def HOL.simp_thms)
      have dc: "query_decide c cmd q s' =
          Some (if q_migrating q \<and> q_missing q \<noteq> 0 then (c_migrating_slots_to s slot, REDIR_ASK)
           else if q_importing q \<and> asking then
             (if q_multiple q \<and> q_missing q \<noteq> 0 then (NULL, REDIR_UNSTABLE) else (myself s, REDIR_NONE))
           else if local then (myself s, REDIR_NONE)
           else (c_slots s slot, if c_slots s slot \<noteq> myself s then REDIR_MOVED else REDIR_NONE))"
        using me q(2,3) by (simp add: query_decide_def f deref_def asking_def slot_def local_def)
      have sl: "q_slot q = slot" using q(2) by (simp add: slot_def)
      show ?thesis
        using q(7)[folded missing_def] unfolding rt dc sl
        by (cases "q_migrating q"; cases "q_importing q \<and> asking"; cases local; cases missing) auto
    qed
    have "getNodeByQuery env c cmd argv s = query_decide c cmd q s' \<bind> (\<lambda>(n, code). Some ((n, Some (q_slot q), code), s'))"
      unfolding getNodeByQuery_def if_not_P[OF ex] using r(1) cmds q(1,3) own by simp
    then show ?thesis using d r(2) by (auto simp: wp)
  qed
qed

subsection \<open>Properties\<close>


text \<open>A server with one node, which owns every slot, moves slot 12182 (the slot of foo) to node 2 and holds the key bar only.\<close>

definition mover :: server where
  "mover = zero_server\<lparr>heap := [1 \<mapsto> newClusterNode (replicate 40 0x61) (REDIS_NODE_MYSELF OR REDIS_NODE_MASTER) 0,
       2 \<mapsto> newClusterNode (replicate 40 0x62) REDIS_NODE_MASTER 0], c_myself := 1, c_slots := (\<lambda>_. 1), c_state := CLUSTER_OK,
     c_migrating_slots_to := (\<lambda>_. 0)(12182 := 2), db0 := [[0x62, 0x61, 0x72] \<mapsto> []]\<rparr>"

definition get_command :: redisCommand where
  "get_command = \<lparr>cmd_exec = False, cmd_flags = REDIS_CMD_READONLY, getkeys_proc = None, firstkey = 1, lastkey = 1, keystep = 1\<rparr>"

definition plain_client :: redisClient where
  "plain_client = \<lparr>cl_flags = 0, cl_mstate = []\<rparr>"

lemma foo_slot: "keyHashSlot [0x66, 0x6F, 0x6F] = 12182"
  by code_simp

lemma get_keys: "query_keys_of c get_command [x, k] = Some [k]"
  by (simp add: query_keys_of_def get_command_def getKeysFromCommand_def getKeysUsingCommandTable_def table_keys.simps keys_at_def)


lemma route_local:
  assumes "route env c cmd ks s = (n, sl, code)" and "n = myself s" "n \<noteq> NULL"
  shows "(\<forall>k \<in> set ks. keyHashSlot k = keyHashSlot (hd ks)) \<and>
    (let slot = keyHashSlot (hd ks); owner = c_slots s slot in
      owner = myself s \<and> (c_migrating_slots_to s slot \<noteq> NULL \<longrightarrow> (\<forall>k \<in> set ks. present env k s)) \<or>
      c_migrating_slots_to s slot = myself s \<or>
      c_importing_slots_from s slot \<noteq> NULL \<and> (cl_flags c AND REDIS_ASKING \<noteq> 0 \<or> cmd_flags cmd AND REDIS_CMD_ASKING \<noteq> 0) \<or>
      cmd_flags cmd AND REDIS_CMD_READONLY \<noteq> 0 \<and> cl_flags c AND REDIS_READONLY \<noteq> 0 \<and>
        nodeIsSlave (the (heap s (myself s))) \<and> n_slaveof (the (heap s (myself s))) = owner)"
proof -
  define slot where "slot = keyHashSlot (hd ks)"
  define asking where "asking \<longleftrightarrow> cl_flags c AND REDIS_ASKING \<noteq> 0 \<or> cmd_flags cmd AND REDIS_CMD_ASKING \<noteq> 0"
  define local where "local \<longleftrightarrow> cl_flags c AND REDIS_READONLY \<noteq> 0 \<and> cmd_flags cmd AND REDIS_CMD_READONLY \<noteq> 0 \<and>
      nodeIsSlave (the (heap s (myself s))) \<and> n_slaveof (the (heap s (myself s))) = c_slots s slot"
  define missing where "missing \<longleftrightarrow> (\<exists>k \<in> set ks. \<not> present env k s)"
  define mig where "mig \<longleftrightarrow> c_slots s slot = myself s \<and> c_migrating_slots_to s slot \<noteq> NULL"
  define imp where "imp \<longleftrightarrow> \<not> mig \<and> c_importing_slots_from s slot \<noteq> NULL"
  have one: "\<not> (\<exists>k \<in> set ks. keyHashSlot k \<noteq> slot)"
  proof
    assume "\<exists>k \<in> set ks. keyHashSlot k \<noteq> slot"
    then have "route env c cmd ks s = (NULL, None, REDIR_CROSS_SLOT)" by (simp add: route_def slot_def)
    then show False using assms by simp
  qed
  have "(if mig \<and> missing then (c_migrating_slots_to s slot, Some slot, REDIR_ASK)
         else if imp \<and> asking then
           (if missing \<and> (\<exists>k \<in> set ks. k \<noteq> hd ks) then (NULL, Some slot, REDIR_UNSTABLE) else (myself s, Some slot, REDIR_NONE))
         else if local then (myself s, Some slot, REDIR_NONE)
         else (c_slots s slot, Some slot, if c_slots s slot \<noteq> myself s then REDIR_MOVED else REDIR_NONE)) = (n, sl, code)"
    using assms(1) unfolding route_def Let_def slot_def[symmetric] asking_def[symmetric] missing_def[symmetric]
      mig_def imp_def local_def if_not_P[OF one] .
  then have "(mig \<and> missing \<and> c_migrating_slots_to s slot = myself s) \<or> (imp \<and> asking) \<or> local \<or>
      (\<not> (mig \<and> missing) \<and> c_slots s slot = myself s)"
    using assms(2,3) by (cases "mig \<and> missing"; cases "imp \<and> asking"; cases local) auto
  then show ?thesis
    using one unfolding Let_def slot_def[symmetric] asking_def[symmetric]
    by (auto simp: mig_def imp_def missing_def local_def)
qed

text \<open>Property C11. What a node executes. A client's command with keys proceeds here only when the cluster is up, all its keys are of
  one slot, and this node owns the slot, with all keys still here if the slot is being migrated away (to some other node),
  or imports the slot and was asked to serve it, or is a replica of the owner and the command and the client are read only.\<close>

theorem proceed_safe:
  assumes run: "processCommand_cluster env c cmd argv s = Some ((Proceed, c'), s')"
    and client: "cl_flags c AND REDIS_MASTER = 0" and keyed: "getkeys_proc cmd \<noteq> None \<or> firstkey cmd \<noteq> 0"
    and ks: "query_keys_of c cmd argv = Some ks" "ks \<noteq> []" and ok: "expires_ok s"
    and own: "c_slots s (keyHashSlot (hd ks)) \<noteq> NULL" and me: "heap s (myself s) = Some me"
    and multi: "cmd_exec cmd \<longrightarrow> cl_flags c AND REDIS_MULTI \<noteq> 0"
    and mig: "c_migrating_slots_to s (keyHashSlot (hd ks)) \<noteq> myself s"
  shows "c_state s = CLUSTER_OK \<and> (\<forall>k \<in> set ks. keyHashSlot k = keyHashSlot (hd ks)) \<and>
    (let slot = keyHashSlot (hd ks); owner = c_slots s slot in
      owner = myself s \<and> (c_migrating_slots_to s slot \<noteq> NULL \<longrightarrow> (\<forall>k \<in> set ks. present env k s)) \<or>
      c_importing_slots_from s slot \<noteq> NULL \<and> (cl_flags c AND REDIS_ASKING \<noteq> 0 \<or> cmd_flags cmd AND REDIS_CMD_ASKING \<noteq> 0) \<or>
      cmd_flags cmd AND REDIS_CMD_READONLY \<noteq> 0 \<and> cl_flags c AND REDIS_READONLY \<noteq> 0 \<and> nodeIsSlave me \<and> n_slaveof me = owner)"
proof -
  obtain n sl code s1 where g: "getNodeByQuery env c cmd argv s = Some ((n, sl, code), s1)"
    "(n, sl, code) = route env c cmd ks s" "looked env s s1"
    using returnsD[OF getNodeByQuery_route[OF ok ks own me multi, of env]] by auto
  have up: "c_state s = CLUSTER_OK"
    using run client keyed by (auto simp: processCommand_cluster_def split: if_splits)
  have "n \<noteq> NULL \<and> n = myself s1"
    using run client keyed up g(1) by (auto simp: processCommand_cluster_def opt_bind split: if_splits)
  then have "n \<noteq> NULL" "n = myself s" using looked_fields(4)[OF g(3)] by simp_all
  from route_local[OF g(2)[symmetric] this(2,1)] show ?thesis
    using up mig me by (auto simp: Let_def)
qed

theorem proceed_safe_witness:
  "\<exists>s'. processCommand_cluster \<lparr>loading = False, lua_time_start = None\<rparr> plain_client get_command
      [[0x47, 0x45, 0x54], [0x62, 0x61, 0x72]] mover = Some ((Proceed, plain_client), s') \<and>
    c_slots mover (keyHashSlot [0x62, 0x61, 0x72]) = myself mover"
proof -
  have b: "keyHashSlot [0x62, 0x61, 0x72] = 5061" by code_simp
  have me: "heap mover (myself mover) = Some (newClusterNode (replicate 40 0x61) (REDIS_NODE_MYSELF OR REDIS_NODE_MASTER) 0)"
    by (simp add: mover_def)
  have f: "c_slots mover 5061 = 1" "myself mover = 1" "c_migrating_slots_to mover 5061 = 0" "c_importing_slots_from mover 5061 = 0"
    "c_state mover = CLUSTER_OK" by (simp_all add: mover_def zero_server_def)
  have e: "expires_ok mover" by (simp add: expires_ok_def mover_def zero_server_def)
  have "query_commands \<lparr>loading = False, lua_time_start = None\<rparr> [(get_command, [[0x47, 0x45, 0x54], [0x62, 0x61, 0x72]])] query0 mover =
      query_keys \<lparr>loading = False, lua_time_start = None\<rparr> [[0x62, 0x61, 0x72]] query0 mover"
  proof (rule query_commands_keys)
    have "cmd_exec get_command = False" by (simp add: get_command_def)
    then show "commands_keys [(get_command, [[0x47, 0x45, 0x54], [0x62, 0x61, 0x72]])] = Some [[0x62, 0x61, 0x72]]"
      using get_keys[of plain_client "[0x47, 0x45, 0x54]" "[0x62, 0x61, 0x72]"] by (simp only: query_keys_of_def if_False)
  qed
  then have run: "processCommand_cluster \<lparr>loading = False, lua_time_start = None\<rparr> plain_client get_command
      [[0x47, 0x45, 0x54], [0x62, 0x61, 0x72]] mover = Some ((Proceed, plain_client), mover)"
    using f b me
    by (simp add: processCommand_cluster_def getNodeByQuery_def query_slot_def query_missing_def query0_def query_decide_def
        redisAssert_def deref_def get_command_def plain_client_def)
  have "c_state mover = CLUSTER_OK \<and> c_slots mover (keyHashSlot (hd [[0x62, 0x61, 0x72]])) = myself mover"
    using proceed_safe[OF run _ _ get_keys _ e _ me] f
    by (simp add: b get_command_def plain_client_def)
  then show ?thesis using run by auto
qed

lemma sort_scan_first: "keys \<noteq> [] \<Longrightarrow> sort_scan argv i keys \<noteq> [] \<and> hd (sort_scan argv i keys) = hd keys"
proof (induction argv i keys rule: sort_scan.induct)
  case (1 argv i keys)
  show ?case
  proof (cases "i < length argv")
    case True
    then show ?thesis using 1 by (subst (1 2) sort_scan.simps) simp
  qed (use 1 in \<open>simp add: sort_scan.simps\<close>)
qed

text \<open>SORT with STORE. Only the first argument counts as a key of SORT: the destination of STORE is stored in the
  array of keys but never counted, so a SORT that writes a key of another slot is executed here without a redirection.\<close>

theorem sort_store_unchecked:
  assumes sort: "getkeys_proc cmd = Some SortGetKeys" "\<not> cmd_exec cmd" "2 \<le> length argv"
    and up: "c_state s = CLUSTER_OK" "cl_flags c AND REDIS_MASTER = 0" "heap s (myself s) \<noteq> None" "myself s \<noteq> NULL"
    and slot: "c_slots s (keyHashSlot (argv ! 1)) = myself s" "c_migrating_slots_to s (keyHashSlot (argv ! 1)) = NULL"
      "c_importing_slots_from s (keyHashSlot (argv ! 1)) = NULL"
  shows "query_keys_of c cmd argv = Some [argv ! 1] \<and> processCommand_cluster env c cmd argv s = Some ((Proceed, c), s)"
proof -
  have "take 1 (sort_scan argv 2 [1]) = [1]"
    using sort_scan_first[of "[1]" argv 2] by (cases "sort_scan argv 2 [1]") simp_all
  then have idx: "getKeysFromCommand cmd argv = Some [1]" using sort(1) by (simp add: getKeysFromCommand_def sortGetKeys_def)
  have k: "commands_keys [(cmd, argv)] = Some [argv ! 1]" using idx sort(3) by (simp add: keys_at_def)
  note q = query_commands_keys[OF k]
  show ?thesis
    using assms k
    by (auto simp: query_keys_of_def processCommand_cluster_def getNodeByQuery_def q query_slot_def query_missing_def query0_def
        query_decide_def redisAssert_def deref_def simp del: query_commands.simps commands_keys.simps)
qed

definition sort_command :: redisCommand where
  "sort_command = get_command\<lparr>cmd_flags := 5, getkeys_proc := Some SortGetKeys\<rparr>"

text \<open>SORT bar STORE foo: bar is of slot 5061, foo of slot 12182.\<close>

theorem sort_store_unchecked_witness:
  "processCommand_cluster \<lparr>loading = False, lua_time_start = None\<rparr> plain_client sort_command
     [str ''sort'', [0x62, 0x61, 0x72], str ''store'', [0x66, 0x6F, 0x6F]] mover = Some ((Proceed, plain_client), mover) \<and>
   keyHashSlot [0x62, 0x61, 0x72] \<noteq> keyHashSlot [0x66, 0x6F, 0x6F]"
proof -
  have b: "keyHashSlot [0x62, 0x61, 0x72] = 5061" by code_simp
  have "getkeys_proc sort_command = Some SortGetKeys" "\<not> cmd_exec sort_command"
    "c_state mover = CLUSTER_OK" "cl_flags plain_client AND REDIS_MASTER = 0" "heap mover (myself mover) \<noteq> None" "myself mover \<noteq> NULL"
    "c_slots mover 5061 = myself mover" "c_migrating_slots_to mover 5061 = NULL" "c_importing_slots_from mover 5061 = NULL"
    by (simp_all add: sort_command_def get_command_def mover_def plain_client_def zero_server_def)
  then show ?thesis
    using sort_store_unchecked[of sort_command "[str ''sort'', [0x62, 0x61, 0x72], str ''store'', [0x66, 0x6F, 0x6F]]" mover plain_client]
    by (simp add: b foo_slot)
qed



end
