(* ===== verification/ClusterSlots.thy ===== *)
theory ClusterSlots
  imports ClusterState
begin

text \<open>
  Slot ownership (cluster.c, "Slots management"): the table \<open>c_slots\<close> from slots to owners and,
  redundantly, the bitmap and the counter in every node. \<open>slots_inv\<close> says that the two
  views agree; every operation of this theory keeps it, and under it the assertion inside
  \<open>clusterDelSlot\<close> never fires.
\<close>

subsection \<open>Operations\<close>

definition clusterNodeSetSlotBit :: "clusterNode \<Rightarrow> nat \<Rightarrow> bool \<times> clusterNode" where
  "clusterNodeSetSlotBit n slot =
     (let old = bitmapTestBit (n_slots n) slot;
          n1 = n\<lparr>n_slots := bitmapSetBit (n_slots n) slot\<rparr>;
          n2 = (if \<not> old then n1\<lparr>n_numslots := n_numslots n1 + 1\<rparr> else n1)
      in (old, n2))"

definition clusterNodeClearSlotBit :: "clusterNode \<Rightarrow> nat \<Rightarrow> bool \<times> clusterNode" where
  "clusterNodeClearSlotBit n slot =
     (let old = bitmapTestBit (n_slots n) slot;
          n1 = n\<lparr>n_slots := bitmapClearBit (n_slots n) slot\<rparr>;
          n2 = (if old then n1\<lparr>n_numslots := n_numslots n1 - 1\<rparr> else n1)
      in (old, n2))"

definition clusterNodeGetSlotBit :: "clusterNode \<Rightarrow> nat \<Rightarrow> bool" where
  "clusterNodeGetSlotBit n slot = bitmapTestBit (n_slots n) slot"

definition clusterAddSlot :: "ptr \<Rightarrow> nat \<Rightarrow> server \<Rightarrow> (retval \<times> server) option" where
  "clusterAddSlot n slot s =
     (if c_slots s slot \<noteq> NULL then Some (REDIS_ERR, s)
      else do {
        s1 \<leftarrow> node_upd n (\<lambda>nd. snd (clusterNodeSetSlotBit nd slot)) s;
        Some (REDIS_OK, s1\<lparr>c_slots := (c_slots s1)(slot := n)\<rparr>)
      })"

definition clusterDelSlot :: "nat \<Rightarrow> server \<Rightarrow> (retval \<times> server) option" where
  "clusterDelSlot slot s =
     (let n = c_slots s slot
      in if n = NULL then Some (REDIS_ERR, s)
         else do {
           nd \<leftarrow> deref (heap s) n;
           s1 \<leftarrow> node_upd n (\<lambda>nd. snd (clusterNodeClearSlotBit nd slot)) s;
           redisAssert (fst (clusterNodeClearSlotBit nd slot));
           Some (REDIS_OK, s1\<lparr>c_slots := (c_slots s1)(slot := NULL)\<rparr>)
         })"

text \<open>The counter \<open>deleted\<close> is advanced for every slot, deleted or not, as in the code.\<close>

definition clusterDelNodeSlots_step :: "ptr \<Rightarrow> nat \<Rightarrow> int \<times> server \<Rightarrow> (int \<times> server) option" where
  "clusterDelNodeSlots_step node j st = (case st of (deleted, s) \<Rightarrow> do {
     nd \<leftarrow> deref (heap s) node;
     s1 \<leftarrow> (if clusterNodeGetSlotBit nd j then map_option snd (clusterDelSlot j s) else Some s);
     Some (deleted + 1, s1)
   })"

definition clusterDelNodeSlots :: "ptr \<Rightarrow> server \<Rightarrow> (int \<times> server) option" where
  "clusterDelNodeSlots node s =
     foldM (clusterDelNodeSlots_step node) [0..<REDIS_CLUSTER_SLOTS] (0, s)"

definition clusterCloseAllSlots :: "server \<Rightarrow> server" where
  "clusterCloseAllSlots s =
     s\<lparr>c_migrating_slots_to := (\<lambda>_. NULL), c_importing_slots_from := (\<lambda>_. NULL)\<rparr>"

subsection \<open>The invariant\<close>

definition node_slot_count :: "clusterNode \<Rightarrow> nat" where
  "node_slot_count n = card {j. j < REDIS_CLUSTER_SLOTS \<and> bitmapTestBit (n_slots n) j}"

definition node_agrees :: "(nat \<Rightarrow> ptr) \<Rightarrow> ptr \<Rightarrow> clusterNode \<Rightarrow> bool" where
  "node_agrees sl p n \<longleftrightarrow>
     (\<forall>j<REDIS_CLUSTER_SLOTS. bitmapTestBit (n_slots n) j \<longleftrightarrow> sl j = p) \<and>
     n_numslots n = int (node_slot_count n)"

definition slots_agree :: "(nat \<Rightarrow> ptr) \<Rightarrow> (ptr \<Rightarrow> clusterNode option) \<Rightarrow> bool" where
  "slots_agree sl h \<longleftrightarrow> h NULL = None \<and>
     (\<forall>j<REDIS_CLUSTER_SLOTS. sl j \<noteq> NULL \<longrightarrow> h (sl j) \<noteq> None) \<and>
     (\<forall>p n. h p = Some n \<longrightarrow> node_agrees sl p n)"

definition slots_inv :: "server \<Rightarrow> bool" where
  "slots_inv s \<longleftrightarrow> slots_agree (c_slots s) (heap s)"

lemma slots_agree_node: "slots_agree sl h \<Longrightarrow> h p = Some n \<Longrightarrow> node_agrees sl p n"
  by (simp add: slots_agree_def)

lemma slots_agree_alloc: "slots_agree sl h \<Longrightarrow> j < REDIS_CLUSTER_SLOTS \<Longrightarrow> sl j \<noteq> 0 \<Longrightarrow> h (sl j) \<noteq> None"
  by (simp add: slots_agree_def)

lemma slots_agree_null: "slots_agree sl h \<Longrightarrow> h 0 = None"
  by (simp add: slots_agree_def)

lemma slots_agree_nonnull: "slots_agree sl h \<Longrightarrow> h p = Some n \<Longrightarrow> p \<noteq> 0"
  by (metis slots_agree_null option.distinct(1))

lemma slots_agree_owner:
  "slots_agree sl h \<Longrightarrow> h p = Some n \<Longrightarrow> j < REDIS_CLUSTER_SLOTS \<Longrightarrow>
     bitmapTestBit (n_slots n) j \<longleftrightarrow> sl j = p"
  by (drule (1) slots_agree_node) (simp add: node_agrees_def)

lemma slots_agree_numslots: "slots_agree sl h \<Longrightarrow> h p = Some n \<Longrightarrow> n_numslots n = int (node_slot_count n)"
  by (drule (1) slots_agree_node) (simp add: node_agrees_def)

lemma node_agrees_numslots_zero:
  assumes "node_agrees sl p n"
  shows "n_numslots n = 0 \<longleftrightarrow> (\<forall>j<REDIS_CLUSTER_SLOTS. sl j \<noteq> p)"
proof -
  have "n_numslots n = 0 \<longleftrightarrow> {j. j < REDIS_CLUSTER_SLOTS \<and> bitmapTestBit (n_slots n) j} = {}"
    using assms by (simp add: node_agrees_def node_slot_count_def)
  also have "\<dots> \<longleftrightarrow> (\<forall>j<REDIS_CLUSTER_SLOTS. sl j \<noteq> p)"
    using assms by (auto simp: node_agrees_def)
  finally show ?thesis .
qed

text \<open>Under the invariant a node has no slots exactly when its counter is zero.\<close>

lemmas slots_agree_numslots_zero = node_agrees_numslots_zero[OF slots_agree_node]

text \<open>Writes that leave the slots of the node alone keep the agreement.\<close>

lemma node_agrees_cong:
  "n_slots n' = n_slots n \<Longrightarrow> n_numslots n' = n_numslots n \<Longrightarrow> node_agrees sl p n' = node_agrees sl p n"
  by (simp add: node_agrees_def node_slot_count_def)

lemma slots_agree_upd_node:
  assumes "slots_agree sl h" and "p \<noteq> 0" and "node_agrees sl p n'"
  shows "slots_agree sl (h(p \<mapsto> n'))"
  using assms by (simp add: slots_agree_def)

lemma slots_agree_upd:
  assumes "slots_agree sl h" and "h p = Some n"
    and "n_slots n' = n_slots n" and "n_numslots n' = n_numslots n"
  shows "slots_agree sl (h(p \<mapsto> n'))"
proof (rule slots_agree_upd_node[OF assms(1)])
  show "p \<noteq> 0" by (rule slots_agree_nonnull[OF assms(1,2)])
  show "node_agrees sl p n'"
    using slots_agree_node[OF assms(1,2)] node_agrees_cong[OF assms(3,4)] by simp
qed

lemma slots_agree_new:
  assumes inv: "slots_agree sl h" and p: "p \<noteq> 0" "h p = None"
    and n: "n_slots n = zero_bitmap" "n_numslots n = 0"
  shows "slots_agree sl (h(p \<mapsto> n))"
proof (rule slots_agree_upd_node[OF inv p(1)])
  have "\<forall>j<REDIS_CLUSTER_SLOTS. sl j \<noteq> p"
    using slots_agree_alloc[OF inv] p by metis
  then show "node_agrees sl p n" using n
    by (simp add: node_agrees_def node_slot_count_def)
qed

lemma slots_agree_free:
  assumes "slots_agree sl h" and "h p = Some n" and "n_numslots n = 0"
  shows "slots_agree sl (h(p := None))"
  using assms slots_agree_numslots_zero[OF assms(1,2)] by (simp add: slots_agree_def)

text \<open>The part of the state the invariant looks at. Operations that keep the view keep the invariant;
  the facts \<open>op s = Some s' \<Longrightarrow> slots_view s' = slots_view s\<close> are collected in \<open>keeps_slots\<close>.\<close>

definition node_slots_view :: "clusterNode \<Rightarrow> bitmap \<times> int" where
  "node_slots_view n = (n_slots n, n_numslots n)"

definition slots_view :: "server \<Rightarrow> (nat \<Rightarrow> ptr) \<times> (ptr \<Rightarrow> (bitmap \<times> int) option)" where
  "slots_view s = (c_slots s, \<lambda>p. map_option node_slots_view (heap s p))"

named_theorems keeps_slots \<comment> \<open>operations that do not change slot ownership\<close>

lemma slots_view_node:
  assumes "slots_view s = slots_view t"
  shows "map_option node_slots_view (heap s p) = map_option node_slots_view (heap t p)"
  using assms by (simp add: slots_view_def fun_eq_iff)

lemma slots_view_inv:
  assumes view: "slots_view s' = slots_view s" and inv: "slots_inv s"
  shows "slots_inv s'"
proof -
  have sl: "c_slots s' = c_slots s" using view by (simp add: slots_view_def)
  have node: "\<exists>n. heap s p = Some n \<and> n_slots n' = n_slots n \<and> n_numslots n' = n_numslots n"
    if "heap s' p = Some n'" for p n'
    using slots_view_node[OF view, of p] that by (cases "heap s p") (auto simp: node_slots_view_def)
  have none: "heap s' p = None \<longleftrightarrow> heap s p = None" for p
    using slots_view_node[OF view, of p] by (cases "heap s p"; cases "heap s' p") auto
  show ?thesis
    using inv unfolding slots_inv_def slots_agree_def sl none
    by (metis node node_agrees_cong)
qed

lemma slots_view_upd:
  "heap s p = Some n \<Longrightarrow> n_slots n' = n_slots n \<Longrightarrow> n_numslots n' = n_numslots n \<Longrightarrow>
     slots_view (s\<lparr>heap := (heap s)(p \<mapsto> n')\<rparr>) = slots_view s"
  by (auto simp: slots_view_def node_slots_view_def fun_eq_iff)

lemma slots_view_node_upd [keeps_slots]:
  assumes "node_upd p f s = Some s'"
    and "\<And>n. n_slots (f n) = n_slots n" and "\<And>n. n_numslots (f n) = n_numslots n"
  shows "slots_view s' = slots_view s"
  using assms by (auto simp: node_upd_def slots_view_upd split: option.splits)

lemma slots_view_simps [simp]:
  "slots_view (s\<lparr>c_nodes := d\<rparr>) = slots_view s"
  "slots_view (s\<lparr>c_nodes_black_list := b\<rparr>) = slots_view s"
  "slots_view (s\<lparr>links := l\<rparr>) = slots_view s"
  "slots_view (s\<lparr>outbox := ob\<rparr>) = slots_view s"
  "slots_view (do_log e s) = slots_view s"
  "slots_view (clusterDoBeforeSleep f s) = slots_view s"
  "slots_view (clusterCloseAllSlots s) = slots_view s"
  by (simp_all add: slots_view_def do_log_def clusterDoBeforeSleep_def clusterCloseAllSlots_def)

subsection \<open>Setting and clearing one bit\<close>

lemma node_agrees_other:
  "node_agrees sl q m \<Longrightarrow> sl j \<noteq> q \<Longrightarrow> p \<noteq> q \<Longrightarrow> node_agrees (sl(j := p)) q m"
  by (simp add: node_agrees_def)

lemma node_agrees_set:
  assumes n: "node_agrees sl p n" and j: "j < REDIS_CLUSTER_SLOTS" and ne: "sl j \<noteq> p"
  shows "node_agrees (sl(j := p)) p (snd (clusterNodeSetSlotBit n j))"
proof -
  have nb: "\<not> bitmapTestBit (n_slots n) j" using n j ne by (simp add: node_agrees_def)
  then have "node_slot_count (snd (clusterNodeSetSlotBit n j)) = node_slot_count n + 1"
    using bm.card_set1[OF j, of "n_slots n"] by (simp add: clusterNodeSetSlotBit_def node_slot_count_def)
  with n nb show ?thesis
    by (auto simp: node_agrees_def clusterNodeSetSlotBit_def)
qed

lemma node_agrees_clear:
  assumes n: "node_agrees sl p n" and j: "j < REDIS_CLUSTER_SLOTS" and e: "sl j = p" and q: "q \<noteq> p"
  shows "node_agrees (sl(j := q)) p (snd (clusterNodeClearSlotBit n j))"
proof -
  have b: "bitmapTestBit (n_slots n) j" using n j e by (simp add: node_agrees_def)
  have pos: "0 < node_slot_count n" unfolding node_slot_count_def by (rule bm.card_pos[OF j b])
  have "node_slot_count (snd (clusterNodeClearSlotBit n j)) = node_slot_count n - 1"
    using bm.card_clear1[OF j, of "n_slots n"] b by (simp add: clusterNodeClearSlotBit_def node_slot_count_def)
  with n b pos q show ?thesis
    by (auto simp: node_agrees_def clusterNodeClearSlotBit_def)
qed

lemma slots_agree_add:
  assumes inv: "slots_agree sl h" and n: "h p = Some n" and j: "j < REDIS_CLUSTER_SLOTS" and free: "sl j = 0"
  shows "slots_agree (sl(j := p)) (h(p \<mapsto> snd (clusterNodeSetSlotBit n j)))"
  using slots_agree_nonnull[OF inv n] slots_agree_nonnull[OF inv] inv n free
  by (auto simp: slots_agree_def node_agrees_set[OF _ j] intro: node_agrees_other)

lemma slots_agree_del:
  assumes inv: "slots_agree sl h" and n: "h p = Some n" and j: "j < REDIS_CLUSTER_SLOTS" and p: "sl j = p"
  shows "slots_agree (sl(j := 0)) (h(p \<mapsto> snd (clusterNodeClearSlotBit n j)))"
  using slots_agree_nonnull[OF inv n] slots_agree_nonnull[OF inv] inv n p
  by (auto simp: slots_agree_def node_agrees_clear[OF _ j] intro: node_agrees_other)

lemma slots_agree_clear_old:
  assumes inv: "slots_agree sl h" and n: "h p = Some n" and j: "j < REDIS_CLUSTER_SLOTS" and p: "sl j = p"
  shows "fst (clusterNodeClearSlotBit n j)"
  using slots_agree_owner[OF inv n j] p by (simp add: clusterNodeClearSlotBit_def)

subsection \<open>What the operations do\<close>

text \<open>The frame of the slot operations: they write the slot table, and the bitmap and counter of
  nodes, and nothing else.\<close>

definition node_but_slots :: "clusterNode \<Rightarrow> clusterNode" where
  "node_but_slots n = n\<lparr>n_slots := zero_bitmap, n_numslots := 0\<rparr>"

definition but_slots :: "server \<Rightarrow> server" where
  "but_slots s = s\<lparr>c_slots := (\<lambda>_. NULL), heap := (\<lambda>p. map_option node_but_slots (heap s p))\<rparr>"

lemma node_but_slots_simps:
  assumes "node_but_slots n = node_but_slots n'"
  shows "n_flags n = n_flags n'" "n_name n = n_name n'" "n_configEpoch n = n_configEpoch n'"
    "n_slaveof n = n_slaveof n'" "n_slaves n = n_slaves n'" "n_link n = n_link n'"
    "n_ip n = n_ip n'" "n_port n = n_port n'" "n_fail_reports n = n_fail_reports n'"
  using assms by (cases n; cases n'; simp add: node_but_slots_def)+

lemma but_slots_heap:
  assumes "but_slots s = but_slots s'"
  shows "map_option node_but_slots (heap s p) = map_option node_but_slots (heap s' p)"
  using arg_cong[OF assms, of heap] by (simp add: but_slots_def fun_eq_iff)

lemma but_slots_alloc:
  assumes "but_slots s = but_slots s'"
  shows "heap s p = None \<longleftrightarrow> heap s' p = None"
  using but_slots_heap[OF assms, of p] by (cases "heap s p"; cases "heap s' p") auto

lemma but_slots_node:
  assumes "but_slots s = but_slots s'" and "heap s p = Some n"
  shows "\<exists>n'. heap s' p = Some n' \<and> node_but_slots n = node_but_slots n'"
  using but_slots_heap[OF assms(1), of p] assms(2) by (cases "heap s' p") auto

lemma but_slots_upd:
  assumes "heap s p = Some n" and "node_but_slots n' = node_but_slots n"
  shows "but_slots (s\<lparr>heap := (heap s)(p \<mapsto> n'), c_slots := sl\<rparr>) = but_slots s"
  using assms by (simp add: but_slots_def fun_eq_iff)

lemma node_but_slots_set: "node_but_slots (snd (clusterNodeSetSlotBit n j)) = node_but_slots n"
  by (simp add: node_but_slots_def clusterNodeSetSlotBit_def Let_def)

lemma node_but_slots_clear: "node_but_slots (snd (clusterNodeClearSlotBit n j)) = node_but_slots n"
  by (simp add: node_but_slots_def clusterNodeClearSlotBit_def Let_def)

lemma clusterAddSlot_spec:
  assumes "slots_inv s" and "slot < REDIS_CLUSTER_SLOTS" and "heap s n \<noteq> None"
  shows "returns (clusterAddSlot n slot s) (\<lambda>(r, s'). slots_inv s' \<and> but_slots s' = but_slots s \<and>
     (if c_slots s slot \<noteq> NULL then r = REDIS_ERR \<and> s' = s
      else r = REDIS_OK \<and> c_slots s' = (c_slots s)(slot := n)))"
proof (cases "c_slots s slot = 0")
  case True
  obtain nd where nd: "heap s n = Some nd" using assms(3) by auto
  show ?thesis
    using True assms nd slots_agree_add[of "c_slots s" "heap s" n nd slot]
    by (simp add: clusterAddSlot_def wp slots_inv_def but_slots_upd node_but_slots_set)
next
  case False
  then show ?thesis using assms by (simp add: clusterAddSlot_def wp)
qed

lemma clusterDelSlot_spec:
  assumes "slots_inv s" and "slot < REDIS_CLUSTER_SLOTS"
  shows "returns (clusterDelSlot slot s) (\<lambda>(r, s'). slots_inv s' \<and> but_slots s' = but_slots s \<and>
     c_slots s' = (c_slots s)(slot := NULL) \<and>
     (if c_slots s slot = NULL then r = REDIS_ERR \<and> s' = s else r = REDIS_OK))"
proof (cases "c_slots s slot = 0")
  case True
  then show ?thesis using assms by (simp add: clusterDelSlot_def wp fun_upd_idem)
next
  case False
  obtain nd where nd: "heap s (c_slots s slot) = Some nd"
    using assms False slots_agree_alloc by (fastforce simp: slots_inv_def)
  show ?thesis
    using False assms nd slots_agree_del[of "c_slots s" "heap s" "c_slots s slot" nd slot]
      slots_agree_clear_old[of "c_slots s" "heap s" "c_slots s slot" nd slot]
    by (simp add: clusterDelSlot_def wp slots_inv_def but_slots_upd node_but_slots_clear)
qed

lemma clusterDelNodeSlots_step_spec:
  assumes "slots_inv s" and "j < REDIS_CLUSTER_SLOTS" and "heap s p = Some n"
  shows "returns (clusterDelNodeSlots_step p j (d, s)) (\<lambda>(d', s'). slots_inv s' \<and>
     but_slots s' = but_slots s \<and> d' = d + 1 \<and>
     c_slots s' = (if c_slots s j = p then (c_slots s)(j := NULL) else c_slots s))"
proof -
  have owner: "bitmapTestBit (n_slots n) j \<longleftrightarrow> c_slots s j = p"
    using assms slots_agree_owner by (simp add: slots_inv_def)
  show ?thesis
  proof (cases "c_slots s j = p")
    case True
    show ?thesis
      using returns_mono[OF clusterDelSlot_spec[OF assms(1,2)]] True owner assms(3)
      by (auto simp: clusterDelNodeSlots_step_def clusterNodeGetSlotBit_def wp intro!: returns_mono[OF clusterDelSlot_spec[OF assms(1,2)]])
  next
    case False
    then show ?thesis using owner assms
      by (simp add: clusterDelNodeSlots_step_def clusterNodeGetSlotBit_def wp)
  qed
qed

lemma clusterDelNodeSlots_spec:
  assumes inv: "slots_inv s" and p: "heap s p \<noteq> None"
  shows "returns (clusterDelNodeSlots p s) (\<lambda>(d, s'). slots_inv s' \<and> but_slots s' = but_slots s \<and>
     d = int REDIS_CLUSTER_SLOTS \<and>
     (\<forall>j<REDIS_CLUSTER_SLOTS. c_slots s' j = (if c_slots s j = p then NULL else c_slots s j)))"
proof -
  define I where "I j st = (case st of (d, s') \<Rightarrow> slots_inv s' \<and> but_slots s' = but_slots s \<and> d = int j \<and>
     c_slots s' = (\<lambda>k. if k < j \<and> c_slots s k = p then NULL else c_slots s k))" for j and st :: "int \<times> server"
  have "returns (clusterDelNodeSlots p s) (I REDIS_CLUSTER_SLOTS)"
    unfolding clusterDelNodeSlots_def
  proof (rule returns_foldM_upt)
    show "I 0 (0, s)" using inv by (simp add: I_def)
  next
    fix j st assume j: "j < REDIS_CLUSTER_SLOTS" and I: "I j st"
    obtain d s1 where st: "st = (d, s1)" by (cases st)
    from I st have s1: "slots_inv s1" "but_slots s1 = but_slots s" by (auto simp: I_def)
    obtain n where n: "heap s1 p = Some n"
      using but_slots_alloc[OF s1(2), of p] p by auto
    show "returns (clusterDelNodeSlots_step p j st) (I (Suc j))"
      unfolding st
      by (rule returns_mono[OF clusterDelNodeSlots_step_spec[OF s1(1) j n]])
        (use I st in \<open>auto simp: I_def fun_eq_iff less_Suc_eq\<close>)
  qed
  then show ?thesis by (rule returns_mono) (auto simp: I_def)
qed

text \<open>Property C27. Claiming and releasing a slot. From a state where slot table, node bitmaps and slot
  counters agree, \<open>clusterAddSlot\<close> on a live node never aborts, keeps the agreement, fails without
  touching anything when the slot is taken and otherwise makes the node its owner;
  \<open>clusterDelSlot\<close> never trips its assertion, keeps the agreement and leaves the slot unowned.
  Neither touches anything but the slot table, the bitmaps and the counters.\<close>

theorem slot_add_del_correct:
  assumes "slots_inv s" and "slot < REDIS_CLUSTER_SLOTS" and "heap s n \<noteq> None"
  shows "returns (clusterAddSlot n slot s) (\<lambda>(r, s'). slots_inv s' \<and> but_slots s' = but_slots s \<and>
       (if c_slots s slot \<noteq> NULL then r = REDIS_ERR \<and> s' = s
        else r = REDIS_OK \<and> c_slots s' = (c_slots s)(slot := n)))
    \<and> returns (clusterDelSlot slot s) (\<lambda>(r, s'). slots_inv s' \<and> but_slots s' = but_slots s \<and>
       c_slots s' = (c_slots s)(slot := NULL) \<and>
       (if c_slots s slot = NULL then r = REDIS_ERR \<and> s' = s else r = REDIS_OK))"
  using clusterAddSlot_spec[OF assms] clusterDelSlot_spec[OF assms(1,2)] by simp

text \<open>A server with one node, at address 1: the slot invariant holds at the start.\<close>

definition one_node_server :: server where
  "one_node_server = zero_server
     \<lparr>heap := [1 \<mapsto> newClusterNode (replicate 40 0x61) (REDIS_NODE_MYSELF OR REDIS_NODE_MASTER) 0],
      c_nodes := [(replicate 40 0x61, 1)], c_myself := 1, brk := 2\<rparr>"

lemma one_node_server_slots_inv: "slots_inv one_node_server"
  by (simp add: one_node_server_def zero_server_def slots_inv_def slots_agree_def node_agrees_def
      newClusterNode_def node_slot_count_def)

theorem slot_add_del_correct_witness:
  "returns (clusterAddSlot 1 5 one_node_server) (\<lambda>(r, s'). r = REDIS_OK \<and> c_slots s' 5 = 1)"
proof -
  have h: "heap one_node_server 1 \<noteq> None" and f: "c_slots one_node_server 5 = 0"
    by (simp_all add: one_node_server_def zero_server_def)
  have j: "5 < REDIS_CLUSTER_SLOTS" by (simp add: REDIS_CLUSTER_SLOTS_def)
  show ?thesis
    by (rule returns_mono[OF conjunct1[OF slot_add_del_correct[OF one_node_server_slots_inv j h]]])
      (auto simp: f)
qed

text \<open>\<open>clusterDelNodeSlots\<close> on a live node never aborts; afterwards the node owns nothing, the
  other owners are untouched and table and bitmaps still agree. The number it returns is always
  16384, not the number of slots that were deleted as its comment says.\<close>

theorem clusterDelNodeSlots_correct:
  assumes "slots_inv s" and "heap s p \<noteq> None"
  shows "returns (clusterDelNodeSlots p s) (\<lambda>(d, s'). slots_inv s' \<and> but_slots s' = but_slots s \<and>
     d = int REDIS_CLUSTER_SLOTS \<and>
     (\<forall>j<REDIS_CLUSTER_SLOTS. c_slots s' j = (if c_slots s j = p then NULL else c_slots s j)))"
  using assms by (rule clusterDelNodeSlots_spec)

theorem clusterDelNodeSlots_correct_witness:
  "returns (clusterDelNodeSlots 1 one_node_server) (\<lambda>(d, s'). d = 16384 \<and> slots_inv s')"
proof -
  have h: "heap one_node_server 1 \<noteq> None"
    by (simp add: one_node_server_def zero_server_def)
  show ?thesis
    by (rule returns_mono[OF clusterDelNodeSlots_correct[OF one_node_server_slots_inv h]])
      (auto simp: REDIS_CLUSTER_SLOTS_def)
qed

end
