(* ===== verification/ClusterNodes.thy ===== *)
theory ClusterNodes
  imports ClusterSlots
begin

text \<open>
  The node table of cluster.c: creation, lookup, renaming and deletion of nodes, the list of slaves of
  a master, failure reports and the blacklist of forgotten nodes.
  The locale \<open>dictionary\<close> is what the node table and the blacklist need of dict.c; the
  association lists of the state provide it (interpretation \<open>nd\<close>).
\<close>

subsection \<open>Dictionaries\<close>

definition dictFind :: "('k \<times> 'v) list \<Rightarrow> 'k \<Rightarrow> 'v option" where
  "dictFind d k = map_of d k"

text \<open>\<open>dictAdd\<close> fails (\<open>DICT_ERR\<close>, here \<open>None\<close>) when the key is already there.\<close>

definition dictAdd :: "('k \<times> 'v) list \<Rightarrow> 'k \<Rightarrow> 'v \<Rightarrow> ('k \<times> 'v) list option" where
  "dictAdd d k v = (if map_of d k \<noteq> None then None else Some (d @ [(k, v)]))"

text \<open>\<open>dictDelete\<close> fails when the key is not there.\<close>

definition dictDelete :: "('k \<times> 'v) list \<Rightarrow> 'k \<Rightarrow> ('k \<times> 'v) list option" where
  "dictDelete d k = (if map_of d k = None then None else Some (filter (\<lambda>e. fst e \<noteq> k) d))"

definition dictWf :: "('k \<times> 'v) list \<Rightarrow> bool" where
  "dictWf d \<longleftrightarrow> distinct (map fst d)"

locale dictionary =
  fixes find :: "'d \<Rightarrow> 'k \<Rightarrow> 'v option"
    and add :: "'d \<Rightarrow> 'k \<Rightarrow> 'v \<Rightarrow> 'd option"
    and del :: "'d \<Rightarrow> 'k \<Rightarrow> 'd option"
    and entries :: "'d \<Rightarrow> ('k \<times> 'v) list"
    and wf :: "'d \<Rightarrow> bool"
  assumes find_entries: "wf d \<Longrightarrow> find d k = Some v \<longleftrightarrow> (k, v) \<in> set (entries d)"
    and add_None: "add d k v = None \<longleftrightarrow> find d k \<noteq> None"
    and add_Some: "add d k v = Some d' \<Longrightarrow> find d' k' = (if k' = k then Some v else find d k')"
    and add_wf: "wf d \<Longrightarrow> add d k v = Some d' \<Longrightarrow> wf d'"
    and del_None: "del d k = None \<longleftrightarrow> find d k = None"
    and del_Some: "del d k = Some d' \<Longrightarrow> find d' k' = (if k' = k then None else find d k')"
    and del_wf: "wf d \<Longrightarrow> del d k = Some d' \<Longrightarrow> wf d'"
begin

lemma entries_add:
  "wf d \<Longrightarrow> add d k v = Some d' \<Longrightarrow> set (entries d') = insert (k, v) (set (entries d))"
proof -
  assume wf: "wf d" and add: "add d k v = Some d'"
  have new: "find d k = None" using add add_None by (metis option.distinct(1))
  have "(k', v') \<in> set (entries d') \<longleftrightarrow> (k', v') \<in> insert (k, v) (set (entries d))" for k' v'
    using find_entries[OF add_wf[OF wf add], of k' v'] find_entries[OF wf, of k' v']
      add_Some[OF add, of k'] new by (auto split: if_splits)
  then show ?thesis by auto
qed

lemma entries_del:
  "wf d \<Longrightarrow> del d k = Some d' \<Longrightarrow> set (entries d') = {e \<in> set (entries d). fst e \<noteq> k}"
proof -
  assume wf: "wf d" and del: "del d k = Some d'"
  have "(k', v') \<in> set (entries d') \<longleftrightarrow> (k', v') \<in> set (entries d) \<and> k' \<noteq> k" for k' v'
    using find_entries[OF del_wf[OF wf del], of k' v'] find_entries[OF wf, of k' v']
      del_Some[OF del, of k'] by (auto split: if_splits)
  then show ?thesis by auto
qed

lemma add_then_find: "add d k v = Some d' \<Longrightarrow> find d' k = Some v"
  by (simp add: add_Some)

lemma del_then_add: "del d k = Some d' \<Longrightarrow> \<exists>d''. add d' k v = Some d''"
  using del_Some[of d k d' k] add_None[of d' k v] by (cases "add d' k v") auto

end

interpretation nd: dictionary dictFind dictAdd dictDelete "\<lambda>d. d" dictWf
proof (unfold_locales, goal_cases)
  case (1 d k v)
  then show ?case by (simp add: dictFind_def dictWf_def)
next
  case (3 d k v d' k')
  then show ?case
    by (auto simp: dictFind_def dictAdd_def map_add_def split: if_splits option.splits)
next
  case (4 d k v d')
  then show ?case
    by (auto simp: dictAdd_def dictWf_def map_of_eq_None_iff image_iff split: if_splits)
next
  case (7 d k d')
  then show ?case
    by (auto simp: dictDelete_def dictWf_def distinct_map_filter split: if_splits)
qed (auto simp: dictFind_def dictAdd_def dictDelete_def map_of_filter_neq split: if_splits)

subsection \<open>Creating nodes\<close>

definition charset :: bytes where
  "charset = [0x30, 0x31, 0x32, 0x33, 0x34, 0x35, 0x36, 0x37, 0x38, 0x39,
              0x61, 0x62, 0x63, 0x64, 0x65, 0x66]"

text \<open>\<open>getRandomHexChars\<close>: every random byte selects a hexadecimal digit by its low four bits.\<close>

definition getRandomHexChars :: "nat \<Rightarrow> server \<Rightarrow> bytes \<times> server" where
  "getRandomHexChars len s =
     (map (\<lambda>j. charset ! (rng s j mod 16)) [0..<len], s\<lparr>rng := (\<lambda>j. rng s (j + len))\<rparr>)"

definition createClusterNode :: "bytes option \<Rightarrow> u32 \<Rightarrow> server \<Rightarrow> ptr \<times> server" where
  "createClusterNode nodename flags s =
     (let (name, s1) = (case nodename of
            Some nm \<Rightarrow> (take REDIS_CLUSTER_NAMELEN nm, s)
          | None \<Rightarrow> getRandomHexChars REDIS_CLUSTER_NAMELEN s);
          p = brk s1
      in (p, s1\<lparr>brk := Suc p, heap := (heap s1)(p \<mapsto> newClusterNode name flags (mstime s1))\<rparr>))"

subsection \<open>Failure reports\<close>

fun touch_report :: "ptr \<Rightarrow> int \<Rightarrow> clusterNodeFailReport list \<Rightarrow> clusterNodeFailReport list option" where
  "touch_report sender now [] = None"
| "touch_report sender now (fr # l) =
     (if fr_node fr = sender then Some (fr\<lparr>fr_time := now\<rparr> # l)
      else map_option ((#) fr) (touch_report sender now l))"

definition clusterNodeAddFailureReport :: "ptr \<Rightarrow> ptr \<Rightarrow> server \<Rightarrow> (bool \<times> server) option" where
  "clusterNodeAddFailureReport failing sender s = do {
     nd \<leftarrow> deref (heap s) failing;
     (case touch_report sender (mstime s) (n_fail_reports nd) of
        Some l \<Rightarrow> do {
          s1 \<leftarrow> node_upd failing (\<lambda>n. n\<lparr>n_fail_reports := l\<rparr>) s;
          Some (False, s1)
        }
      | None \<Rightarrow> do {
          s1 \<leftarrow> node_upd failing (\<lambda>n. n\<lparr>n_fail_reports :=
                  n_fail_reports n @ [\<lparr>fr_node = sender, fr_time = mstime s\<rparr>]\<rparr>) s;
          Some (True, s1)
        })
   }"

definition clusterNodeCleanupFailureReports :: "ptr \<Rightarrow> server \<Rightarrow> server option" where
  "clusterNodeCleanupFailureReports node s =
     (let maxtime = cluster_node_timeout s * REDIS_CLUSTER_FAIL_REPORT_VALIDITY_MULT;
          now = mstime s
      in node_upd node (\<lambda>n. n\<lparr>n_fail_reports :=
           filter (\<lambda>fr. \<not> (now - fr_time fr > maxtime)) (n_fail_reports n)\<rparr>) s)"

text \<open>The first report of \<open>sender\<close> is removed, if there is one.\<close>

fun remove_report :: "ptr \<Rightarrow> clusterNodeFailReport list \<Rightarrow> clusterNodeFailReport list option" where
  "remove_report sender [] = None"
| "remove_report sender (fr # l) =
     (if fr_node fr = sender then Some l else map_option ((#) fr) (remove_report sender l))"

definition clusterNodeDelFailureReport :: "ptr \<Rightarrow> ptr \<Rightarrow> server \<Rightarrow> (bool \<times> server) option" where
  "clusterNodeDelFailureReport node sender s = do {
     nd \<leftarrow> deref (heap s) node;
     (case remove_report sender (n_fail_reports nd) of
        None \<Rightarrow> Some (False, s)
      | Some l \<Rightarrow> do {
          s1 \<leftarrow> node_upd node (\<lambda>n. n\<lparr>n_fail_reports := l\<rparr>) s;
          s2 \<leftarrow> clusterNodeCleanupFailureReports node s1;
          Some (True, s2)
        })
   }"

definition clusterNodeFailureReportsCount :: "ptr \<Rightarrow> server \<Rightarrow> (int \<times> server) option" where
  "clusterNodeFailureReportsCount node s = do {
     s1 \<leftarrow> clusterNodeCleanupFailureReports node s;
     nd \<leftarrow> deref (heap s1) node;
     Some (int (length (n_fail_reports nd)), s1)
   }"

subsection \<open>The array of slaves of a master\<close>

text \<open>
  The array holds 64-bit little endian pointers. \<open>clusterNodeRemoveSlave\<close> moves
  \<open>(numslaves - 1) - j\<close> \<^emph>\<open>bytes\<close>, so the array is modelled down to its bytes.
\<close>

definition le_bytes :: "ptr \<Rightarrow> nat list" where
  "le_bytes p = map (\<lambda>i. p div 256 ^ i mod 256) [0..<8]"

definition of_le_bytes :: "nat list \<Rightarrow> ptr" where
  "of_le_bytes bs = foldr (\<lambda>b acc. b + 256 * acc) bs 0"

fun ptrs_of_bytes :: "nat list \<Rightarrow> ptr list" where
  "ptrs_of_bytes [] = []"
| "ptrs_of_bytes bs = of_le_bytes (take 8 bs) # ptrs_of_bytes (drop 8 bs)"

definition memmove :: "nat list \<Rightarrow> nat \<Rightarrow> nat \<Rightarrow> nat \<Rightarrow> nat list" where
  "memmove mem dst src n = take dst mem @ take n (drop src mem) @ drop (dst + n) mem"

fun index_of :: "ptr \<Rightarrow> ptr list \<Rightarrow> nat option" where
  "index_of x [] = None"
| "index_of x (y # ys) = (if y = x then Some 0 else map_option Suc (index_of x ys))"

definition remove_slave_at :: "nat \<Rightarrow> ptr list \<Rightarrow> ptr list" where
  "remove_slave_at j slaves =
     (let numslaves = length slaves;
          mem = concat (map le_bytes slaves)
      in take (numslaves - 1) (ptrs_of_bytes (memmove mem (8 * j) (8 * (j + 1)) ((numslaves - 1) - j))))"

definition clusterNodeRemoveSlave :: "ptr \<Rightarrow> ptr \<Rightarrow> server \<Rightarrow> (retval \<times> server) option" where
  "clusterNodeRemoveSlave master slave s = do {
     nd \<leftarrow> deref (heap s) master;
     (case index_of slave (n_slaves nd) of
        Some j \<Rightarrow> do {
          s1 \<leftarrow> node_upd master (\<lambda>n. n\<lparr>n_slaves := remove_slave_at j (n_slaves n)\<rparr>) s;
          Some (REDIS_OK, s1)
        }
      | None \<Rightarrow> Some (REDIS_ERR, s))
   }"

definition clusterNodeAddSlave :: "ptr \<Rightarrow> ptr \<Rightarrow> server \<Rightarrow> (retval \<times> server) option" where
  "clusterNodeAddSlave master slave s = do {
     nd \<leftarrow> deref (heap s) master;
     if slave \<in> set (n_slaves nd) then Some (REDIS_ERR, s)
     else do {
       s1 \<leftarrow> node_upd master (\<lambda>n. n\<lparr>n_slaves := n_slaves n @ [slave]\<rparr>) s;
       Some (REDIS_OK, s1)
     }
   }"

definition clusterNodeResetSlaves :: "ptr \<Rightarrow> server \<Rightarrow> server option" where
  "clusterNodeResetSlaves n s = node_upd n (\<lambda>nd. nd\<lparr>n_slaves := []\<rparr>) s"

definition clusterCountNonFailingSlaves :: "ptr \<Rightarrow> server \<Rightarrow> int option" where
  "clusterCountNonFailingSlaves n s = do {
     nd \<leftarrow> deref (heap s) n;
     foldM (\<lambda>p okslaves. do {
       sl \<leftarrow> deref (heap s) p;
       Some (if \<not> nodeFailed sl then okslaves + 1 else okslaves)
     }) (n_slaves nd) 0
   }"

subsection \<open>Links\<close>

definition createClusterLink :: "ptr \<Rightarrow> server \<Rightarrow> ptr \<times> server" where
  "createClusterLink node s =
     (let p = brk s
      in (p, s\<lparr>brk := Suc p, links := (links s)(p \<mapsto>
            \<lparr>l_ctime = mstime s, l_fd = -1, l_node = node, l_peer_ip = []\<rparr>)\<rparr>))"

definition freeClusterLink :: "ptr \<Rightarrow> server \<Rightarrow> server option" where
  "freeClusterLink link s = do {
     l \<leftarrow> deref (links s) link;
     s1 \<leftarrow> (if l_node l \<noteq> NULL then node_upd (l_node l) (\<lambda>n. n\<lparr>n_link := NULL\<rparr>) s else Some s);
     Some ((do_log (CloseFd (l_fd l)) s1)\<lparr>links := (links s1)(link := None)\<rparr>)
   }"

subsection \<open>Adding, finding, renaming and deleting nodes\<close>

definition freeClusterNode :: "ptr \<Rightarrow> server \<Rightarrow> server option" where
  "freeClusterNode n s = do {
     nd \<leftarrow> deref (heap s) n;
     redisAssert (dictDelete (c_nodes s) (n_name nd) \<noteq> None);
     d \<leftarrow> dictDelete (c_nodes s) (n_name nd);
     let s1 = s\<lparr>c_nodes := d\<rparr>;
     s2 \<leftarrow> (if n_slaveof nd \<noteq> NULL then map_option snd (clusterNodeRemoveSlave (n_slaveof nd) n s1)
            else Some s1);
     s3 \<leftarrow> (if n_link nd \<noteq> NULL then freeClusterLink (n_link nd) s2 else Some s2);
     Some (s3\<lparr>heap := (heap s3)(n := None)\<rparr>)
   }"

definition clusterAddNode :: "ptr \<Rightarrow> server \<Rightarrow> (retval \<times> server) option" where
  "clusterAddNode node s = do {
     nd \<leftarrow> deref (heap s) node;
     (case dictAdd (c_nodes s) (n_name nd) node of
        Some d \<Rightarrow> Some (REDIS_OK, s\<lparr>c_nodes := d\<rparr>)
      | None \<Rightarrow> Some (REDIS_ERR, s))
   }"

definition clusterDelNode_slot :: "ptr \<Rightarrow> nat \<Rightarrow> server \<Rightarrow> server option" where
  "clusterDelNode_slot delnode j s =
     (let s1 = (if c_importing_slots_from s j = delnode
                then s\<lparr>c_importing_slots_from := (c_importing_slots_from s)(j := NULL)\<rparr> else s);
          s2 = (if c_migrating_slots_to s1 j = delnode
                then s1\<lparr>c_migrating_slots_to := (c_migrating_slots_to s1)(j := NULL)\<rparr> else s1)
      in if c_slots s2 j = delnode then map_option snd (clusterDelSlot j s2) else Some s2)"

definition clusterDelNode :: "ptr \<Rightarrow> server \<Rightarrow> server option" where
  "clusterDelNode delnode s = do {
     s1 \<leftarrow> foldM (clusterDelNode_slot delnode) [0..<REDIS_CLUSTER_SLOTS] s;
     s2 \<leftarrow> foldM (\<lambda>(_, node) s. if node = delnode then Some s
             else map_option snd (clusterNodeDelFailureReport node delnode s)) (c_nodes s1) s1;
     nd \<leftarrow> deref (heap s2) delnode;
     s3 \<leftarrow> (if nodeIsSlave nd \<and> n_slaveof nd \<noteq> NULL
            then map_option snd (clusterNodeRemoveSlave (n_slaveof nd) delnode s2) else Some s2);
     freeClusterNode delnode s3
   }"

text \<open>\<open>NULL\<close> when the name is unknown.\<close>

definition clusterLookupNode :: "bytes \<Rightarrow> server \<Rightarrow> ptr" where
  "clusterLookupNode name s =
     (case dictFind (c_nodes s) (take REDIS_CLUSTER_NAMELEN name) of None \<Rightarrow> NULL | Some p \<Rightarrow> p)"

definition clusterRenameNode :: "ptr \<Rightarrow> bytes \<Rightarrow> server \<Rightarrow> server option" where
  "clusterRenameNode node newname s = do {
     nd \<leftarrow> deref (heap s) node;
     d \<leftarrow> dictDelete (c_nodes s) (n_name nd);
     s1 \<leftarrow> node_upd node (\<lambda>n. n\<lparr>n_name := take REDIS_CLUSTER_NAMELEN newname\<rparr>) (s\<lparr>c_nodes := d\<rparr>);
     map_option snd (clusterAddNode node s1)
   }"

subsection \<open>The blacklist\<close>

abbreviation (input) "REDIS_CLUSTER_BLACKLIST_TTL \<equiv> (60::int)"

definition clusterBlacklistCleanup :: "server \<Rightarrow> server" where
  "clusterBlacklistCleanup s =
     s\<lparr>c_nodes_black_list := filter (\<lambda>(_, expire). \<not> (expire < unixtime s)) (c_nodes_black_list s)\<rparr>"

text \<open>\<open>time(NULL)\<close> is the millisecond clock in seconds.\<close>

definition clusterBlacklistAddNode :: "ptr \<Rightarrow> server \<Rightarrow> server option" where
  "clusterBlacklistAddNode node s = do {
     nd \<leftarrow> deref (heap s) node;
     let s1 = clusterBlacklistCleanup s;
     let d = (case dictAdd (c_nodes_black_list s1) (n_name nd) 0 of
                Some d \<Rightarrow> d | None \<Rightarrow> c_nodes_black_list s1);
     let expire = mstime s div 1000 + REDIS_CLUSTER_BLACKLIST_TTL;
     Some (s1\<lparr>c_nodes_black_list :=
            map (\<lambda>(k, v). if k = n_name nd then (k, expire) else (k, v)) d\<rparr>)
   }"

definition clusterBlacklistExists :: "bytes \<Rightarrow> server \<Rightarrow> bool \<times> server" where
  "clusterBlacklistExists nodeid s =
     (let s1 = clusterBlacklistCleanup s
      in (dictFind (c_nodes_black_list s1) (take REDIS_CLUSTER_NAMELEN nodeid) \<noteq> None, s1))"

subsection \<open>Slot ownership is not touched\<close>

lemma clusterNodeAddFailureReport_slots [keeps_slots]:
  "clusterNodeAddFailureReport a b s = Some (r, s') \<Longrightarrow> slots_view s' = slots_view s"
  by (auto simp: clusterNodeAddFailureReport_def opt_bind split: option.splits
      dest!: slots_view_node_upd)

lemma clusterNodeCleanupFailureReports_slots [keeps_slots]:
  "clusterNodeCleanupFailureReports a s = Some s' \<Longrightarrow> slots_view s' = slots_view s"
  by (auto simp: clusterNodeCleanupFailureReports_def Let_def dest!: slots_view_node_upd)

lemma clusterNodeDelFailureReport_slots [keeps_slots]:
  "clusterNodeDelFailureReport a b s = Some (r, s') \<Longrightarrow> slots_view s' = slots_view s"
  by (auto simp: clusterNodeDelFailureReport_def opt_bind split: option.splits
      dest!: slots_view_node_upd clusterNodeCleanupFailureReports_slots)

lemma clusterNodeFailureReportsCount_slots [keeps_slots]:
  "clusterNodeFailureReportsCount a s = Some (r, s') \<Longrightarrow> slots_view s' = slots_view s"
  by (auto simp: clusterNodeFailureReportsCount_def opt_bind
      dest!: clusterNodeCleanupFailureReports_slots)

lemma clusterNodeRemoveSlave_slots [keeps_slots]:
  "clusterNodeRemoveSlave a b s = Some (r, s') \<Longrightarrow> slots_view s' = slots_view s"
  by (auto simp: clusterNodeRemoveSlave_def opt_bind split: option.splits dest!: slots_view_node_upd)

lemma clusterNodeAddSlave_slots [keeps_slots]:
  "clusterNodeAddSlave a b s = Some (r, s') \<Longrightarrow> slots_view s' = slots_view s"
  by (auto simp: clusterNodeAddSlave_def opt_bind split: if_splits dest!: slots_view_node_upd)

lemma clusterNodeResetSlaves_slots [keeps_slots]:
  "clusterNodeResetSlaves a s = Some s' \<Longrightarrow> slots_view s' = slots_view s"
  by (auto simp: clusterNodeResetSlaves_def dest!: slots_view_node_upd)

lemma freeClusterLink_slots [keeps_slots]:
  "freeClusterLink l s = Some s' \<Longrightarrow> slots_view s' = slots_view s"
  by (auto simp: freeClusterLink_def opt_bind split: if_splits dest!: slots_view_node_upd)

lemma clusterAddNode_slots [keeps_slots]:
  "clusterAddNode n s = Some (r, s') \<Longrightarrow> slots_view s' = slots_view s"
  by (auto simp: clusterAddNode_def opt_bind split: option.splits)

lemma clusterRenameNode_slots [keeps_slots]:
  "clusterRenameNode n nm s = Some s' \<Longrightarrow> slots_view s' = slots_view s"
  by (auto simp: clusterRenameNode_def opt_bind Let_def
      dest!: slots_view_node_upd clusterAddNode_slots)

lemma slots_view_blacklist [simp]:
  "slots_view (clusterBlacklistCleanup s) = slots_view s"
  "slots_view (snd (clusterBlacklistExists nm s)) = slots_view s"
  by (simp_all add: clusterBlacklistCleanup_def clusterBlacklistExists_def)

subsection \<open>Writing only node memory\<close>

lemma heap_ex [simp]: "\<exists>g. s\<lparr>heap := h\<rparr> = s\<lparr>heap := g\<rparr>"
  by blast

lemma heap_self: "\<exists>h. s = s\<lparr>heap := h\<rparr>"
  by (rule exI[of _ "heap s"]) simp

lemma node_upd_heap: "node_upd p f s = Some s' \<Longrightarrow> \<exists>h. s' = s\<lparr>heap := h\<rparr>"
  by (auto simp: node_upd_def split: option.splits)

lemma clusterNodeRemoveSlave_heap: "clusterNodeRemoveSlave a b s = Some (r, s') \<Longrightarrow> \<exists>h. s' = s\<lparr>heap := h\<rparr>"
  by (auto simp: clusterNodeRemoveSlave_def opt_bind split: option.splits dest!: node_upd_heap
      intro: heap_self)

lemma clusterNodeAddSlave_heap: "clusterNodeAddSlave a b s = Some (r, s') \<Longrightarrow> \<exists>h. s' = s\<lparr>heap := h\<rparr>"
  by (auto simp: clusterNodeAddSlave_def opt_bind split: if_splits dest!: node_upd_heap
      intro: heap_self)

lemma clusterNodeCleanupFailureReports_heap:
  "clusterNodeCleanupFailureReports a s = Some s' \<Longrightarrow> \<exists>h. s' = s\<lparr>heap := h\<rparr>"
  by (auto simp: clusterNodeCleanupFailureReports_def Let_def dest!: node_upd_heap)

lemma clusterNodeAddFailureReport_heap:
  "clusterNodeAddFailureReport a b s = Some (r, s') \<Longrightarrow> \<exists>h. s' = s\<lparr>heap := h\<rparr>"
  by (auto simp: clusterNodeAddFailureReport_def opt_bind split: option.splits dest!: node_upd_heap)

lemma clusterNodeDelFailureReport_heap:
  "clusterNodeDelFailureReport a b s = Some (r, s') \<Longrightarrow> \<exists>h. s' = s\<lparr>heap := h\<rparr>"
  by (auto simp: clusterNodeDelFailureReport_def opt_bind split: option.splits
      dest!: node_upd_heap clusterNodeCleanupFailureReports_heap intro: heap_self)

lemma clusterNodeFailureReportsCount_heap:
  "clusterNodeFailureReportsCount a s = Some (r, s') \<Longrightarrow> \<exists>h. s' = s\<lparr>heap := h\<rparr>"
  by (auto simp: clusterNodeFailureReportsCount_def opt_bind dest!: clusterNodeCleanupFailureReports_heap)

lemmas heap_only = node_upd_heap clusterNodeRemoveSlave_heap clusterNodeAddSlave_heap
  clusterNodeCleanupFailureReports_heap clusterNodeAddFailureReport_heap
  clusterNodeDelFailureReport_heap clusterNodeFailureReportsCount_heap

subsection \<open>Failure reports: one per sender, and they expire\<close>

abbreviation reporters :: "clusterNodeFailReport list \<Rightarrow> ptr list" where
  "reporters l \<equiv> map fr_node l"

lemma touch_report_None: "touch_report sd now l = None \<longleftrightarrow> sd \<notin> set (reporters l)"
  by (induction l) auto

lemma touch_report_Some:
  "touch_report sd now l = Some l' \<Longrightarrow> reporters l' = reporters l \<and> sd \<in> set (reporters l) \<and>
     (\<exists>fr \<in> set l'. fr_node fr = sd \<and> fr_time fr = now)"
  by (induction l arbitrary: l') (auto split: if_splits)

lemma remove_report_None: "remove_report sd l = None \<longleftrightarrow> sd \<notin> set (reporters l)"
  by (induction l) auto

lemma remove_report_Some:
  "remove_report sd l = Some l' \<Longrightarrow> distinct (reporters l) \<Longrightarrow> l' = filter (\<lambda>fr. fr_node fr \<noteq> sd) l"
proof (induction l arbitrary: l')
  case (Cons fr l)
  have "filter (\<lambda>fr. fr_node fr \<noteq> sd) l = l" if "sd \<notin> set (reporters l)"
    using that by (auto simp: filter_id_conv)
  with Cons show ?case by (auto split: if_splits)
qed simp

text \<open>A failure report names its sender at most once. Reporting never aborts on a live
  node; it adds the sender if it was not there (and only then answers 1), refreshes the time
  of its report otherwise, and touches no other node.\<close>

theorem failure_report_add:
  assumes "heap s failing = Some nd" and "distinct (reporters (n_fail_reports nd))"
  shows "returns (clusterNodeAddFailureReport failing sd s) (\<lambda>(new, s').
     \<exists>l. s' = s\<lparr>heap := (heap s)(failing \<mapsto> nd\<lparr>n_fail_reports := l\<rparr>)\<rparr> \<and>
       distinct (reporters l) \<and>
       set (reporters l) = insert sd (set (reporters (n_fail_reports nd))) \<and>
       (new \<longleftrightarrow> sd \<notin> set (reporters (n_fail_reports nd))) \<and>
       (\<exists>fr \<in> set l. fr_node fr = sd \<and> fr_time fr = mstime s))"
proof (cases "touch_report sd (mstime s) (n_fail_reports nd)")
  case None
  then show ?thesis
    using assms touch_report_None[of sd "mstime s" "n_fail_reports nd"]
    by (auto simp: clusterNodeAddFailureReport_def wp
        intro!: exI[of _ "n_fail_reports nd @ [\<lparr>fr_node = sd, fr_time = mstime s\<rparr>]"])
next
  case (Some l)
  then show ?thesis
    using assms touch_report_Some[OF Some]
    by (simp add: clusterNodeAddFailureReport_def wp del: set_map)
      (rule exI[of _ l], simp add: insert_absorb del: set_map)
qed

theorem failure_report_add_witness:
  "returns (clusterNodeAddFailureReport 1 7 one_node_server) (\<lambda>(new, s'). new)"
proof -
  have h: "heap one_node_server 1 = Some (newClusterNode (replicate 40 0x61) (REDIS_NODE_MYSELF OR REDIS_NODE_MASTER) 0)"
    by (simp add: one_node_server_def zero_server_def)
  have d: "distinct (reporters (n_fail_reports (newClusterNode (replicate 40 0x61) (REDIS_NODE_MYSELF OR REDIS_NODE_MASTER) 0)))"
    by (simp add: newClusterNode_def)
  show ?thesis
    by (rule returns_mono[OF failure_report_add[OF h d]]) (auto simp: newClusterNode_def)
qed

text \<open>The number of failure reports counted for a node is the number of reports not older
  than twice the node timeout, and counting drops the expired ones for good.\<close>

theorem failure_report_count:
  assumes "heap s node = Some nd"
  shows "returns (clusterNodeFailureReportsCount node s) (\<lambda>(c, s').
     (\<exists>nd'. heap s' node = Some nd' \<and>
        n_fail_reports nd' = filter (\<lambda>fr. mstime s - fr_time fr \<le> cluster_node_timeout s * 2) (n_fail_reports nd)) \<and>
     c = int (length (filter (\<lambda>fr. mstime s - fr_time fr \<le> cluster_node_timeout s * 2) (n_fail_reports nd))))"
  using assms
  by (auto simp: clusterNodeFailureReportsCount_def clusterNodeCleanupFailureReports_def wp not_less)

theorem failure_report_count_witness:
  "returns (clusterNodeFailureReportsCount 1 one_node_server) (\<lambda>(c, s'). c = 0)"
proof -
  have h: "heap one_node_server 1 = Some (newClusterNode (replicate 40 0x61) (REDIS_NODE_MYSELF OR REDIS_NODE_MASTER) 0)"
    by (simp add: one_node_server_def zero_server_def)
  show ?thesis
    by (rule returns_mono[OF failure_report_count[OF h]]) (auto simp: newClusterNode_def)
qed

lemma failure_report_del:
  assumes "heap s node = Some nd" and "distinct (reporters (n_fail_reports nd))"
  shows "returns (clusterNodeDelFailureReport node sd s) (\<lambda>(found, s').
     (found \<longleftrightarrow> sd \<in> set (reporters (n_fail_reports nd))) \<and>
     (\<exists>l. s' = s\<lparr>heap := (heap s)(node \<mapsto> nd\<lparr>n_fail_reports := l\<rparr>)\<rparr> \<and>
        set l \<subseteq> set (n_fail_reports nd) \<and> sd \<notin> set (reporters l) \<and> distinct (reporters l)))"
proof (cases "remove_report sd (n_fail_reports nd)")
  case None
  then show ?thesis
    using assms remove_report_None[of sd "n_fail_reports nd"]
    by (auto simp: clusterNodeDelFailureReport_def wp fun_upd_idem intro!: exI[of _ "n_fail_reports nd"])
next
  case (Some l)
  have l: "l = filter (\<lambda>fr. fr_node fr \<noteq> sd) (n_fail_reports nd)"
    by (rule remove_report_Some[OF Some assms(2)])
  have "sd \<in> set (reporters (n_fail_reports nd))" using remove_report_None[of sd "n_fail_reports nd"] Some by auto
  then show ?thesis
    using assms Some l
    by (auto simp: clusterNodeDelFailureReport_def clusterNodeCleanupFailureReports_def wp
        distinct_map_filter)
qed

subsection \<open>The slave array\<close>

lemma fold_le_bytes:
  "foldr (\<lambda>b acc. b + 256 * acc) (map (\<lambda>i. p div 256 ^ i mod 256) [0..<n]) 0 = p mod (256 ^ n :: nat)"
proof (induction n arbitrary: p)
  case (Suc n)
  have "map (\<lambda>i. p div 256 ^ i mod 256) [0..<Suc n]
      = p mod 256 # map (\<lambda>i. (p div 256) div 256 ^ i mod 256) [0..<n]"
    by (simp add: upt_conv_Cons map_Suc_upt[symmetric] div_mult2_eq comp_def del: upt_Suc)
  then show ?case using Suc.IH[of "p div 256"]
    by (simp add: mod_mult2_eq del: upt_Suc)
qed simp

lemma of_le_bytes_le_bytes:
  assumes "p < 2 ^ 64"
  shows "of_le_bytes (le_bytes p) = p"
  using assms unfolding of_le_bytes_def le_bytes_def fold_le_bytes by simp

lemma length_le_bytes [simp]: "length (le_bytes p) = 8"
  by (simp add: le_bytes_def)

lemma ptrs_of_bytes_cons:
  "length b = 8 \<Longrightarrow> ptrs_of_bytes (b @ bs) = of_le_bytes b # ptrs_of_bytes bs"
  by (cases b) auto

lemma ptrs_of_bytes_concat:
  "\<forall>p \<in> set ps. p < 2 ^ 64 \<Longrightarrow> ptrs_of_bytes (concat (map le_bytes ps)) = ps"
  by (induction ps) (simp_all add: ptrs_of_bytes_cons of_le_bytes_le_bytes)

lemma ptrs_of_bytes_append:
  "\<forall>p \<in> set ps. p < 2 ^ 64 \<Longrightarrow> ptrs_of_bytes (concat (map le_bytes ps) @ bs) = ps @ ptrs_of_bytes bs"
  by (induction ps) (simp_all add: ptrs_of_bytes_cons of_le_bytes_le_bytes)

lemma of_le_bytes_append: "of_le_bytes (xs @ ys) = of_le_bytes xs + 256 ^ length xs * of_le_bytes ys"
  by (induction xs) (simp_all add: of_le_bytes_def algebra_simps)

lemma of_le_bytes_take: "k \<le> 8 \<Longrightarrow> of_le_bytes (take k (le_bytes p)) = p mod 256 ^ k"
  using fold_le_bytes[of p k] by (simp add: of_le_bytes_def le_bytes_def take_map)

lemma of_le_bytes_drop:
  assumes "k \<le> 8" and "p < 2 ^ 64"
  shows "of_le_bytes (drop k (le_bytes p)) = p div 256 ^ k"
proof -
  have "of_le_bytes (le_bytes p) = p mod 256 ^ k + 256 ^ k * of_le_bytes (drop k (le_bytes p))"
    using of_le_bytes_append[of "take k (le_bytes p)" "drop k (le_bytes p)"] assms(1)
    by (simp add: of_le_bytes_take min_absorb2 del: append_take_drop_id add: append_take_drop_id)
  then have "p div 256 ^ k = (p mod 256 ^ k + 256 ^ k * of_le_bytes (drop k (le_bytes p))) div 256 ^ k"
    using of_le_bytes_le_bytes[OF assms(2)] by simp
  then show ?thesis by simp
qed

lemma length_concat_le_bytes: "length (concat (map le_bytes ps)) = 8 * length ps"
  by (induction ps) simp_all

lemma memmove_slaves:
  assumes k: "k \<le> 8"
  shows "memmove (concat (map le_bytes (pre @ a # b # post))) (8 * length pre) (8 * (length pre + 1)) k
       = concat (map le_bytes pre) @ (take k (le_bytes b) @ drop k (le_bytes a)) @ concat (map le_bytes (b # post))"
proof -
  let ?P = "concat (map le_bytes pre)" and ?Q = "concat (map le_bytes post)"
  have l: "length ?P = 8 * length pre" by (rule length_concat_le_bytes)
  have "8 * (length pre + 1) = length (?P @ le_bytes a)" using l by simp
  then have src: "drop (8 * (length pre + 1)) (?P @ le_bytes a @ le_bytes b @ ?Q) = le_bytes b @ ?Q"
    by (metis append.assoc append_eq_conv_conj)
  have dst: "drop (8 * length pre + k) (?P @ le_bytes a @ le_bytes b @ ?Q) = drop k (le_bytes a) @ le_bytes b @ ?Q"
    using l k by (simp add: drop_append)
  show ?thesis using l k src dst by (simp add: memmove_def)
qed

text \<open>Property C40. The defect in \<open>clusterNodeRemoveSlave\<close>, exactly: it asks \<open>memmove\<close> for a number of elements
  as if it were a number of bytes. Removing a slave \<open>a\<close> that is followed by \<open>b\<close> and at most
  seven more overwrites only the low bytes of its entry with those of \<open>b\<close>, leaves \<open>b\<close> and its
  successors where they were and drops the last entry of the array: with three slaves allocated
  in one 64K page the second is then listed twice and the third is lost.\<close>

theorem clusterNodeRemoveSlave_loses_slave:
  assumes "\<forall>p \<in> set (pre @ a # b # post). p < 2 ^ 64" and "length post < 8"
  shows "remove_slave_at (length pre) (pre @ a # b # post) =
     butlast (pre @ [b mod 256 ^ Suc (length post) + 256 ^ Suc (length post) * (a div 256 ^ Suc (length post))]
       @ b # post)"
proof -
  let ?k = "Suc (length post)"
  have k: "?k \<le> 8" using assms(2) by simp
  have mix: "of_le_bytes (take ?k (le_bytes b) @ drop ?k (le_bytes a)) = b mod 256 ^ ?k + 256 ^ ?k * (a div 256 ^ ?k)"
    using assms(1) k by (simp add: of_le_bytes_append of_le_bytes_take of_le_bytes_drop min_absorb2 del: power_Suc)
  have len: "length (take ?k (le_bytes b) @ drop ?k (le_bytes a)) = 8" using k by simp
  have "ptrs_of_bytes (memmove (concat (map le_bytes (pre @ a # b # post))) (8 * length pre) (8 * (length pre + 1)) ?k)
      = pre @ (b mod 256 ^ ?k + 256 ^ ?k * (a div 256 ^ ?k)) # b # post"
    unfolding memmove_slaves[OF k] ptrs_of_bytes_cons[OF len] mix[symmetric]
    using assms(1) ptrs_of_bytes_concat[of "b # post"] by (simp add: ptrs_of_bytes_append ptrs_of_bytes_cons[OF len, simplified])
  moreover have "length (pre @ a # b # post) - 1 - length pre = ?k" by simp
  ultimately show ?thesis
    unfolding remove_slave_at_def Let_def by (simp add: butlast_conv_take)
qed

theorem clusterNodeRemoveSlave_loses_slave_witness:
  "remove_slave_at 0 [0x7F0000401000, 0x7F0000401400, 0x7F0000401800] = [0x7F0000401400, 0x7F0000401400]"
  using clusterNodeRemoveSlave_loses_slave[of "[]" "0x7F0000401000" "0x7F0000401400" "[0x7F0000401800]"]
  by simp

text \<open>Removal is right when the slave is the last of the array, where no byte has to move: the
  array loses exactly its last element.\<close>

theorem clusterNodeRemoveSlave_last:
  assumes "heap s master = Some nd" and "n_slaves nd = sls @ [slave]"
    and "slave \<notin> set sls" and "\<forall>p \<in> set (n_slaves nd). p < 2 ^ 64"
  shows "clusterNodeRemoveSlave master slave s =
     Some (REDIS_OK, s\<lparr>heap := (heap s)(master \<mapsto> nd\<lparr>n_slaves := sls\<rparr>)\<rparr>)"
proof -
  have i: "index_of slave (sls @ [slave]) = Some (length sls)"
    using assms(3) by (induction sls) auto
  have mem: "memmove m d sr 0 = m" for m d sr by (simp add: memmove_def)
  have "remove_slave_at (length sls) (sls @ [slave]) = sls"
    using ptrs_of_bytes_concat[of "sls @ [slave]"] assms(2,4)
    by (simp add: remove_slave_at_def mem Let_def)
  then show ?thesis
    using assms(1,2) i by (simp add: clusterNodeRemoveSlave_def deref_def node_upd_def)
qed

theorem clusterNodeRemoveSlave_last_witness:
  "clusterNodeRemoveSlave 1 9 (zero_server\<lparr>heap := [1 \<mapsto> (newClusterNode [] 1 0)\<lparr>n_slaves := [8, 9]\<rparr>]\<rparr>) =
     Some (REDIS_OK, zero_server\<lparr>heap := [1 \<mapsto> (newClusterNode [] 1 0)\<lparr>n_slaves := [8]\<rparr>]\<rparr>)"
  using clusterNodeRemoveSlave_last[of "zero_server\<lparr>heap := [1 \<mapsto> (newClusterNode [] 1 0)\<lparr>n_slaves := [8, 9]\<rparr>]\<rparr>"
      1 "(newClusterNode [] 1 0)\<lparr>n_slaves := [8, 9]\<rparr>" "[8]" 9]
  by simp

subsection \<open>Deleting a node\<close>

text \<open>What the bookkeeping of slots and failure reports leaves alone: the node table, the links and, per
  node, the fields that structure the graph of nodes.\<close>

definition node_shape :: "clusterNode \<Rightarrow> bytes \<times> u32 \<times> ptr \<times> ptr" where
  "node_shape n = (n_name n, n_flags n, n_slaveof n, n_link n)"

definition shape :: "server \<Rightarrow> (bytes \<times> ptr) list \<times> (ptr \<Rightarrow> clusterLink option) \<times>
    (ptr \<Rightarrow> (bytes \<times> u32 \<times> ptr \<times> ptr) option)" where
  "shape s = (c_nodes s, links s, \<lambda>p. map_option node_shape (heap s p))"

lemma shapeD:
  assumes "shape s' = shape s"
  shows "c_nodes s' = c_nodes s" "links s' = links s"
    "map_option node_shape (heap s' p) = map_option node_shape (heap s p)"
    "heap s' p = None \<longleftrightarrow> heap s p = None"
  using assms by (auto simp: shape_def fun_eq_iff) (metis map_option_is_None)+

lemma shape_node:
  assumes "shape s' = shape s" and "heap s p = Some n"
  shows "\<exists>n'. heap s' p = Some n' \<and> node_shape n' = node_shape n"
  using shapeD(3)[OF assms(1), of p] assms(2) by (cases "heap s' p") auto

lemma shape_upd:
  "heap s p = Some n \<Longrightarrow> node_shape n' = node_shape n \<Longrightarrow> shape (s\<lparr>heap := (heap s)(p \<mapsto> n')\<rparr>) = shape s"
  by (auto simp: shape_def fun_eq_iff)

lemma shape_node_upd:
  assumes "node_upd p f s = Some s'" and "\<And>n. node_shape (f n) = node_shape n"
  shows "shape s' = shape s"
  using assms by (auto simp: node_upd_def shape_upd split: option.splits)

lemma but_slots_shape:
  assumes "but_slots s' = but_slots s"
  shows "shape s' = shape s"
proof -
  have "c_nodes s' = c_nodes s" "links s' = links s"
    using arg_cong[OF assms, of c_nodes] arg_cong[OF assms, of links] by (simp_all add: but_slots_def)
  moreover have "map_option node_shape (heap s' p) = map_option node_shape (heap s p)" for p
    using but_slots_heap[OF assms, of p]
    by (cases "heap s p"; cases "heap s' p") (auto simp: node_shape_def dest: node_but_slots_simps)
  ultimately show ?thesis by (simp add: shape_def)
qed

lemma shape_simps [simp]:
  "shape (s\<lparr>c_importing_slots_from := a\<rparr>) = shape s"
  "shape (s\<lparr>c_migrating_slots_to := a\<rparr>) = shape s"
  by (simp_all add: shape_def)

lemma clusterNodeRemoveSlave_shape: "clusterNodeRemoveSlave a b s = Some (r, s') \<Longrightarrow> shape s' = shape s"
  by (auto simp: clusterNodeRemoveSlave_def opt_bind node_shape_def split: option.splits dest!: shape_node_upd)

lemma clusterNodeDelFailureReport_shape:
  "clusterNodeDelFailureReport a b s = Some (r, s') \<Longrightarrow> shape s' = shape s"
  by (auto simp: clusterNodeDelFailureReport_def clusterNodeCleanupFailureReports_def Let_def opt_bind
      node_shape_def split: option.splits dest!: shape_node_upd)

lemma clusterNodeDelFailureReport_total:
  "heap s a \<noteq> None \<Longrightarrow> \<exists>r s'. clusterNodeDelFailureReport a b s = Some (r, s')"
  by (auto simp: clusterNodeDelFailureReport_def clusterNodeCleanupFailureReports_def Let_def deref_def
      node_upd_def split: option.splits)

lemma clusterNodeRemoveSlave_total:
  "heap s a \<noteq> None \<Longrightarrow> \<exists>r s'. clusterNodeRemoveSlave a b s = Some (r, s')"
  by (auto simp: clusterNodeRemoveSlave_def deref_def node_upd_def split: option.splits)

definition node_id :: "clusterNode \<Rightarrow> bytes \<times> ptr" where
  "node_id n = (n_name n, n_slaveof n)"

lemma freeClusterLink_frame:
  assumes "freeClusterLink l s = Some s'"
  shows "\<exists>h k e. s' = s\<lparr>heap := h, effects := e, links := k\<rparr> \<and>
     (\<forall>q. map_option node_id (h q) = map_option node_id (heap s q))"
proof -
  obtain k where k: "links s l = Some k" using assms by (auto simp: freeClusterLink_def opt_bind deref_def)
  show ?thesis
  proof (cases "l_node k = 0")
    case True
    then have "s' = s\<lparr>heap := heap s, effects := effects s @ [CloseFd (l_fd k)], links := (links s)(l := None)\<rparr>"
      using assms k by (simp add: freeClusterLink_def deref_def do_log_def)
    then show ?thesis by blast
  next
    case False
    then obtain n where n: "heap s (l_node k) = Some n"
      using assms k by (auto simp: freeClusterLink_def deref_def node_upd_def split: option.splits)
    define h where "h = (heap s)(l_node k \<mapsto> n\<lparr>n_link := 0\<rparr>)"
    have "s' = s\<lparr>heap := h, effects := effects s @ [CloseFd (l_fd k)], links := (links s)(l := None)\<rparr>"
      using assms k n False by (simp add: freeClusterLink_def deref_def node_upd_def do_log_def h_def)
    moreover have "map_option node_id (h q) = map_option node_id (heap s q)" for q
      by (simp add: h_def n node_id_def)
    ultimately show ?thesis by blast
  qed
qed

lemma freeClusterLink_total:
  "links s l = Some k \<Longrightarrow> l_node k \<noteq> 0 \<longrightarrow> heap s (l_node k) \<noteq> None \<Longrightarrow> \<exists>s'. freeClusterLink l s = Some s'"
  by (cases "l_node k = 0") (auto simp: freeClusterLink_def deref_def node_upd_def)

text \<open>Every entry of the node table is a live node of that name.\<close>

definition nodes_inv :: "server \<Rightarrow> bool" where
  "nodes_inv s \<longleftrightarrow> dictWf (c_nodes s) \<and>
     (\<forall>(k, p) \<in> set (c_nodes s). \<exists>n. heap s p = Some n \<and> n_name n = k)"

text \<open>The pointers a node holds are live.\<close>

definition node_closed :: "server \<Rightarrow> clusterNode \<Rightarrow> bool" where
  "node_closed s n \<longleftrightarrow>
     (n_slaveof n \<noteq> NULL \<longrightarrow> heap s (n_slaveof n) \<noteq> None) \<and>
     (n_link n \<noteq> NULL \<longrightarrow> (\<exists>l. links s (n_link n) = Some l \<and> (l_node l \<noteq> NULL \<longrightarrow> heap s (l_node l) \<noteq> None)))"

lemma node_closed_shape: "shape s' = shape s \<Longrightarrow> node_closed s' n = node_closed s n"
  using shapeD(2,4)[of s' s] by (auto simp: node_closed_def)

lemma nodes_inv_shape:
  assumes sh: "shape s' = shape s" and inv: "nodes_inv s"
  shows "nodes_inv s'"
proof -
  have "\<exists>n'. heap s' p = Some n' \<and> n_name n' = k" if "heap s p = Some n" "n_name n = k" for p k n
    using shape_node[OF sh that(1)] that(2) by (auto simp: node_shape_def)
  then show ?thesis using inv unfolding nodes_inv_def shapeD(1)[OF sh] by fast
qed

text \<open>First loop of \<open>clusterDelNode\<close>: no slot refers to the node any more.\<close>

definition slot_clear :: "ptr \<Rightarrow> nat \<Rightarrow> server \<Rightarrow> bool" where
  "slot_clear p j s \<longleftrightarrow> c_importing_slots_from s j \<noteq> p \<and> c_migrating_slots_to s j \<noteq> p \<and> c_slots s j \<noteq> p"

lemma clusterDelNode_slot_spec:
  assumes "slots_inv s" and "j < REDIS_CLUSTER_SLOTS" and "p \<noteq> 0"
  shows "returns (clusterDelNode_slot p j s) (\<lambda>s'. slots_inv s' \<and> shape s' = shape s \<and> slot_clear p j s' \<and>
     (\<forall>k. slot_clear p k s \<longrightarrow> slot_clear p k s'))"
proof -
  define s2 where "s2 = (let s1 = (if c_importing_slots_from s j = p
        then s\<lparr>c_importing_slots_from := (c_importing_slots_from s)(j := 0)\<rparr> else s)
     in if c_migrating_slots_to s1 j = p
        then s1\<lparr>c_migrating_slots_to := (c_migrating_slots_to s1)(j := 0)\<rparr> else s1)"
  have s2: "slots_inv s2" "shape s2 = shape s" "c_slots s2 = c_slots s"
    "c_importing_slots_from s2 j \<noteq> p" "c_migrating_slots_to s2 j \<noteq> p"
    "\<And>k. slot_clear p k s \<Longrightarrow> slot_clear p k s2"
    using assms by (auto simp: s2_def Let_def slots_inv_def slot_clear_def)
  have eq: "clusterDelNode_slot p j s
      = (if c_slots s2 j = p then map_option snd (clusterDelSlot j s2) else Some s2)"
    by (simp add: clusterDelNode_slot_def s2_def Let_def)
  show ?thesis
  proof (cases "c_slots s2 j = p")
    case False
    then show ?thesis using s2 by (simp add: eq wp slot_clear_def)
  next
    case True
    have fr: "c_importing_slots_from s' = c_importing_slots_from s2 \<and> c_migrating_slots_to s' = c_migrating_slots_to s2"
      if "but_slots s' = but_slots s2" for s'
      using arg_cong[OF that, of c_importing_slots_from] arg_cong[OF that, of c_migrating_slots_to]
      by (simp add: but_slots_def)
    obtain r s' where d: "clusterDelSlot j s2 = Some (r, s')" and s': "slots_inv s'"
      "but_slots s' = but_slots s2" "c_slots s' = (c_slots s2)(j := 0)"
      using returnsD[OF clusterDelSlot_spec[OF s2(1) assms(2)]] by auto
    have "slot_clear p j s'" and "slot_clear p k s \<Longrightarrow> slot_clear p k s'" for k
      using s2 s'(3) fr[OF s'(2)] assms(3) s2(6)[of k] by (simp_all add: slot_clear_def)
    then have "returns (clusterDelSlot j s2) (\<lambda>x. slots_inv (snd x) \<and> shape (snd x) = shape s \<and>
        slot_clear p j (snd x) \<and> (\<forall>k. slot_clear p k s \<longrightarrow> slot_clear p k (snd x)))"
      using s'(1) but_slots_shape[OF s'(2)] s2(2) by (simp add: d wp)
    then show ?thesis using True by (simp add: eq wp)
  qed
qed

lemma clusterDelNode_loop1:
  assumes "slots_inv s" and "p \<noteq> 0"
  shows "returns (foldM (clusterDelNode_slot p) [0..<REDIS_CLUSTER_SLOTS] s) (\<lambda>s'. slots_inv s' \<and>
     shape s' = shape s \<and> (\<forall>j<REDIS_CLUSTER_SLOTS. slot_clear p j s'))"
proof -
  define I where "I i s' \<longleftrightarrow> slots_inv s' \<and> shape s' = shape s \<and> (\<forall>j<i. slot_clear p j s')" for i s'
  have "returns (foldM (clusterDelNode_slot p) [0..<REDIS_CLUSTER_SLOTS] s) (I REDIS_CLUSTER_SLOTS)"
  proof (rule returns_foldM_upt)
    show "I 0 s" using assms(1) by (simp add: I_def)
  next
    fix j s1 assume j: "j < REDIS_CLUSTER_SLOTS" and I: "I j s1"
    then have "slots_inv s1" by (simp add: I_def)
    from clusterDelNode_slot_spec[OF this j assms(2)]
    show "returns (clusterDelNode_slot p j s1) (I (Suc j))"
      by (rule returns_mono) (use I in \<open>auto simp: I_def less_Suc_eq\<close>)
  qed
  then show ?thesis by (rule returns_mono) (simp add: I_def)
qed

text \<open>Second loop: the reports of the node are dropped everywhere.\<close>

lemma clusterDelNode_loop2:
  assumes "\<forall>e \<in> set es. heap s (snd e) \<noteq> None" and "slots_inv s"
  shows "returns (foldM (\<lambda>(_, node) s. if node = p then Some s
             else map_option snd (clusterNodeDelFailureReport node p s)) es s)
     (\<lambda>s'. slots_view s' = slots_view s \<and> shape s' = shape s \<and>
        c_importing_slots_from s' = c_importing_slots_from s \<and>
        c_migrating_slots_to s' = c_migrating_slots_to s)"
proof (rule returns_foldM, goal_cases)
  case 1
  then show ?case by simp
next
  case (2 e s1)
  obtain k q where e: "e = (k, q)" by (cases e)
  have q: "heap s1 q \<noteq> None" using 2 assms(1) shapeD(4)[of s1 s q] by (auto simp: e)
  obtain r s2 where d: "clusterNodeDelFailureReport q p s1 = Some (r, s2)"
    using clusterNodeDelFailureReport_total[OF q] by blast
  show ?case
    using 2 clusterNodeDelFailureReport_slots[OF d] clusterNodeDelFailureReport_shape[OF d] clusterNodeDelFailureReport_heap[OF d]
    by (auto simp add: e d wp)
qed

text \<open>\<open>freeClusterNode\<close> on a node without slots: it leaves the table and the memory.\<close>

lemma freeClusterNode_spec:
  assumes inv: "slots_inv s" "nodes_inv s" and n: "heap s p = Some n" "n_numslots n = 0"
    and tab: "(n_name n, p) \<in> set (c_nodes s)" and closed: "node_closed s n"
  shows "returns (freeClusterNode p s) (\<lambda>s'. slots_inv s' \<and> nodes_inv s' \<and> heap s' p = None \<and>
     c_nodes s' = filter (\<lambda>e. fst e \<noteq> n_name n) (c_nodes s) \<and> c_slots s' = c_slots s \<and>
     c_importing_slots_from s' = c_importing_slots_from s \<and> c_migrating_slots_to s' = c_migrating_slots_to s \<and>
     (\<forall>q. q \<noteq> p \<longrightarrow> map_option node_id (heap s' q) = map_option node_id (heap s q)))"
proof -
  have find: "dictFind (c_nodes s) (n_name n) = Some p"
    using nd.find_entries[of "c_nodes s" "n_name n" p] inv(2) tab by (simp add: nodes_inv_def)
  then obtain d where d: "dictDelete (c_nodes s) (n_name n) = Some d"
    using nd.del_None[of "c_nodes s" "n_name n"] by (cases "dictDelete (c_nodes s) (n_name n)") auto
  have d_eq: "d = filter (\<lambda>e. fst e \<noteq> n_name n) (c_nodes s)"
    using d by (auto simp: dictDelete_def split: if_splits)
  define s1 where "s1 = s\<lparr>c_nodes := d\<rparr>"
  obtain s2 where s2: "(if n_slaveof n \<noteq> 0 then map_option snd (clusterNodeRemoveSlave (n_slaveof n) p s1)
            else Some s1) = Some s2"
    using clusterNodeRemoveSlave_total[of s1 "n_slaveof n" p] closed
    by (cases "n_slaveof n = 0") (auto simp: s1_def node_closed_def)
  have sh2: "shape s2 = shape s1" and sv2: "slots_view s2 = slots_view s1"
    using s2 by (auto split: if_splits dest: clusterNodeRemoveSlave_shape clusterNodeRemoveSlave_slots)
  have fr2: "c_importing_slots_from s2 = c_importing_slots_from s \<and> c_migrating_slots_to s2 = c_migrating_slots_to s"
    using s2 by (auto simp: s1_def split: if_splits dest!: clusterNodeRemoveSlave_heap)
  have al2: "heap s2 q = None \<longleftrightarrow> heap s q = None" and ln2: "links s2 = links s" for q
    using shapeD(2,4)[OF sh2] by (simp_all add: s1_def)
  obtain s3 where s3: "(if n_link n \<noteq> 0 then freeClusterLink (n_link n) s2 else Some s2) = Some s3"
    using closed al2 ln2 freeClusterLink_total[of s2 "n_link n"] by (cases "n_link n = 0") (auto simp: node_closed_def)
  have sv3: "slots_view s3 = slots_view s2"
    using s3 by (auto split: if_splits dest: freeClusterLink_slots)
  have fr3: "c_nodes s3 = c_nodes s2 \<and> c_importing_slots_from s3 = c_importing_slots_from s2 \<and>
      c_migrating_slots_to s3 = c_migrating_slots_to s2 \<and>
      (\<forall>q. map_option node_id (heap s3 q) = map_option node_id (heap s2 q))"
    using s3 freeClusterLink_frame[of "n_link n" s2 s3] by (auto split: if_splits)
  have nm: "map_option node_id (heap s3 q) = map_option node_id (heap s q)" for q
    using fr3 shapeD(3)[OF sh2, of q]
    by (cases "heap s q"; cases "heap s2 q") (auto simp: s1_def node_shape_def node_id_def)
  have al3: "heap s3 q = None \<longleftrightarrow> heap s q = None" for q
    using nm[of q] by (cases "heap s3 q"; cases "heap s q") auto
  have run: "freeClusterNode p s = Some (s3\<lparr>heap := (heap s3)(p := None)\<rparr>)"
    using n d s2[unfolded s1_def] s3 by (simp add: freeClusterNode_def deref_def redisAssert_def Let_def)
  have view: "slots_view s3 = slots_view s" using sv2 sv3 by (simp add: s1_def)
  have nodes3: "c_nodes s3 = d" using fr3 shapeD(1)[OF sh2] by (simp add: s1_def)
  obtain n3 where n3: "heap s3 p = Some n3" "n_numslots n3 = 0"
    using slots_view_node[OF view, of p] n by (cases "heap s3 p") (auto simp: node_slots_view_def)
  have "slots_inv (s3\<lparr>heap := (heap s3)(p := None)\<rparr>)"
    using slots_view_inv[OF view inv(1)] n3 slots_agree_free by (simp add: slots_inv_def)
  moreover have "nodes_inv (s3\<lparr>heap := (heap s3)(p := None)\<rparr>)"
    unfolding nodes_inv_def
  proof (intro conjI ballI, goal_cases)
    case 1
    then show ?case using nd.del_wf[OF _ d] inv(2) nodes3 by (simp add: nodes_inv_def)
  next
    case (2 e)
    obtain k q where e: "e = (k, q)" by (cases e)
    from 2 have kq: "(k, q) \<in> set (c_nodes s)" "k \<noteq> n_name n" by (auto simp: e nodes3 d_eq)
    then obtain m where m: "heap s q = Some m" "n_name m = k" using inv(2) by (auto simp: nodes_inv_def)
    then have "q \<noteq> p" using n kq(2) by auto
    then show ?case using nm[of q] m by (auto simp: e node_id_def)
  qed
  moreover have "c_slots s3 = c_slots s" using view by (simp add: slots_view_def)
  ultimately show ?thesis using nodes3 d_eq fr2 fr3 nm by (simp add: run wp)
qed

lemma clusterDelNode_spec:
  assumes inv: "slots_inv s" "nodes_inv s" and n: "heap s p = Some n"
    and tab: "(n_name n, p) \<in> set (c_nodes s)" and closed: "node_closed s n"
  shows "returns (clusterDelNode p s) (\<lambda>s'. slots_inv s' \<and> nodes_inv s' \<and> heap s' p = None \<and>
     c_nodes s' = filter (\<lambda>e. fst e \<noteq> n_name n) (c_nodes s) \<and>
     (\<forall>j<REDIS_CLUSTER_SLOTS. slot_clear p j s') \<and>
     (\<forall>q. q \<noteq> p \<longrightarrow> map_option node_id (heap s' q) = map_option node_id (heap s q)))"
proof -
  have p0: "p \<noteq> 0" using inv(1) n slots_agree_nonnull by (auto simp: slots_inv_def)
  obtain s1 where s1: "foldM (clusterDelNode_slot p) [0..<REDIS_CLUSTER_SLOTS] s = Some s1"
    "slots_inv s1" "shape s1 = shape s" "\<forall>j<REDIS_CLUSTER_SLOTS. slot_clear p j s1"
    using returnsD[OF clusterDelNode_loop1[OF inv(1) p0]] by blast
  have "\<forall>e \<in> set (c_nodes s1). heap s1 (snd e) \<noteq> None"
    using nodes_inv_shape[OF s1(3) inv(2)] by (fastforce simp: nodes_inv_def)
  from returnsD[OF clusterDelNode_loop2[OF this s1(2), of p]]
  obtain s2 where s2: "foldM (\<lambda>(_, node) s. if node = p then Some s
             else map_option snd (clusterNodeDelFailureReport node p s)) (c_nodes s1) s1 = Some s2"
    "slots_view s2 = slots_view s1" "shape s2 = shape s1"
    "c_importing_slots_from s2 = c_importing_slots_from s1" "c_migrating_slots_to s2 = c_migrating_slots_to s1"
    by blast
  have sh2: "shape s2 = shape s" using s1(3) s2(3) by simp
  obtain n2 where n2: "heap s2 p = Some n2" "node_shape n2 = node_shape n" using shape_node[OF sh2 n] by blast
  have closed2: "node_closed s2 n2"
    using closed n2(2) node_closed_shape[OF sh2, of n] by (simp add: node_closed_def node_shape_def)
  obtain s3 where s3: "(if nodeIsSlave n2 \<and> n_slaveof n2 \<noteq> 0
      then map_option snd (clusterNodeRemoveSlave (n_slaveof n2) p s2) else Some s2) = Some s3"
    using clusterNodeRemoveSlave_total[of s2 "n_slaveof n2" p] closed2
    by (cases "nodeIsSlave n2 \<and> n_slaveof n2 \<noteq> 0") (auto simp: node_closed_def)
  have v3: "slots_view s3 = slots_view s2 \<and> shape s3 = shape s2 \<and>
      c_importing_slots_from s3 = c_importing_slots_from s2 \<and> c_migrating_slots_to s3 = c_migrating_slots_to s2"
    using s3 by (auto split: if_splits
        dest: clusterNodeRemoveSlave_slots clusterNodeRemoveSlave_shape clusterNodeRemoveSlave_heap)
  have sh3: "shape s3 = shape s" using v3 sh2 by simp
  obtain n3 where n3: "heap s3 p = Some n3" "node_shape n3 = node_shape n" using shape_node[OF sh3 n] by blast
  have id3: "map_option node_id (heap s3 q) = map_option node_id (heap s q)" for q
    using shapeD(3)[OF sh3, of q]
    by (cases "heap s q"; cases "heap s3 q") (auto simp: node_id_def node_shape_def)
  have inv3: "slots_inv s3" "nodes_inv s3"
    using slots_view_inv[of s3 s1] v3 s2(2) s1(2) nodes_inv_shape[OF sh3 inv(2)] by simp_all
  have clear3: "\<forall>j<REDIS_CLUSTER_SLOTS. slot_clear p j s3"
    using s1(4) v3 s2 by (simp add: slot_clear_def slots_view_def)
  then have "n_numslots n3 = 0"
    using slots_agree_numslots_zero[OF inv3(1)[unfolded slots_inv_def] n3(1)] by (simp add: slot_clear_def)
  moreover have "node_closed s3 n3"
    using closed n3(2) node_closed_shape[OF sh3, of n] by (simp add: node_closed_def node_shape_def)
  moreover have "(n_name n3, p) \<in> set (c_nodes s3)"
    using tab n3(2) shapeD(1)[OF sh3] by (simp add: node_shape_def)
  ultimately have "returns (freeClusterNode p s3) (\<lambda>s'. slots_inv s' \<and> nodes_inv s' \<and> heap s' p = None \<and>
     c_nodes s' = filter (\<lambda>e. fst e \<noteq> n_name n) (c_nodes s) \<and> (\<forall>j<REDIS_CLUSTER_SLOTS. slot_clear p j s') \<and>
     (\<forall>q. q \<noteq> p \<longrightarrow> map_option node_id (heap s' q) = map_option node_id (heap s q)))"
    using id3 freeClusterNode_spec[OF inv3 n3(1)] clear3 n3(2) shapeD(1)[OF sh3]
    by (auto simp: slot_clear_def node_shape_def elim!: returns_mono)
  then show ?thesis
    using s1(1) s2(1) s3 n2(1) by (simp add: clusterDelNode_def deref_def wp)
qed


lemma one_node_server_nodes_inv: "nodes_inv one_node_server"
  by (simp add: nodes_inv_def one_node_server_def zero_server_def dictWf_def newClusterNode_def)


text \<open>Deleting a master leaves its replicas with a dangling \<open>slaveof\<close>: after \<open>clusterDelNode\<close>
  of their master, which frees it, every replica still holds the address of the freed node.
  (Nothing in \<open>clusterDelNode\<close> or \<open>freeClusterNode\<close> walks the slaves of the deleted node.)\<close>

theorem clusterDelNode_dangling_slaveof:
  assumes "slots_inv s" "nodes_inv s" and "heap s p = Some n"
    and "(n_name n, p) \<in> set (c_nodes s)" and "node_closed s n"
    and "heap s q = Some replica" and "n_slaveof replica = p" and "q \<noteq> p"
  shows "returns (clusterDelNode p s) (\<lambda>s'. heap s' p = None \<and>
     (\<exists>r. heap s' q = Some r \<and> n_slaveof r = p))"
proof (rule returns_mono[OF clusterDelNode_spec[OF assms(1-5)]], elim conjE)
  fix s' assume "heap s' p = None"
    and *: "\<forall>q. q \<noteq> p \<longrightarrow> map_option node_id (heap s' q) = map_option node_id (heap s q)"
  have "map_option node_id (heap s' q) = Some (node_id replica)" using * assms(6,8) by simp
  with \<open>heap s' p = None\<close> show "heap s' p = None \<and> (\<exists>r. heap s' q = Some r \<and> n_slaveof r = p)"
    using assms(7) by (auto simp: node_id_def)
qed

text \<open>A master at address 1 and its replica at address 2, both in the table.\<close>

definition master_and_replica :: server where
  "master_and_replica = one_node_server
     \<lparr>heap := (heap one_node_server)(2 \<mapsto> (newClusterNode (replicate 40 0x62) REDIS_NODE_SLAVE 0)\<lparr>n_slaveof := 1\<rparr>),
      c_nodes := [(replicate 40 0x61, 1), (replicate 40 0x62, 2)], c_myself := 2, brk := 3\<rparr>"

lemma master_and_replica_invs: "slots_inv master_and_replica" "nodes_inv master_and_replica"
proof -
  have "replicate 40 (0x61::u8) \<noteq> replicate 40 0x62" by simp
  then show "nodes_inv master_and_replica"
    by (simp add: nodes_inv_def master_and_replica_def one_node_server_def zero_server_def dictWf_def newClusterNode_def)
  show "slots_inv master_and_replica"
    by (simp add: master_and_replica_def one_node_server_def zero_server_def slots_inv_def slots_agree_def
        node_agrees_def newClusterNode_def node_slot_count_def)
qed

theorem clusterDelNode_dangling_slaveof_witness:
  "returns (clusterDelNode 1 master_and_replica)
     (\<lambda>s'. heap s' 1 = None \<and> (\<exists>r. heap s' 2 = Some r \<and> n_slaveof r = 1))"
proof -
  define n where "n = newClusterNode (replicate 40 0x61) (REDIS_NODE_MYSELF OR REDIS_NODE_MASTER) 0"
  define r where "r = (newClusterNode (replicate 40 0x62) REDIS_NODE_SLAVE 0)\<lparr>n_slaveof := 1\<rparr>"
  have h: "heap master_and_replica 1 = Some n" and t: "(n_name n, 1) \<in> set (c_nodes master_and_replica)"
    and c: "node_closed master_and_replica n" and q: "heap master_and_replica 2 = Some r" "n_slaveof r = 1"
    by (simp_all add: master_and_replica_def one_node_server_def zero_server_def n_def r_def
        newClusterNode_def node_closed_def)
  show ?thesis
    by (rule clusterDelNode_dangling_slaveof[OF master_and_replica_invs h t c q]) simp
qed

subsection \<open>Renaming and the blacklist\<close>

text \<open>Renaming a node of the table to an unused 40 byte name never aborts, keeps table and
  nodes consistent, and from then on the node is found under the new name, not under the old one,
  while every other name is found as before. (This is how a handshake node gets its real name.)\<close>

theorem clusterRenameNode_correct:
  assumes inv: "nodes_inv s" and n: "heap s p = Some n" and tab: "(n_name n, p) \<in> set (c_nodes s)"
    and len: "length newname = REDIS_CLUSTER_NAMELEN" and new: "dictFind (c_nodes s) newname = None"
  shows "returns (clusterRenameNode p newname s) (\<lambda>s'. nodes_inv s' \<and>
     (\<forall>k. dictFind (c_nodes s') k = (if k = newname then Some p
        else if k = n_name n then None else dictFind (c_nodes s) k)))"
proof -
  have wf: "dictWf (c_nodes s)" using inv by (simp add: nodes_inv_def)
  have "dictFind (c_nodes s) (n_name n) = Some p" using nd.find_entries[OF wf] tab by simp
  then obtain d where d: "dictDelete (c_nodes s) (n_name n) = Some d"
    using nd.del_None[of "c_nodes s" "n_name n"] by (cases "dictDelete (c_nodes s) (n_name n)") auto
  have "dictFind d newname = None" using nd.del_Some[OF d] new by auto
  then obtain d' where d': "dictAdd d newname p = Some d'"
    using nd.add_None[of d newname p] by (cases "dictAdd d newname p") auto
  have run: "clusterRenameNode p newname s =
      Some (s\<lparr>c_nodes := d, heap := (heap s)(p \<mapsto> n\<lparr>n_name := newname\<rparr>), c_nodes := d'\<rparr>)"
    using n d d' len by (simp add: clusterRenameNode_def clusterAddNode_def deref_def node_upd_def)
  have ent: "set d' = insert (newname, p) {e \<in> set (c_nodes s). fst e \<noteq> n_name n}"
    using nd.entries_add[OF nd.del_wf[OF wf d] d'] nd.entries_del[OF wf d] by simp
  have "(k, p) \<notin> set d' \<or> k = newname" for k
    using inv n ent by (auto simp: nodes_inv_def)
  then have "nodes_inv (s\<lparr>c_nodes := d, heap := (heap s)(p \<mapsto> n\<lparr>n_name := newname\<rparr>), c_nodes := d'\<rparr>)"
    using inv ent nd.add_wf[OF nd.del_wf[OF wf d] d'] by (auto simp: nodes_inv_def)
  moreover have "dictFind d' k = (if k = newname then Some p
        else if k = n_name n then None else dictFind (c_nodes s) k)" for k
    using nd.add_Some[OF d', of k] nd.del_Some[OF d, of k] by simp
  ultimately show ?thesis by (simp add: run wp)
qed

theorem clusterRenameNode_correct_witness:
  "returns (clusterRenameNode 1 (replicate 40 0x63) one_node_server)
     (\<lambda>s'. dictFind (c_nodes s') (replicate 40 0x63) = Some 1)"
proof -
  define n where "n = newClusterNode (replicate 40 0x61) (REDIS_NODE_MYSELF OR REDIS_NODE_MASTER) 0"
  have h: "heap one_node_server 1 = Some n" and t: "(n_name n, 1) \<in> set (c_nodes one_node_server)"
    and f: "dictFind (c_nodes one_node_server) (replicate 40 0x63) = None"
    by (simp_all add: one_node_server_def zero_server_def n_def newClusterNode_def dictFind_def)
  show ?thesis
    by (rule returns_mono[OF clusterRenameNode_correct[OF one_node_server_nodes_inv h t _ f]]) simp_all
qed

text \<open>A forgotten node stays blacklisted for 60 seconds of the clock and no longer: after
  \<open>clusterBlacklistAddNode\<close> and whatever time passes, \<open>clusterBlacklistExists\<close> on its name answers 1 exactly
  until the cached clock has passed the time of the call by more than the TTL.\<close>

theorem clusterBlacklist_ttl:
  assumes "heap s p = Some n" and "length (n_name n) = REDIS_CLUSTER_NAMELEN"
  shows "returns (clusterBlacklistAddNode p s) (\<lambda>s1.
     fst (clusterBlacklistExists (n_name n) (s1\<lparr>unixtime := t\<rparr>)) \<longleftrightarrow> t \<le> mstime s div 1000 + 60)"
proof -
  define s1 where "s1 = clusterBlacklistCleanup s"
  define d where "d = (case dictAdd (c_nodes_black_list s1) (n_name n) 0 of Some d \<Rightarrow> d | None \<Rightarrow> c_nodes_black_list s1)"
  let ?e = "mstime s div 1000 + 60"
  have mem: "n_name n \<in> fst ` set d"
    by (auto simp: d_def dictAdd_def map_of_eq_None_iff split: if_splits)
  have "(\<exists>v. (n_name n, v) \<in> set (filter (\<lambda>(_, expire). \<not> expire < t)
           (map (\<lambda>(k, v). if k = n_name n then (k, ?e) else (k, v)) d))) \<longleftrightarrow> t \<le> ?e"
    using mem by (force simp: not_less split: if_splits prod.splits)
  moreover have "dictFind l k \<noteq> None \<longleftrightarrow> (\<exists>v. (k, v) \<in> set l)" for l :: "(bytes \<times> int) list" and k
    by (auto simp: dictFind_def) (metis map_of_SomeD, metis weak_map_of_SomeI option.distinct(1))
  ultimately show ?thesis
    using assms by (simp add: clusterBlacklistAddNode_def clusterBlacklistExists_def clusterBlacklistCleanup_def
        wp d_def[symmetric] s1_def[symmetric, unfolded clusterBlacklistCleanup_def])
qed

theorem clusterBlacklist_ttl_witness:
  "returns (clusterBlacklistAddNode 1 one_node_server) (\<lambda>s1.
     \<not> fst (clusterBlacklistExists (replicate 40 0x61) (s1\<lparr>unixtime := 61\<rparr>)))"
proof -
  define n where "n = newClusterNode (replicate 40 0x61) (REDIS_NODE_MYSELF OR REDIS_NODE_MASTER) 0"
  have h: "heap one_node_server 1 = Some n" and l: "length (n_name n) = REDIS_CLUSTER_NAMELEN"
    and nm: "n_name n = replicate 40 0x61" and z: "mstime one_node_server = 0"
    by (simp_all add: one_node_server_def zero_server_def n_def newClusterNode_def)
  show ?thesis
    by (rule returns_mono[OF clusterBlacklist_ttl[OF h l, of 61]]) (use z nm in simp)
qed

end
