(* ===== verification/ClusterBus.thy ===== *)
theory ClusterBus
  imports ClusterNodes
begin

text \<open>
  Building and sending packets (cluster.c, "CLUSTER messages exchange"), the replication and
  client-pause entry points the cluster code calls, and the manual failover reset.
  A packet is sent by appending it to \<open>outbox\<close> together with its link. The loop of
  \<open>clusterSendPing\<close> that picks the nodes of the gossip section draws from the random stream until it has
  enough: it is a \<open>partial_function\<close>, shown to return for every fair stream and to gossip
  only about proper nodes, each at most once.
\<close>

subsection \<open>Sizes of the packet structures (\<open>sizeof\<close>)\<close>

definition CLUSTERMSG_MIN_LEN :: u32 where "CLUSTERMSG_MIN_LEN = 2208"
definition sizeof_clusterMsg :: u32 where "sizeof_clusterMsg = 4304"
definition sizeof_gossip :: u32 where "sizeof_gossip = 104"
definition sizeof_fail :: u32 where "sizeof_fail = 40"
definition sizeof_publish :: u32 where "sizeof_publish = 16"
definition sizeof_update :: u32 where "sizeof_update = 2096"

subsection \<open>Replication and paused clients\<close>

definition replicationSetMaster :: "bytes \<Rightarrow> int \<Rightarrow> server \<Rightarrow> server" where
  "replicationSetMaster ip port s = do_log (ReplicationSetMaster ip port)
     (s\<lparr>masterhost := Some ip, masterport := port, srv_master := None, cached_master := None,
        repl_state := REPL_CONNECT, master_repl_offset := 0, repl_down_since := 0\<rparr>)"

definition replicationUnsetMaster :: "server \<Rightarrow> server" where
  "replicationUnsetMaster s =
     (if masterhost s = None then s
      else let s1 = s\<lparr>masterhost := None\<rparr>;
               s2 = (case srv_master s1 of
                       None \<Rightarrow> s1
                     | Some m \<Rightarrow>
                         (if num_repl_slaves s1 = 0 then s1\<lparr>master_repl_offset := mc_reploff m\<rparr> else s1)
                           \<lparr>srv_master := None, repl_down_since := unixtime s1\<rparr>)
           in do_log ReplicationUnsetMaster (s2\<lparr>cached_master := None, repl_state := REPL_NONE\<rparr>))"

definition replicationGetSlaveOffset :: "server \<Rightarrow> int" where
  "replicationGetSlaveOffset s =
     (let offset = (if masterhost s \<noteq> None
                    then (case srv_master s of Some m \<Rightarrow> mc_reploff m
                          | None \<Rightarrow> (case cached_master s of Some m \<Rightarrow> mc_reploff m | None \<Rightarrow> 0))
                    else 0)
      in if offset < 0 then 0 else offset)"

definition clientsArePaused :: "server \<Rightarrow> bool \<times> server" where
  "clientsArePaused s =
     (let s1 = (if clients_paused s \<and> clients_pause_end_time s < srv_mstime s
                then s\<lparr>clients_paused := False\<rparr> else s)
      in (clients_paused s1, s1))"

definition pauseClients :: "int \<Rightarrow> server \<Rightarrow> server" where
  "pauseClients end s =
     (let s1 = (if \<not> clients_paused s \<or> end > clients_pause_end_time s
                then s\<lparr>clients_pause_end_time := end\<rparr> else s)
      in s1\<lparr>clients_paused := True\<rparr>)"

definition resetManualFailover :: "server \<Rightarrow> server" where
  "resetManualFailover s =
     (let s1 = (if c_mf_end s \<noteq> 0 then
                  let (paused, s0) = clientsArePaused s
                  in if paused then snd (clientsArePaused (s0\<lparr>clients_pause_end_time := 0\<rparr>)) else s0
                else s)
      in s1\<lparr>c_mf_end := 0, c_mf_can_start := False, c_mf_slave := NULL, c_mf_master_offset := 0\<rparr>)"

subsection \<open>Headers\<close>

definition clusterBuildMessageHdr :: "u16 \<Rightarrow> server \<Rightarrow> clusterMsg option" where
  "clusterBuildMessageHdr type s = do {
     me \<leftarrow> deref (heap s) (myself s);
     master \<leftarrow> (if nodeIsSlave me \<and> n_slaveof me \<noteq> NULL then deref (heap s) (n_slaveof me) else Some me);
     slaveof_name \<leftarrow> (if n_slaveof me \<noteq> NULL then map_option n_name (deref (heap s) (n_slaveof me))
                      else Some REDIS_NODE_NULL_NAME);
     let offset = (if nodeIsSlave me then replicationGetSlaveOffset s else master_repl_offset s);
     let totlen = (if type = CLUSTERMSG_TYPE_FAIL then CLUSTERMSG_MIN_LEN + sizeof_fail
                   else if type = CLUSTERMSG_TYPE_UPDATE then CLUSTERMSG_MIN_LEN + sizeof_update
                   else 0);
     Some \<lparr>m_totlen = totlen, m_ver = 0, m_type = type, m_count = 0,
           m_currentEpoch = c_currentEpoch s, m_configEpoch = n_configEpoch master,
           m_offset = word_of_int offset, m_sender = n_name me, m_myslots = n_slots master,
           m_slaveof = slaveof_name, m_port = srv_port s, m_flags = ucast (n_flags me),
           m_state = c_state s,
           m_mflags0 = (if nodeIsMaster me \<and> c_mf_end s \<noteq> 0 then CLUSTERMSG_FLAG0_PAUSED else 0),
           m_data = NoData\<rparr>
   }"

subsection \<open>Sending\<close>

definition clusterSendMessage :: "ptr \<Rightarrow> clusterMsg \<Rightarrow> server \<Rightarrow> server option" where
  "clusterSendMessage link msg s = do {
     l \<leftarrow> deref (links s) link;
     Some (s\<lparr>outbox := outbox s @ [(link, msg)],
             c_stats_bus_messages_sent := c_stats_bus_messages_sent s + 1\<rparr>)
   }"

definition clusterBroadcastMessage :: "clusterMsg \<Rightarrow> server \<Rightarrow> server option" where
  "clusterBroadcastMessage msg s =
     foldM (\<lambda>(_, p) s. do {
       node \<leftarrow> deref (heap s) p;
       if n_link node = NULL then Some s
       else if n_flags node AND (REDIS_NODE_MYSELF OR REDIS_NODE_HANDSHAKE) \<noteq> 0 then Some s
       else clusterSendMessage (n_link node) msg s
     }) (c_nodes s) s"

text \<open>\<open>dictGetRandomKey\<close> on the node table.\<close>

definition random_node :: "server \<Rightarrow> nat \<Rightarrow> ptr option" where
  "random_node s r = (if c_nodes s = [] then None else Some (snd (c_nodes s ! (r mod length (c_nodes s)))))"

definition gossip_skips :: "server \<Rightarrow> ptr \<Rightarrow> clusterNode \<Rightarrow> bool" where
  "gossip_skips s p this \<longleftrightarrow> p = myself s \<or>
     n_flags this AND (REDIS_NODE_HANDSHAKE OR REDIS_NODE_NOADDR) \<noteq> 0 \<or>
     (n_link this = NULL \<and> n_numslots this = 0)"

definition gossip_entry :: "clusterNode \<Rightarrow> clusterMsgDataGossip" where
  "gossip_entry this =
     \<lparr>g_nodename = n_name this, g_ping_sent = word_of_int (n_ping_sent this),
      g_pong_received = word_of_int (n_pong_received this), g_ip = n_ip this,
      g_port = word_of_int (n_port this), g_flags = ucast (n_flags this)\<rparr>"

partial_function (option) gossip_loop ::
  "server \<Rightarrow> (nat \<Rightarrow> nat) \<Rightarrow> int \<Rightarrow> clusterMsgDataGossip list \<Rightarrow> (clusterMsgDataGossip list \<times> (nat \<Rightarrow> nat)) option" where
  "gossip_loop s rnd freshnodes gossip =
     (if freshnodes > 0 \<and> length gossip < 3 then do {
        p \<leftarrow> random_node s (rnd 0);
        this \<leftarrow> deref (heap s) p;
        if gossip_skips s p this then gossip_loop s (\<lambda>i. rnd (Suc i)) (freshnodes - 1) gossip
        else if n_name this \<in> g_nodename ` set gossip then gossip_loop s (\<lambda>i. rnd (Suc i)) freshnodes gossip
        else gossip_loop s (\<lambda>i. rnd (Suc i)) (freshnodes - 1) (gossip @ [gossip_entry this])
      } else Some (gossip, rnd))"

definition clusterSendPing :: "ptr \<Rightarrow> u16 \<Rightarrow> server \<Rightarrow> server option" where
  "clusterSendPing link type s = do {
     l \<leftarrow> deref (links s) link;
     s1 \<leftarrow> (if l_node l \<noteq> NULL \<and> type = CLUSTERMSG_TYPE_PING
            then node_upd (l_node l) (\<lambda>n. n\<lparr>n_ping_sent := mstime s\<rparr>) s else Some s);
     hdr \<leftarrow> clusterBuildMessageHdr type s1;
     (gossip, rnd) \<leftarrow> gossip_loop s1 (rng s1) (int (length (c_nodes s1)) - 2) [];
     let totlen = CLUSTERMSG_MIN_LEN + sizeof_gossip * word_of_nat (length gossip);
     clusterSendMessage link
       (hdr\<lparr>m_count := word_of_nat (length gossip), m_totlen := totlen, m_data := PingData gossip\<rparr>)
       (s1\<lparr>rng := rnd\<rparr>)
   }"

datatype broadcast_target = CLUSTER_BROADCAST_ALL | CLUSTER_BROADCAST_LOCAL_SLAVES

definition clusterBroadcastPong :: "broadcast_target \<Rightarrow> server \<Rightarrow> server option" where
  "clusterBroadcastPong target s =
     foldM (\<lambda>(_, p) s. do {
       node \<leftarrow> deref (heap s) p;
       me \<leftarrow> deref (heap s) (myself s);
       if n_link node = NULL then Some s
       else if p = myself s \<or> nodeInHandshake node then Some s
       else if target = CLUSTER_BROADCAST_LOCAL_SLAVES \<and>
               \<not> (nodeIsSlave node \<and> n_slaveof node \<noteq> NULL \<and>
                  (n_slaveof node = myself s \<or> n_slaveof node = n_slaveof me)) then Some s
       else clusterSendPing (n_link node) CLUSTERMSG_TYPE_PONG s
     }) (c_nodes s) s"

text \<open>\<open>link = NULL\<close> broadcasts.\<close>

definition clusterSendPublish :: "ptr \<Rightarrow> bytes \<Rightarrow> bytes \<Rightarrow> server \<Rightarrow> server option" where
  "clusterSendPublish link channel message s = do {
     hdr \<leftarrow> clusterBuildMessageHdr CLUSTERMSG_TYPE_PUBLISH s;
     let channel_len = word_of_nat (length channel);
     let message_len = word_of_nat (length message);
     let totlen = CLUSTERMSG_MIN_LEN + sizeof_publish + channel_len + message_len;
     let msg = hdr\<lparr>m_totlen := totlen, m_data := PublishData channel_len message_len (channel @ message)\<rparr>;
     if link \<noteq> NULL then clusterSendMessage link msg s else clusterBroadcastMessage msg s
   }"

definition clusterPropagatePublish :: "bytes \<Rightarrow> bytes \<Rightarrow> server \<Rightarrow> server option" where
  "clusterPropagatePublish channel message s = clusterSendPublish NULL channel message s"

definition clusterSendFail :: "bytes \<Rightarrow> server \<Rightarrow> server option" where
  "clusterSendFail nodename s = do {
     hdr \<leftarrow> clusterBuildMessageHdr CLUSTERMSG_TYPE_FAIL s;
     clusterBroadcastMessage (hdr\<lparr>m_data := FailData nodename\<rparr>) s
   }"

definition clusterSendUpdate :: "ptr \<Rightarrow> ptr \<Rightarrow> server \<Rightarrow> server option" where
  "clusterSendUpdate link node s =
     (if link = NULL then Some s
      else do {
        hdr \<leftarrow> clusterBuildMessageHdr CLUSTERMSG_TYPE_UPDATE s;
        nd \<leftarrow> deref (heap s) node;
        clusterSendMessage link (hdr\<lparr>m_data := UpdateData (n_configEpoch nd) (n_name nd) (n_slots nd)\<rparr>) s
      })"

definition clusterRequestFailoverAuth :: "server \<Rightarrow> server option" where
  "clusterRequestFailoverAuth s = do {
     hdr \<leftarrow> clusterBuildMessageHdr CLUSTERMSG_TYPE_FAILOVER_AUTH_REQUEST s;
     let hdr1 = (if c_mf_end s \<noteq> 0
                 then hdr\<lparr>m_mflags0 := m_mflags0 hdr OR CLUSTERMSG_FLAG0_FORCEACK\<rparr> else hdr);
     clusterBroadcastMessage (hdr1\<lparr>m_totlen := CLUSTERMSG_MIN_LEN\<rparr>) s
   }"

definition clusterSendFailoverAuth :: "ptr \<Rightarrow> server \<Rightarrow> server option" where
  "clusterSendFailoverAuth node s = do {
     nd \<leftarrow> deref (heap s) node;
     if n_link nd = NULL then Some s
     else do {
       hdr \<leftarrow> clusterBuildMessageHdr CLUSTERMSG_TYPE_FAILOVER_AUTH_ACK s;
       clusterSendMessage (n_link nd) (hdr\<lparr>m_totlen := CLUSTERMSG_MIN_LEN\<rparr>) s
     }
   }"

definition clusterSendMFStart :: "ptr \<Rightarrow> server \<Rightarrow> server option" where
  "clusterSendMFStart node s = do {
     nd \<leftarrow> deref (heap s) node;
     if n_link nd = NULL then Some s
     else do {
       hdr \<leftarrow> clusterBuildMessageHdr CLUSTERMSG_TYPE_MFSTART s;
       clusterSendMessage (n_link nd) (hdr\<lparr>m_totlen := CLUSTERMSG_MIN_LEN\<rparr>) s
     }
   }"

subsection \<open>What sending leaves alone\<close>

text \<open>Sending writes the outbox, its counter, the random stream and \<open>ping_sent\<close> fields only.\<close>

definition but_bus :: "server \<Rightarrow> server" where
  "but_bus s = s\<lparr>outbox := [], c_stats_bus_messages_sent := 0, rng := (\<lambda>_. 0),
     heap := (\<lambda>p. map_option (\<lambda>n. n\<lparr>n_ping_sent := 0\<rparr>) (heap s p))\<rparr>"

named_theorems keeps_bus \<comment> \<open>operations that only send: facts \<open>op s = Some s' \<Longrightarrow> but_bus s' = but_bus s\<close>\<close>

lemma but_bus_heap:
  assumes "but_bus s' = but_bus s"
  shows "map_option (\<lambda>n. n\<lparr>n_ping_sent := 0\<rparr>) (heap s' p) = map_option (\<lambda>n. n\<lparr>n_ping_sent := 0\<rparr>) (heap s p)"
  using arg_cong[OF assms, of heap] by (simp add: but_bus_def fun_eq_iff)

lemma but_bus_node:
  assumes "but_bus s' = but_bus s" and "heap s p = Some n"
  shows "\<exists>n'. heap s' p = Some n' \<and> n'\<lparr>n_ping_sent := 0\<rparr> = n\<lparr>n_ping_sent := 0\<rparr>"
  using but_bus_heap[OF assms(1), of p] assms(2) by (cases "heap s' p") auto

lemma ping_sent_eqD:
  assumes "n'\<lparr>n_ping_sent := 0\<rparr> = n\<lparr>n_ping_sent := 0\<rparr>"
  shows "n_slots n' = n_slots n" "n_numslots n' = n_numslots n" "n_flags n' = n_flags n" "n_name n' = n_name n"
    "n_configEpoch n' = n_configEpoch n" "n_slaveof n' = n_slaveof n" "n_link n' = n_link n"
    "n_voted_time n' = n_voted_time n" "n_slaves n' = n_slaves n" "n_fail_reports n' = n_fail_reports n"
  using assms by (cases n; cases n'; simp)+

lemma but_bus_slots:
  assumes "but_bus s' = but_bus s"
  shows "slots_view s' = slots_view s"
proof -
  have "map_option node_slots_view (heap s' p) = map_option node_slots_view (heap s p)" for p
    using but_bus_heap[OF assms, of p]
    by (cases "heap s p"; cases "heap s' p") (auto simp: node_slots_view_def dest: ping_sent_eqD)
  moreover have "c_slots s' = c_slots s" using arg_cong[OF assms, of c_slots] by (simp add: but_bus_def)
  ultimately show ?thesis by (simp add: slots_view_def)
qed

lemma but_bus_fields:
  assumes "but_bus s' = but_bus s"
  shows "c_currentEpoch s' = c_currentEpoch s" "c_lastVoteEpoch s' = c_lastVoteEpoch s"
    "c_myself s' = c_myself s" "c_nodes s' = c_nodes s" "c_slots s' = c_slots s" "links s' = links s"
    "mstime s' = mstime s" "c_size s' = c_size s"
    "c_importing_slots_from s' = c_importing_slots_from s" "c_migrating_slots_to s' = c_migrating_slots_to s"
    "c_failover_auth_epoch s' = c_failover_auth_epoch s" "c_state s' = c_state s" "brk s' = brk s"
  using arg_cong[OF assms, of c_currentEpoch] arg_cong[OF assms, of c_lastVoteEpoch]
    arg_cong[OF assms, of c_myself] arg_cong[OF assms, of c_nodes] arg_cong[OF assms, of c_slots]
    arg_cong[OF assms, of links] arg_cong[OF assms, of mstime] arg_cong[OF assms, of c_size]
    arg_cong[OF assms, of c_importing_slots_from] arg_cong[OF assms, of c_migrating_slots_to]
    arg_cong[OF assms, of c_failover_auth_epoch] arg_cong[OF assms, of c_state] arg_cong[OF assms, of brk]
  by (simp_all add: but_bus_def)

lemma clusterSendMessage_bus [keeps_bus]:
  "clusterSendMessage l m s = Some s' \<Longrightarrow> but_bus s' = but_bus s"
  by (auto simp: clusterSendMessage_def opt_bind but_bus_def)

lemma clusterBroadcastMessage_bus [keeps_bus]:
  assumes "clusterBroadcastMessage m s = Some s'"
  shows "but_bus s' = but_bus s"
proof -
  have "whenever (clusterBroadcastMessage m s) (\<lambda>s'. but_bus s' = but_bus s)"
    unfolding clusterBroadcastMessage_def
    by (rule whenever_foldM) (auto simp: whenever_def opt_bind split: if_splits dest!: clusterSendMessage_bus)
  then show ?thesis using assms by (rule wheneverD)
qed

lemma but_bus_ping:
  "heap s p = Some n \<Longrightarrow> but_bus (s\<lparr>heap := (heap s)(p \<mapsto> n\<lparr>n_ping_sent := t\<rparr>)\<rparr>) = but_bus s"
  by (simp add: but_bus_def fun_eq_iff)

lemma but_bus_node_upd_ping:
  "node_upd p (\<lambda>n. n\<lparr>n_ping_sent := t\<rparr>) s = Some s' \<Longrightarrow> but_bus s' = but_bus s"
  by (auto simp: node_upd_def but_bus_ping split: option.splits)

lemma but_bus_rng [simp]: "but_bus (s\<lparr>rng := r\<rparr>) = but_bus s"
  by (simp add: but_bus_def)

lemma clusterSendPing_bus [keeps_bus]:
  "clusterSendPing l ty s = Some s' \<Longrightarrow> but_bus s' = but_bus s"
  by (auto simp: clusterSendPing_def opt_bind split: if_splits prod.splits
      dest!: clusterSendMessage_bus but_bus_node_upd_ping)

lemma clusterBroadcastPong_bus [keeps_bus]:
  assumes "clusterBroadcastPong tg s = Some s'"
  shows "but_bus s' = but_bus s"
proof -
  have "whenever (clusterBroadcastPong tg s) (\<lambda>s'. but_bus s' = but_bus s)"
    unfolding clusterBroadcastPong_def
    by (rule whenever_foldM) (auto simp: whenever_def opt_bind split: if_splits dest!: clusterSendPing_bus)
  then show ?thesis using assms by (rule wheneverD)
qed

lemma clusterSendFail_bus [keeps_bus]: "clusterSendFail nm s = Some s' \<Longrightarrow> but_bus s' = but_bus s"
  by (auto simp: clusterSendFail_def opt_bind dest!: clusterBroadcastMessage_bus)

lemma clusterSendPublish_bus [keeps_bus]: "clusterSendPublish l c m s = Some s' \<Longrightarrow> but_bus s' = but_bus s"
  by (auto simp: clusterSendPublish_def opt_bind Let_def split: if_splits
      dest!: clusterBroadcastMessage_bus clusterSendMessage_bus)

lemma clusterSendUpdate_bus [keeps_bus]: "clusterSendUpdate l p s = Some s' \<Longrightarrow> but_bus s' = but_bus s"
  by (auto simp: clusterSendUpdate_def opt_bind split: if_splits dest!: clusterSendMessage_bus)

lemma clusterRequestFailoverAuth_bus [keeps_bus]:
  "clusterRequestFailoverAuth s = Some s' \<Longrightarrow> but_bus s' = but_bus s"
  by (auto simp: clusterRequestFailoverAuth_def opt_bind Let_def dest!: clusterBroadcastMessage_bus)

lemma clusterSendFailoverAuth_bus [keeps_bus]:
  "clusterSendFailoverAuth p s = Some s' \<Longrightarrow> but_bus s' = but_bus s"
  by (auto simp: clusterSendFailoverAuth_def opt_bind split: if_splits dest!: clusterSendMessage_bus)

lemma clusterSendMFStart_bus [keeps_bus]: "clusterSendMFStart p s = Some s' \<Longrightarrow> but_bus s' = but_bus s"
  by (auto simp: clusterSendMFStart_def opt_bind split: if_splits dest!: clusterSendMessage_bus)

lemma replication_slots [simp]:
  "slots_view (replicationSetMaster ip port s) = slots_view s"
  "slots_view (replicationUnsetMaster s) = slots_view s"
  "slots_view (resetManualFailover s) = slots_view s"
  by (auto simp: replicationSetMaster_def replicationUnsetMaster_def resetManualFailover_def
      clientsArePaused_def slots_view_def do_log_def Let_def split: option.splits prod.splits)

subsection \<open>What a broadcast puts on the wire\<close>

definition table_live :: "server \<Rightarrow> bool" where
  "table_live s \<longleftrightarrow> (\<forall>(k, p) \<in> set (c_nodes s). \<exists>n. heap s p = Some n \<and>
     (n_link n \<noteq> NULL \<longrightarrow> links s (n_link n) \<noteq> None))"

definition me_live :: "server \<Rightarrow> bool" where
  "me_live s \<longleftrightarrow> (\<exists>me. heap s (myself s) = Some me \<and>
     (n_slaveof me \<noteq> NULL \<longrightarrow> heap s (n_slaveof me) \<noteq> None))"

definition broadcast_link :: "server \<Rightarrow> bytes \<times> ptr \<Rightarrow> ptr list" where
  "broadcast_link s e = (case heap s (snd e) of
     Some n \<Rightarrow> (if n_link n \<noteq> NULL \<and> n_flags n AND (REDIS_NODE_MYSELF OR REDIS_NODE_HANDSHAKE) = 0
               then [n_link n] else [])
   | None \<Rightarrow> [])"

text \<open>The links a broadcast uses: those of the other, connected nodes that are past their handshake.\<close>

definition broadcast_links :: "server \<Rightarrow> ptr list" where
  "broadcast_links s = concat (map (broadcast_link s) (c_nodes s))"

lemma clusterBroadcastMessage_spec:
  assumes "table_live s"
  shows "clusterBroadcastMessage m s =
    Some (s\<lparr>outbox := outbox s @ map (\<lambda>l. (l, m)) (broadcast_links s),
            c_stats_bus_messages_sent := c_stats_bus_messages_sent s + int (length (broadcast_links s))\<rparr>)"
proof -
  let ?f = "\<lambda>(_, p) s. do {
       node \<leftarrow> deref (heap s) p;
       if n_link node = NULL then Some s
       else if n_flags node AND (REDIS_NODE_MYSELF OR REDIS_NODE_HANDSHAKE) \<noteq> 0 then Some s
       else clusterSendMessage (n_link node) m s }"
  have "foldM ?f es t = Some (t\<lparr>outbox := outbox t @ map (\<lambda>l. (l, m)) (concat (map (broadcast_link s) es)),
      c_stats_bus_messages_sent := c_stats_bus_messages_sent t + int (length (concat (map (broadcast_link s) es)))\<rparr>)"
    if "set es \<subseteq> set (c_nodes s)" "heap t = heap s" "links t = links s" for es t
    using that
  proof (induction es arbitrary: t)
    case (Cons e es)
    obtain n where n: "heap s (snd e) = Some n" "n_link n \<noteq> 0 \<longrightarrow> links s (n_link n) \<noteq> None"
      using Cons.prems(1) assms by (auto simp: table_live_def)
    then show ?case using Cons
      by (cases e) (auto simp: deref_def broadcast_link_def clusterSendMessage_def add.assoc)
  qed simp
  from this[of "c_nodes s" s] show ?thesis
    by (simp add: clusterBroadcastMessage_def broadcast_links_def)
qed

lemma clusterBuildMessageHdr_total:
  assumes "me_live s" and "heap s (myself s) = Some me"
  shows "\<exists>h. clusterBuildMessageHdr ty s = Some h \<and> m_type h = ty \<and> m_sender h = n_name me \<and>
    m_currentEpoch h = c_currentEpoch s"
  using assms by (auto simp: me_live_def clusterBuildMessageHdr_def deref_def Let_def)

lemma clusterSendFail_spec:
  assumes "me_live s" and "heap s (myself s) = Some me" and "table_live s"
  shows "\<exists>msg k. clusterSendFail nm s = Some (s\<lparr>outbox := outbox s @ map (\<lambda>l. (l, msg)) (broadcast_links s),
            c_stats_bus_messages_sent := k\<rparr>) \<and>
     m_type msg = CLUSTERMSG_TYPE_FAIL \<and> m_sender msg = n_name me \<and> m_data msg = FailData nm"
proof -
  obtain h where h: "clusterBuildMessageHdr CLUSTERMSG_TYPE_FAIL s = Some h" "m_type h = CLUSTERMSG_TYPE_FAIL"
    "m_sender h = n_name me"
    using clusterBuildMessageHdr_total[OF assms(1,2)] by blast
  show ?thesis
    by (rule exI[of _ "h\<lparr>m_data := FailData nm\<rparr>"])
      (use h assms(3) in \<open>auto simp: clusterSendFail_def clusterBroadcastMessage_spec\<close>)
qed

subsection \<open>The gossip section\<close>

definition gossip_ok :: "server \<Rightarrow> clusterMsgDataGossip list \<Rightarrow> bool" where
  "gossip_ok s gs \<longleftrightarrow> length gs \<le> 3 \<and> distinct (map g_nodename gs) \<and>
     (\<forall>g \<in> set gs. \<exists>p n. p \<in> snd ` set (c_nodes s) \<and> heap s p = Some n \<and> \<not> gossip_skips s p n \<and>
        g = gossip_entry n)"

lemma random_node_mem: "random_node s r = Some p \<Longrightarrow> p \<in> snd ` set (c_nodes s)"
  by (auto simp: random_node_def split: if_splits)

lemma gossip_ok_snoc:
  assumes "gossip_ok s gs" and "length gs < 3" and "p \<in> snd ` set (c_nodes s)" and "heap s p = Some n"
    and "\<not> gossip_skips s p n" and "n_name n \<notin> g_nodename ` set gs"
  shows "gossip_ok s (gs @ [gossip_entry n])"
  using assms by (auto simp: gossip_ok_def gossip_entry_def)

lemma gossip_loop_ok:
  assumes ret: "gossip_loop s rnd fresh gs = Some r" and ok: "gossip_ok s gs"
  shows "gossip_ok s (fst r)"
proof -
  have "gossip_ok s gs \<longrightarrow> gossip_ok s (fst r)"
  proof (rule gossip_loop.raw_induct[where P = "\<lambda>s rnd fresh gs r. gossip_ok s gs \<longrightarrow> gossip_ok s (fst r)", OF _ ret])
    fix f s rnd fresh gs r
    assume IH: "\<And>s rnd fresh gs r. f s rnd fresh gs = Some r \<Longrightarrow> gossip_ok s gs \<longrightarrow> gossip_ok s (fst r)"
      and eq: "(if 0 < fresh \<and> length gs < 3 then do {
        p \<leftarrow> random_node s (rnd 0);
        this \<leftarrow> deref (heap s) p;
        if gossip_skips s p this then f s (\<lambda>i. rnd (Suc i)) (fresh - 1) gs
        else if n_name this \<in> g_nodename ` set gs then f s (\<lambda>i. rnd (Suc i)) fresh gs
        else f s (\<lambda>i. rnd (Suc i)) (fresh - 1) (gs @ [gossip_entry this])
      } else Some (gs, rnd)) = Some r"
    show "gossip_ok s gs \<longrightarrow> gossip_ok s (fst r)"
    proof
      assume gs: "gossip_ok s gs"
      show "gossip_ok s (fst r)"
      proof (cases "0 < fresh \<and> length gs < 3")
        case False
        then show ?thesis using eq gs by auto
      next
        case True
        then obtain p n where p: "random_node s (rnd 0) = Some p" "heap s p = Some n"
          and step: "(if gossip_skips s p n then f s (\<lambda>i. rnd (Suc i)) (fresh - 1) gs
            else if n_name n \<in> g_nodename ` set gs then f s (\<lambda>i. rnd (Suc i)) fresh gs
            else f s (\<lambda>i. rnd (Suc i)) (fresh - 1) (gs @ [gossip_entry n])) = Some r"
          using eq by (auto simp: opt_bind deref_def)
        note snoc = gossip_ok_snoc[OF gs conjunct2[OF True] random_node_mem[OF p(1)] p(2)]
        show ?thesis using step gs IH snoc by (auto split: if_splits)
      qed
    qed
  qed
  with ok show ?thesis by blast
qed

text \<open>A random stream is fair when every node of the table comes up again and again.\<close>

definition fair :: "server \<Rightarrow> (nat \<Rightarrow> nat) \<Rightarrow> bool" where
  "fair s rnd \<longleftrightarrow> (\<forall>k<length (c_nodes s). \<forall>i. \<exists>j\<ge>i. rnd j mod length (c_nodes s) = k)"

lemma fair_shift: "fair s rnd \<Longrightarrow> fair s (\<lambda>i. rnd (Suc i))"
  unfolding fair_def by (metis Suc_le_D Suc_le_mono)

lemma gossip_loop_returns_aux:
  assumes alloc: "\<forall>e \<in> set (c_nodes s). heap s (snd e) \<noteq> None"
    and next_fresh: "\<And>rnd gs. fair s rnd \<Longrightarrow> \<exists>r. gossip_loop s rnd (fresh - 1) gs = Some r"
    and "fair s rnd" and k: "k < length (c_nodes s)" "snd (c_nodes s ! k) = myself s"
    and "rnd j mod length (c_nodes s) = k"
  shows "\<exists>r. gossip_loop s rnd fresh gs = Some r"
  using assms(3,6)
proof (induction j arbitrary: rnd)
  case 0
  have "heap s (myself s) \<noteq> None" using bspec[OF alloc nth_mem[OF k(1)]] k(2) by simp
  then obtain n where n: "heap s (myself s) = Some n" by auto
  have "c_nodes s \<noteq> []" using k(1) by auto
  then have "random_node s (rnd 0) = Some (myself s)" using 0(2) k(2) by (simp add: random_node_def)
  with n show ?case using next_fresh[OF fair_shift[OF 0(1)]]
    by (subst gossip_loop.simps) (simp add: deref_def gossip_skips_def)
next
  case (Suc j)
  have ne: "c_nodes s \<noteq> []" using k(1) by auto
  let ?i = "rnd 0 mod length (c_nodes s)"
  have "?i < length (c_nodes s)" using ne by simp
  then obtain n where "random_node s (rnd 0) = Some (snd (c_nodes s ! ?i))" "heap s (snd (c_nodes s ! ?i)) = Some n"
    using ne alloc nth_mem by (fastforce simp: random_node_def)
  then show ?case using next_fresh[OF fair_shift[OF Suc.prems(1)]] Suc.IH[OF fair_shift[OF Suc.prems(1)]] Suc.prems(2)
    by (subst gossip_loop.simps) (simp add: deref_def)
qed

lemma gossip_loop_returns:
  assumes "\<forall>e \<in> set (c_nodes s). heap s (snd e) \<noteq> None" and "myself s \<in> snd ` set (c_nodes s)"
    and "fair s rnd"
  shows "\<exists>r. gossip_loop s rnd (int fresh) gs = Some r"
  using assms(3)
proof (induction fresh arbitrary: rnd gs)
  case 0
  then show ?case by (subst gossip_loop.simps) simp
next
  case (Suc fresh)
  obtain k where k: "k < length (c_nodes s)" "snd (c_nodes s ! k) = myself s"
    using assms(2) by (auto simp: in_set_conv_nth)
  then obtain j where j: "rnd j mod length (c_nodes s) = k" using Suc.prems by (auto simp: fair_def)
  have "\<exists>r. gossip_loop s rnd (int (Suc fresh) - 1) gs = Some r" if "fair s rnd" for rnd gs
    using Suc.IH[OF that] by simp
  from gossip_loop_returns_aux[OF assms(1) this Suc.prems k j] show ?case .
qed

lemma gossip_section_ok:
  assumes "\<forall>e \<in> set (c_nodes s). heap s (snd e) \<noteq> None" and "myself s \<in> snd ` set (c_nodes s)"
    and "fair s rnd"
  shows "returns (gossip_loop s rnd (int (length (c_nodes s)) - 2) []) (\<lambda>(gs, _). gossip_ok s gs)"
proof -
  have "\<exists>r. gossip_loop s rnd (int (length (c_nodes s)) - 2) [] = Some r"
  proof (cases "length (c_nodes s) \<ge> 2")
    case True
    then show ?thesis using gossip_loop_returns[OF assms, of "length (c_nodes s) - 2" "[]"] by simp
  next
    case False
    then show ?thesis by (subst gossip_loop.simps) simp
  qed
  then show ?thesis using gossip_loop_ok[of s rnd _ "[]"]
    by (auto simp: returns_def gossip_ok_def)
qed

text \<open>The gossip section of a ping. With a node table whose entries are live and contain this
  server, and a random source that keeps returning every node, the selection loop of \<open>clusterSendPing\<close>
  always ends; it picks at most three nodes, no node name twice, never this server itself and
  never a node in handshake, without address, or without both link and slots.\<close>

theorem gossip_section_correct:
  assumes "\<forall>e \<in> set (c_nodes s). heap s (snd e) \<noteq> None" and "myself s \<in> snd ` set (c_nodes s)"
    and "fair s rnd"
  shows "returns (gossip_loop s rnd (int (length (c_nodes s)) - 2) []) (\<lambda>(gs, _). gossip_ok s gs)"
  using assms by (rule gossip_section_ok)

definition three_nodes :: server where
  "three_nodes = zero_server
     \<lparr>heap := [1 \<mapsto> newClusterNode (replicate 40 0x61) (REDIS_NODE_MYSELF OR REDIS_NODE_MASTER) 0,
               2 \<mapsto> (newClusterNode (replicate 40 0x62) REDIS_NODE_MASTER 0)\<lparr>n_link := 9\<rparr>,
               3 \<mapsto> newClusterNode (replicate 40 0x63) REDIS_NODE_HANDSHAKE 0],
      c_nodes := [(replicate 40 0x61, 1), (replicate 40 0x62, 2), (replicate 40 0x63, 3)], c_myself := 1\<rparr>"

theorem gossip_section_correct_witness:
  "returns (gossip_loop three_nodes (\<lambda>i. i) (int (length (c_nodes three_nodes)) - 2) [])
     (\<lambda>(gs, _). gossip_ok three_nodes gs)"
proof (rule gossip_section_correct)
  show "\<forall>e \<in> set (c_nodes three_nodes). heap three_nodes (snd e) \<noteq> None"
    and "myself three_nodes \<in> snd ` set (c_nodes three_nodes)"
    by (simp_all add: three_nodes_def zero_server_def)
  have "\<exists>j\<ge>i. j mod 3 = k" if "k < 3" for i k :: nat
    using that by (intro exI[of _ "3 * i + k"]) simp
  then show "fair three_nodes (\<lambda>i. i)" by (simp add: fair_def three_nodes_def zero_server_def)
qed

end
