(* ===== verification/ClusterInv.thy ===== *)
theory ClusterInv
  imports ClusterBus
begin

text \<open>
  The invariant of the node's state that every event keeps, and the relation \<open>quiet\<close> between the states
  before and after an operation that keeps it without touching the epochs.
  Most operations keep the whole view the invariant looks at; those facts, of the shape
  \<open>op s = Some s' \<Longrightarrow> inv_view s' = inv_view s\<close>, are collected in \<open>keeps\<close>. The operations that allocate nodes
  or move slots are shown \<open>quiet\<close> individually.
\<close>

subsection \<open>The invariant\<close>

definition alloc_inv :: "server \<Rightarrow> bool" where
  "alloc_inv s \<longleftrightarrow> brk s \<noteq> NULL \<and> (\<forall>p\<ge>brk s. heap s p = None)"

definition inv :: "server \<Rightarrow> bool" where
  "inv s \<longleftrightarrow> slots_inv s \<and> nodes_inv s \<and> alloc_inv s \<and> c_lastVoteEpoch s \<le> c_currentEpoch s"

definition ids :: "server \<Rightarrow> u64 \<times> u64 \<times> ptr \<times> int" where
  "ids s = (c_currentEpoch s, c_lastVoteEpoch s, c_myself s, mstime s)"

definition node_view :: "clusterNode \<Rightarrow> bitmap \<times> int \<times> bytes" where
  "node_view n = (n_slots n, n_numslots n, n_name n)"

definition inv_view where
  "inv_view s = (c_slots s, c_nodes s, \<lambda>p. map_option node_view (heap s p), brk s, ids s)"

definition quiet :: "server \<Rightarrow> server \<Rightarrow> bool" where
  "quiet s s' \<longleftrightarrow> (inv s \<longrightarrow> inv s') \<and> ids s' = ids s"

named_theorems keeps \<comment> \<open>operations that do not change what the invariant looks at\<close>
named_theorems quietly \<comment> \<open>operations that keep the invariant and the epochs\<close>

lemma inv_viewD:
  assumes "inv_view s' = inv_view s"
  shows "c_slots s' = c_slots s" "c_nodes s' = c_nodes s" "brk s' = brk s" "ids s' = ids s"
    "map_option node_view (heap s' p) = map_option node_view (heap s p)"
    "heap s' p = None \<longleftrightarrow> heap s p = None"
  using assms by (auto simp: inv_view_def fun_eq_iff) (metis map_option_is_None)+

lemma inv_view_slots:
  assumes "inv_view s' = inv_view s"
  shows "slots_view s' = slots_view s"
proof -
  have "map_option node_slots_view (heap s' p) = map_option node_slots_view (heap s p)" for p
    using inv_viewD(5)[OF assms, of p]
    by (cases "heap s p"; cases "heap s' p") (auto simp: node_view_def node_slots_view_def)
  then show ?thesis using inv_viewD(1)[OF assms] by (simp add: slots_view_def)
qed

lemma inv_view_node:
  assumes "inv_view s' = inv_view s" and "heap s p = Some n"
  shows "\<exists>n'. heap s' p = Some n' \<and> node_view n' = node_view n"
  using inv_viewD(5)[OF assms(1), of p] assms(2) by (cases "heap s' p") auto

lemma inv_view_nodes_inv:
  assumes v: "inv_view s' = inv_view s" and inv: "nodes_inv s"
  shows "nodes_inv s'"
proof -
  have "\<exists>n'. heap s' p = Some n' \<and> n_name n' = k" if "heap s p = Some n" "n_name n = k" for p k n
    using inv_view_node[OF v that(1)] that(2) by (auto simp: node_view_def)
  then show ?thesis using inv unfolding nodes_inv_def inv_viewD(2)[OF v] by fast
qed

lemma quiet_view: "inv_view s' = inv_view s \<Longrightarrow> quiet s s'"
  using inv_viewD[of s' s] slots_view_inv[OF inv_view_slots] inv_view_nodes_inv
  by (auto simp: quiet_def inv_def alloc_inv_def ids_def)

lemma quiet_refl [simp]: "quiet s s"
  by (simp add: quiet_def)

lemma quiet_trans: "quiet s s1 \<Longrightarrow> quiet s1 s2 \<Longrightarrow> quiet s s2"
  by (simp add: quiet_def)

lemma quiet_ids:
  assumes "quiet s s'"
  shows "c_currentEpoch s' = c_currentEpoch s" "c_lastVoteEpoch s' = c_lastVoteEpoch s"
    "c_myself s' = c_myself s" "mstime s' = mstime s"
  using assms by (simp_all add: quiet_def ids_def)

lemma quiet_inv: "quiet s s' \<Longrightarrow> inv s \<Longrightarrow> inv s'"
  by (simp add: quiet_def)

lemma whenever_quiet_foldM:
  assumes "\<And>x s. x \<in> set xs \<Longrightarrow> whenever (f x s) (quiet s)"
  shows "whenever (foldM f xs s) (quiet s)"
proof (rule whenever_foldM)
  fix x s1 assume "x \<in> set xs" "quiet s s1"
  then show "whenever (f x s1) (quiet s)"
    using assms[of x s1] by (auto intro: quiet_trans elim: whenever_mono)
qed simp

lemma whenever_quiet_trans:
  "quiet s s1 \<Longrightarrow> whenever m (quiet s1) \<Longrightarrow> whenever m (quiet s)"
  by (auto simp: whenever_def intro: quiet_trans)

subsection \<open>Operations that keep the view\<close>

lemma inv_view_simps [simp]:
  "inv_view (s\<lparr>c_nodes_black_list := b\<rparr>) = inv_view s"
  "inv_view (s\<lparr>links := l\<rparr>) = inv_view s"
  "inv_view (s\<lparr>outbox := ob\<rparr>) = inv_view s"
  "inv_view (s\<lparr>rng := r\<rparr>) = inv_view s"
  "inv_view (s\<lparr>c_importing_slots_from := a\<rparr>) = inv_view s"
  "inv_view (s\<lparr>c_migrating_slots_to := a\<rparr>) = inv_view s"
  "inv_view (do_log e s) = inv_view s"
  "inv_view (clusterDoBeforeSleep f s) = inv_view s"
  "inv_view (clusterCloseAllSlots s) = inv_view s"
  "inv_view (clusterBlacklistCleanup s) = inv_view s"
  "inv_view (snd (clusterBlacklistExists nm s)) = inv_view s"
  "inv_view (s\<lparr>c_state := st\<rparr>) = inv_view s"
  "inv_view (s\<lparr>c_size := sz\<rparr>) = inv_view s"
  "inv_view (s\<lparr>c_mf_end := t\<rparr>) = inv_view s"
  "inv_view (s\<lparr>c_mf_slave := p\<rparr>) = inv_view s"
  "inv_view (s\<lparr>c_mf_master_offset := t\<rparr>) = inv_view s"
  "inv_view (s\<lparr>c_mf_can_start := b0\<rparr>) = inv_view s"
  "inv_view (s\<lparr>c_slots_to_keys := k\<rparr>) = inv_view s"
  "inv_view (s\<lparr>c_failover_auth_count := t\<rparr>) = inv_view s"
  "inv_view (s\<lparr>c_failover_auth_time := t\<rparr>) = inv_view s"
  "inv_view (s\<lparr>c_failover_auth_rank := t\<rparr>) = inv_view s"
  "inv_view (s\<lparr>c_failover_auth_sent := b0\<rparr>) = inv_view s"
  "inv_view (s\<lparr>c_failover_auth_epoch := e0\<rparr>) = inv_view s"
  "inv_view (s\<lparr>c_cant_failover_reason := cf\<rparr>) = inv_view s"
  "inv_view (s\<lparr>c_stats_bus_messages_received := t\<rparr>) = inv_view s"
  "inv_view (s\<lparr>c_todo_before_sleep := td\<rparr>) = inv_view s"
  by (simp_all add: inv_view_def ids_def do_log_def clusterDoBeforeSleep_def clusterCloseAllSlots_def
      clusterBlacklistCleanup_def clusterBlacklistExists_def)

lemma inv_view_upd:
  "heap s p = Some n \<Longrightarrow> node_view n' = node_view n \<Longrightarrow> inv_view (s\<lparr>heap := (heap s)(p \<mapsto> n')\<rparr>) = inv_view s"
  by (auto simp: inv_view_def ids_def fun_eq_iff)

lemma inv_view_node_upd [keeps]:
  assumes "node_upd p f s = Some s'" and "\<And>n. node_view (f n) = node_view n"
  shows "inv_view s' = inv_view s"
  using assms by (auto simp: node_upd_def inv_view_upd split: option.splits)

lemma but_bus_inv_view:
  assumes "but_bus s' = but_bus s"
  shows "inv_view s' = inv_view s"
proof -
  have "map_option node_view (heap s' p) = map_option node_view (heap s p)" for p
    using but_bus_heap[OF assms, of p]
    by (cases "heap s p"; cases "heap s' p") (auto simp: node_view_def dest: ping_sent_eqD)
  then show ?thesis using but_bus_fields[OF assms] by (simp add: inv_view_def ids_def)
qed

text \<open>Sending packets, from the frame of the bus.\<close>

lemmas sends_keep [keeps] =
  clusterSendMessage_bus[THEN but_bus_inv_view] clusterBroadcastMessage_bus[THEN but_bus_inv_view]
  clusterSendPing_bus[THEN but_bus_inv_view] clusterBroadcastPong_bus[THEN but_bus_inv_view]
  clusterSendFail_bus[THEN but_bus_inv_view] clusterSendPublish_bus[THEN but_bus_inv_view]
  clusterSendUpdate_bus[THEN but_bus_inv_view] clusterRequestFailoverAuth_bus[THEN but_bus_inv_view]
  clusterSendFailoverAuth_bus[THEN but_bus_inv_view] clusterSendMFStart_bus[THEN but_bus_inv_view]

lemma replication_keeps [simp]:
  "inv_view (replicationSetMaster ip port s) = inv_view s"
  "inv_view (replicationUnsetMaster s) = inv_view s"
  "inv_view (resetManualFailover s) = inv_view s"
  "inv_view (pauseClients t s) = inv_view s"
  by (auto simp: replicationSetMaster_def replicationUnsetMaster_def resetManualFailover_def pauseClients_def
      clientsArePaused_def inv_view_def ids_def do_log_def Let_def split: option.splits prod.splits)

lemma clusterNodeAddFailureReport_keeps [keeps]:
  "clusterNodeAddFailureReport a b s = Some (r, s') \<Longrightarrow> inv_view s' = inv_view s"
  by (auto simp: clusterNodeAddFailureReport_def opt_bind node_view_def split: option.splits dest!: inv_view_node_upd)

lemma clusterNodeCleanupFailureReports_keeps [keeps]:
  "clusterNodeCleanupFailureReports a s = Some s' \<Longrightarrow> inv_view s' = inv_view s"
  by (auto simp: clusterNodeCleanupFailureReports_def Let_def node_view_def dest!: inv_view_node_upd)

lemma clusterNodeDelFailureReport_keeps [keeps]:
  "clusterNodeDelFailureReport a b s = Some (r, s') \<Longrightarrow> inv_view s' = inv_view s"
  by (auto simp: clusterNodeDelFailureReport_def opt_bind node_view_def split: option.splits
      dest!: inv_view_node_upd clusterNodeCleanupFailureReports_keeps)

lemma clusterNodeFailureReportsCount_keeps [keeps]:
  "clusterNodeFailureReportsCount a s = Some (r, s') \<Longrightarrow> inv_view s' = inv_view s"
  by (auto simp: clusterNodeFailureReportsCount_def opt_bind dest!: clusterNodeCleanupFailureReports_keeps)

lemma clusterNodeRemoveSlave_keeps [keeps]:
  "clusterNodeRemoveSlave a b s = Some (r, s') \<Longrightarrow> inv_view s' = inv_view s"
  by (auto simp: clusterNodeRemoveSlave_def opt_bind node_view_def split: option.splits dest!: inv_view_node_upd)

lemma clusterNodeAddSlave_keeps [keeps]:
  "clusterNodeAddSlave a b s = Some (r, s') \<Longrightarrow> inv_view s' = inv_view s"
  by (auto simp: clusterNodeAddSlave_def opt_bind node_view_def split: if_splits dest!: inv_view_node_upd)

lemma clusterNodeResetSlaves_keeps [keeps]:
  "clusterNodeResetSlaves a s = Some s' \<Longrightarrow> inv_view s' = inv_view s"
  by (auto simp: clusterNodeResetSlaves_def node_view_def dest!: inv_view_node_upd)

lemma freeClusterLink_keeps [keeps]:
  "freeClusterLink l s = Some s' \<Longrightarrow> inv_view s' = inv_view s"
  by (auto simp: freeClusterLink_def opt_bind node_view_def split: if_splits dest!: inv_view_node_upd)

subsection \<open>Operations that move slots or nodes\<close>

lemma but_slots_ids:
  assumes "but_slots s' = but_slots s"
  shows "ids s' = ids s" "c_nodes s' = c_nodes s" "brk s' = brk s"
  using arg_cong[OF assms, of ids] arg_cong[OF assms, of c_nodes] arg_cong[OF assms, of brk]
  by (simp_all add: but_slots_def ids_def)

lemma but_slots_quiet:
  assumes fr: "but_slots s' = but_slots s" and slots: "inv s \<Longrightarrow> slots_inv s'"
  shows "quiet s s'"
proof -
  have sh: "shape s' = shape s" by (rule but_slots_shape[OF fr])
  show ?thesis
    unfolding quiet_def
    using but_slots_ids[OF fr] slots nodes_inv_shape[OF sh] shapeD(4)[OF sh]
    by (auto simp: inv_def alloc_inv_def ids_def)
qed

lemma clusterDelSlot_quiet [quietly]:
  assumes "clusterDelSlot j s = Some (r, s')" and "j < REDIS_CLUSTER_SLOTS" and "slots_inv s"
  shows "quiet s s'"
  using returnsD[OF clusterDelSlot_spec[OF assms(3,2)]] assms(1) by (auto intro: but_slots_quiet)

lemma clusterAddSlot_quiet [quietly]:
  assumes "clusterAddSlot p j s = Some (r, s')" and "j < REDIS_CLUSTER_SLOTS" and "slots_inv s"
  shows "quiet s s'"
proof (cases "heap s p = None")
  case True
  then show ?thesis using assms(1)
    by (auto simp: clusterAddSlot_def opt_bind node_upd_def split: if_splits)
next
  case False
  then show ?thesis using returnsD[OF clusterAddSlot_spec[OF assms(3,2) False]] assms(1)
    by (auto intro: but_slots_quiet)
qed

lemma clusterDelNodeSlots_quiet [quietly]:
  assumes "clusterDelNodeSlots p s = Some (d, s')" and "slots_inv s"
  shows "quiet s s'"
proof (cases "heap s p = None")
  case True
  have "[0..<REDIS_CLUSTER_SLOTS] \<noteq> []" by (simp add: REDIS_CLUSTER_SLOTS_def)
  then have "clusterDelNodeSlots p s = None" using True
    unfolding clusterDelNodeSlots_def
    by (cases "[0..<REDIS_CLUSTER_SLOTS]") (simp_all add: clusterDelNodeSlots_step_def deref_def)
  then show ?thesis using assms(1) by simp
next
  case False
  then show ?thesis using returnsD[OF clusterDelNodeSlots_spec[OF assms(2) False]] assms(1)
    by (auto intro: but_slots_quiet)
qed

text \<open>Allocating a node and entering it in the table.\<close>

lemma createClusterNode_view:
  assumes "createClusterNode nm fl s = (p, s')"
  shows "p = brk s \<and> brk s' = Suc p \<and> ids s' = ids s \<and> c_nodes s' = c_nodes s \<and> c_slots s' = c_slots s \<and>
    (\<exists>name. heap s' = (heap s)(p \<mapsto> newClusterNode name fl (mstime s)))"
  using assms by (auto simp: createClusterNode_def getRandomHexChars_def Let_def ids_def split: option.splits prod.splits)

lemma createClusterNode_quiet [quietly]:
  assumes "createClusterNode nm fl s = (p, s')"
  shows "quiet s s'"
proof -
  obtain name where v: "p = brk s" "brk s' = Suc p" "ids s' = ids s" "c_nodes s' = c_nodes s" "c_slots s' = c_slots s"
    "heap s' = (heap s)(p \<mapsto> newClusterNode name fl (mstime s))"
    using createClusterNode_view[OF assms] by blast
  have "inv s'" if inv: "inv s"
  proof -
    have fresh: "p \<noteq> 0" "heap s p = None" using inv v(1) by (auto simp: inv_def alloc_inv_def)
    have "slots_inv s'"
      using inv fresh v slots_agree_new[of "c_slots s" "heap s" p] by (simp add: inv_def slots_inv_def newClusterNode_def)
    moreover have "nodes_inv s'" using inv fresh v by (fastforce simp: inv_def nodes_inv_def)
    ultimately show ?thesis using inv v by (auto simp: inv_def alloc_inv_def ids_def)
  qed
  then show ?thesis using v by (simp add: quiet_def)
qed

lemma clusterAddNode_quiet [quietly]:
  assumes "clusterAddNode p s = Some (r, s')"
  shows "quiet s s'"
proof -
  obtain n where n: "heap s p = Some n" using assms by (auto simp: clusterAddNode_def opt_bind deref_def)
  show ?thesis
  proof (cases "dictAdd (c_nodes s) (n_name n) p")
    case None
    then show ?thesis using assms n by (auto simp: clusterAddNode_def deref_def)
  next
    case (Some d)
    then have s': "s' = s\<lparr>c_nodes := d\<rparr>" using assms n by (auto simp: clusterAddNode_def deref_def)
    have "inv s'" if inv: "inv s"
      using inv n nd.entries_add[OF _ Some] nd.add_wf[OF _ Some]
      by (auto simp: s' inv_def nodes_inv_def slots_inv_def alloc_inv_def)
    then show ?thesis by (simp add: quiet_def s' ids_def)
  qed
qed

lemma clusterRenameNode_quiet [quietly]:
  assumes "clusterRenameNode p nm s = Some s'"
  shows "quiet s s'"
proof -
  obtain n d where n: "heap s p = Some n" and d: "dictDelete (c_nodes s) (n_name n) = Some d"
    using assms by (auto simp: clusterRenameNode_def opt_bind deref_def)
  define s1 where "s1 = s\<lparr>c_nodes := d, heap := (heap s)(p \<mapsto> n\<lparr>n_name := take REDIS_CLUSTER_NAMELEN nm\<rparr>)\<rparr>"
  obtain r where r: "clusterAddNode p s1 = Some (r, s')"
    using assms n d by (auto simp: clusterRenameNode_def deref_def node_upd_def s1_def)
  have "inv s1" if inv: "inv s"
  proof -
    have wf: "dictWf (c_nodes s)" using inv by (simp add: inv_def nodes_inv_def)
    have "slots_inv s1"
      using inv n slots_agree_upd[of "c_slots s" "heap s" p n] by (simp add: inv_def slots_inv_def s1_def)
    moreover have "(k, q) \<in> set d \<Longrightarrow> q \<noteq> p" for k q
      using inv n nd.entries_del[OF wf d] by (auto simp: inv_def nodes_inv_def)
    then have "nodes_inv s1" using inv n nd.entries_del[OF wf d] nd.del_wf[OF wf d]
      by (auto simp: inv_def nodes_inv_def s1_def)
    moreover have "p < brk s" using inv n by (metis alloc_inv_def inv_def linorder_not_less option.distinct(1))
    ultimately show ?thesis using inv by (auto simp: inv_def alloc_inv_def s1_def)
  qed
  then have "quiet s s1" by (simp add: quiet_def s1_def ids_def)
  then show ?thesis using clusterAddNode_quiet[OF r] quiet_trans by blast
qed

lemma freeClusterNode_quiet [quietly]:
  assumes run: "freeClusterNode p s = Some s'"
    and "\<And>n. heap s p = Some n \<Longrightarrow> n_numslots n = 0"
  shows "quiet s s'"
proof -
  obtain n d s2 s3 where n: "heap s p = Some n" and d: "dictDelete (c_nodes s) (n_name n) = Some d"
    and s2: "(if n_slaveof n \<noteq> 0 then map_option snd (clusterNodeRemoveSlave (n_slaveof n) p (s\<lparr>c_nodes := d\<rparr>))
            else Some (s\<lparr>c_nodes := d\<rparr>)) = Some s2"
    and s3: "(if n_link n \<noteq> 0 then freeClusterLink (n_link n) s2 else Some s2) = Some s3"
    and s': "s' = s3\<lparr>heap := (heap s3)(p := None)\<rparr>"
    using run by (auto simp: freeClusterNode_def opt_bind deref_def Let_def)
  have v: "inv_view s3 = inv_view (s\<lparr>c_nodes := d\<rparr>)"
    using s2 s3 by (auto split: if_splits dest!: clusterNodeRemoveSlave_keeps freeClusterLink_keeps)
  obtain n3 where n3: "heap s3 p = Some n3" "n_numslots n3 = 0"
    using inv_view_node[OF v, of p] n assms(2)[OF n] by (auto simp: node_view_def)
  have "inv s'" if inv: "inv s"
  proof -
    have wf: "dictWf (c_nodes s)" using inv by (simp add: inv_def nodes_inv_def)
    have "slots_inv (s\<lparr>c_nodes := d\<rparr>)" using inv by (simp add: inv_def slots_inv_def)
    then have "slots_inv s3" by (rule slots_view_inv[OF inv_view_slots[OF v]])
    then have 1: "slots_inv s'" using n3 slots_agree_free by (simp add: slots_inv_def s')
    have np: "(k, q) \<in> set d \<Longrightarrow> q \<noteq> p" for k q
      using inv n nd.entries_del[OF wf d] by (auto simp: inv_def nodes_inv_def)
    have "nodes_inv (s\<lparr>c_nodes := d\<rparr>)" using inv nd.entries_del[OF wf d] nd.del_wf[OF wf d]
      by (auto simp: inv_def nodes_inv_def)
    then have "nodes_inv s3" by (rule inv_view_nodes_inv[OF v])
    then have 2: "nodes_inv s'" using np inv_viewD(2)[OF v] by (fastforce simp: nodes_inv_def s')
    show ?thesis using inv 1 2 inv_viewD(3,4)[OF v] inv_viewD(6)[OF v]
      by (auto simp: inv_def alloc_inv_def ids_def s')
  qed
  then show ?thesis using inv_viewD(4)[OF v] by (simp add: quiet_def s' ids_def)
qed

text \<open>A slot changes hands: it is released and claimed.\<close>

lemma slot_move_quiet:
  assumes d: "clusterDelSlot j s = Some (r1, s1)" and a: "clusterAddSlot p j s1 = Some (r2, s2)"
    and j: "j < REDIS_CLUSTER_SLOTS" and inv: "slots_inv s"
  shows "quiet s s2 \<and> slots_inv s2"
proof -
  have i1: "slots_inv s1" using returnsD[OF clusterDelSlot_spec[OF inv j]] d by auto
  have "slots_inv s2"
  proof (cases "heap s1 p = None")
    case True
    then have "s2 = s1" using a by (auto simp: clusterAddSlot_def opt_bind node_upd_def split: if_splits)
    then show ?thesis using i1 by simp
  next
    case False
    then show ?thesis using returnsD[OF clusterAddSlot_spec[OF i1 j False]] a by auto
  qed
  then show ?thesis
    using clusterDelSlot_quiet[OF d j inv] clusterAddSlot_quiet[OF a j i1] quiet_trans by blast
qed

lemma slot_move_quiet_foldM:
  assumes step: "\<And>j st st'. j < REDIS_CLUSTER_SLOTS \<Longrightarrow> f j st = Some st' \<Longrightarrow> slots_inv (g st) \<Longrightarrow>
      quiet (g st) (g st') \<and> slots_inv (g st')"
    and run: "foldM f [0..<REDIS_CLUSTER_SLOTS] st = Some st'" and inv: "slots_inv (g st)"
  shows "quiet (g st) (g st') \<and> slots_inv (g st')"
proof -
  have "whenever (foldM f [0..<REDIS_CLUSTER_SLOTS] st) (\<lambda>st'. quiet (g st) (g st') \<and> slots_inv (g st'))"
  proof (rule whenever_foldM, goal_cases)
    case 1
    then show ?case using inv by simp
  next
    case (2 j st1)
    then show ?case using step[of j st1] quiet_trans by (auto simp: whenever_def)
  qed
  then show ?thesis using run by (rule wheneverD)
qed

end
