(* ===== verification/ClusterFail.thy ===== *)
theory ClusterFail
  imports ClusterInv CString
begin

text \<open>
  Failure detection and gossip (cluster.c, "CLUSTER messages exchange - PING/PONG and gossip" and the functions that
  mark nodes as failing or reachable again): promotion of PFAIL to FAIL by a quorum of reports, clearing
  FAIL, starting handshakes and processing the gossip section of a packet.
\<close>

subsection \<open>PFAIL, FAIL and back\<close>

definition clusterGetMaxEpoch :: "server \<Rightarrow> u64 option" where
  "clusterGetMaxEpoch s = do {
     max \<leftarrow> foldM (\<lambda>(_, p) max. do {
       node \<leftarrow> deref (heap s) p;
       Some (if n_configEpoch node > max then n_configEpoch node else max)
     }) (c_nodes s) 0;
     Some (if max < c_currentEpoch s then c_currentEpoch s else max)
   }"

definition markNodeAsFailingIfNeeded :: "ptr \<Rightarrow> server \<Rightarrow> server option" where
  "markNodeAsFailingIfNeeded node s = do {
     let needed_quorum = c_size s div 2 + 1;
     nd \<leftarrow> deref (heap s) node;
     if \<not> nodeTimedOut nd then Some s
     else if nodeFailed nd then Some s
     else do {
       (failures0, s1) \<leftarrow> clusterNodeFailureReportsCount node s;
       me \<leftarrow> deref (heap s1) (myself s1);
       let failures = (if nodeIsMaster me then failures0 + 1 else failures0);
       if failures < needed_quorum then Some s1
       else do {
         s2 \<leftarrow> node_upd node (\<lambda>n. n\<lparr>n_flags := (n_flags n AND NOT REDIS_NODE_PFAIL) OR REDIS_NODE_FAIL,
                                  n_fail_time := mstime s1\<rparr>) s1;
         me \<leftarrow> deref (heap s2) (myself s2);
         nd \<leftarrow> deref (heap s2) node;
         s3 \<leftarrow> (if nodeIsMaster me then clusterSendFail (n_name nd) s2 else Some s2);
         Some (clusterDoBeforeSleep (CLUSTER_TODO_UPDATE_STATE OR CLUSTER_TODO_SAVE_CONFIG) s3)
       }
     }
   }"

definition clearNodeFailureIfNeeded :: "ptr \<Rightarrow> server \<Rightarrow> server option" where
  "clearNodeFailureIfNeeded node s = do {
     let now = mstime s;
     nd \<leftarrow> deref (heap s) node;
     redisAssert (nodeFailed nd);
     s1 \<leftarrow> (if nodeIsSlave nd \<or> n_numslots nd = 0
            then map_option (clusterDoBeforeSleep (CLUSTER_TODO_UPDATE_STATE OR CLUSTER_TODO_SAVE_CONFIG))
                   (node_upd node (\<lambda>n. n\<lparr>n_flags := n_flags n AND NOT REDIS_NODE_FAIL\<rparr>) s)
            else Some s);
     nd \<leftarrow> deref (heap s1) node;
     if nodeIsMaster nd \<and> n_numslots nd > 0 \<and>
        now - n_fail_time nd > cluster_node_timeout s1 * REDIS_CLUSTER_FAIL_UNDO_TIME_MULT
     then map_option (clusterDoBeforeSleep (CLUSTER_TODO_UPDATE_STATE OR CLUSTER_TODO_SAVE_CONFIG))
            (node_upd node (\<lambda>n. n\<lparr>n_flags := n_flags n AND NOT REDIS_NODE_FAIL\<rparr>) s1)
     else Some s1
   }"

subsection \<open>Addresses\<close>

text \<open>\<open>inet_pton(AF_INET, ...)\<close>: four decimal numbers up to 255 without leading zeros. The
  normalised text of \<open>inet_ntop\<close> is then the input itself.\<close>

fun inet_pton4 :: "bool \<Rightarrow> nat \<Rightarrow> nat \<Rightarrow> bytes \<Rightarrow> bool" where
  "inet_pton4 saw_digit octets tp [] = (octets = 4)"
| "inet_pton4 saw_digit octets tp (ch # cs) =
     (if 0x30 \<le> ch \<and> ch \<le> 0x39 then
        let new = tp * 10 + unat (ch - 0x30)
        in if saw_digit \<and> tp = 0 then False
           else if new > 255 then False
           else if \<not> saw_digit then (if octets + 1 > 4 then False else inet_pton4 True (octets + 1) new cs)
           else inet_pton4 True octets new cs
      else if ch = 0x2E \<and> saw_digit then
        (if octets = 4 then False else inet_pton4 False octets 0 cs)
      else False)"

definition inet_norm :: "server \<Rightarrow> bytes \<Rightarrow> bytes option" where
  "inet_norm s ip = (if inet_pton4 False 0 0 ip then Some ip else inet6 s ip)"

subsection \<open>Handshakes\<close>

fun clusterHandshakeInProgress_scan :: "(bytes \<times> ptr) list \<Rightarrow> bytes \<Rightarrow> int \<Rightarrow> server \<Rightarrow> bool option" where
  "clusterHandshakeInProgress_scan [] ip port s = Some False"
| "clusterHandshakeInProgress_scan ((_, p) # es) ip port s = do {
     node \<leftarrow> deref (heap s) p;
     if \<not> nodeInHandshake node then clusterHandshakeInProgress_scan es ip port s
     else if strcaseeq (n_ip node) ip \<and> n_port node = port then Some True
     else clusterHandshakeInProgress_scan es ip port s
   }"

definition clusterHandshakeInProgress :: "bytes \<Rightarrow> int \<Rightarrow> server \<Rightarrow> bool option" where
  "clusterHandshakeInProgress ip port s = clusterHandshakeInProgress_scan (c_nodes s) ip port s"

text \<open>The result 1 is \<open>None\<close>, the result 0 is \<open>Some errno\<close>.\<close>

datatype errno = EINVAL | EAGAIN

definition clusterStartHandshake :: "bytes \<Rightarrow> int \<Rightarrow> server \<Rightarrow> (errno option \<times> server) option" where
  "clusterStartHandshake ip port s =
     (case inet_norm s ip of
        None \<Rightarrow> Some (Some EINVAL, s)
      | Some norm_ip \<Rightarrow>
          if port \<le> 0 \<or> port > 65535 - REDIS_CLUSTER_PORT_INCR then Some (Some EINVAL, s)
          else do {
            busy \<leftarrow> clusterHandshakeInProgress norm_ip port s;
            if busy then Some (Some EAGAIN, s)
            else do {
              let (n, s1) = createClusterNode None (REDIS_NODE_HANDSHAKE OR REDIS_NODE_MEET) s;
              s2 \<leftarrow> node_upd n (\<lambda>nd. nd\<lparr>n_ip := norm_ip, n_port := port\<rparr>) s1;
              (_, s3) \<leftarrow> clusterAddNode n s2;
              Some (None, s3)
            }
          })"

subsection \<open>The gossip section of a packet\<close>

definition clusterProcessGossip_entry :: "ptr \<Rightarrow> clusterMsgDataGossip \<Rightarrow> server \<Rightarrow> server option" where
  "clusterProcessGossip_entry sender g s =
     (let flags = ucast (g_flags g) :: u32;
          node = clusterLookupNode (g_nodename g) s
      in if node \<noteq> NULL then do {
           s1 \<leftarrow> (if sender = NULL then Some s
             else do {
               sd \<leftarrow> deref (heap s) sender;
               if nodeIsMaster sd \<and> node \<noteq> myself s then
                 if flags AND (REDIS_NODE_FAIL OR REDIS_NODE_PFAIL) \<noteq> 0 then do {
                   (_, s') \<leftarrow> clusterNodeAddFailureReport node sender s;
                   markNodeAsFailingIfNeeded node s'
                 }
                 else map_option snd (clusterNodeDelFailureReport node sender s)
               else Some s
             });
           nd \<leftarrow> deref (heap s1) node;
           if n_flags nd AND (REDIS_NODE_FAIL OR REDIS_NODE_PFAIL) \<noteq> 0 \<and>
              (\<not> strcaseeq (n_ip nd) (g_ip g) \<or> n_port nd \<noteq> uint (g_port g))
           then map_option snd (clusterStartHandshake (g_ip g) (uint (g_port g)) s1)
           else Some s1
         }
         else if sender \<noteq> NULL \<and> \<not> (flags AND REDIS_NODE_NOADDR \<noteq> 0) then
           let (black, s1) = clusterBlacklistExists (g_nodename g) s
           in if \<not> black then map_option snd (clusterStartHandshake (g_ip g) (uint (g_port g)) s1)
              else Some s1
         else Some s)"

text \<open>The entries \<open>count\<close> announces are read from the packet; fewer would be read past its end.\<close>

definition clusterProcessGossipSection :: "clusterMsg \<Rightarrow> ptr \<Rightarrow> server \<Rightarrow> server option" where
  "clusterProcessGossipSection hdr link s = do {
     l \<leftarrow> deref (links s) link;
     let sender = (if l_node l \<noteq> NULL then l_node l else clusterLookupNode (m_sender hdr) s);
     (case m_data hdr of
        PingData gs \<Rightarrow> do {
          redisAssert (unat (m_count hdr) \<le> length gs);
          foldM (clusterProcessGossip_entry sender) (take (unat (m_count hdr)) gs) s
        }
      | _ \<Rightarrow> None)
   }"

definition nodeUpdateAddressIfNeeded :: "ptr \<Rightarrow> ptr \<Rightarrow> int \<Rightarrow> server \<Rightarrow> (bool \<times> server) option" where
  "nodeUpdateAddressIfNeeded node link port s = do {
     nd \<leftarrow> deref (heap s) node;
     if link = n_link nd then Some (False, s)
     else do {
       l \<leftarrow> deref (links s) link;
       let ip = l_peer_ip l;
       if n_port nd = port \<and> ip = n_ip nd then Some (False, s)
       else do {
         s1 \<leftarrow> node_upd node (\<lambda>n. n\<lparr>n_ip := ip, n_port := port\<rparr>) s;
         s2 \<leftarrow> (if n_link nd \<noteq> NULL then freeClusterLink (n_link nd) s1 else Some s1);
         me \<leftarrow> deref (heap s2) (myself s2);
         Some (True, if nodeIsSlave me \<and> n_slaveof me = node then replicationSetMaster ip port s2 else s2)
       }
     }
   }"

subsection \<open>The invariant and the epochs are kept\<close>

lemma node_view_flags [simp]:
  "node_view (n\<lparr>n_flags := f, n_fail_time := t\<rparr>) = node_view n"
  "node_view (n\<lparr>n_flags := f\<rparr>) = node_view n"
  "node_view (n\<lparr>n_ip := ip, n_port := port\<rparr>) = node_view n"
  by (simp_all add: node_view_def)

lemma markNodeAsFailingIfNeeded_keeps [keeps]:
  "markNodeAsFailingIfNeeded p s = Some s' \<Longrightarrow> inv_view s' = inv_view s"
  by (auto simp: markNodeAsFailingIfNeeded_def opt_bind Let_def split: if_splits
      dest!: clusterNodeFailureReportsCount_keeps inv_view_node_upd sends_keep)

lemma clearNodeFailureIfNeeded_keeps [keeps]:
  "clearNodeFailureIfNeeded p s = Some s' \<Longrightarrow> inv_view s' = inv_view s"
  by (auto simp: clearNodeFailureIfNeeded_def opt_bind Let_def split: if_splits dest!: inv_view_node_upd)

lemma nodeUpdateAddressIfNeeded_keeps [keeps]:
  "nodeUpdateAddressIfNeeded p l port s = Some (r, s') \<Longrightarrow> inv_view s' = inv_view s"
  by (auto simp: nodeUpdateAddressIfNeeded_def opt_bind Let_def split: if_splits
      dest!: inv_view_node_upd freeClusterLink_keeps)

lemma clusterStartHandshake_quiet [quietly]:
  assumes "clusterStartHandshake ip port s = Some (r, s')"
  shows "quiet s s'"
proof (cases "s' = s")
  case False
  then obtain n s1 s2 ni nr where "createClusterNode None (REDIS_NODE_HANDSHAKE OR REDIS_NODE_MEET) s = (n, s1)"
    and u: "node_upd n (\<lambda>nd. nd\<lparr>n_ip := ni, n_port := port\<rparr>) s1 = Some s2" and "clusterAddNode n s2 = Some (nr, s')"
    using assms by (auto simp: clusterStartHandshake_def opt_bind Let_def split: option.splits if_splits prod.splits)
  then have "quiet s s1" "quiet s1 s2" "quiet s2 s'"
    using createClusterNode_quiet quiet_view[OF inv_view_node_upd[OF u]] clusterAddNode_quiet by auto
  then show ?thesis by (metis quiet_trans)
qed simp

lemma blacklistExists_quiet: "clusterBlacklistExists nm s = (b, s') \<Longrightarrow> quiet s s'"
  using quiet_view[of s' s] inv_view_simps(11)[of nm s] by simp

lemma clusterProcessGossip_entry_quiet:
  assumes "clusterProcessGossip_entry sender g s = Some s'"
  shows "quiet s s'"
proof (cases "clusterLookupNode (g_nodename g) s = 0")
  case True
  show ?thesis
  proof (cases "clusterBlacklistExists (g_nodename g) s")
    case (Pair b s1)
    then show ?thesis using assms True blacklistExists_quiet[OF Pair]
      by (auto simp: clusterProcessGossip_entry_def Let_def split: if_splits dest!: clusterStartHandshake_quiet intro: quiet_trans)
  qed
next
  case False
  then obtain s1 where s1: "(if sender = NULL then Some s
             else do {
               sd \<leftarrow> deref (heap s) sender;
               if nodeIsMaster sd \<and> clusterLookupNode (g_nodename g) s \<noteq> myself s then
                 if (ucast (g_flags g) :: u32) AND (REDIS_NODE_FAIL OR REDIS_NODE_PFAIL) \<noteq> 0 then do {
                   (_, s') \<leftarrow> clusterNodeAddFailureReport (clusterLookupNode (g_nodename g) s) sender s;
                   markNodeAsFailingIfNeeded (clusterLookupNode (g_nodename g) s) s'
                 }
                 else map_option snd (clusterNodeDelFailureReport (clusterLookupNode (g_nodename g) s) sender s)
               else Some s
             }) = Some s1"
    and s': "s' = s1 \<or> (\<exists>r ip port. clusterStartHandshake ip port s1 = Some (r, s'))"
    using assms by (auto simp: clusterProcessGossip_entry_def opt_bind Let_def split: if_splits)
  have "inv_view s1 = inv_view s"
    using s1 by (auto simp: opt_bind split: if_splits
        dest!: clusterNodeAddFailureReport_keeps markNodeAsFailingIfNeeded_keeps clusterNodeDelFailureReport_keeps)
  then show ?thesis using s' quiet_view quiet_trans clusterStartHandshake_quiet by blast
qed

lemma clusterProcessGossipSection_quiet [quietly]:
  assumes "clusterProcessGossipSection hdr link s = Some s'"
  shows "quiet s s'"
proof -
  obtain sender gs where "foldM (clusterProcessGossip_entry sender) gs s = Some s'"
    using assms by (cases "m_data hdr") (auto simp: clusterProcessGossipSection_def opt_bind Let_def)
  moreover have "whenever (foldM (clusterProcessGossip_entry sender) gs s) (quiet s)"
    by (rule whenever_quiet_foldM) (simp add: whenever_def clusterProcessGossip_entry_quiet)
  ultimately show ?thesis by (simp add: whenever_def)
qed

subsection \<open>Quorum\<close>

definition valid_reports :: "server \<Rightarrow> clusterNode \<Rightarrow> clusterNodeFailReport list" where
  "valid_reports s nd = filter (\<lambda>fr. mstime s - fr_time fr \<le> cluster_node_timeout s * 2) (n_fail_reports nd)"

lemma clusterNodeFailureReportsCount_run:
  assumes "heap s node = Some nd"
  shows "clusterNodeFailureReportsCount node s = Some (int (length (valid_reports s nd)),
     s\<lparr>heap := (heap s)(node \<mapsto> nd\<lparr>n_fail_reports := valid_reports s nd\<rparr>)\<rparr>)"
  using assms by (simp add: clusterNodeFailureReportsCount_def clusterNodeCleanupFailureReports_def Let_def
      node_upd_def deref_def valid_reports_def not_less)

lemma broadcast_links_flags:
  assumes "heap s p = Some n" and "n_link n' = n_link n"
    and "n_flags n' AND 48 = n_flags n AND 48"
  shows "broadcast_links (s\<lparr>heap := (heap s)(p \<mapsto> n')\<rparr>) = broadcast_links s"
proof -
  have "broadcast_link (s\<lparr>heap := (heap s)(p \<mapsto> n')\<rparr>) = broadcast_link s"
    using assms by (auto simp: broadcast_link_def fun_eq_iff)
  then show ?thesis by (simp add: broadcast_links_def)
qed

lemma fail_flags_mask: "((f AND - 5) OR 8) AND 48 = (f :: u32) AND 48"
  by (simp add: bit.conj_disj_distrib2 and.assoc)

text \<open>Property C16. PFAIL becomes FAIL exactly at a quorum. For a node suspected by this server, count the
  reporting nodes whose report is not older than twice the node timeout, plus this server itself when it is
  a master. If that number reaches the majority of the cluster size, the node is marked FAIL (no
  longer PFAIL), its fail time is now, and a master sends a FAIL packet about it to every connected
  node; otherwise its flags do not change and nothing is sent.\<close>

theorem markNodeAsFailing_quorum:
  assumes node: "heap s node = Some nd" "nodeTimedOut nd" "\<not> nodeFailed nd" "node \<noteq> myself s"
    and me: "heap s (myself s) = Some me" and live: "me_live s" "table_live s"
  shows "returns (markNodeAsFailingIfNeeded node s) (\<lambda>s'.
     let votes = int (length (valid_reports s nd)) + (if nodeIsMaster me then 1 else 0)
     in if votes \<ge> c_size s div 2 + 1 then
          (\<exists>nd'. heap s' node = Some nd' \<and> nodeFailed nd' \<and> \<not> nodeTimedOut nd' \<and> n_fail_time nd' = mstime s) \<and>
          (if nodeIsMaster me then
             \<exists>msg. m_type msg = CLUSTERMSG_TYPE_FAIL \<and> m_sender msg = n_name me \<and> m_data msg = FailData (n_name nd) \<and>
               outbox s' = outbox s @ map (\<lambda>l. (l, msg)) (broadcast_links s)
           else outbox s' = outbox s)
        else (\<exists>nd'. heap s' node = Some nd' \<and> n_flags nd' = n_flags nd) \<and> outbox s' = outbox s)"
proof -
  define nd1 where "nd1 = nd\<lparr>n_fail_reports := valid_reports s nd\<rparr>"
  define nd2 where "nd2 = nd1\<lparr>n_flags := (n_flags nd AND NOT 4) OR 8, n_fail_time := mstime s\<rparr>"
  define s2 where "s2 = s\<lparr>heap := (heap s)(node \<mapsto> nd2)\<rparr>"
  have me2: "heap s2 (myself s2) = Some me" using me node(4) by (simp add: s2_def)
  have lives: "me_live s2" "table_live s2"
    using live node(1,4) by (auto simp: me_live_def table_live_def s2_def nd2_def nd1_def)
  have links: "broadcast_links s2 = broadcast_links s"
    unfolding s2_def by (rule broadcast_links_flags[OF node(1)]) (simp_all add: nd2_def nd1_def fail_flags_mask)
  obtain msg k where send: "clusterSendFail (n_name nd) s2 = Some (s2\<lparr>outbox := outbox s @ map (\<lambda>l. (l, msg)) (broadcast_links s),
            c_stats_bus_messages_sent := k\<rparr>)"
    and msg: "m_type msg = CLUSTERMSG_TYPE_FAIL" "m_sender msg = n_name me" "m_data msg = FailData (n_name nd)"
    using clusterSendFail_spec[OF lives(1) me2 lives(2), of "n_name nd"] by (auto simp: links) (simp add: s2_def)
  have upd: "node_upd node (\<lambda>n. n\<lparr>n_flags := (n_flags n AND NOT 4) OR 8, n_fail_time := mstime s\<rparr>)
      (s\<lparr>heap := (heap s)(node \<mapsto> nd1)\<rparr>) = Some s2"
    by (simp add: node_upd_def s2_def nd2_def nd1_def)
  have h2: "heap s2 node = Some nd2" by (simp add: s2_def)
  have fl: "nodeFailed nd2" "\<not> nodeTimedOut nd2" "n_fail_time nd2 = mstime s" "n_name nd2 = n_name nd"
    by (simp_all add: nd2_def nd1_def nodeFailed_def nodeTimedOut_def bit.conj_disj_distrib2 and.assoc)
  have frame: "outbox s2 = outbox s" "mstime s2 = mstime s" by (simp_all add: s2_def)
  show ?thesis
  proof (cases "int (length (valid_reports s nd)) + (if nodeIsMaster me then 1 else 0) \<ge> c_size s div 2 + 1")
    case True
    then show ?thesis
      using node me me2 upd h2 fl frame send msg
      by (auto simp: markNodeAsFailingIfNeeded_def clusterNodeFailureReportsCount_run[OF node(1)]
          nd1_def[symmetric] deref_def wp clusterDoBeforeSleep_def split: if_splits)
  next
    case False
    then show ?thesis
      using node me
      by (auto simp: markNodeAsFailingIfNeeded_def clusterNodeFailureReportsCount_run[OF node(1)]
          deref_def wp split: if_splits)
  qed
qed

text \<open>Three masters a, b, c; this server is a, suspects c, and b has reported c.\<close>

definition suspecting :: server where
  "suspecting = zero_server
     \<lparr>heap := [1 \<mapsto> newClusterNode (replicate 40 0x61) (REDIS_NODE_MYSELF OR REDIS_NODE_MASTER) 0,
               2 \<mapsto> newClusterNode (replicate 40 0x62) REDIS_NODE_MASTER 0,
               3 \<mapsto> (newClusterNode (replicate 40 0x63) (REDIS_NODE_MASTER OR REDIS_NODE_PFAIL) 0)
                    \<lparr>n_fail_reports := [\<lparr>fr_node = 2, fr_time = 0\<rparr>]\<rparr>],
      c_nodes := [(replicate 40 0x61, 1), (replicate 40 0x62, 2), (replicate 40 0x63, 3)],
      c_myself := 1, c_size := 3, brk := 4\<rparr>"

theorem markNodeAsFailing_quorum_witness:
  "returns (markNodeAsFailingIfNeeded 3 suspecting) (\<lambda>s'. \<exists>nd'. heap s' 3 = Some nd' \<and> nodeFailed nd')"
proof -
  define me where "me = newClusterNode (replicate 40 0x61) (REDIS_NODE_MYSELF OR REDIS_NODE_MASTER) 0"
  define nd where "nd = (newClusterNode (replicate 40 0x63) (REDIS_NODE_MASTER OR REDIS_NODE_PFAIL) 0)
                    \<lparr>n_fail_reports := [\<lparr>fr_node = 2, fr_time = 0\<rparr>]\<rparr>"
  have n: "heap suspecting 3 = Some nd" "nodeTimedOut nd" "\<not> nodeFailed nd" "3 \<noteq> myself suspecting"
    by (simp_all add: suspecting_def zero_server_def nd_def newClusterNode_def nodeTimedOut_def nodeFailed_def)
  have m: "heap suspecting (myself suspecting) = Some me" and l: "me_live suspecting" "table_live suspecting"
    by (simp_all add: suspecting_def zero_server_def me_def newClusterNode_def me_live_def table_live_def)
  have v: "nodeIsMaster me" "length (valid_reports suspecting nd) = 1" "c_size suspecting = 3"
    by (simp_all add: me_def newClusterNode_def nodeIsMaster_def valid_reports_def nd_def suspecting_def zero_server_def)
  show ?thesis
    by (rule returns_mono[OF markNodeAsFailing_quorum[OF n m l]]) (use v in \<open>auto simp: Let_def\<close>)
qed

text \<open>A node marked FAIL that answers again is cleared exactly when it is a slave, or has no slots, or is
  a master whose slots nobody took over for more than twice the node timeout since it was marked; nothing else
  of the node changes.\<close>

theorem clearNodeFailure_correct:
  assumes node: "heap s p = Some nd" "nodeFailed nd" and role: "nodeIsMaster nd \<or> nodeIsSlave nd" and "n_numslots nd \<ge> 0"
  shows "returns (clearNodeFailureIfNeeded p s) (\<lambda>s'.
     heap s' = (heap s)(p \<mapsto> nd\<lparr>n_flags :=
       (if nodeIsSlave nd \<or> n_numslots nd = 0 \<or>
           mstime s - n_fail_time nd > cluster_node_timeout s * REDIS_CLUSTER_FAIL_UNDO_TIME_MULT
        then n_flags nd AND NOT REDIS_NODE_FAIL else n_flags nd)\<rparr>))"
proof -
  have idem: "(n_flags nd AND NOT 8) AND NOT (8 :: u32) = n_flags nd AND NOT 8" by (simp add: and.assoc)
  have keep: "n_flags nd AND NOT 8 AND 1 = n_flags nd AND (1 :: u32)" by (simp add: and.assoc)
  show ?thesis
    using assms
    by (auto simp: clearNodeFailureIfNeeded_def deref_def node_upd_def redisAssert_def wp clusterDoBeforeSleep_def
        idem keep fun_upd_idem nodeIsMaster_def)
qed

theorem clearNodeFailure_correct_witness:
  "returns (clearNodeFailureIfNeeded 1 (zero_server\<lparr>heap := [1 \<mapsto> newClusterNode [] (REDIS_NODE_SLAVE OR REDIS_NODE_FAIL) 0]\<rparr>))
     (\<lambda>s'. heap s' = [1 \<mapsto> newClusterNode [] REDIS_NODE_SLAVE 0])"
proof -
  let ?n = "newClusterNode [] (REDIS_NODE_SLAVE OR REDIS_NODE_FAIL) 0"
  let ?s = "zero_server\<lparr>heap := [1 \<mapsto> ?n]\<rparr>"
  have h: "heap ?s 1 = Some ?n" "nodeFailed ?n" and r: "nodeIsMaster ?n \<or> nodeIsSlave ?n" and z: "n_numslots ?n \<ge> 0"
    by (simp_all add: newClusterNode_def nodeFailed_def nodeIsSlave_def)
  show ?thesis
    by (rule returns_mono[OF clearNodeFailure_correct[OF h r z]]) (simp add: newClusterNode_def nodeIsSlave_def)
qed

subsection \<open>Joining\<close>

definition handshaking :: "server \<Rightarrow> bytes \<Rightarrow> int \<Rightarrow> bool" where
  "handshaking s ip port \<longleftrightarrow> (\<exists>e \<in> set (c_nodes s). \<exists>n. heap s (snd e) = Some n \<and>
     nodeInHandshake n \<and> strcaseeq (n_ip n) ip \<and> n_port n = port)"

lemma handshake_scan_spec:
  assumes "\<forall>e \<in> set es. heap s (snd e) \<noteq> None"
  shows "clusterHandshakeInProgress_scan es ip port s = Some (\<exists>e \<in> set es. \<exists>n. heap s (snd e) = Some n \<and>
     nodeInHandshake n \<and> strcaseeq (n_ip n) ip \<and> n_port n = port)"
  using assms
proof (induction es)
  case (Cons e es)
  obtain k p where e: "e = (k, p)" by (cases e)
  obtain n where "heap s p = Some n" using Cons.prems by (auto simp: e)
  then show ?case using Cons by (cases "nodeInHandshake n \<and> strcaseeq (n_ip n) ip \<and> n_port n = port") (force simp: e deref_def)+
qed simp

lemma clusterHandshakeInProgress_spec:
  assumes "nodes_inv s"
  shows "clusterHandshakeInProgress ip port s = Some (handshaking s ip port)"
  unfolding clusterHandshakeInProgress_def handshaking_def
  using assms by (intro handshake_scan_spec) (fastforce simp: nodes_inv_def)

text \<open>Starting a handshake. From a coherent state, with a valid address and port, no handshake with that
  address going on and a random name that is not taken, \<open>clusterStartHandshake\<close> succeeds: it adds one
  node, flagged HANDSHAKE and MEET, with the normalised address and the given port, and the state stays
  coherent. Asking again at once fails with EAGAIN and changes nothing.\<close>

theorem clusterStartHandshake_correct:
  assumes inv: "inv s" and ip: "inet_norm s ip = Some nip" and port: "0 < port" "port \<le> 55535"
    and idle: "\<not> handshaking s nip port"
    and fresh: "fst (getRandomHexChars REDIS_CLUSTER_NAMELEN s) \<notin> fst ` set (c_nodes s)"
  shows "returns (clusterStartHandshake ip port s) (\<lambda>(e, s'). e = None \<and> inv s' \<and>
     (\<exists>n. c_nodes s' = c_nodes s @ [(n_name n, brk s)] \<and> heap s' = (heap s)(brk s \<mapsto> n) \<and>
        length (n_name n) = REDIS_CLUSTER_NAMELEN \<and> n_flags n = REDIS_NODE_HANDSHAKE OR REDIS_NODE_MEET \<and>
        n_ip n = nip \<and> n_port n = port) \<and>
     clusterStartHandshake ip port s' = Some (Some EAGAIN, s'))"
proof -
  let ?nm = "fst (getRandomHexChars REDIS_CLUSTER_NAMELEN s)"
  define n where "n = (newClusterNode ?nm (REDIS_NODE_HANDSHAKE OR REDIS_NODE_MEET) (mstime s))\<lparr>n_ip := nip, n_port := port\<rparr>"
  define s' where "s' = s\<lparr>rng := (\<lambda>j. rng s (j + REDIS_CLUSTER_NAMELEN)), brk := Suc (brk s),
     heap := (heap s)(brk s \<mapsto> n), c_nodes := c_nodes s @ [(?nm, brk s)]\<rparr>"
  have nodes: "nodes_inv s" using inv by (simp add: inv_def)
  have new: "map_of (c_nodes s) ?nm = None" using fresh by (simp add: map_of_eq_None_iff)
  have ne: "heap (s\<lparr>heap := (heap s)(brk s \<mapsto> m)\<rparr>) (brk s) = Some m" for m by simp
  have run: "clusterStartHandshake ip port s = Some (None, s')"
    using ip port idle new
    by (simp add: clusterStartHandshake_def clusterHandshakeInProgress_spec[OF nodes] createClusterNode_def
        getRandomHexChars_def node_upd_def clusterAddNode_def deref_def dictAdd_def Let_def s'_def n_def newClusterNode_def)
  have inv': "inv s'" using clusterStartHandshake_quiet[OF run] inv by (simp add: quiet_def)
  have "handshaking s' nip port"
    unfolding handshaking_def
    by (rule bexI[of _ "(?nm, brk s)"])
      (simp_all add: s'_def n_def newClusterNode_def nodeInHandshake_def strcaseeq_def)
  moreover have "inet_norm s' ip = Some nip" using ip by (simp add: s'_def inet_norm_def split: if_splits)
  moreover have "nodes_inv s'" using inv' by (simp add: inv_def)
  ultimately have again: "clusterStartHandshake ip port s' = Some (Some EAGAIN, s')"
    using port by (simp add: clusterStartHandshake_def clusterHandshakeInProgress_spec)
  have nm: "n_name n = ?nm" "length ?nm = 40" by (simp_all add: n_def newClusterNode_def getRandomHexChars_def)
  show ?thesis
    using inv' again nm unfolding run
    by (auto simp: wp s'_def n_def newClusterNode_def intro!: exI[of _ n])
qed

theorem clusterStartHandshake_correct_witness:
  "returns (clusterStartHandshake [0x31, 0x2E, 0x32, 0x2E, 0x33, 0x2E, 0x34] 7000 one_node_server)
     (\<lambda>(e, s'). e = None \<and> length (c_nodes s') = 2)"
proof -
  let ?ip = "[0x31, 0x2E, 0x32, 0x2E, 0x33, 0x2E, 0x34] :: bytes"
  have inv: "inv one_node_server"
    using one_node_server_slots_inv one_node_server_nodes_inv
    by (simp add: inv_def alloc_inv_def one_node_server_def zero_server_def)
  have ip: "inet_norm one_node_server ?ip = Some ?ip"
    by (simp add: inet_norm_def)
  have h: "\<not> handshaking one_node_server ?ip 7000"
    by (simp add: handshaking_def one_node_server_def zero_server_def newClusterNode_def nodeInHandshake_def)
  have r: "fst (getRandomHexChars 40 one_node_server) = replicate 40 0x30"
    by (rule nth_equalityI) (simp_all add: getRandomHexChars_def one_node_server_def zero_server_def charset_def)
  have f: "fst (getRandomHexChars 40 one_node_server) \<notin> fst ` set (c_nodes one_node_server)"
    unfolding r by (simp add: one_node_server_def zero_server_def)
  show ?thesis
    by (rule returns_mono[OF clusterStartHandshake_correct[OF inv ip _ _ h f]])
      (auto simp: one_node_server_def zero_server_def)
qed



end
