(* ===== verification/ClusterConfig.thy ===== *)
theory ClusterConfig
  imports ClusterFail Keyspace
begin

text \<open>
  The configuration of the cluster (cluster.c): roles, who owns which slot after a claim with a
  configuration epoch, collisions of configuration epochs, the cluster state, and the check of the
  configuration against the data set at start.
\<close>

subsection \<open>Roles\<close>

definition clusterSetNodeAsMaster :: "ptr \<Rightarrow> server \<Rightarrow> server option" where
  "clusterSetNodeAsMaster n s = do {
     nd \<leftarrow> deref (heap s) n;
     if nodeIsMaster nd then Some s
     else do {
       s1 \<leftarrow> (if n_slaveof nd \<noteq> NULL then map_option snd (clusterNodeRemoveSlave (n_slaveof nd) n s) else Some s);
       s2 \<leftarrow> node_upd n (\<lambda>nd. nd\<lparr>n_flags := (n_flags nd AND NOT REDIS_NODE_SLAVE) OR REDIS_NODE_MASTER,
                                n_slaveof := NULL\<rparr>) s1;
       Some (clusterDoBeforeSleep (CLUSTER_TODO_SAVE_CONFIG OR CLUSTER_TODO_UPDATE_STATE) s2)
     }
   }"

definition clusterSetMaster :: "ptr \<Rightarrow> server \<Rightarrow> server option" where
  "clusterSetMaster n s = do {
     redisAssert (n \<noteq> myself s);
     me \<leftarrow> deref (heap s) (myself s);
     redisAssert (n_numslots me = 0);
     s1 \<leftarrow> (if nodeIsMaster me
            then map_option clusterCloseAllSlots (node_upd (myself s)
                   (\<lambda>me. me\<lparr>n_flags := (n_flags me AND NOT REDIS_NODE_MASTER) OR REDIS_NODE_SLAVE\<rparr>) s)
            else if n_slaveof me \<noteq> NULL
            then map_option snd (clusterNodeRemoveSlave (n_slaveof me) (myself s) s)
            else Some s);
     s2 \<leftarrow> node_upd (myself s1) (\<lambda>me. me\<lparr>n_slaveof := n\<rparr>) s1;
     (_, s3) \<leftarrow> clusterNodeAddSlave n (myself s2) s2;
     nd \<leftarrow> deref (heap s3) n;
     Some (resetManualFailover (replicationSetMaster (n_ip nd) (n_port nd) s3))
   }"

subsection \<open>Claims of slots\<close>

text \<open>The test of line 1890: the slot is unassigned or its owner has a smaller epoch.\<close>

definition slot_outdated :: "nat \<Rightarrow> u64 \<Rightarrow> server \<Rightarrow> bool option" where
  "slot_outdated j senderConfigEpoch s =
     (if c_slots s j = NULL then Some True
      else do {
        owner \<leftarrow> deref (heap s) (c_slots s j);
        Some (n_configEpoch owner < senderConfigEpoch)
      })"

definition clusterUpdateSlots_step ::
    "ptr \<Rightarrow> u64 \<Rightarrow> bitmap \<Rightarrow> ptr \<Rightarrow> nat \<Rightarrow> ptr \<times> nat list \<times> server \<Rightarrow> (ptr \<times> nat list \<times> server) option" where
  "clusterUpdateSlots_step sender senderConfigEpoch slots curmaster j st =
     (case st of (newmaster, dirty_slots, s) \<Rightarrow>
        if bitmapTestBit slots j then
          if c_slots s j = sender then Some st
          else if c_importing_slots_from s j \<noteq> NULL then Some st
          else do {
            outdated \<leftarrow> slot_outdated j senderConfigEpoch s;
            if outdated then do {
              let dirty_slots1 = (if c_slots s j = myself s \<and> countKeysInSlot j s \<noteq> 0 \<and> sender \<noteq> myself s
                                  then dirty_slots @ [j] else dirty_slots);
              let newmaster1 = (if c_slots s j = curmaster then sender else newmaster);
              (_, s1) \<leftarrow> clusterDelSlot j s;
              (_, s2) \<leftarrow> clusterAddSlot sender j s1;
              Some (newmaster1, dirty_slots1, clusterDoBeforeSleep
                (CLUSTER_TODO_SAVE_CONFIG OR CLUSTER_TODO_UPDATE_STATE OR CLUSTER_TODO_FSYNC_CONFIG) s2)
            }
            else Some st
          }
        else Some st)"

definition clusterUpdateSlotsConfigWith :: "ptr \<Rightarrow> u64 \<Rightarrow> bitmap \<Rightarrow> server \<Rightarrow> server option" where
  "clusterUpdateSlotsConfigWith sender senderConfigEpoch slots s = do {
     me \<leftarrow> deref (heap s) (myself s);
     let curmaster = (if nodeIsMaster me then myself s else n_slaveof me);
     if sender = myself s then Some s
     else do {
       (newmaster, dirty_slots, s1) \<leftarrow>
         foldM (clusterUpdateSlots_step sender senderConfigEpoch slots curmaster)
           [0..<REDIS_CLUSTER_SLOTS] (NULL, [], s);
       without_slots \<leftarrow> (if newmaster \<noteq> NULL
                        then map_option (\<lambda>cm. n_numslots cm = 0) (deref (heap s1) curmaster) else Some False);
       if without_slots then do {
         s2 \<leftarrow> clusterSetMaster sender s1;
         Some (clusterDoBeforeSleep
           (CLUSTER_TODO_SAVE_CONFIG OR CLUSTER_TODO_UPDATE_STATE OR CLUSTER_TODO_FSYNC_CONFIG) s2)
       }
       else Some (fold (\<lambda>j s. snd (delKeysInSlot j s)) dirty_slots s1)
     }
   }"

text \<open>\<open>clusterSaveConfig\<close> when the writes succeed (otherwise the process exits): what matters to the other operations is
  that both epochs reach the disk, durably when \<open>do_fsync\<close> is set.\<close>

definition clusterSaveConfigOrDie :: "bool \<Rightarrow> server \<Rightarrow> server" where
  "clusterSaveConfigOrDie do_fsync s =
     (let s1 = s\<lparr>c_todo_before_sleep := c_todo_before_sleep s AND NOT CLUSTER_TODO_SAVE_CONFIG\<rparr>;
          s2 = (if do_fsync
                then s1\<lparr>c_todo_before_sleep := c_todo_before_sleep s1 AND NOT CLUSTER_TODO_FSYNC_CONFIG\<rparr> else s1)
      in do_log (SaveConfig do_fsync (c_currentEpoch s) (c_lastVoteEpoch s)) s2)"

text \<open>\<open>memcmp(a,b,40) <= 0\<close> on names of forty bytes is the order of byte strings.\<close>

definition clusterHandleConfigEpochCollision :: "ptr \<Rightarrow> server \<Rightarrow> server option" where
  "clusterHandleConfigEpochCollision sender s = do {
     sd \<leftarrow> deref (heap s) sender;
     me \<leftarrow> deref (heap s) (myself s);
     if n_configEpoch sd \<noteq> n_configEpoch me \<or> \<not> nodeIsMaster sd \<or> \<not> nodeIsMaster me then Some s
     else if take REDIS_CLUSTER_NAMELEN (n_name sd) \<le> take REDIS_CLUSTER_NAMELEN (n_name me) then Some s
     else do {
       let s1 = s\<lparr>c_currentEpoch := c_currentEpoch s + 1\<rparr>;
       s2 \<leftarrow> node_upd (myself s1) (\<lambda>me. me\<lparr>n_configEpoch := c_currentEpoch s1\<rparr>) s1;
       Some (clusterSaveConfigOrDie True s2)
     }
   }"

subsection \<open>The cluster state\<close>

abbreviation (input) "REDIS_CLUSTER_MAX_REJOIN_DELAY \<equiv> (5000::int)"
abbreviation (input) "REDIS_CLUSTER_MIN_REJOIN_DELAY \<equiv> (500::int)"
abbreviation (input) "REDIS_CLUSTER_WRITABLE_DELAY \<equiv> (2000::int)"

fun clusterUpdateState_slots :: "nat list \<Rightarrow> server \<Rightarrow> cluster_status option" where
  "clusterUpdateState_slots [] s = Some CLUSTER_OK"
| "clusterUpdateState_slots (j # js) s =
     (if c_slots s j = NULL then Some CLUSTER_FAIL
      else do {
        owner \<leftarrow> deref (heap s) (c_slots s j);
        if n_flags owner AND REDIS_NODE_FAIL \<noteq> 0 then Some CLUSTER_FAIL
        else clusterUpdateState_slots js s
      })"

definition clusterUpdateState_masters :: "server \<Rightarrow> (int \<times> int) option" where
  "clusterUpdateState_masters s =
     foldM (\<lambda>(_, p) (size, unreachable_masters). do {
       node \<leftarrow> deref (heap s) p;
       Some (if nodeIsMaster node \<and> n_numslots node \<noteq> 0
             then (size + 1, if n_flags node AND (REDIS_NODE_FAIL OR REDIS_NODE_PFAIL) \<noteq> 0
                             then unreachable_masters + 1 else unreachable_masters)
             else (size, unreachable_masters))
     }) (c_nodes s) (0, 0)"

definition clusterUpdateState_enter :: "server \<Rightarrow> server" where
  "clusterUpdateState_enter s0 =
     (let s1 = s0\<lparr>c_todo_before_sleep := c_todo_before_sleep s0 AND NOT CLUSTER_TODO_UPDATE_STATE\<rparr>
      in if first_call_time s1 = 0 then s1\<lparr>first_call_time := mstime s1\<rparr> else s1)"

definition clusterUpdateState_verdict :: "clusterNode \<Rightarrow> cluster_status \<Rightarrow> int \<Rightarrow> int \<Rightarrow> server \<Rightarrow> server" where
  "clusterUpdateState_verdict me new_state0 sz unreachable_masters s =
     (let s2 = s\<lparr>c_size := sz\<rparr>;
          minority = unreachable_masters \<ge> c_size s2 div 2 + 1;
          new_state = (if minority then CLUSTER_FAIL else new_state0);
          s3 = (if minority then s2\<lparr>among_minority_time := mstime s2\<rparr> else s2);
          rejoin_delay = max REDIS_CLUSTER_MIN_REJOIN_DELAY
                            (min REDIS_CLUSTER_MAX_REJOIN_DELAY (cluster_node_timeout s3))
      in if new_state \<noteq> c_state s3 then
           if new_state = CLUSTER_OK \<and> nodeIsMaster me \<and> mstime s3 - among_minority_time s3 < rejoin_delay
           then s3 else s3\<lparr>c_state := new_state\<rparr>
         else s3)"

definition clusterUpdateState :: "server \<Rightarrow> server option" where
  "clusterUpdateState s0 = do {
     let s = clusterUpdateState_enter s0;
     me \<leftarrow> deref (heap s) (myself s);
     if nodeIsMaster me \<and> mstime s - first_call_time s < REDIS_CLUSTER_WRITABLE_DELAY then Some s
     else do {
       new_state0 \<leftarrow> clusterUpdateState_slots [0..<REDIS_CLUSTER_SLOTS] s;
       (size, unreachable_masters) \<leftarrow> clusterUpdateState_masters s;
       Some (clusterUpdateState_verdict me new_state0 size unreachable_masters s)
     }
   }"

lemma clusterUpdateState_enter_eq:
  "clusterUpdateState_enter s = s\<lparr>c_todo_before_sleep := c_todo_before_sleep s AND NOT 2,
     first_call_time := (if first_call_time s = 0 then mstime s else first_call_time s)\<rparr>"
  by (simp add: clusterUpdateState_enter_def Let_def)

lemma clusterUpdateState_verdict_frame:
  "\<exists>a b c. clusterUpdateState_verdict me st sz um s = s\<lparr>c_size := a, among_minority_time := b, c_state := c\<rparr>"
proof -
  have shapes: "\<exists>a b c. s\<lparr>c_size := x\<rparr> = s\<lparr>c_size := a, among_minority_time := b, c_state := c\<rparr>"
    "\<exists>a b c. s\<lparr>c_size := x, c_state := z\<rparr> = s\<lparr>c_size := a, among_minority_time := b, c_state := c\<rparr>"
    "\<exists>a b c. s\<lparr>c_size := x, among_minority_time := y\<rparr> = s\<lparr>c_size := a, among_minority_time := b, c_state := c\<rparr>"
    "\<exists>a b c. s\<lparr>c_size := x, among_minority_time := y, c_state := z\<rparr> =
       s\<lparr>c_size := a, among_minority_time := b, c_state := c\<rparr>" for x y z
    by (rule exI [of _ x], rule exI [of _ "among_minority_time s"], rule exI [of _ "c_state s"], simp)
      (rule exI [of _ x], rule exI [of _ "among_minority_time s"], rule exI [of _ z], simp,
       rule exI [of _ x], rule exI [of _ y], rule exI [of _ "c_state s"], simp, blast)
  show ?thesis
    unfolding clusterUpdateState_verdict_def Let_def
    by (simp only: shapes if_True if_False split: if_split) (simp only: shapes simp_thms)
qed

lemma clusterUpdateState_frame:
  assumes "clusterUpdateState s = Some s'"
  obtains a b c d e where
    "s' = s\<lparr>c_todo_before_sleep := a, first_call_time := b, c_size := c, among_minority_time := d, c_state := e\<rparr>"
proof -
  define s1 where "s1 = clusterUpdateState_enter s"
  have "s' = s1 \<or> (\<exists>me st sz um. s' = clusterUpdateState_verdict me st sz um s1)"
    using assms unfolding clusterUpdateState_def Let_def s1_def[symmetric]
    by (auto simp: opt_bind simp del: One_nat_def split: if_splits)
  then obtain c d e where "s' = s1\<lparr>c_size := c, among_minority_time := d, c_state := e\<rparr>"
  proof
    assume "s' = s1"
    then have "s' = s1\<lparr>c_size := c_size s1, among_minority_time := among_minority_time s1, c_state := c_state s1\<rparr>" by simp
    then show ?thesis by (rule that)
  next
    assume "\<exists>me st sz um. s' = clusterUpdateState_verdict me st sz um s1"
    then show ?thesis using clusterUpdateState_verdict_frame that by blast
  qed
  then show ?thesis by (simp add: s1_def clusterUpdateState_enter_eq that)
qed

subsection \<open>The configuration against the data\<close>

definition verifyClusterConfig_step :: "nat \<Rightarrow> nat \<times> server \<Rightarrow> (nat \<times> server) option" where
  "verifyClusterConfig_step j st = (case st of (update_config, s) \<Rightarrow>
     if countKeysInSlot j s = 0 then Some st
     else if c_slots s j = myself s \<or> c_importing_slots_from s j \<noteq> NULL then Some st
     else if c_slots s j = NULL then do {
       (_, s1) \<leftarrow> clusterAddSlot (myself s) j s;
       Some (update_config + 1, s1)
     }
     else Some (update_config + 1,
                s\<lparr>c_importing_slots_from := (c_importing_slots_from s)(j := c_slots s j)\<rparr>))"

definition verifyClusterConfigWithData :: "server \<Rightarrow> (retval \<times> server) option" where
  "verifyClusterConfigWithData s = do {
     me \<leftarrow> deref (heap s) (myself s);
     if nodeIsSlave me then Some (REDIS_OK, s)
     else if \<exists>n \<in> set (other_dbs s). n \<noteq> 0 then Some (REDIS_ERR, s)
     else do {
       (update_config, s1) \<leftarrow> foldM verifyClusterConfig_step [0..<REDIS_CLUSTER_SLOTS] (0, s);
       Some (REDIS_OK, if update_config \<noteq> 0 then clusterSaveConfigOrDie True s1 else s1)
     }
   }"

subsection \<open>What keeps the invariant\<close>

lemma inv_view_config_simps [simp]:
  "inv_view (clusterSaveConfigOrDie f s) = inv_view s"
  "inv_view (s\<lparr>db0 := d\<rparr>) = inv_view s"
  "inv_view (s\<lparr>expires0 := ex\<rparr>) = inv_view s"
  "inv_view (s\<lparr>first_call_time := t\<rparr>) = inv_view s"
  "inv_view (s\<lparr>among_minority_time := t\<rparr>) = inv_view s"
  by (simp_all add: inv_view_def ids_def clusterSaveConfigOrDie_def do_log_def Let_def)

lemma clusterSetNodeAsMaster_keeps [keeps]:
  "clusterSetNodeAsMaster n s = Some s' \<Longrightarrow> inv_view s' = inv_view s"
  by (auto simp: clusterSetNodeAsMaster_def opt_bind node_view_def split: if_splits
      dest!: inv_view_node_upd clusterNodeRemoveSlave_keeps)

lemma clusterSetMaster_keeps [keeps]:
  "clusterSetMaster n s = Some s' \<Longrightarrow> inv_view s' = inv_view s"
  by (auto simp: clusterSetMaster_def opt_bind node_view_def split: if_splits
      dest!: inv_view_node_upd clusterNodeRemoveSlave_keeps clusterNodeAddSlave_keeps)

lemma clusterUpdateState_keeps [keeps]:
  "clusterUpdateState s = Some s' \<Longrightarrow> inv_view s' = inv_view s"
  by (elim clusterUpdateState_frame) simp

lemma but_keys_inv_view:
  assumes "but_keys s' = but_keys s"
  shows "inv_view s' = inv_view s"
  using arg_cong[OF assms, of inv_view] by (simp add: but_keys_def)

lemma clusterUpdateSlots_step_quiet:
  assumes run: "clusterUpdateSlots_step sender e slots cm j (nm, dirty, s) = Some (nm', dirty', s')"
    and j: "j < REDIS_CLUSTER_SLOTS" and inv: "slots_inv s"
  shows "quiet s s' \<and> slots_inv s'"
proof (cases "s' = s")
  case False
  then obtain r1 s1 r2 s2 f where "clusterDelSlot j s = Some (r1, s1)" "clusterAddSlot sender j s1 = Some (r2, s2)"
    and s': "s' = clusterDoBeforeSleep f s2"
    using run by (auto simp: clusterUpdateSlots_step_def opt_bind Let_def split: if_splits)
  then have q: "quiet s s2" "slots_inv s2" using slot_move_quiet[OF _ _ j inv] by auto
  have v: "inv_view s' = inv_view s2" by (simp add: s')
  show ?thesis using quiet_trans[OF q(1) quiet_view[OF v]] slots_view_inv[OF inv_view_slots[OF v] q(2)] by blast
qed (simp add: inv)

lemma delKeysInSlot_but_keys: "but_keys (snd (delKeysInSlot j s)) = but_keys s"
proof -
  have "but_keys (snd (delKeysInSlot_loop h ns (i, s))) = but_keys s" for h ns i and s :: server
    by (induction h ns "(i, s)" arbitrary: i s rule: delKeysInSlot_loop.induct) (auto simp: dbDelete_but_keys)
  then show ?thesis by (simp add: delKeysInSlot_def)
qed

lemma delKeysInSlots_but_keys: "but_keys (fold (\<lambda>j s. snd (delKeysInSlot j s)) js s) = but_keys s"
  by (induction js arbitrary: s) (simp_all add: delKeysInSlot_but_keys)

subsection \<open>Slot claims\<close>

lemma clusterUpdateSlotsConfigWith_parts:
  assumes run: "clusterUpdateSlotsConfigWith sender e slots s = Some s'" and False: "sender \<noteq> myself s"
  obtains cm nm dirty s1 where
    "foldM (clusterUpdateSlots_step sender e slots cm) [0..<REDIS_CLUSTER_SLOTS] (NULL, [], s) = Some (nm, dirty, s1)"
    "(\<exists>f s2. clusterSetMaster sender s1 = Some s2 \<and> s' = clusterDoBeforeSleep f s2) \<or>
      s' = fold (\<lambda>j s. snd (delKeysInSlot j s)) dirty s1"
proof -
  obtain me where me: "heap s (myself s) = Some me"
    using run by (auto simp: clusterUpdateSlotsConfigWith_def opt_bind deref_def)
  define cm where "cm = (if nodeIsMaster me then myself s else n_slaveof me)"
  let ?loop = "foldM (clusterUpdateSlots_step sender e slots cm) [0..<REDIS_CLUSTER_SLOTS] (NULL, [], s)"
  have run': "(?loop \<bind> (\<lambda>(newmaster, dirty_slots, s1).
      (if newmaster \<noteq> NULL then map_option (\<lambda>cm. n_numslots cm = 0) (heap s1 cm) else Some False) \<bind> (\<lambda>w.
        if w then clusterSetMaster sender s1 \<bind> (\<lambda>s2. Some (clusterDoBeforeSleep
           (CLUSTER_TODO_SAVE_CONFIG OR CLUSTER_TODO_UPDATE_STATE OR CLUSTER_TODO_FSYNC_CONFIG) s2))
        else Some (fold (\<lambda>j s. snd (delKeysInSlot j s)) dirty_slots s1)))) = Some s'"
    using run False me by (simp only: clusterUpdateSlotsConfigWith_def Let_def deref_def Option.bind.bind_lunit if_False cm_def[symmetric])
  obtain nm dirty s1 where loop: "?loop = Some (nm, dirty, s1)"
    using run' by (cases ?loop) auto
  have s': "(\<exists>f s2. clusterSetMaster sender s1 = Some s2 \<and> s' = clusterDoBeforeSleep f s2) \<or>
      s' = fold (\<lambda>j s. snd (delKeysInSlot j s)) dirty s1"
    using run' unfolding loop by (auto simp: opt_bind split: if_splits)
  show ?thesis by (rule that[OF loop s'])
qed

lemma clusterUpdateSlotsConfigWith_quiet [quietly]:
  assumes run: "clusterUpdateSlotsConfigWith sender e slots s = Some s'" and inv: "slots_inv s"
  shows "quiet s s'"
proof (cases "sender = myself s")
  case True
  then show ?thesis using run by (auto simp: clusterUpdateSlotsConfigWith_def opt_bind)
next
  case False
  obtain cm nm dirty s1 where loop: "foldM (clusterUpdateSlots_step sender e slots cm) [0..<REDIS_CLUSTER_SLOTS] (NULL, [], s)
      = Some (nm, dirty, s1)"
    and s': "(\<exists>f s2. clusterSetMaster sender s1 = Some s2 \<and> s' = clusterDoBeforeSleep f s2) \<or>
      s' = fold (\<lambda>j s. snd (delKeysInSlot j s)) dirty s1"
    by (rule clusterUpdateSlotsConfigWith_parts[OF run False])
  have "quiet s s1"
    using slot_move_quiet_foldM[where g = "\<lambda>(_, _, s). s", OF _ loop] clusterUpdateSlots_step_quiet inv by auto
  moreover have "inv_view s' = inv_view s1"
    using s' clusterSetMaster_keeps but_keys_inv_view[OF delKeysInSlots_but_keys] by auto
  ultimately show ?thesis using quiet_view quiet_trans by blast
qed


text \<open>When the claim of \<open>sender\<close> with epoch \<open>e\<close> on a slot is accepted.\<close>

definition claim_wins :: "server \<Rightarrow> ptr \<Rightarrow> u64 \<Rightarrow> bitmap \<Rightarrow> nat \<Rightarrow> bool" where
  "claim_wins s sender e slots k \<longleftrightarrow> bitmapTestBit slots k \<and> c_slots s k \<noteq> sender \<and>
     c_importing_slots_from s k = NULL \<and>
     (c_slots s k = NULL \<or> (\<exists>ow. heap s (c_slots s k) = Some ow \<and> n_configEpoch ow < e))"

text \<open>The frame of the loop: slots and the before-sleep flags.\<close>

definition but_claims :: "server \<Rightarrow> server" where
  "but_claims s = but_slots (s\<lparr>c_todo_before_sleep := 0\<rparr>)"

lemma but_claims_eq: "but_claims s = (but_slots s)\<lparr>c_todo_before_sleep := 0\<rparr>"
  by (cases s) (simp add: but_claims_def but_slots_def)

lemma but_slots_claims:
  assumes "but_slots s' = but_slots s"
  shows "but_claims (clusterDoBeforeSleep f s') = but_claims s"
proof -
  have "but_claims (clusterDoBeforeSleep f s') = but_claims s'"
    by (simp add: but_claims_def clusterDoBeforeSleep_def)
  then show ?thesis using assms by (simp add: but_claims_eq)
qed

lemma but_claims_fields:
  assumes "but_claims s' = but_claims s"
  shows "c_myself s' = c_myself s" "c_importing_slots_from s' = c_importing_slots_from s"
    "c_slots_to_keys s' = c_slots_to_keys s" "db0 s' = db0 s" "c_nodes s' = c_nodes s" "links s' = links s"
    "ids s' = ids s" "brk s' = brk s" "mstime s' = mstime s"
  using arg_cong[OF assms, of c_myself] arg_cong[OF assms, of c_importing_slots_from]
    arg_cong[OF assms, of c_slots_to_keys] arg_cong[OF assms, of db0] arg_cong[OF assms, of c_nodes]
    arg_cong[OF assms, of links] arg_cong[OF assms, of ids] arg_cong[OF assms, of brk] arg_cong[OF assms, of mstime]
  by (simp_all add: but_claims_def but_slots_def ids_def)

lemma but_claims_node:
  assumes "but_claims s' = but_claims s" and "heap s p = Some n"
  shows "\<exists>n'. heap s' p = Some n' \<and> node_but_slots n' = node_but_slots n"
  using but_slots_node[of "s\<lparr>c_todo_before_sleep := 0\<rparr>" "s'\<lparr>c_todo_before_sleep := 0\<rparr>" p n] assms
  by (auto simp: but_claims_def)

lemma but_claims_alloc:
  assumes "but_claims s' = but_claims s"
  shows "heap s' p = None \<longleftrightarrow> heap s p = None"
  using but_slots_alloc[of "s'\<lparr>c_todo_before_sleep := 0\<rparr>" "s\<lparr>c_todo_before_sleep := 0\<rparr>" p] assms
  by (simp add: but_claims_def)

lemma slot_outdated_spec:
  assumes "slots_inv s" and "j < REDIS_CLUSTER_SLOTS"
  shows "slot_outdated j e s = Some (c_slots s j = NULL \<or> (\<exists>ow. heap s (c_slots s j) = Some ow \<and> n_configEpoch ow < e))"
proof (cases "c_slots s j = 0")
  case False
  then obtain n where "heap s (c_slots s j) = Some n"
    using slots_agree_alloc[OF assms(1)[unfolded slots_inv_def] assms(2)] by auto
  then show ?thesis using False by (simp add: slot_outdated_def deref_def)
qed (simp add: slot_outdated_def)

text \<open>One step of the loop.\<close>

lemma clusterUpdateSlots_step_spec:
  assumes inv: "slots_inv s" and j: "j < REDIS_CLUSTER_SLOTS" and sd: "heap s sender \<noteq> None" "sender \<noteq> myself s"
  shows "returns (clusterUpdateSlots_step sender e slots cm j (nm, dirty, s)) (\<lambda>(nm', dirty', s').
     slots_inv s' \<and> but_claims s' = but_claims s \<and>
     (if claim_wins s sender e slots j
      then nm' = (if c_slots s j = cm then sender else nm) \<and>
           dirty' = (if c_slots s j = myself s \<and> countKeysInSlot j s \<noteq> 0 then dirty @ [j] else dirty) \<and>
           c_slots s' = (c_slots s)(j := sender)
      else nm' = nm \<and> dirty' = dirty \<and> s' = s))"
proof (cases "claim_wins s sender e slots j")
  case False
  show ?thesis
  proof (cases "bitmapTestBit slots j \<and> c_slots s j \<noteq> sender \<and> c_importing_slots_from s j = 0")
    case True
    then have "slot_outdated j e s = Some False"
      using False by (simp add: slot_outdated_spec[OF inv j] claim_wins_def)
    then show ?thesis using True False inv by (simp add: clusterUpdateSlots_step_def wp)
  next
    case nc: False
    then have "clusterUpdateSlots_step sender e slots cm j (nm, dirty, s) = Some (nm, dirty, s)"
      unfolding clusterUpdateSlots_step_def
      by (cases "bitmapTestBit slots j"; cases "c_slots s j = sender") simp_all
    then show ?thesis using False inv by (simp add: wp)
  qed
next
  case True
  obtain r1 s1 where s1: "clusterDelSlot j s = Some (r1, s1)" "slots_inv s1" "but_slots s1 = but_slots s"
    "c_slots s1 = (c_slots s)(j := 0)"
    using returnsD[OF clusterDelSlot_spec[OF inv j]] by auto
  have "heap s1 sender \<noteq> None" using sd(1) but_slots_alloc[OF s1(3)] by simp
  then obtain r2 s2 where s2: "clusterAddSlot sender j s1 = Some (r2, s2)" "slots_inv s2" "but_slots s2 = but_slots s1"
    "c_slots s2 = (c_slots s)(j := sender)"
    using returnsD[OF clusterAddSlot_spec[OF s1(2) j, of sender]] s1(4) by auto
  have "slots_inv (clusterDoBeforeSleep f s2)" for f using s2(2) by (simp add: slots_inv_def clusterDoBeforeSleep_def)
  moreover have "but_claims (clusterDoBeforeSleep f s2) = but_claims s" for f
    using but_slots_claims s1(3) s2(3) by metis
  moreover have "c_slots (clusterDoBeforeSleep f s2) = (c_slots s)(j := sender)" for f
    using s2(4) by (simp add: clusterDoBeforeSleep_def)
  moreover have "slot_outdated j e s = Some True"
    using True by (simp add: slot_outdated_spec[OF inv j] claim_wins_def)
  moreover have "bitmapTestBit slots j" "c_slots s j \<noteq> sender" "c_importing_slots_from s j = 0"
    using True by (simp_all add: claim_wins_def)
  ultimately show ?thesis
    using True sd(2) s1(1) s2(1) by (simp add: clusterUpdateSlots_step_def wp)
qed

lemma countKeysInSlot_cong: "c_slots_to_keys s' = c_slots_to_keys s \<Longrightarrow> countKeysInSlot j s' = countKeysInSlot j s"
  by (simp add: countKeysInSlot_def)

text \<open>Whether a claim wins depends, for a slot not yet reached by the loop, on the state before the loop.\<close>

lemma claim_wins_later:
  assumes fr: "but_claims s' = but_claims s" and sl: "c_slots s' k = c_slots s k"
  shows "claim_wins s' sender e slots k = claim_wins s sender e slots k"
proof -
  have "(\<exists>ow. heap s' (c_slots s k) = Some ow \<and> n_configEpoch ow < e) \<longleftrightarrow>
      (\<exists>ow. heap s (c_slots s k) = Some ow \<and> n_configEpoch ow < e)"
  proof (cases "heap s (c_slots s k)")
    case None
    then show ?thesis using but_claims_alloc[OF fr, of "c_slots s k"] by simp
  next
    case (Some n)
    obtain n' where n': "heap s' (c_slots s k) = Some n'" "node_but_slots n' = node_but_slots n"
      using but_claims_node[OF fr Some] by blast
    show ?thesis using Some n'(1) node_but_slots_simps(3)[OF n'(2)] by simp
  qed
  then show ?thesis using but_claims_fields(2)[OF fr] sl by (simp add: claim_wins_def)
qed

text \<open>The whole loop.\<close>

lemma clusterUpdateSlots_loop_spec:
  assumes inv: "slots_inv s" and sd: "heap s sender \<noteq> None" "sender \<noteq> myself s" and s0: "sender \<noteq> NULL"
  shows "returns (foldM (clusterUpdateSlots_step sender e slots cm) [0..<REDIS_CLUSTER_SLOTS] (NULL, [], s))
    (\<lambda>(nm, dirty, s'). slots_inv s' \<and> but_claims s' = but_claims s \<and>
       c_slots s' = (\<lambda>k. if k < REDIS_CLUSTER_SLOTS \<and> claim_wins s sender e slots k then sender else c_slots s k) \<and>
       (nm = sender \<and> (\<exists>k<REDIS_CLUSTER_SLOTS. claim_wins s sender e slots k \<and> c_slots s k = cm) \<or>
        nm = NULL \<and> \<not> (\<exists>k<REDIS_CLUSTER_SLOTS. claim_wins s sender e slots k \<and> c_slots s k = cm)) \<and>
       dirty = filter (\<lambda>k. claim_wins s sender e slots k \<and> c_slots s k = myself s \<and> countKeysInSlot k s \<noteq> 0)
         [0..<REDIS_CLUSTER_SLOTS])"
proof -
  define I where "I j st \<longleftrightarrow> (case st of (nm, dirty, s') \<Rightarrow> slots_inv s' \<and> but_claims s' = but_claims s \<and>
       c_slots s' = (\<lambda>k. if k < j \<and> claim_wins s sender e slots k then sender else c_slots s k) \<and>
       nm = (if \<exists>k<j. claim_wins s sender e slots k \<and> c_slots s k = cm then sender else NULL) \<and>
       dirty = filter (\<lambda>k. claim_wins s sender e slots k \<and> c_slots s k = myself s \<and> countKeysInSlot k s \<noteq> 0) [0..<j])"
    for j and st :: "ptr \<times> nat list \<times> server"
  have "returns (foldM (clusterUpdateSlots_step sender e slots cm) [0..<REDIS_CLUSTER_SLOTS] (NULL, [], s))
      (I REDIS_CLUSTER_SLOTS)"
  proof (rule returns_foldM_upt)
    show "I 0 (NULL, [], s)" using inv by (simp add: I_def)
  next
    fix j st assume j: "j < REDIS_CLUSTER_SLOTS" and I: "I j st"
    obtain nm dirty s1 where st: "st = (nm, dirty, s1)" by (cases st)
    have s1: "slots_inv s1" "but_claims s1 = but_claims s" "c_slots s1 j = c_slots s j"
      and sl: "c_slots s1 = (\<lambda>k. if k < j \<and> claim_wins s sender e slots k then sender else c_slots s k)"
      using I by (auto simp: I_def st)
    have sd1: "heap s1 sender \<noteq> None" "sender \<noteq> myself s1"
      using sd but_claims_alloc[OF s1(2)] but_claims_fields(1)[OF s1(2)] by auto
    have win: "claim_wins s1 sender e slots j = claim_wins s sender e slots j"
      by (rule claim_wins_later[OF s1(2,3)])
    have keys: "countKeysInSlot j s1 = countKeysInSlot j s"
      by (rule countKeysInSlot_cong[OF but_claims_fields(3)[OF s1(2)]])
    show "returns (clusterUpdateSlots_step sender e slots cm j st) (I (Suc j))"
    proof (cases "claim_wins s sender e slots j")
      case True
      have "c_slots s2 = (c_slots s1)(j := sender) \<Longrightarrow>
          c_slots s2 = (\<lambda>k. if k < Suc j \<and> claim_wins s sender e slots k then sender else c_slots s k)" for s2 :: server
        using True by (auto simp: sl fun_eq_iff less_Suc_eq)
      then show ?thesis
        unfolding st using I True s1(2,3) win keys but_claims_fields(1)[OF s1(2)]
        by (intro returns_mono[OF clusterUpdateSlots_step_spec[OF s1(1) j sd1]])
          (auto simp: I_def st less_Suc_eq)
    next
      case False
      have "c_slots s1 = (\<lambda>k. if k < Suc j \<and> claim_wins s sender e slots k then sender else c_slots s k)"
        using False by (auto simp: sl fun_eq_iff less_Suc_eq)
      then show ?thesis
        unfolding st using I False win
        by (intro returns_mono[OF clusterUpdateSlots_step_spec[OF s1(1) j sd1]])
          (auto simp: I_def st less_Suc_eq)
    qed
  qed
  then show ?thesis by (rule returns_mono) (use s0 in \<open>auto simp: I_def split: if_splits\<close>)
qed

subsection \<open>The whole claim\<close>

lemma delKeysInSlots_spec:
  assumes "keys_inv s"
  shows "keys_inv (fold (\<lambda>j s. snd (delKeysInSlot j s)) js s) \<and>
    (\<forall>k. db0 (fold (\<lambda>j s. snd (delKeysInSlot j s)) js s) k = (if keyHashSlot k \<in> set js then None else db0 s k))"
  using assms
proof (induction js arbitrary: s)
  case (Cons j js)
  have "keys_inv (snd (delKeysInSlot j s))" "\<forall>k. db0 (snd (delKeysInSlot j s)) k = (if keyHashSlot k = j then None else db0 s k)"
    using delKeysInSlot_spec[OF Cons.prems, of j] by (simp_all add: case_prod_beta Let_def)
  then show ?case using Cons.IH by auto
qed simp

definition key_view :: "server \<Rightarrow> (bytes \<Rightarrow> bytes option) \<times> (nat \<times> bytes) list" where
  "key_view s = (db0 s, c_slots_to_keys s)"

lemma key_view_simps [simp]:
  "key_view (s\<lparr>heap := h\<rparr>) = key_view s"
  "key_view (clusterCloseAllSlots s) = key_view s"
  "key_view (clusterDoBeforeSleep f s) = key_view s"
  "key_view (resetManualFailover s) = key_view s"
  "key_view (replicationSetMaster ip port s) = key_view s"
  by (auto simp: key_view_def clusterCloseAllSlots_def clusterDoBeforeSleep_def resetManualFailover_def
      replicationSetMaster_def do_log_def clientsArePaused_def Let_def split: prod.splits)

lemma key_view_inv: "key_view s' = key_view s \<Longrightarrow> keys_inv s' = keys_inv s"
  by (simp add: key_view_def keys_inv_def)

lemma heap_replication [simp]:
  "heap (resetManualFailover s) = heap s" "heap (replicationSetMaster ip port s) = heap s"
  "masterhost (resetManualFailover s) = masterhost s" "masterhost (replicationSetMaster ip port s) = Some ip"
  by (auto simp: resetManualFailover_def replicationSetMaster_def do_log_def clientsArePaused_def Let_def split: prod.splits)

lemma clusterNodeRemoveSlave_upd:
  assumes "clusterNodeRemoveSlave a b s = Some (r, s')" and "heap s a = Some n"
  shows "\<exists>sls. s' = s\<lparr>heap := (heap s)(a \<mapsto> n\<lparr>n_slaves := sls\<rparr>)\<rparr>"
  using assms
  by (auto simp: clusterNodeRemoveSlave_def deref_def node_upd_def fun_upd_idem split: option.splits
      intro: exI[of _ "n_slaves n"])

lemma clusterNodeAddSlave_upd:
  assumes "heap s a = Some n"
  shows "\<exists>r sls. clusterNodeAddSlave a b s = Some (r, s\<lparr>heap := (heap s)(a \<mapsto> n\<lparr>n_slaves := sls\<rparr>)\<rparr>) \<and> b \<in> set sls"
  using assms
  by (auto simp: clusterNodeAddSlave_def deref_def node_upd_def fun_upd_idem intro: exI[of _ "n_slaves n"])

lemma slave_flags_bits:
  "nodeIsSlave (n\<lparr>n_flags := (f AND - 2) OR 2\<rparr>)" "\<not> nodeIsMaster (n\<lparr>n_flags := (f AND - 2) OR 2\<rparr>)"
  by (simp_all add: nodeIsSlave_def nodeIsMaster_def bit.conj_disj_distrib2 and.assoc)

lemma clusterSetMaster_spec:
  assumes me: "heap s (myself s) = Some me" "n_numslots me = 0" "nodeIsMaster me \<or> nodeIsSlave me"
    and closed: "n_slaveof me \<noteq> NULL \<longrightarrow> heap s (n_slaveof me) \<noteq> None"
    and n: "n \<noteq> myself s" "heap s n = Some nd"
  shows "returns (clusterSetMaster n s) (\<lambda>s'. key_view s' = key_view s \<and> masterhost s' = Some (n_ip nd) \<and>
     (\<exists>me'. heap s' (myself s) = Some me' \<and> n_slaveof me' = n \<and> nodeIsSlave me'))"
proof -
  let ?s1 = "if nodeIsMaster me
            then map_option clusterCloseAllSlots (node_upd (myself s)
                   (\<lambda>me. me\<lparr>n_flags := (n_flags me AND NOT REDIS_NODE_MASTER) OR REDIS_NODE_SLAVE\<rparr>) s)
            else if n_slaveof me \<noteq> NULL
            then map_option snd (clusterNodeRemoveSlave (n_slaveof me) (myself s) s)
            else Some s"
  have "\<exists>s1 me1 nd1. ?s1 = Some s1 \<and> key_view s1 = key_view s \<and> myself s1 = myself s \<and>
      heap s1 (myself s) = Some me1 \<and> nodeIsSlave me1 \<and> heap s1 n = Some nd1 \<and> n_ip nd1 = n_ip nd"
  proof (cases "nodeIsMaster me")
    case True
    then show ?thesis using me n
      by (auto simp: node_upd_def clusterCloseAllSlots_def key_view_def slave_flags_bits)
  next
    case False
    show ?thesis
    proof (cases "n_slaveof me = 0")
      case True
      then show ?thesis using False me n by auto
    next
      case sl: False
      then obtain m where m: "heap s (n_slaveof me) = Some m" using closed by auto
      obtain r s1 where r: "clusterNodeRemoveSlave (n_slaveof me) (myself s) s = Some (r, s1)"
        using clusterNodeRemoveSlave_total[of s "n_slaveof me" "myself s"] m by auto
      obtain sls where "s1 = s\<lparr>heap := (heap s)(n_slaveof me \<mapsto> m\<lparr>n_slaves := sls\<rparr>)\<rparr>"
        using clusterNodeRemoveSlave_upd[OF r m] by blast
      then show ?thesis using False sl me n m r by (auto simp: nodeIsSlave_def nodeIsMaster_def)
    qed
  qed
  then obtain s1 me1 nd1 where s1: "?s1 = Some s1" "key_view s1 = key_view s" "myself s1 = myself s"
    "heap s1 (myself s) = Some me1" "nodeIsSlave me1" "heap s1 n = Some nd1" "n_ip nd1 = n_ip nd" by blast
  define s2 where "s2 = s1\<lparr>heap := (heap s1)(myself s \<mapsto> me1\<lparr>n_slaveof := n\<rparr>)\<rparr>"
  have s2: "node_upd (myself s1) (\<lambda>me. me\<lparr>n_slaveof := n\<rparr>) s1 = Some s2" "heap s2 n = Some nd1"
    "myself s2 = myself s" "key_view s2 = key_view s" "heap s2 (myself s) = Some (me1\<lparr>n_slaveof := n\<rparr>)"
    using s1 n(1) by (simp_all add: node_upd_def s2_def)
  obtain r sls where "clusterNodeAddSlave n (myself s2) s2 = Some (r, s2\<lparr>heap := (heap s2)(n \<mapsto> nd1\<lparr>n_slaves := sls\<rparr>)\<rparr>)"
    using clusterNodeAddSlave_upd[OF s2(2)] by blast
  then show ?thesis
    using me n(1) s1 s2 by (simp add: clusterSetMaster_def wp deref_def s1(1)[simplified] nodeIsSlave_def)
qed

lemma but_claims_key_view: "but_claims s' = but_claims s \<Longrightarrow> key_view s' = key_view s"
  using but_claims_fields(3,4)[of s' s] by (simp add: key_view_def)

lemma no_keys:
  assumes keys: "keys_inv s" and zero: "countKeysInSlot (keyHashSlot k) s = 0"
  shows "db0 s k = None"
proof -
  have "zi.in_slot (keyHashSlot k) (c_slots_to_keys s) = []"
    using zero countKeysInSlot_card[OF keys, of "keyHashSlot k"] in_slot_length[OF keys, of "keyHashSlot k"] by simp
  then have "{k'. db0 s k' \<noteq> None \<and> keyHashSlot k' = keyHashSlot k} = {}"
    using in_slot_keys[OF keys, of "keyHashSlot k"] by simp
  then show ?thesis by blast
qed

text \<open>After the loop: the state \<open>s1\<close>, the slots of this server that lost keys to delete, and whether the
  master of this server lost its last slot.\<close>

definition claimed :: "server \<Rightarrow> ptr \<Rightarrow> u64 \<Rightarrow> bitmap \<Rightarrow> ptr \<Rightarrow> nat list \<Rightarrow> server \<Rightarrow> bool" where
  "claimed s sender e slots cm dirty s1 \<longleftrightarrow> inv s1 \<and> but_claims s1 = but_claims s \<and>
     c_slots s1 = (\<lambda>k. if k < REDIS_CLUSTER_SLOTS \<and> claim_wins s sender e slots k then sender else c_slots s k) \<and>
     dirty = filter (\<lambda>k. claim_wins s sender e slots k \<and> c_slots s k = myself s \<and> countKeysInSlot k s \<noteq> 0)
         [0..<REDIS_CLUSTER_SLOTS]"

definition claim_lost :: "server \<Rightarrow> ptr \<Rightarrow> u64 \<Rightarrow> bitmap \<Rightarrow> ptr \<Rightarrow> server \<Rightarrow> bool" where
  "claim_lost s sender e slots cm s1 \<longleftrightarrow> (\<exists>k<REDIS_CLUSTER_SLOTS. claim_wins s sender e slots k \<and> c_slots s k = cm) \<and>
         (\<forall>k<REDIS_CLUSTER_SLOTS. c_slots s1 k \<noteq> cm)"

lemma clusterUpdateSlotsConfigWith_run:
  assumes inv: "inv s" and me: "heap s (myself s) = Some me"
    and cm: "cm = (if nodeIsMaster me then myself s else n_slaveof me)" "heap s cm \<noteq> None"
    and sd: "heap s sender \<noteq> None" "sender \<noteq> myself s"
  obtains dirty s1 where "claimed s sender e slots cm dirty s1"
    "clusterUpdateSlotsConfigWith sender e slots s = (if claim_lost s sender e slots cm s1
      then map_option (clusterDoBeforeSleep
           (CLUSTER_TODO_SAVE_CONFIG OR CLUSTER_TODO_UPDATE_STATE OR CLUSTER_TODO_FSYNC_CONFIG)) (clusterSetMaster sender s1)
      else Some (fold (\<lambda>j s. snd (delKeysInSlot j s)) dirty s1))"
proof -
  have sinv: "slots_inv s" using inv by (simp add: inv_def)
  have s0: "sender \<noteq> NULL" using sd(1) slots_agree_null[OF sinv[unfolded slots_inv_def]] by (metis)
  obtain nm dirty s1 where loop: "foldM (clusterUpdateSlots_step sender e slots cm) [0..<REDIS_CLUSTER_SLOTS] (NULL, [], s)
      = Some (nm, dirty, s1)" and s1: "slots_inv s1" "but_claims s1 = but_claims s"
    and sl: "c_slots s1 = (\<lambda>k. if k < REDIS_CLUSTER_SLOTS \<and> claim_wins s sender e slots k then sender else c_slots s k)"
    and nm: "nm = sender \<and> (\<exists>k<REDIS_CLUSTER_SLOTS. claim_wins s sender e slots k \<and> c_slots s k = cm) \<or>
        nm = NULL \<and> \<not> (\<exists>k<REDIS_CLUSTER_SLOTS. claim_wins s sender e slots k \<and> c_slots s k = cm)"
    and dirty: "dirty = filter (\<lambda>k. claim_wins s sender e slots k \<and> c_slots s k = myself s \<and> countKeysInSlot k s \<noteq> 0)
         [0..<REDIS_CLUSTER_SLOTS]"
    using returnsD[OF clusterUpdateSlots_loop_spec[OF sinv sd s0, of e slots cm]] by auto
  have "shape s1 = shape s"
    using s1(2) but_slots_shape[of "s1\<lparr>c_todo_before_sleep := 0\<rparr>" "s\<lparr>c_todo_before_sleep := 0\<rparr>"]
    by (simp add: but_claims_def shape_def)
  note sh = this
  have inv1: "inv s1"
    using s1(1) nodes_inv_shape[OF sh] shapeD(4)[OF sh] inv but_claims_fields(7,8)[OF s1(2)]
    by (auto simp: inv_def alloc_inv_def ids_def)
  obtain cmn where cmn: "heap s1 cm = Some cmn" using cm(2) but_claims_alloc[OF s1(2), of cm] by auto
  have zero: "n_numslots cmn = 0 \<longleftrightarrow> (\<forall>k<REDIS_CLUSTER_SLOTS. c_slots s1 k \<noteq> cm)"
    by (rule slots_agree_numslots_zero[OF s1(1)[unfolded slots_inv_def] cmn])
  have without: "(if nm \<noteq> NULL then map_option (\<lambda>cm. n_numslots cm = 0) (deref (heap s1) cm) else Some False)
      = Some (claim_lost s sender e slots cm s1)"
    using nm s0 zero cmn by (auto simp: deref_def claim_lost_def)
  have "clusterUpdateSlotsConfigWith sender e slots s = (if claim_lost s sender e slots cm s1
      then map_option (clusterDoBeforeSleep
           (CLUSTER_TODO_SAVE_CONFIG OR CLUSTER_TODO_UPDATE_STATE OR CLUSTER_TODO_FSYNC_CONFIG)) (clusterSetMaster sender s1)
      else Some (fold (\<lambda>j s. snd (delKeysInSlot j s)) dirty s1))"
    using me sd(2) loop without
    by (cases "clusterSetMaster sender s1") (simp_all add: clusterUpdateSlotsConfigWith_def deref_def cm(1)[symmetric])
  then show ?thesis using that[of dirty s1] inv1 s1(2) sl dirty by (simp add: claimed_def)
qed

text \<open>The master of this server lost its last slot: this server becomes a replica of the new owner, its data is kept.\<close>

lemma claim_lost_case:
  assumes c: "claimed s sender e slots cm dirty s1" and lost: "claim_lost s sender e slots cm s1"
    and inv: "slots_inv s" and keys: "keys_inv s"
    and me: "heap s (myself s) = Some me" "nodeIsMaster me \<or> nodeIsSlave me" "nodeIsMaster me \<or> n_numslots me = 0"
    and closed: "n_slaveof me \<noteq> NULL \<longrightarrow> heap s (n_slaveof me) \<noteq> None"
    and cm: "cm = (if nodeIsMaster me then myself s else n_slaveof me)" and sd: "heap s sender \<noteq> None" "sender \<noteq> myself s"
  shows "returns (clusterSetMaster sender s1) (\<lambda>s'. inv s' \<and> keys_inv s' \<and> c_slots s' = c_slots s1 \<and> db0 s' = db0 s \<and>
    (\<exists>me'. heap s' (myself s) = Some me' \<and> n_slaveof me' = sender \<and> nodeIsSlave me'))"
proof -
  have s1: "inv s1" "but_claims s1 = but_claims s" and sl: "c_slots s1 =
      (\<lambda>k. if k < REDIS_CLUSTER_SLOTS \<and> claim_wins s sender e slots k then sender else c_slots s k)"
    using c by (simp_all add: claimed_def)
  have i1: "slots_inv s1" using s1(1) by (simp add: inv_def)
  have my1: "myself s1 = myself s" using but_claims_fields(1)[OF s1(2)] .
  obtain me1 where me1: "heap s1 (myself s) = Some me1" "node_but_slots me1 = node_but_slots me"
    using but_claims_node[OF s1(2) me(1)] by blast
  note mef = node_but_slots_simps[OF me1(2)]
  have "\<forall>k<REDIS_CLUSTER_SLOTS. c_slots s1 k \<noteq> myself s"
  proof (cases "nodeIsMaster me")
    case True
    then show ?thesis using lost cm by (simp add: claim_lost_def)
  next
    case False
    then show ?thesis using slots_agree_numslots_zero[OF inv[unfolded slots_inv_def] me(1)] me(3) sd(2) by (simp add: sl)
  qed
  then have num: "n_numslots me1 = 0" using slots_agree_numslots_zero[OF i1[unfolded slots_inv_def] me1(1)] by simp
  obtain sdn where sdn: "heap s1 sender = Some sdn" using sd(1) but_claims_alloc[OF s1(2), of sender] by auto
  have "returns (clusterSetMaster sender s1) (\<lambda>s'. key_view s' = key_view s1 \<and> masterhost s' = Some (n_ip sdn) \<and>
     (\<exists>me'. heap s' (myself s1) = Some me' \<and> n_slaveof me' = sender \<and> nodeIsSlave me'))"
    using me1(1) num me(2) closed sd(2) mef sdn but_claims_alloc[OF s1(2)]
    by (intro clusterSetMaster_spec[where me = me1]) (auto simp: my1 nodeIsMaster_def nodeIsSlave_def)
  then obtain s2 where s2: "clusterSetMaster sender s1 = Some s2" "key_view s2 = key_view s1"
    "\<exists>me'. heap s2 (myself s) = Some me' \<and> n_slaveof me' = sender \<and> nodeIsSlave me'"
    by (auto simp: returns_def my1)
  have v: "inv_view s2 = inv_view s1" by (rule clusterSetMaster_keeps[OF s2(1)])
  have kv: "key_view s2 = key_view s" using s2(2) but_claims_key_view[OF s1(2)] by simp
  then have "db0 s2 = db0 s" by (simp add: key_view_def)
  then show ?thesis
    using s2 quiet_view[OF v] s1(1) inv_viewD(1)[OF v] key_view_inv[OF kv] keys by (simp add: wp quiet_def)
qed

text \<open>Otherwise the keys of the lost slots are deleted.\<close>

lemma claim_kept_case:
  assumes c: "claimed s sender e slots cm dirty s1" and keys: "keys_inv s"
    and s2: "s2 = fold (\<lambda>j s. snd (delKeysInSlot j s)) dirty s1"
  shows "inv s2" "keys_inv s2" "c_slots s2 = c_slots s1"
    "db0 s2 k = (if claim_wins s sender e slots (keyHashSlot k) \<and> c_slots s (keyHashSlot k) = myself s then None else db0 s k)"
proof -
  have s1: "inv s1" "but_claims s1 = but_claims s" and dirty: "dirty = filter (\<lambda>k. claim_wins s sender e slots k \<and>
      c_slots s k = myself s \<and> countKeysInSlot k s \<noteq> 0) [0..<REDIS_CLUSTER_SLOTS]"
    using c by (simp_all add: claimed_def)
  have keys1: "keys_inv s1" using key_view_inv[OF but_claims_key_view[OF s1(2)]] keys by simp
  have v: "inv_view s2 = inv_view s1" unfolding s2 by (rule but_keys_inv_view[OF delKeysInSlots_but_keys])
  show "inv s2" using quiet_view[OF v] s1(1) by (simp add: quiet_def)
  show "keys_inv s2" and "c_slots s2 = c_slots s1"
    using delKeysInSlots_spec[OF keys1, of dirty, folded s2] inv_viewD(1)[OF v] by simp_all
  have db: "db0 s2 k = (if keyHashSlot k \<in> set dirty then None else db0 s1 k)"
    using delKeysInSlots_spec[OF keys1, of dirty, folded s2] by simp
  have "keyHashSlot k < REDIS_CLUSTER_SLOTS" using keyHashSlot_less[of k] by (simp add: REDIS_CLUSTER_SLOTS_def)
  moreover have "db0 s k = None" if "countKeysInSlot (keyHashSlot k) s = 0"
    using that by (rule no_keys[OF keys])
  ultimately show "db0 s2 k = (if claim_wins s sender e slots (keyHashSlot k) \<and> c_slots s (keyHashSlot k) = myself s
      then None else db0 s k)"
    using db but_claims_fields(4)[OF s1(2)] by (auto simp: dirty)
qed

lemma before_sleep_simps:
  "inv (clusterDoBeforeSleep f s) = inv s" "keys_inv (clusterDoBeforeSleep f s) = keys_inv s"
  "c_slots (clusterDoBeforeSleep f s) = c_slots s" "heap (clusterDoBeforeSleep f s) = heap s"
  "db0 (clusterDoBeforeSleep f s) = db0 s"
  using key_view_inv[of "clusterDoBeforeSleep f s" s] quiet_view[of "clusterDoBeforeSleep f s" s]
    quiet_view[of s "clusterDoBeforeSleep f s"]
  by (auto simp: quiet_def) (simp_all add: clusterDoBeforeSleep_def)

text \<open>Property C7. Claims of slots. When a node claims a set of slots with a configuration epoch, a slot changes hands exactly
  when it is claimed, is not being imported, and is unassigned or owned with a strictly smaller epoch; then
  the sender owns it. If that takes the last slot from this server's current master (itself when it is
  a master), the server becomes a replica of the sender and keeps its keys; otherwise it deletes the keys of exactly
  the slots it lost. The node state stays coherent, the key index exact, and nothing aborts.\<close>

theorem clusterUpdateSlotsConfigWith_correct:
  assumes inv: "inv s" and keys: "keys_inv s"
    and me: "heap s (myself s) = Some me" "nodeIsMaster me \<or> nodeIsSlave me" "nodeIsMaster me \<or> n_numslots me = 0"
    and closed: "n_slaveof me \<noteq> NULL \<longrightarrow> heap s (n_slaveof me) \<noteq> None"
    and cm: "cm = (if nodeIsMaster me then myself s else n_slaveof me)" "cm \<noteq> NULL"
    and sd: "heap s sender \<noteq> None" "sender \<noteq> myself s"
  shows "returns (clusterUpdateSlotsConfigWith sender e slots s) (\<lambda>s'. inv s' \<and> keys_inv s' \<and>
     c_slots s' = (\<lambda>k. if k < REDIS_CLUSTER_SLOTS \<and> claim_wins s sender e slots k then sender else c_slots s k) \<and>
     (if (\<exists>k<REDIS_CLUSTER_SLOTS. claim_wins s sender e slots k \<and> c_slots s k = cm) \<and>
         (\<forall>k<REDIS_CLUSTER_SLOTS. c_slots s' k \<noteq> cm)
      then db0 s' = db0 s \<and> (\<exists>me'. heap s' (myself s) = Some me' \<and> n_slaveof me' = sender \<and> nodeIsSlave me')
      else \<forall>k. db0 s' k = (if claim_wins s sender e slots (keyHashSlot k) \<and> c_slots s (keyHashSlot k) = myself s
                           then None else db0 s k)))"
proof -
  have cml: "heap s cm \<noteq> None" using cm me(1) closed by auto
  obtain dirty s1 where c: "claimed s sender e slots cm dirty s1"
    and run: "clusterUpdateSlotsConfigWith sender e slots s = (if claim_lost s sender e slots cm s1
      then map_option (clusterDoBeforeSleep 14) (clusterSetMaster sender s1)
      else Some (fold (\<lambda>j s. snd (delKeysInSlot j s)) dirty s1))"
    by (rule clusterUpdateSlotsConfigWith_run[OF inv me(1) cm(1) cml sd, of e slots]) simp
  have sinv: "slots_inv s" using inv by (simp add: inv_def)
  have sl: "c_slots s1 = (\<lambda>k. if k < REDIS_CLUSTER_SLOTS \<and> claim_wins s sender e slots k then sender else c_slots s k)"
    using c by (simp add: claimed_def)
  show ?thesis
  proof (cases "claim_lost s sender e slots cm s1")
    case True
    show ?thesis
      unfolding run if_P[OF True] returns_map_option
      by (rule returns_mono[OF claim_lost_case[OF c True sinv keys me closed cm(1) sd]])
        (use True sl in \<open>auto simp: claim_lost_def before_sleep_simps\<close>)
  next
    case False
    note k = claim_kept_case[OF c keys refl]
    have "\<not> ((\<exists>k<REDIS_CLUSTER_SLOTS. claim_wins s sender e slots k \<and> c_slots s k = cm) \<and>
         (\<forall>k<REDIS_CLUSTER_SLOTS. c_slots (fold (\<lambda>j s. snd (delKeysInSlot j s)) dirty s1) k \<noteq> cm))"
      using False k(3) by (simp add: claim_lost_def)
    then show ?thesis using False k(1-3) k(4) unfolding run by (simp only: if_False returns_Some simp_thms sl)
  qed
qed

text \<open>Two masters, this server at address 1 and another at address 2, without slots.\<close>

definition two_masters :: server where
  "two_masters = zero_server
     \<lparr>heap := [1 \<mapsto> newClusterNode (replicate 40 0x61) (REDIS_NODE_MYSELF OR REDIS_NODE_MASTER) 0,
               2 \<mapsto> newClusterNode (replicate 40 0x62) REDIS_NODE_MASTER 0],
      c_nodes := [(replicate 40 0x61, 1), (replicate 40 0x62, 2)], c_myself := 1, c_size := 2, brk := 3\<rparr>"

lemma two_masters_inv: "inv two_masters"
proof -
  have "replicate 40 (0x61::u8) \<noteq> replicate 40 0x62" by simp
  then have "nodes_inv two_masters"
    by (simp add: nodes_inv_def two_masters_def zero_server_def dictWf_def newClusterNode_def)
  moreover have "slots_inv two_masters"
    by (simp add: two_masters_def zero_server_def slots_inv_def slots_agree_def node_agrees_def newClusterNode_def node_slot_count_def)
  ultimately show ?thesis by (simp add: inv_def alloc_inv_def two_masters_def zero_server_def)
qed

lemma two_masters_keys_inv: "keys_inv two_masters"
  by (simp add: keys_inv_def two_masters_def zero_server_def zsl_wf_def)

theorem clusterUpdateSlotsConfigWith_correct_witness:
  "returns (clusterUpdateSlotsConfigWith 2 1 (bitmapSetBit zero_bitmap 5) two_masters) (\<lambda>s'. c_slots s' 5 = 2)"
proof -
  define me where "me = newClusterNode (replicate 40 0x61) (REDIS_NODE_MYSELF OR REDIS_NODE_MASTER) 0"
  have me: "heap two_masters (myself two_masters) = Some me" "nodeIsMaster me \<or> nodeIsSlave me"
      "nodeIsMaster me \<or> n_numslots me = 0"
    and cl: "n_slaveof me \<noteq> 0 \<longrightarrow> heap two_masters (n_slaveof me) \<noteq> None"
    and cm: "1 = (if nodeIsMaster me then myself two_masters else n_slaveof me)" "(1::nat) \<noteq> 0"
    and sd: "heap two_masters 2 \<noteq> None" "2 \<noteq> myself two_masters"
    by (simp_all add: two_masters_def zero_server_def me_def newClusterNode_def nodeIsMaster_def)
  have j: "5 < REDIS_CLUSTER_SLOTS" by (simp add: REDIS_CLUSTER_SLOTS_def)
  have "claim_wins two_masters 2 1 (bitmapSetBit zero_bitmap 5) 5"
    using j
    by (simp add: claim_wins_def two_masters_def zero_server_def)
  then show ?thesis using j
    by (intro returns_mono[OF clusterUpdateSlotsConfigWith_correct[OF two_masters_inv two_masters_keys_inv me cl cm sd]]) simp
qed

text \<open>Property C36. A replica without a master aborts on a claim: if this server is a slave whose master is not known
  (\<open>slaveof\<close> is NULL) and another node claims a slot nobody owns and that is not being imported, then
  \<open>clusterUpdateSlotsConfigWith\<close> takes the unassigned slot for one of its (missing) master's, and reads
  \<open>curmaster->numslots\<close> through the null pointer.\<close>

theorem orphan_slave_claim_aborts:
  assumes inv: "slots_inv s" and me: "heap s (myself s) = Some me" "\<not> nodeIsMaster me" "n_slaveof me = NULL"
    and sd: "heap s sender \<noteq> None" "sender \<noteq> myself s"
    and slot: "k < REDIS_CLUSTER_SLOTS" "bitmapTestBit slots k" "c_slots s k = NULL" "c_importing_slots_from s k = NULL"
  shows "clusterUpdateSlotsConfigWith sender e slots s = None"
proof -
  have s0: "sender \<noteq> NULL" using sd(1) slots_agree_null[OF inv[unfolded slots_inv_def]] by metis
  have "claim_wins s sender e slots k" using slot s0 by (simp add: claim_wins_def)
  then obtain dirty s1 where loop: "foldM (clusterUpdateSlots_step sender e slots NULL) [0..<REDIS_CLUSTER_SLOTS] (NULL, [], s)
      = Some (sender, dirty, s1)" and s1: "slots_inv s1"
    using returnsD[OF clusterUpdateSlots_loop_spec[OF inv sd s0, of e slots NULL]] slot(1,3) by auto
  have "heap s1 NULL = None" using slots_agree_null[OF s1[unfolded slots_inv_def]] .
  then show ?thesis
    using me sd(2) s0 loop by (simp add: clusterUpdateSlotsConfigWith_def deref_def)
qed

theorem orphan_slave_claim_aborts_witness:
  "clusterUpdateSlotsConfigWith 2 1 (bitmapSetBit zero_bitmap 5) (two_masters\<lparr>heap := (heap two_masters)
     (1 \<mapsto> newClusterNode (replicate 40 0x61) (REDIS_NODE_MYSELF OR REDIS_NODE_SLAVE) 0)\<rparr>) = None"
proof -
  define me where "me = newClusterNode (replicate 40 0x61) (REDIS_NODE_MYSELF OR REDIS_NODE_SLAVE) 0"
  define s where "s = two_masters\<lparr>heap := (heap two_masters)(1 \<mapsto> me)\<rparr>"
  have inv: "slots_inv s"
    by (simp add: s_def two_masters_def zero_server_def slots_inv_def slots_agree_def node_agrees_def me_def newClusterNode_def node_slot_count_def)
  have me: "heap s (myself s) = Some me" "\<not> nodeIsMaster me" "n_slaveof me = 0"
    and sd: "heap s 2 \<noteq> None" "2 \<noteq> myself s"
    and sl: "c_slots s 5 = 0" "c_importing_slots_from s 5 = 0"
    by (simp_all add: s_def two_masters_def zero_server_def me_def newClusterNode_def nodeIsMaster_def)
  have j: "5 < REDIS_CLUSTER_SLOTS" by (simp add: REDIS_CLUSTER_SLOTS_def)
  have b: "bitmapTestBit (bitmapSetBit zero_bitmap 5) 5" by simp
  show ?thesis using orphan_slave_claim_aborts[OF inv me sd j b sl] by (simp add: s_def me_def)
qed

subsection \<open>Collisions of configuration epochs\<close>

lemma word_less_Suc:
  assumes "(x :: 'a::len word) \<le> y" and "y \<noteq> - 1"
  shows "x < y + 1"
proof -
  have "1 + y \<noteq> 0" using max_word_wrap[of y] assms(2) by (auto simp: add.commute)
  then have "unat (y + 1) = Suc (unat y)" using unatSuc[of y] by (simp add: add.commute)
  then show ?thesis using assms(1) by (simp add: word_less_nat_alt word_le_nat_alt)
qed

text \<open>Property C26. Collisions of configuration epochs resolve. If two masters A and B have the same configuration
  epoch and each handles the collision on a packet of the other, exactly one of them (the one with the
  smaller name) takes a new epoch, namely its current epoch plus one, and saves it durably; the other
  changes nothing; the two configuration epochs then differ.\<close>

theorem epoch_collision_resolved:
  assumes A: "heap sA (myself sA) = Some a" "heap sA pb = Some b"
    and B: "heap sB (myself sB) = Some b'" "heap sB pa = Some a'"
    and names: "n_name a' = n_name a" "n_name b' = n_name b" "n_name a \<noteq> n_name b"
      "length (n_name a) = REDIS_CLUSTER_NAMELEN" "length (n_name b) = REDIS_CLUSTER_NAMELEN"
    and masters: "nodeIsMaster a" "nodeIsMaster b" "nodeIsMaster a'" "nodeIsMaster b'"
    and epochs: "n_configEpoch a = e" "n_configEpoch b = e" "n_configEpoch a' = e" "n_configEpoch b' = e"
    and room: "e \<le> c_currentEpoch sA" "c_currentEpoch sA \<noteq> - 1" "e \<le> c_currentEpoch sB" "c_currentEpoch sB \<noteq> - 1"
  shows "returns (clusterHandleConfigEpochCollision pb sA) (\<lambda>sA'. returns (clusterHandleConfigEpochCollision pa sB) (\<lambda>sB'.
    (\<exists>na nb. heap sA' (myself sA) = Some na \<and> heap sB' (myself sB) = Some nb \<and> n_configEpoch na \<noteq> n_configEpoch nb \<and>
      (if n_name a < n_name b
       then n_configEpoch na = c_currentEpoch sA + 1 \<and> sB' = sB \<and> c_currentEpoch sA' = c_currentEpoch sA + 1 \<and>
         last (effects sA') = SaveConfig True (c_currentEpoch sA + 1) (c_lastVoteEpoch sA)
       else n_configEpoch nb = c_currentEpoch sB + 1 \<and> sA' = sA \<and> c_currentEpoch sB' = c_currentEpoch sB + 1 \<and>
         last (effects sB') = SaveConfig True (c_currentEpoch sB + 1) (c_lastVoteEpoch sB)))))"
proof -
  have lt: "e < c_currentEpoch sA + 1" "e < c_currentEpoch sB + 1"
    using word_less_Suc room by blast+
  have tk: "take 40 (n_name a) = n_name a" "take 40 (n_name b) = n_name b" using names by simp_all
  show ?thesis
  proof (cases "n_name a < n_name b")
    case True
    then have "\<not> n_name b \<le> n_name a" "n_name a \<le> n_name b" by simp_all
    then show ?thesis
      using A B names masters epochs lt tk True
      by (simp add: clusterHandleConfigEpochCollision_def wp deref_def clusterSaveConfigOrDie_def do_log_def)
  next
    case False
    then have "n_name b \<le> n_name a" "\<not> n_name a \<le> n_name b" using names(3) by auto
    then show ?thesis
      using A B names masters epochs lt tk False
      by (simp add: clusterHandleConfigEpochCollision_def wp deref_def clusterSaveConfigOrDie_def do_log_def)
  qed
qed

theorem epoch_collision_resolved_witness:
  "returns (clusterHandleConfigEpochCollision 2 two_masters) (\<lambda>s'. c_currentEpoch s' = 1)"
proof -
  define a where "a = newClusterNode (replicate 40 0x61) (REDIS_NODE_MYSELF OR REDIS_NODE_MASTER) 0"
  define b where "b = newClusterNode (replicate 40 0x62) REDIS_NODE_MASTER 0"
  define sB where "sB = two_masters\<lparr>c_myself := 2\<rparr>"
  have "(40::nat) = Suc 39" by simp
  then have lt: "replicate 40 (0x61::u8) < replicate 40 0x62" by (simp only: replicate_Suc Cons_less_Cons) simp
  have h: "heap two_masters (myself two_masters) = Some a" "heap two_masters 2 = Some b" "heap sB (myself sB) = Some b"
    "heap sB 1 = Some a" and n: "n_name a = n_name a" "n_name b = n_name b" "n_name a \<noteq> n_name b"
      "length (n_name a) = 40" "length (n_name b) = 40"
    and m: "nodeIsMaster a" "nodeIsMaster b" "nodeIsMaster a" "nodeIsMaster b"
    and e: "n_configEpoch a = 0" "n_configEpoch b = 0" "n_configEpoch a = 0" "n_configEpoch b = 0"
    and r: "0 \<le> c_currentEpoch two_masters" "c_currentEpoch two_masters \<noteq> - 1" "0 \<le> c_currentEpoch sB"
      "c_currentEpoch sB \<noteq> - 1"
    using lt by (simp_all add: two_masters_def sB_def zero_server_def a_def b_def newClusterNode_def nodeIsMaster_def)
  have z: "c_currentEpoch two_masters = 0" "n_name a < n_name b"
    using lt by (simp_all add: two_masters_def zero_server_def a_def b_def newClusterNode_def)
  show ?thesis
    by (rule returns_mono[OF epoch_collision_resolved[OF h n m e r]]) (use z in \<open>auto simp: returns_def\<close>)
qed

subsection \<open>The state of the cluster\<close>

definition slot_served :: "server \<Rightarrow> nat \<Rightarrow> bool" where
  "slot_served s j \<longleftrightarrow> c_slots s j \<noteq> NULL \<and> (\<exists>ow. heap s (c_slots s j) = Some ow \<and> \<not> nodeFailed ow)"

lemma clusterUpdateState_slots_spec:
  assumes "\<forall>j \<in> set js. c_slots s j \<noteq> NULL \<longrightarrow> heap s (c_slots s j) \<noteq> None"
  shows "clusterUpdateState_slots js s = Some (if \<forall>j \<in> set js. slot_served s j then CLUSTER_OK else CLUSTER_FAIL)"
  using assms
proof (induction js)
  case (Cons j js)
  show ?case
  proof (cases "c_slots s j = 0")
    case True
    then show ?thesis by (simp add: slot_served_def)
  next
    case False
    then obtain n where n: "heap s (c_slots s j) = Some n" using Cons.prems by auto
    have "slot_served s j \<longleftrightarrow> n_flags n AND 8 = 0" using False n by (simp add: slot_served_def nodeFailed_def)
    then show ?thesis using Cons False n by (simp add: deref_def)
  qed
qed simp

definition slot_master :: "server \<Rightarrow> bytes \<times> ptr \<Rightarrow> bool" where
  "slot_master s e \<longleftrightarrow> (\<exists>n. heap s (snd e) = Some n \<and> nodeIsMaster n \<and> n_numslots n \<noteq> 0)"

definition unreachable_master :: "server \<Rightarrow> bytes \<times> ptr \<Rightarrow> bool" where
  "unreachable_master s e \<longleftrightarrow> (\<exists>n. heap s (snd e) = Some n \<and> nodeIsMaster n \<and> n_numslots n \<noteq> 0 \<and>
     n_flags n AND (REDIS_NODE_FAIL OR REDIS_NODE_PFAIL) \<noteq> 0)"

lemma clusterUpdateState_masters_spec:
  assumes "\<forall>e \<in> set (c_nodes s). heap s (snd e) \<noteq> None"
  shows "clusterUpdateState_masters s = Some (int (length (filter (slot_master s) (c_nodes s))),
     int (length (filter (unreachable_master s) (c_nodes s))))"
proof -
  let ?f = "\<lambda>(_, p) (size, unreachable_masters). do {
       node \<leftarrow> deref (heap s) p;
       Some (if nodeIsMaster node \<and> n_numslots node \<noteq> 0
             then (size + 1, if n_flags node AND (REDIS_NODE_FAIL OR REDIS_NODE_PFAIL) \<noteq> 0
                             then unreachable_masters + 1 else unreachable_masters)
             else (size, unreachable_masters)) }"
  have "foldM ?f es (a, b) = Some (a + int (length (filter (slot_master s) es)),
     b + int (length (filter (unreachable_master s) es)))" if "set es \<subseteq> set (c_nodes s)" for es a b
    using that
  proof (induction es arbitrary: a b)
    case (Cons e es)
    obtain k p where e: "e = (k, p)" by (cases e)
    obtain n where "heap s p = Some n" using Cons.prems assms by (auto simp: e)
    then show ?case using Cons by (auto simp: e deref_def slot_master_def unreachable_master_def)
  qed simp
  from this[of "c_nodes s" 0 0] show ?thesis by (simp add: clusterUpdateState_masters_def)
qed

text \<open>The run of \<open>clusterUpdateState\<close> in a well-formed state, as one equation.\<close>

lemma clusterUpdateState_run:
  assumes inv: "inv s" and me: "heap s (myself s) = Some me"
  shows "clusterUpdateState s = Some (
     let s1 = clusterUpdateState_enter s in
     if nodeIsMaster me \<and> mstime s - first_call_time s1 < REDIS_CLUSTER_WRITABLE_DELAY then s1
     else clusterUpdateState_verdict me
            (if \<forall>j<REDIS_CLUSTER_SLOTS. slot_served s j then CLUSTER_OK else CLUSTER_FAIL)
            (int (length (filter (slot_master s) (c_nodes s))))
            (int (length (filter (unreachable_master s) (c_nodes s)))) s1)"
proof -
  define s1 where "s1 = clusterUpdateState_enter s"
  have fr: "heap s1 = heap s" "c_slots s1 = c_slots s" "c_nodes s1 = c_nodes s" "myself s1 = myself s" "mstime s1 = mstime s"
    by (simp_all add: s1_def clusterUpdateState_enter_eq)
  have "\<forall>j \<in> set [0..<REDIS_CLUSTER_SLOTS]. c_slots s1 j \<noteq> NULL \<longrightarrow> heap s1 (c_slots s1 j) \<noteq> None"
    using inv slots_agree_alloc[of "c_slots s" "heap s"] by (simp add: fr inv_def slots_inv_def)
  from clusterUpdateState_slots_spec[OF this]
  have slots: "clusterUpdateState_slots [0..<REDIS_CLUSTER_SLOTS] s1 =
      Some (if \<forall>j<REDIS_CLUSTER_SLOTS. slot_served s j then CLUSTER_OK else CLUSTER_FAIL)"
    by (simp add: slot_served_def fr)
  have "\<forall>e \<in> set (c_nodes s1). heap s1 (snd e) \<noteq> None"
    using inv by (fastforce simp: fr inv_def nodes_inv_def)
  from clusterUpdateState_masters_spec[OF this]
  have masters: "clusterUpdateState_masters s1 = Some (int (length (filter (slot_master s) (c_nodes s))),
     int (length (filter (unreachable_master s) (c_nodes s))))"
    by (simp add: fr slot_master_def[abs_def] unreachable_master_def[abs_def])
  show ?thesis
    unfolding clusterUpdateState_def Let_def s1_def[symmetric] slots masters
    using me by (simp add: fr deref_def)
qed

lemma clusterUpdateState_verdict_spec:
  "c_size (clusterUpdateState_verdict me st sz um s) = sz"
  "c_state (clusterUpdateState_verdict me st sz um s) =
     (if st = CLUSTER_FAIL \<or> sz div 2 + 1 \<le> um then CLUSTER_FAIL
      else if c_state s = CLUSTER_FAIL \<and> nodeIsMaster me \<and>
              mstime s - among_minority_time s < max 500 (min 5000 (cluster_node_timeout s))
      then CLUSTER_FAIL else CLUSTER_OK)"
proof -
  have sel: "c_size (if P then x else y) = (if P then c_size x else c_size y)"
    "c_state (if P then x else y) = (if P then c_state x else c_state y)"
    "mstime (if P then x else y) = (if P then mstime x else mstime y)"
    "cluster_node_timeout (if P then x else y) = (if P then cluster_node_timeout x else cluster_node_timeout y)"
    "among_minority_time (if P then x else y) = (if P then among_minority_time x else among_minority_time y)"
    "(if P then x else y)\<lparr>c_state := z\<rparr> = (if P then x\<lparr>c_state := z\<rparr> else y\<lparr>c_state := z\<rparr>)"
    for P and x y :: server and z by simp_all
  show "c_size (clusterUpdateState_verdict me st sz um s) = sz"
    unfolding clusterUpdateState_verdict_def Let_def by (simp add: sel)
  have "c_state s = CLUSTER_OK \<or> c_state s = CLUSTER_FAIL" "st = CLUSTER_OK \<or> st = CLUSTER_FAIL"
    by (cases "c_state s"; simp) (cases st; simp)
  then show "c_state (clusterUpdateState_verdict me st sz um s) =
     (if st = CLUSTER_FAIL \<or> sz div 2 + 1 \<le> um then CLUSTER_FAIL
      else if c_state s = CLUSTER_FAIL \<and> nodeIsMaster me \<and>
              mstime s - among_minority_time s < max 500 (min 5000 (cluster_node_timeout s))
      then CLUSTER_FAIL else CLUSTER_OK)"
    unfolding clusterUpdateState_verdict_def Let_def sel by (auto simp del: max.absorb3 max.absorb4)
qed

text \<open>Property C28. The cluster state. On a coherent state, outside the initial grace period of a master, \<open>clusterUpdateState\<close>
  never aborts, sets the cluster size to the number of masters with slots, and sets the state to OK
  exactly when every slot has an owner that is not FAIL and less than a majority of those masters is FAIL or
  PFAIL, except that a master does not go from FAIL to OK before the rejoin delay since it last was in a
  minority has passed.\<close>

theorem clusterUpdateState_correct:
  assumes inv: "inv s" and me: "heap s (myself s) = Some me"
    and grace: "\<not> (nodeIsMaster me \<and> mstime s - (if first_call_time s = 0 then mstime s else first_call_time s)
                    < REDIS_CLUSTER_WRITABLE_DELAY)"
  shows "returns (clusterUpdateState s) (\<lambda>s'. inv s' \<and>
     (let size = int (length (filter (slot_master s) (c_nodes s)));
          ok = ((\<forall>j<REDIS_CLUSTER_SLOTS. slot_served s j) \<and>
                int (length (filter (unreachable_master s) (c_nodes s))) < size div 2 + 1);
          delay = max 500 (min 5000 (cluster_node_timeout s))
      in c_size s' = size \<and>
         c_state s' = (if \<not> ok then CLUSTER_FAIL
                       else if c_state s = CLUSTER_FAIL \<and> nodeIsMaster me \<and> mstime s - among_minority_time s < delay
                       then CLUSTER_FAIL else CLUSTER_OK)))"
proof -
  define served where "served \<longleftrightarrow> (\<forall>j<REDIS_CLUSTER_SLOTS. slot_served s j)"
  define st where "st = (if served then CLUSTER_OK else CLUSTER_FAIL)"
  define sz where "sz = int (length (filter (slot_master s) (c_nodes s)))"
  define um where "um = int (length (filter (unreachable_master s) (c_nodes s)))"
  define s' where "s' = clusterUpdateState_verdict me st sz um (clusterUpdateState_enter s)"
  have run: "clusterUpdateState s = Some s'"
    using clusterUpdateState_run[OF inv me, folded served_def st_def sz_def um_def] grace
    by (simp add: s'_def Let_def clusterUpdateState_enter_eq)
  have "inv s'" using quiet_view[OF clusterUpdateState_keeps[OF run]] inv by (simp add: quiet_def)
  moreover have "c_size s' = sz"
    and "c_state s' = (if st = CLUSTER_FAIL \<or> sz div 2 + 1 \<le> um then CLUSTER_FAIL
      else if c_state s = CLUSTER_FAIL \<and> nodeIsMaster me \<and>
              mstime s - among_minority_time s < max 500 (min 5000 (cluster_node_timeout s))
      then CLUSTER_FAIL else CLUSTER_OK)"
    unfolding s'_def clusterUpdateState_verdict_spec clusterUpdateState_enter_eq by simp_all
  moreover have "st = CLUSTER_FAIL \<longleftrightarrow> \<not> served"
    by (simp add: st_def)
  ultimately show ?thesis
    unfolding run returns_Some Let_def sz_def um_def served_def by (simp only: not_le[symmetric] de_Morgan_conj not_not simp_thms)
qed

theorem clusterUpdateState_correct_witness:
  "returns (clusterUpdateState (two_masters\<lparr>mstime := 5000, first_call_time := 1\<rparr>)) (\<lambda>s'. c_state s' = CLUSTER_FAIL)"
proof -
  define s where "s = two_masters\<lparr>mstime := 5000, first_call_time := 1\<rparr>"
  define me where "me = newClusterNode (replicate 40 0x61) (REDIS_NODE_MYSELF OR REDIS_NODE_MASTER) 0"
  have "inv s" using two_masters_inv by (simp add: s_def inv_def slots_inv_def nodes_inv_def alloc_inv_def)
  moreover have "heap s (myself s) = Some me" by (simp add: s_def two_masters_def zero_server_def me_def)
  moreover have "\<not> (nodeIsMaster me \<and> mstime s - (if first_call_time s = 0 then mstime s else first_call_time s) < 2000)"
    by (simp add: s_def)
  ultimately have r: "returns (clusterUpdateState s) (\<lambda>s'. inv s' \<and>
     (let size = int (length (filter (slot_master s) (c_nodes s)));
          ok = ((\<forall>j<REDIS_CLUSTER_SLOTS. slot_served s j) \<and>
                int (length (filter (unreachable_master s) (c_nodes s))) < size div 2 + 1);
          delay = max 500 (min 5000 (cluster_node_timeout s))
      in c_size s' = size \<and>
         c_state s' = (if \<not> ok then CLUSTER_FAIL
                       else if c_state s = CLUSTER_FAIL \<and> nodeIsMaster me \<and> mstime s - among_minority_time s < delay
                       then CLUSTER_FAIL else CLUSTER_OK)))"
    by (rule clusterUpdateState_correct)
  have "\<not> slot_served s 0" "0 < REDIS_CLUSTER_SLOTS"
    by (simp_all add: slot_served_def s_def two_masters_def zero_server_def REDIS_CLUSTER_SLOTS_def)
  then have "\<not> (\<forall>j<REDIS_CLUSTER_SLOTS. slot_served s j)" by blast
  with r show ?thesis unfolding s_def[symmetric] by (elim returns_mono) (simp add: Let_def)
qed

subsection \<open>Configuration and data\<close>

text \<open>The slots the check takes over, and those it sets in importing state.\<close>

definition verify_takes :: "server \<Rightarrow> nat \<Rightarrow> bool" where
  "verify_takes s j \<longleftrightarrow> countKeysInSlot j s \<noteq> 0 \<and> c_slots s j \<noteq> myself s \<and> c_importing_slots_from s j = NULL \<and>
     c_slots s j = NULL"

definition verify_imports :: "server \<Rightarrow> nat \<Rightarrow> bool" where
  "verify_imports s j \<longleftrightarrow> countKeysInSlot j s \<noteq> 0 \<and> c_slots s j \<noteq> myself s \<and> c_importing_slots_from s j = NULL \<and>
     c_slots s j \<noteq> NULL"

lemma verifyClusterConfig_step_spec:
  assumes inv: "slots_inv s" and j: "j < REDIS_CLUSTER_SLOTS" and me: "heap s (myself s) \<noteq> None"
  shows "returns (verifyClusterConfig_step j (u, s)) (\<lambda>(u', s'). slots_inv s' \<and> heap s' (myself s) \<noteq> None \<and>
     myself s' = myself s \<and> key_view s' = key_view s \<and>
     c_slots s' = (if verify_takes s j then (c_slots s)(j := myself s) else c_slots s) \<and>
     c_importing_slots_from s' = (if verify_imports s j then (c_importing_slots_from s)(j := c_slots s j)
                                  else c_importing_slots_from s))"
proof (cases "verify_takes s j")
  case False
  then show ?thesis using inv me
    by (auto simp: verifyClusterConfig_step_def wp slots_inv_def key_view_def verify_takes_def verify_imports_def)
next
  case True
  obtain r s1 where s1: "clusterAddSlot (myself s) j s = Some (r, s1)" "slots_inv s1" "but_slots s1 = but_slots s"
    "c_slots s1 = (c_slots s)(j := myself s)"
    using returnsD[OF clusterAddSlot_spec[OF inv j me]] True by (auto simp: verify_takes_def)
  have fr: "c_slots_to_keys s1 = c_slots_to_keys s" "myself s1 = myself s" "db0 s1 = db0 s"
    "c_importing_slots_from s1 = c_importing_slots_from s"
    using arg_cong[OF s1(3), of c_slots_to_keys] arg_cong[OF s1(3), of c_myself] arg_cong[OF s1(3), of db0]
      arg_cong[OF s1(3), of c_importing_slots_from] by (simp_all add: but_slots_def)
  show ?thesis using True s1 fr but_slots_alloc[OF s1(3), of "myself s"] me
    by (simp add: verifyClusterConfig_step_def wp key_view_def verify_takes_def verify_imports_def)
qed

lemma verifyClusterConfig_loop_spec:
  assumes inv: "slots_inv s" and me: "heap s (myself s) \<noteq> None"
  shows "returns (foldM verifyClusterConfig_step [0..<REDIS_CLUSTER_SLOTS] (0, s)) (\<lambda>(u, s').
     slots_inv s' \<and> key_view s' = key_view s \<and> (\<forall>j<REDIS_CLUSTER_SLOTS.
       c_slots s' j = (if verify_takes s j then myself s else c_slots s j) \<and>
       c_importing_slots_from s' j = (if verify_imports s j then c_slots s j else c_importing_slots_from s j)))"
proof -
  define I where "I i st \<longleftrightarrow> (case st of (u :: nat, s') \<Rightarrow> slots_inv s' \<and> heap s' (myself s) \<noteq> None \<and>
     myself s' = myself s \<and> key_view s' = key_view s \<and>
     c_slots s' = (\<lambda>j. if j < i \<and> verify_takes s j then myself s else c_slots s j) \<and>
     c_importing_slots_from s' = (\<lambda>j. if j < i \<and> verify_imports s j then c_slots s j else c_importing_slots_from s j))"
    for i and st :: "nat \<times> server"
  have "returns (foldM verifyClusterConfig_step [0..<REDIS_CLUSTER_SLOTS] (0, s)) (I REDIS_CLUSTER_SLOTS)"
  proof (rule returns_foldM_upt)
    show "I 0 (0, s)" using inv me by (simp add: I_def)
  next
    fix j st assume j: "j < REDIS_CLUSTER_SLOTS" and I: "I j st"
    obtain u s1 where st: "st = (u, s1)" by (cases st)
    have s1: "slots_inv s1" "heap s1 (myself s1) \<noteq> None" "myself s1 = myself s" "key_view s1 = key_view s"
      and sl: "c_slots s1 = (\<lambda>k. if k < j \<and> verify_takes s k then myself s else c_slots s k)"
      and im: "c_importing_slots_from s1 = (\<lambda>k. if k < j \<and> verify_imports s k then c_slots s k else c_importing_slots_from s k)"
      using I by (auto simp: I_def st)
    have "countKeysInSlot j s1 = countKeysInSlot j s"
      by (rule countKeysInSlot_cong) (use s1(4) in \<open>simp add: key_view_def\<close>)
    then have v: "verify_takes s1 j = verify_takes s j" "verify_imports s1 j = verify_imports s j"
      using s1(3) by (simp_all add: verify_takes_def verify_imports_def sl im)
    have sl': "(if verify_takes s j then (c_slots s1)(j := myself s1) else c_slots s1)
        = (\<lambda>k. if k < Suc j \<and> verify_takes s k then myself s else c_slots s k)"
      by (auto simp: sl s1(3) fun_eq_iff less_Suc_eq)
    have im': "(if verify_imports s j then (c_importing_slots_from s1)(j := c_slots s1 j) else c_importing_slots_from s1)
        = (\<lambda>k. if k < Suc j \<and> verify_imports s k then c_slots s k else c_importing_slots_from s k)"
      by (auto simp: sl im fun_eq_iff less_Suc_eq)
    show "returns (verifyClusterConfig_step j st) (I (Suc j))"
      unfolding st
      by (rule returns_mono[OF verifyClusterConfig_step_spec[OF s1(1) j s1(2)]])
        (clarsimp simp: I_def v s1(3,4) sl' im' split del: if_split)
  qed
  then show ?thesis by (rule returns_mono) (auto simp: I_def)
qed

text \<open>The check of the configuration against the data, at start. A master with data in database 0 only
  ends with every slot it has keys of either assigned to itself or being imported; it takes over only
  unassigned slots, every other assignment stays, and no key is touched. With data in another
  database the check fails and changes nothing; a slave is not checked.\<close>

theorem verifyClusterConfig_correct:
  assumes inv: "slots_inv s" and me: "heap s (myself s) = Some me"
  shows "if nodeIsSlave me then verifyClusterConfigWithData s = Some (REDIS_OK, s)
     else if \<exists>n \<in> set (other_dbs s). n \<noteq> 0 then verifyClusterConfigWithData s = Some (REDIS_ERR, s)
     else returns (verifyClusterConfigWithData s) (\<lambda>(r, s'). r = REDIS_OK \<and> slots_inv s' \<and> db0 s' = db0 s \<and>
       (\<forall>j<REDIS_CLUSTER_SLOTS.
          (countKeysInSlot j s \<noteq> 0 \<longrightarrow> c_slots s' j = myself s \<or> c_importing_slots_from s' j \<noteq> NULL) \<and>
          (c_slots s' j = (if c_slots s j = NULL \<and> countKeysInSlot j s \<noteq> 0 \<and> c_importing_slots_from s j = NULL
                           then myself s else c_slots s j))))"
proof -
  have my0: "myself s \<noteq> NULL" using inv me slots_agree_nonnull by (auto simp: slots_inv_def)
  have live: "heap s (myself s) \<noteq> None" using me by simp
  obtain u s1 where run: "foldM verifyClusterConfig_step [0..<REDIS_CLUSTER_SLOTS] (0, s) = Some (u, s1)"
    and s1: "slots_inv s1" "key_view s1 = key_view s"
    and sl: "\<forall>j<REDIS_CLUSTER_SLOTS. c_slots s1 j = (if verify_takes s j then myself s else c_slots s j) \<and>
       c_importing_slots_from s1 j = (if verify_imports s j then c_slots s j else c_importing_slots_from s j)"
    using returnsD[OF verifyClusterConfig_loop_spec[OF inv live]] by auto
  have fin: "\<forall>j<REDIS_CLUSTER_SLOTS.
          (countKeysInSlot j s \<noteq> 0 \<longrightarrow> c_slots s1 j = myself s \<or> c_importing_slots_from s1 j \<noteq> NULL) \<and>
          (c_slots s1 j = (if c_slots s j = NULL \<and> countKeysInSlot j s \<noteq> 0 \<and> c_importing_slots_from s j = NULL
                           then myself s else c_slots s j))"
    using sl my0 by (auto simp: verify_takes_def verify_imports_def)
  define s2 where "s2 = (if u \<noteq> 0 then clusterSaveConfigOrDie True s1 else s1)"
  have s2: "slots_inv s2" "db0 s2 = db0 s" "c_slots s2 = c_slots s1" "c_importing_slots_from s2 = c_importing_slots_from s1"
    using s1 by (simp_all add: s2_def clusterSaveConfigOrDie_def do_log_def Let_def slots_inv_def key_view_def)
  show ?thesis
  proof (cases "nodeIsSlave me \<or> (\<exists>n \<in> set (other_dbs s). n \<noteq> 0)")
    case True
    then show ?thesis using me by (auto simp: verifyClusterConfigWithData_def deref_def)
  next
    case False
    then have N: "\<not> nodeIsSlave me" "\<not> (\<exists>n \<in> set (other_dbs s). n \<noteq> 0)" by blast+
    have run': "verifyClusterConfigWithData s = Some (REDIS_OK, s2)"
      using False me run by (auto simp: verifyClusterConfigWithData_def deref_def s2_def)
    show ?thesis
      unfolding run' if_not_P[OF N(1)] if_not_P[OF N(2)] returns_Some prod.case
      using s2(1,2) fin unfolding s2(3,4)[symmetric] by blast
  qed
qed

theorem verifyClusterConfig_correct_witness:
  "returns (verifyClusterConfigWithData two_masters) (\<lambda>(r, s'). r = REDIS_OK)"
proof -
  define me where "me = newClusterNode (replicate 40 0x61) (REDIS_NODE_MYSELF OR REDIS_NODE_MASTER) 0"
  have i: "slots_inv two_masters" using two_masters_inv by (simp add: inv_def)
  have h: "heap two_masters (myself two_masters) = Some me" and m: "\<not> nodeIsSlave me" "other_dbs two_masters = []"
    by (simp_all add: two_masters_def zero_server_def me_def newClusterNode_def nodeIsSlave_def)
  show ?thesis using verifyClusterConfig_correct[OF i h] m by (auto elim!: returns_mono)
qed

end
