(* ===== verification/ClusterElection.thy ===== *)
theory ClusterElection
  imports ClusterConfig
begin

text \<open>
  Elections (cluster.c, "SLAVE node specific functions", "CLUSTER slave migration" and "CLUSTER manual failover").
  Masters vote in \<open>clusterSendFailoverAuthIfNeeded\<close>, replicas run for master in
  \<open>clusterHandleSlaveFailover\<close>.
\<close>

subsection \<open>Voting\<close>

text \<open>The loop of lines 3418 to 3441: no claimed slot is served with a greater epoch than the request's.\<close>

fun auth_slots_scan :: "nat list \<Rightarrow> bitmap \<Rightarrow> u64 \<Rightarrow> server \<Rightarrow> bool option" where
  "auth_slots_scan [] claimed_slots requestConfigEpoch s = Some True"
| "auth_slots_scan (j # js) claimed_slots requestConfigEpoch s =
     (if \<not> bitmapTestBit claimed_slots j then auth_slots_scan js claimed_slots requestConfigEpoch s
      else if c_slots s j = NULL then auth_slots_scan js claimed_slots requestConfigEpoch s
      else do {
        owner \<leftarrow> deref (heap s) (c_slots s j);
        if n_configEpoch owner \<le> requestConfigEpoch then auth_slots_scan js claimed_slots requestConfigEpoch s
        else Some False
      })"

text \<open>The test of line 3368: the requester is a replica and its master is known and FAIL (or a manual failover
  forces the vote).\<close>

definition auth_master_down :: "clusterNode \<Rightarrow> clusterMsg \<Rightarrow> server \<Rightarrow> bool option" where
  "auth_master_down nd request s =
     (let force_ack = m_mflags0 request AND CLUSTERMSG_FLAG0_FORCEACK \<noteq> 0
      in if nodeIsMaster nd \<or> n_slaveof nd = NULL then Some False
         else do {
           m \<leftarrow> deref (heap s) (n_slaveof nd);
           Some (nodeFailed m \<or> force_ack)
         })"

definition clusterSendFailoverAuthIfNeeded :: "ptr \<Rightarrow> clusterMsg \<Rightarrow> server \<Rightarrow> server option" where
  "clusterSendFailoverAuthIfNeeded node request s = do {
     nd \<leftarrow> deref (heap s) node;
     me \<leftarrow> deref (heap s) (myself s);
     if nodeIsSlave me \<or> n_numslots me = 0 then Some s
     else if m_currentEpoch request < c_currentEpoch s then Some s
     else if c_lastVoteEpoch s = c_currentEpoch s then Some s
     else do {
       down \<leftarrow> auth_master_down nd request s;
       if \<not> down then Some s
       else do {
         m \<leftarrow> deref (heap s) (n_slaveof nd);
         if mstime s - n_voted_time m < cluster_node_timeout s * 2 then Some s
         else do {
           ok \<leftarrow> auth_slots_scan [0..<REDIS_CLUSTER_SLOTS] (m_myslots request) (m_configEpoch request) s;
           if \<not> ok then Some s
           else do {
             s1 \<leftarrow> clusterSendFailoverAuth node s;
             let s2 = s1\<lparr>c_lastVoteEpoch := c_currentEpoch s1\<rparr>;
             nd \<leftarrow> deref (heap s2) node;
             node_upd (n_slaveof nd) (\<lambda>m. m\<lparr>n_voted_time := mstime s2\<rparr>) s2
           }
         }
       }
     }
   }"

subsection \<open>Running for master\<close>

definition clusterGetSlaveRank :: "server \<Rightarrow> int option" where
  "clusterGetSlaveRank s = do {
     me \<leftarrow> deref (heap s) (myself s);
     redisAssert (nodeIsSlave me);
     if n_slaveof me = NULL then Some 0
     else do {
       master \<leftarrow> deref (heap s) (n_slaveof me);
       let myoffset = replicationGetSlaveOffset s;
       foldM (\<lambda>p rank.
         if p = myself s then Some rank
         else do {
           sl \<leftarrow> deref (heap s) p;
           Some (if n_repl_offset sl > myoffset then rank + 1 else rank)
         }) (n_slaves master) 0
     }
   }"

text \<open>\<open>time(NULL)\<close>.\<close>

definition time_now :: "server \<Rightarrow> int" where
  "time_now s = mstime s div 1000"

definition clusterLogCantFailover :: "cant_failover \<Rightarrow> server \<Rightarrow> server option" where
  "clusterLogCantFailover reason s =
     (let nolog_fail_time = cluster_node_timeout s + 5000
      in if reason = c_cant_failover_reason s \<and> time_now s - lastlog_time s < 60 * 5 then Some s
         else do {
           let s1 = s\<lparr>c_cant_failover_reason := reason\<rparr>;
           me \<leftarrow> deref (heap s1) (myself s1);
           quiet \<leftarrow> (if n_slaveof me = NULL then Some False
                    else do {
                      m \<leftarrow> deref (heap s1) (n_slaveof me);
                      Some (nodeFailed m \<and> mstime s1 - n_fail_time m < nolog_fail_time)
                    });
           Some (if quiet then s1 else s1\<lparr>lastlog_time := time_now s1\<rparr>)
         })"

text \<open>Lines 3805 to 3853: the election is won.\<close>

definition failover_take_slot :: "ptr \<Rightarrow> nat \<Rightarrow> server \<Rightarrow> server option" where
  "failover_take_slot oldmaster j s = do {
     om \<leftarrow> deref (heap s) oldmaster;
     if clusterNodeGetSlotBit om j then do {
       (_, s1) \<leftarrow> clusterDelSlot j s;
       (_, s2) \<leftarrow> clusterAddSlot (myself s1) j s1;
       Some s2
     }
     else Some s
   }"

definition failover_become_master :: "server \<Rightarrow> server option" where
  "failover_become_master s = do {
     me \<leftarrow> deref (heap s) (myself s);
     let oldmaster = n_slaveof me;
     s1 \<leftarrow> clusterSetNodeAsMaster (myself s) s;
     let s2 = replicationUnsetMaster s1;
     s3 \<leftarrow> foldM (failover_take_slot oldmaster) [0..<REDIS_CLUSTER_SLOTS] s2;
     s4 \<leftarrow> node_upd (myself s3) (\<lambda>me. me\<lparr>n_configEpoch := c_failover_auth_epoch s3\<rparr>) s3;
     s5 \<leftarrow> clusterUpdateState s4;
     s6 \<leftarrow> clusterBroadcastPong CLUSTER_BROADCAST_ALL (clusterSaveConfigOrDie True s5);
     Some (resetManualFailover s6)
   }"

text \<open>Lines 3685 to 3725: a new attempt is scheduled.\<close>

definition failover_schedule :: "server \<Rightarrow> server option" where
  "failover_schedule s = do {
     let s1 = s\<lparr>c_failover_auth_time := mstime s + 500 + int (rng s 0 mod 500), rng := (\<lambda>i. rng s (Suc i)),
                c_failover_auth_count := 0, c_failover_auth_sent := False\<rparr>;
     rank \<leftarrow> clusterGetSlaveRank s1;
     let s2 = s1\<lparr>c_failover_auth_rank := rank\<rparr>;
     let s3 = s2\<lparr>c_failover_auth_time := c_failover_auth_time s2 + c_failover_auth_rank s2 * 1000\<rparr>;
     let s4 = (if c_mf_end s3 \<noteq> 0 then s3\<lparr>c_failover_auth_time := mstime s3, c_failover_auth_rank := 0\<rparr> else s3);
     clusterBroadcastPong CLUSTER_BROADCAST_LOCAL_SLAVES s4
   }"

text \<open>Lines 3739 to 3752: the delay grows when the rank of this replica got worse.\<close>

definition failover_update_rank :: "server \<Rightarrow> server option" where
  "failover_update_rank s =
     (if \<not> c_failover_auth_sent s \<and> c_mf_end s = 0 then do {
        newrank \<leftarrow> clusterGetSlaveRank s;
        Some (if newrank > c_failover_auth_rank s
              then s\<lparr>c_failover_auth_time := c_failover_auth_time s + (newrank - c_failover_auth_rank s) * 1000,
                     c_failover_auth_rank := newrank\<rparr>
              else s)
      } else Some s)"

text \<open>Lines 3776 to 3797: the replica asks for votes in a new epoch.\<close>

definition failover_request_votes :: "server \<Rightarrow> server option" where
  "failover_request_votes s = do {
     let s1 = s\<lparr>c_currentEpoch := c_currentEpoch s + 1\<rparr>;
     let s2 = s1\<lparr>c_failover_auth_epoch := c_currentEpoch s1\<rparr>;
     s3 \<leftarrow> clusterRequestFailoverAuth s2;
     Some (clusterDoBeforeSleep (CLUSTER_TODO_SAVE_CONFIG OR CLUSTER_TODO_UPDATE_STATE OR CLUSTER_TODO_FSYNC_CONFIG)
       (s3\<lparr>c_failover_auth_sent := True\<rparr>))
   }"

text \<open>The age of the data, lines 3635 to 3650; \<open>server.master\<close> is read only when connected.\<close>

definition failover_data_age :: "server \<Rightarrow> int option" where
  "failover_data_age s = do {
     age \<leftarrow> (if repl_state s = REPL_CONNECTED
            then map_option (\<lambda>m. (unixtime s - mc_lastinteraction m) * 1000) (srv_master s)
            else Some ((unixtime s - repl_down_since s) * 1000));
     Some (if age > cluster_node_timeout s then age - cluster_node_timeout s else age)
   }"

definition failover_auth_timeout :: "server \<Rightarrow> int" where
  "failover_auth_timeout s = (let t = cluster_node_timeout s * 2 in if t < 2000 then 2000 else t)"

text \<open>Lines 3619 to 3622: the preconditions of any automatic or manual failover.\<close>

definition failover_allowed :: "bool \<Rightarrow> server \<Rightarrow> bool option" where
  "failover_allowed manual_failover s = do {
     me \<leftarrow> deref (heap s) (myself s);
     if nodeIsMaster me \<or> n_slaveof me = NULL then Some False
     else do {
       m \<leftarrow> deref (heap s) (n_slaveof me);
       Some (\<not> (\<not> nodeFailed m \<and> \<not> manual_failover) \<and> n_numslots m \<noteq> 0)
     }
   }"

definition clusterHandleSlaveFailover :: "server \<Rightarrow> server option" where
  "clusterHandleSlaveFailover s0 = do {
     let auth_age = mstime s0 - c_failover_auth_time s0;
     let needed_quorum = c_size s0 div 2 + 1;
     let manual_failover = (c_mf_end s0 \<noteq> 0 \<and> c_mf_can_start s0);
     let s = s0\<lparr>c_todo_before_sleep := c_todo_before_sleep s0 AND NOT CLUSTER_TODO_HANDLE_FAILOVER\<rparr>;
     let auth_timeout = failover_auth_timeout s;
     let auth_retry_time = auth_timeout * 2;
     allowed \<leftarrow> failover_allowed manual_failover s;
     if \<not> allowed then Some (s\<lparr>c_cant_failover_reason := CANT_FAILOVER_NONE\<rparr>)
     else do {
       data_age \<leftarrow> failover_data_age s;
       if data_age > repl_ping_slave_period s * 1000 + cluster_node_timeout s * REDIS_CLUSTER_SLAVE_VALIDITY_MULT \<and>
          \<not> manual_failover
       then clusterLogCantFailover CANT_FAILOVER_DATA_AGE s
       else if auth_age > auth_retry_time then failover_schedule s
       else do {
         s1 \<leftarrow> failover_update_rank s;
         if mstime s1 < c_failover_auth_time s1 then clusterLogCantFailover CANT_FAILOVER_WAITING_DELAY s1
         else if auth_age > auth_timeout then clusterLogCantFailover CANT_FAILOVER_EXPIRED s1
         else if \<not> c_failover_auth_sent s1 then failover_request_votes s1
         else if c_failover_auth_count s1 \<ge> needed_quorum then failover_become_master s1
         else clusterLogCantFailover CANT_FAILOVER_WAITING_VOTES s1
       }
     }
   }"

subsection \<open>Migration and manual failover\<close>

definition migration_ok_slaves :: "ptr \<Rightarrow> server \<Rightarrow> int option" where
  "migration_ok_slaves mymaster s = do {
     mm \<leftarrow> deref (heap s) mymaster;
     foldM (\<lambda>p okslaves. do {
       sl \<leftarrow> deref (heap s) p;
       Some (if \<not> nodeFailed sl \<and> \<not> nodeTimedOut sl then okslaves + 1 else okslaves)
     }) (n_slaves mm) 0
   }"

text \<open>One node of the loop of lines 3920 to 3941: the orphaned master to help, and the replica with the
  smallest name among those of the masters with most replicas.\<close>

definition migration_step :: "int \<Rightarrow> server \<Rightarrow> bytes \<times> ptr \<Rightarrow> ptr \<times> ptr \<Rightarrow> (ptr \<times> ptr) option" where
  "migration_step max_slaves s e st = (case st of (target, candidate) \<Rightarrow> do {
     node \<leftarrow> deref (heap s) (snd e);
     if nodeIsSlave node \<or> nodeFailed node then Some st
     else do {
       okslaves \<leftarrow> clusterCountNonFailingSlaves (snd e) s;
       let target1 = (if okslaves = 0 \<and> target = NULL \<and> n_numslots node > 0 then snd e else target);
       candidate1 \<leftarrow> (if okslaves = max_slaves
         then foldM (\<lambda>p cand. do {
                sl \<leftarrow> deref (heap s) p;
                cn \<leftarrow> deref (heap s) cand;
                Some (if take REDIS_CLUSTER_NAMELEN (n_name sl) < take REDIS_CLUSTER_NAMELEN (n_name cn) then p else cand)
              }) (n_slaves node) candidate
         else Some candidate);
       Some (target1, candidate1)
     }
   })"

definition clusterHandleSlaveMigration :: "int \<Rightarrow> server \<Rightarrow> server option" where
  "clusterHandleSlaveMigration max_slaves s = do {
     me \<leftarrow> deref (heap s) (myself s);
     let mymaster = n_slaveof me;
     if c_state s \<noteq> CLUSTER_OK then Some s
     else if mymaster = NULL then Some s
     else do {
       okslaves \<leftarrow> migration_ok_slaves mymaster s;
       if okslaves \<le> cluster_migration_barrier s then Some s
       else do {
         (target, candidate) \<leftarrow> foldM (migration_step max_slaves s) (c_nodes s) (NULL, myself s);
         if target \<noteq> NULL \<and> candidate = myself s then clusterSetMaster target s else Some s
       }
     }
   }"

definition manualFailoverCheckTimeout :: "server \<Rightarrow> server" where
  "manualFailoverCheckTimeout s =
     (if c_mf_end s \<noteq> 0 \<and> c_mf_end s < mstime s then resetManualFailover s else s)"

definition clusterHandleManualFailover :: "server \<Rightarrow> server" where
  "clusterHandleManualFailover s =
     (if c_mf_end s = 0 then s
      else if c_mf_can_start s then s
      else if c_mf_master_offset s = 0 then s
      else if c_mf_master_offset s = replicationGetSlaveOffset s then s\<lparr>c_mf_can_start := True\<rparr>
      else s)"

subsection \<open>Pings and broadcasts return\<close>

text \<open>A state from which packets can be sent: this server and its master are live, the table's nodes and links are live, this
  server is in the table, and the random stream keeps returning every node.\<close>

definition bus_ready :: "server \<Rightarrow> bool" where
  "bus_ready s \<longleftrightarrow> me_live s \<and> table_live s \<and> myself s \<in> snd ` set (c_nodes s) \<and> fair s (rng s) \<and>
     (\<forall>l k. links s l = Some k \<longrightarrow> l_node k \<noteq> NULL \<longrightarrow> heap s (l_node k) \<noteq> None)"

lemma gossip_loop_shift:
  assumes "gossip_loop s rnd fresh gs = Some r"
  shows "\<exists>k. snd r = (\<lambda>i. rnd (i + k))"
proof (rule gossip_loop.raw_induct[where P = "\<lambda>s rnd fresh gs r. \<exists>k. snd r = (\<lambda>i. rnd (i + k))", OF _ assms])
  fix f s rnd fresh gs r
  assume IH: "\<And>s rnd fresh gs r. f s rnd fresh gs = Some r \<Longrightarrow> \<exists>k. snd r = (\<lambda>i. rnd (i + k))"
    and eq: "(if 0 < fresh \<and> length gs < 3 then do {
        p \<leftarrow> random_node s (rnd 0);
        this \<leftarrow> deref (heap s) p;
        if gossip_skips s p this then f s (\<lambda>i. rnd (Suc i)) (fresh - 1) gs
        else if n_name this \<in> g_nodename ` set gs then f s (\<lambda>i. rnd (Suc i)) fresh gs
        else f s (\<lambda>i. rnd (Suc i)) (fresh - 1) (gs @ [gossip_entry this])
      } else Some (gs, rnd)) = Some r"
  show "\<exists>k. snd r = (\<lambda>i. rnd (i + k))"
  proof (cases "0 < fresh \<and> length gs < 3")
    case False
    then have "snd r = (\<lambda>i. rnd (i + 0))" using eq by auto
    then show ?thesis by blast
  next
    case True
    then obtain fresh' gs' where "f s (\<lambda>i. rnd (Suc i)) fresh' gs' = Some r"
      using eq by (auto simp: opt_bind split: if_splits)
    from IH[OF this] obtain k where "snd r = (\<lambda>i. rnd (Suc (i + k)))" by auto
    then show ?thesis by (intro exI[of _ "Suc k"]) simp
  qed
qed

lemma fair_shift_n: "fair s rnd \<Longrightarrow> fair s (\<lambda>i. rnd (i + k))"
proof (induction k arbitrary: rnd)
  case (Suc k)
  from Suc.IH[OF fair_shift[OF Suc.prems]] show ?case by simp
qed simp

lemma fair_cong: "c_nodes s' = c_nodes s \<Longrightarrow> fair s' rnd = fair s rnd"
  by (simp add: fair_def)

lemma ping_shape:
  assumes "n'\<lparr>n_ping_sent := 0\<rparr> = n\<lparr>n_ping_sent := 0\<rparr>"
  shows "n_link n' = n_link n" "n_slaveof n' = n_slaveof n"
  using ping_sent_eqD[OF assms] by simp_all

lemma bus_ready_frame:
  assumes fr: "but_bus s' = but_bus s" and rdy: "bus_ready s" and fair: "fair s (rng s')"
  shows "bus_ready s'"
proof -
  note f = but_bus_fields[OF fr]
  have node: "\<exists>n'. heap s' p = Some n' \<and> n_link n' = n_link n \<and> n_slaveof n' = n_slaveof n" if "heap s p = Some n" for p n
    using but_bus_node[OF fr that] ping_shape by blast
  have al: "heap s' p = None \<longleftrightarrow> heap s p = None" for p
    using inv_viewD(6)[OF but_bus_inv_view[OF fr]] .
  have "me_live s'"
  proof -
    obtain me where me: "heap s (myself s) = Some me" "n_slaveof me \<noteq> NULL \<longrightarrow> heap s (n_slaveof me) \<noteq> None"
      using rdy by (auto simp: bus_ready_def me_live_def)
    then show ?thesis using node[OF me(1)] al by (auto simp: me_live_def f)
  qed
  moreover have "table_live s'"
    unfolding table_live_def
  proof (clarsimp simp: f)
    fix k p assume "(k, p) \<in> set (c_nodes s)"
    then obtain n where n: "heap s p = Some n" "n_link n \<noteq> NULL \<longrightarrow> links s (n_link n) \<noteq> None"
      using rdy by (auto simp: bus_ready_def table_live_def)
    then show "\<exists>n. heap s' p = Some n \<and> (0 < n_link n \<longrightarrow> (\<exists>y. links s (n_link n) = Some y))"
      using node[OF n(1)] by auto
  qed
  moreover have "fair s' (rng s')" using fair fair_cong[of s' s] f(4) by simp
  ultimately show ?thesis using rdy al by (simp add: bus_ready_def f)
qed

lemma me_live_upd_ping:
  assumes "me_live s" and "heap s p = Some n"
  shows "me_live (s\<lparr>heap := (heap s)(p \<mapsto> n\<lparr>n_ping_sent := t\<rparr>)\<rparr>)"
  using assms by (auto simp: me_live_def)

lemma table_heap_live:
  assumes "bus_ready s"
  shows "\<forall>e \<in> set (c_nodes s). heap s (snd e) \<noteq> None"
  using assms by (force simp: bus_ready_def table_live_def)

lemma clusterSendPing_returns:
  assumes rdy: "bus_ready s" and l: "links s link \<noteq> None"
  shows "returns (clusterSendPing link ty s) (\<lambda>s'. but_bus s' = but_bus s \<and> bus_ready s')"
proof -
  obtain k where k: "links s link = Some k" using l by auto
  obtain s1 where s1: "(if l_node k \<noteq> NULL \<and> ty = CLUSTERMSG_TYPE_PING
            then node_upd (l_node k) (\<lambda>n. n\<lparr>n_ping_sent := mstime s\<rparr>) s else Some s) = Some s1"
  proof (cases "l_node k \<noteq> NULL \<and> ty = CLUSTERMSG_TYPE_PING")
    case True
    then obtain n where "heap s (l_node k) = Some n" using rdy k by (auto simp: bus_ready_def)
    then show ?thesis using True that by (simp add: node_upd_def)
  next
    case False
    then show ?thesis using that[of s] by auto
  qed
  have fr: "but_bus s1 = but_bus s" and rng: "rng s1 = rng s"
    using s1 by (auto simp: node_upd_def but_bus_ping split: if_splits option.splits)
  have rdy1: "bus_ready s1" using bus_ready_frame[OF fr rdy] rdy by (simp add: rng bus_ready_def)
  obtain me where me: "heap s1 (myself s1) = Some me" using rdy1 by (auto simp: bus_ready_def me_live_def)
  obtain hdr where hdr: "clusterBuildMessageHdr ty s1 = Some hdr"
    using clusterBuildMessageHdr_total[OF _ me, of ty] rdy1 unfolding bus_ready_def by blast
  obtain gs rnd where g: "gossip_loop s1 (rng s1) (int (length (c_nodes s1)) - 2) [] = Some (gs, rnd)"
  proof -
    have "returns (gossip_loop s1 (rng s1) (int (length (c_nodes s1)) - 2) []) (\<lambda>_. True)"
      by (rule returns_mono[OF gossip_section_ok[OF table_heap_live[OF rdy1]]])
        (use rdy1 in \<open>auto simp: bus_ready_def\<close>)
    then show ?thesis using that by (auto simp: returns_def)
  qed
  have l1: "links s1 link = Some k" using k but_bus_fields(6)[OF fr] by simp
  obtain s' where run: "clusterSendPing link ty s = Some s'" and rng': "rng s' = rnd"
    using k s1 hdr g l1 by (simp add: clusterSendPing_def deref_def clusterSendMessage_def Let_def)
  have fr': "but_bus s' = but_bus s" by (rule clusterSendPing_bus[OF run])
  obtain j where "rnd = (\<lambda>i. rng s1 (i + j))" using gossip_loop_shift[OF g] by auto
  then have "fair s (rng s')" using rdy fair_shift_n[of s "rng s" j] by (simp add: rng rng' bus_ready_def)
  then show ?thesis using run fr' bus_ready_frame[OF fr' rdy] by (simp add: wp)
qed

lemma clusterBroadcastPong_returns:
  assumes rdy: "bus_ready s"
  shows "returns (clusterBroadcastPong tg s) (\<lambda>s'. but_bus s' = but_bus s \<and> bus_ready s')"
  unfolding clusterBroadcastPong_def
proof (rule returns_foldM, goal_cases)
  case 1
  then show ?case using rdy by simp
next
  case (2 e s1)
  then have fr: "but_bus s1 = but_bus s" and rdy1: "bus_ready s1" by auto
  obtain k p where e: "e = (k, p)" by (cases e)
  have "(k, p) \<in> set (c_nodes s1)" using 2(1) but_bus_fields(4)[OF fr] by (simp add: e)
  then obtain n where n: "heap s1 p = Some n" "n_link n \<noteq> NULL \<longrightarrow> links s1 (n_link n) \<noteq> None"
    using rdy1 by (auto simp: bus_ready_def table_live_def)
  obtain me where me: "heap s1 (myself s1) = Some me" using rdy1 by (auto simp: bus_ready_def me_live_def)
  show ?case
  proof (cases "n_link n = 0")
    case True
    then show ?thesis using n me fr rdy1 by (simp add: e wp deref_def)
  next
    case False
    have "returns (clusterSendPing (n_link n) CLUSTERMSG_TYPE_PONG s1) (\<lambda>s'. but_bus s' = but_bus s \<and> bus_ready s')"
      by (rule returns_mono[OF clusterSendPing_returns[OF rdy1]]) (use False n fr in auto)
    then show ?thesis using n me fr rdy1 by (simp add: e wp deref_def)
  qed
qed

subsection \<open>The voter\<close>

text \<open>When a request for a vote is granted.\<close>

definition auth_slots_ok :: "clusterMsg \<Rightarrow> server \<Rightarrow> bool" where
  "auth_slots_ok request s \<longleftrightarrow> (\<forall>j<REDIS_CLUSTER_SLOTS. bitmapTestBit (m_myslots request) j \<longrightarrow> c_slots s j \<noteq> NULL \<longrightarrow>
     (\<exists>ow. heap s (c_slots s j) = Some ow \<and> n_configEpoch ow \<le> m_configEpoch request))"

definition vote_granted :: "ptr \<Rightarrow> clusterMsg \<Rightarrow> server \<Rightarrow> bool" where
  "vote_granted node request s \<longleftrightarrow> (\<exists>nd me m. heap s node = Some nd \<and> heap s (myself s) = Some me \<and>
     heap s (n_slaveof nd) = Some m \<and>
     \<not> nodeIsSlave me \<and> n_numslots me \<noteq> 0 \<and>
     c_currentEpoch s \<le> m_currentEpoch request \<and> c_lastVoteEpoch s \<noteq> c_currentEpoch s \<and>
     \<not> nodeIsMaster nd \<and> n_slaveof nd \<noteq> NULL \<and>
     (nodeFailed m \<or> m_mflags0 request AND CLUSTERMSG_FLAG0_FORCEACK \<noteq> 0) \<and>
     cluster_node_timeout s * 2 \<le> mstime s - n_voted_time m \<and> auth_slots_ok request s)"

lemma auth_slots_scan_spec:
  assumes "auth_slots_scan js sl e s = Some b"
  shows "b \<longleftrightarrow> (\<forall>j \<in> set js. bitmapTestBit sl j \<longrightarrow> c_slots s j \<noteq> NULL \<longrightarrow>
     (\<exists>ow. heap s (c_slots s j) = Some ow \<and> n_configEpoch ow \<le> e))"
  using assms by (induction js) (auto simp: opt_bind deref_def split: if_splits)

lemma auth_slots_scan_total:
  assumes "\<forall>j \<in> set js. c_slots s j \<noteq> NULL \<longrightarrow> heap s (c_slots s j) \<noteq> None"
  shows "\<exists>b. auth_slots_scan js sl e s = Some b"
  using assms by (induction js) (fastforce simp: deref_def)+

text \<open>A vote that returns either was not granted and changed nothing, or was granted: then the acknowledgement is sent and
  the vote recorded.\<close>

lemma vote_cases:
  assumes run: "clusterSendFailoverAuthIfNeeded node request s = Some s'"
  shows "(if vote_granted node request s
     then \<exists>s1 nd. clusterSendFailoverAuth node s = Some s1 \<and> heap s1 node = Some nd \<and>
        node_upd (n_slaveof nd) (\<lambda>m. m\<lparr>n_voted_time := mstime s1\<rparr>) (s1\<lparr>c_lastVoteEpoch := c_currentEpoch s1\<rparr>) = Some s'
     else s' = s)"
proof -
  obtain nd me where nd: "heap s node = Some nd" and me: "heap s (myself s) = Some me"
    using run by (auto simp: clusterSendFailoverAuthIfNeeded_def opt_bind deref_def)
  show ?thesis
  proof (cases "nodeIsSlave me \<or> n_numslots me = 0 \<or> m_currentEpoch request < c_currentEpoch s \<or> c_lastVoteEpoch s = c_currentEpoch s")
    case True
    then have "\<not> vote_granted node request s" using nd me by (auto simp: vote_granted_def)
    moreover have "s' = s" using True run nd me
      by (auto simp: clusterSendFailoverAuthIfNeeded_def deref_def split: if_splits)
    ultimately show ?thesis by simp
  next
    case False
    then obtain down where down: "auth_master_down nd request s = Some down"
      using run nd me by (auto simp: clusterSendFailoverAuthIfNeeded_def opt_bind deref_def)
    show ?thesis
    proof (cases down)
      case False
      then have "\<not> vote_granted node request s" using down nd
        by (auto simp: vote_granted_def auth_master_down_def opt_bind deref_def split: if_splits)
      moreover have "s' = s" using \<open>\<not> (nodeIsSlave me \<or> n_numslots me = 0 \<or> _ \<or> _)\<close> False run nd me down
        by (auto simp: clusterSendFailoverAuthIfNeeded_def deref_def split: if_splits)
      ultimately show ?thesis by simp
    next
      case True
      then obtain m where m: "heap s (n_slaveof nd) = Some m" "\<not> nodeIsMaster nd" "n_slaveof nd \<noteq> NULL"
        "nodeFailed m \<or> m_mflags0 request AND CLUSTERMSG_FLAG0_FORCEACK \<noteq> 0"
        using down by (auto simp: auth_master_down_def opt_bind deref_def split: if_splits)
      show ?thesis
      proof (cases "mstime s - n_voted_time m < cluster_node_timeout s * 2")
        case True
        then have "\<not> vote_granted node request s" using nd m by (auto simp: vote_granted_def)
        moreover have "s' = s"
          using \<open>\<not> (nodeIsSlave me \<or> _)\<close> \<open>down\<close> True run nd me down m
          by (auto simp: clusterSendFailoverAuthIfNeeded_def deref_def split: if_splits)
        ultimately show ?thesis by simp
      next
        case late: False
        then obtain ok where ok: "auth_slots_scan [0..<REDIS_CLUSTER_SLOTS] (m_myslots request) (m_configEpoch request) s = Some ok"
          using \<open>\<not> (nodeIsSlave me \<or> _)\<close> \<open>down\<close> run nd me down m
          by (auto simp: clusterSendFailoverAuthIfNeeded_def opt_bind deref_def split: if_splits)
        have okv: "ok \<longleftrightarrow> auth_slots_ok request s"
          using auth_slots_scan_spec[OF ok] by (auto simp: auth_slots_ok_def)
        have gr: "vote_granted node request s \<longleftrightarrow> ok"
          using \<open>\<not> (nodeIsSlave me \<or> _)\<close> late nd me m okv by (auto simp: vote_granted_def not_less)
        show ?thesis
          using \<open>\<not> (nodeIsSlave me \<or> _)\<close> \<open>down\<close> late run nd me down m ok gr
          by (auto simp: clusterSendFailoverAuthIfNeeded_def opt_bind deref_def split: if_splits)
      qed
    qed
  qed
qed

lemma clusterSendFailoverAuth_keep:
  assumes "clusterSendFailoverAuth node s = Some s1"
  shows "but_bus s1 = but_bus s" "heap s1 = heap s" "effects s1 = effects s" "c_todo_before_sleep s1 = c_todo_before_sleep s"
  using assms by (auto simp: clusterSendFailoverAuth_def opt_bind clusterSendMessage_def split: if_splits
      dest!: clusterSendMessage_bus)
    (auto simp: but_bus_def)

lemma vote_fields:
  assumes run: "clusterSendFailoverAuthIfNeeded node request s = Some s'"
  shows "c_currentEpoch s' = c_currentEpoch s" "c_myself s' = c_myself s" "mstime s' = mstime s"
    "vote_granted node request s \<Longrightarrow> c_lastVoteEpoch s \<noteq> c_currentEpoch s \<and> c_lastVoteEpoch s' = c_currentEpoch s"
    "\<not> vote_granted node request s \<Longrightarrow> s' = s"
    "effects s' = effects s" "c_todo_before_sleep s' = c_todo_before_sleep s"
proof -
  have "c_currentEpoch s' = c_currentEpoch s \<and> c_myself s' = c_myself s \<and> mstime s' = mstime s \<and>
    (vote_granted node request s \<longrightarrow> c_lastVoteEpoch s' = c_currentEpoch s) \<and>
    (\<not> vote_granted node request s \<longrightarrow> s' = s) \<and>
    effects s' = effects s \<and> c_todo_before_sleep s' = c_todo_before_sleep s"
  proof (cases "vote_granted node request s")
    case True
    then obtain s1 and nd :: clusterNode where s1: "clusterSendFailoverAuth node s = Some s1"
      and u: "node_upd (n_slaveof nd) (\<lambda>m. m\<lparr>n_voted_time := mstime s1\<rparr>) (s1\<lparr>c_lastVoteEpoch := c_currentEpoch s1\<rparr>) = Some s'"
      using vote_cases[OF run] True by auto
    note k = clusterSendFailoverAuth_keep[OF s1]
    show ?thesis using True u but_bus_fields[OF k(1)] k(3,4) by (auto simp: node_upd_def split: option.splits)
  next
    case False
    then show ?thesis using vote_cases[OF run] by simp
  qed
  then show "c_currentEpoch s' = c_currentEpoch s" "c_myself s' = c_myself s" "mstime s' = mstime s"
    "vote_granted node request s \<Longrightarrow> c_lastVoteEpoch s \<noteq> c_currentEpoch s \<and> c_lastVoteEpoch s' = c_currentEpoch s"
    "\<not> vote_granted node request s \<Longrightarrow> s' = s"
    "effects s' = effects s" "c_todo_before_sleep s' = c_todo_before_sleep s"
    by (auto simp: vote_granted_def)
qed

lemma vote_total:
  assumes inv: "slots_inv s" and me: "me_live s" and nd: "heap s node = Some nd"
    and cl: "n_slaveof nd \<noteq> NULL \<longrightarrow> heap s (n_slaveof nd) \<noteq> None" "n_link nd \<noteq> NULL \<longrightarrow> links s (n_link nd) \<noteq> None"
  shows "\<exists>s'. clusterSendFailoverAuthIfNeeded node request s = Some s'"
proof -
  obtain men where men: "heap s (myself s) = Some men" using me by (auto simp: me_live_def)
  obtain down where down: "auth_master_down nd request s = Some down"
    and dl: "down \<Longrightarrow> heap s (n_slaveof nd) \<noteq> None"
    using cl(1) by (cases "nodeIsMaster nd \<or> n_slaveof nd = NULL") (auto simp: auth_master_down_def deref_def Let_def)
  have "\<forall>j \<in> set [0..<REDIS_CLUSTER_SLOTS]. c_slots s j \<noteq> NULL \<longrightarrow> heap s (c_slots s j) \<noteq> None"
    using slots_agree_alloc[OF inv[unfolded slots_inv_def]] by simp
  from auth_slots_scan_total[OF this]
  obtain ok where ok: "auth_slots_scan [0..<REDIS_CLUSTER_SLOTS] (m_myslots request) (m_configEpoch request) s = Some ok" by blast
  obtain hdr where hdr: "clusterBuildMessageHdr CLUSTERMSG_TYPE_FAILOVER_AUTH_ACK s = Some hdr"
    using clusterBuildMessageHdr_total[OF me men] by blast
  obtain s1 where s1: "clusterSendFailoverAuth node s = Some s1"
    using nd cl(2) hdr by (cases "n_link nd = 0") (auto simp: clusterSendFailoverAuth_def deref_def clusterSendMessage_def)
  have h1: "heap s1 = heap s" by (rule clusterSendFailoverAuth_keep(2)[OF s1])
  show ?thesis
  proof (cases down)
    case False
    then show ?thesis using nd men down by (simp add: clusterSendFailoverAuthIfNeeded_def deref_def)
  next
    case True
    then obtain m where m: "heap s (n_slaveof nd) = Some m" using dl by auto
    then show ?thesis using nd men down ok s1 h1
      by (simp add: clusterSendFailoverAuthIfNeeded_def deref_def node_upd_def Let_def)
  qed
qed

lemma vote_outcome:
  assumes inv: "slots_inv s" and me: "me_live s" and nd: "heap s node = Some nd"
    and cl: "n_slaveof nd \<noteq> NULL \<longrightarrow> heap s (n_slaveof nd) \<noteq> None" "n_link nd \<noteq> NULL \<longrightarrow> links s (n_link nd) \<noteq> None"
  shows "returns (clusterSendFailoverAuthIfNeeded node request s) (\<lambda>s'.
     if vote_granted node request s
     then c_lastVoteEpoch s' = c_currentEpoch s \<and> c_currentEpoch s' = c_currentEpoch s \<and>
       (\<exists>m'. heap s' (n_slaveof nd) = Some m' \<and> n_voted_time m' = mstime s) \<and>
       (if n_link nd = NULL then outbox s' = outbox s
        else \<exists>msg. outbox s' = outbox s @ [(n_link nd, msg)] \<and> m_type msg = CLUSTERMSG_TYPE_FAILOVER_AUTH_ACK \<and>
               m_currentEpoch msg = c_currentEpoch s)
     else s' = s)"
proof -
  obtain s' where run: "clusterSendFailoverAuthIfNeeded node request s = Some s'" using vote_total[OF assms] by blast
  show ?thesis
  proof (cases "vote_granted node request s")
    case True
    then obtain s1 n1 where s1: "clusterSendFailoverAuth node s = Some s1" and n1: "heap s1 node = Some n1"
      and u: "node_upd (n_slaveof n1) (\<lambda>m. m\<lparr>n_voted_time := mstime s1\<rparr>) (s1\<lparr>c_lastVoteEpoch := c_currentEpoch s1\<rparr>) = Some s'"
      using vote_cases[OF run] by auto
    note k = clusterSendFailoverAuth_keep[OF s1]
    have nn: "n1 = nd" using n1 k(2) nd by simp
    obtain men where men: "heap s (myself s) = Some men" using me by (auto simp: me_live_def)
    obtain hdr where hdr: "clusterBuildMessageHdr CLUSTERMSG_TYPE_FAILOVER_AUTH_ACK s = Some hdr"
      "m_type hdr = CLUSTERMSG_TYPE_FAILOVER_AUTH_ACK" "m_currentEpoch hdr = c_currentEpoch s"
      using clusterBuildMessageHdr_total[OF me men, of CLUSTERMSG_TYPE_FAILOVER_AUTH_ACK] by blast
    have ob: "if n_link nd = NULL then outbox s1 = outbox s
        else \<exists>msg. outbox s1 = outbox s @ [(n_link nd, msg)] \<and> m_type msg = CLUSTERMSG_TYPE_FAILOVER_AUTH_ACK \<and>
               m_currentEpoch msg = c_currentEpoch s"
      using s1 nd hdr by (auto simp: clusterSendFailoverAuth_def deref_def clusterSendMessage_def opt_bind)
    have "outbox s' = outbox s1" "\<exists>m'. heap s' (n_slaveof nd) = Some m' \<and> n_voted_time m' = mstime s"
      using u nn but_bus_fields(7)[OF k(1)] by (auto simp: node_upd_def split: option.splits)
    then show ?thesis using True ob vote_fields(1,4)[OF run] by (simp add: run wp)
  next
    case False
    then show ?thesis using vote_fields(5)[OF run] by (simp add: run wp)
  qed
qed

text \<open>Property C1. A vote. On a coherent state, a request of a live node never aborts. It is granted exactly when this
  server is a master with slots, the request's epoch is current, it has not voted in this epoch, the requester is a replica
  of a known master that is FAIL (or the request forces it), it has not voted for a replica of that master for
  twice the node timeout, and no slot claimed is served with a greater configuration epoch. A granted vote
  is recorded with the current epoch and the time, and sends one acknowledgement carrying that epoch over
  the requester's link, if it has one; a denied vote changes nothing at all.\<close>

theorem vote_correct:
  assumes inv: "slots_inv s" and me: "me_live s" and nd: "heap s node = Some nd"
    and cl: "n_slaveof nd \<noteq> NULL \<longrightarrow> heap s (n_slaveof nd) \<noteq> None" "n_link nd \<noteq> NULL \<longrightarrow> links s (n_link nd) \<noteq> None"
  shows "returns (clusterSendFailoverAuthIfNeeded node request s) (\<lambda>s'.
     if vote_granted node request s
     then c_lastVoteEpoch s' = c_currentEpoch s \<and> c_currentEpoch s' = c_currentEpoch s \<and>
       (\<exists>m'. heap s' (n_slaveof nd) = Some m' \<and> n_voted_time m' = mstime s) \<and>
       (if n_link nd = NULL then outbox s' = outbox s
        else \<exists>msg. outbox s' = outbox s @ [(n_link nd, msg)] \<and> m_type msg = CLUSTERMSG_TYPE_FAILOVER_AUTH_ACK \<and>
               m_currentEpoch msg = c_currentEpoch s)
     else s' = s)"
  by (rule vote_outcome[OF assms])

text \<open>A master (address 1) that serves slot 0, a master marked FAIL (address 2) and the replica of the latter
  (address 3), which runs for master.\<close>

definition electors :: server where
  "electors = zero_server
     \<lparr>heap := [1 \<mapsto> newClusterNode (replicate 40 0x61) (REDIS_NODE_MYSELF OR REDIS_NODE_MASTER) 0,
               2 \<mapsto> (newClusterNode (replicate 40 0x62) (REDIS_NODE_MASTER OR REDIS_NODE_FAIL) 0)\<lparr>n_slaves := [3]\<rparr>,
               3 \<mapsto> (newClusterNode (replicate 40 0x63) REDIS_NODE_SLAVE 0)\<lparr>n_slaveof := 2\<rparr>],
      c_nodes := [(replicate 40 0x61, 1), (replicate 40 0x62, 2), (replicate 40 0x63, 3)],
      c_myself := 1, c_size := 2, brk := 4, mstime := 100000, c_currentEpoch := 7\<rparr>"

definition voter :: server where
  "voter = electors\<lparr>c_slots := (c_slots electors)(0 := 1),
     heap := (heap electors)(1 \<mapsto> snd (clusterNodeSetSlotBit
       (newClusterNode (replicate 40 0x61) (REDIS_NODE_MYSELF OR REDIS_NODE_MASTER) 0) 0))\<rparr>"

definition vote_request :: clusterMsg where
  "vote_request = \<lparr>m_totlen = 2208, m_ver = 0, m_type = CLUSTERMSG_TYPE_FAILOVER_AUTH_REQUEST, m_count = 0,
     m_currentEpoch = 7, m_configEpoch = 1, m_offset = 0, m_sender = replicate 40 0x63, m_myslots = zero_bitmap,
     m_slaveof = replicate 40 0x62, m_port = 7000, m_flags = 2, m_state = CLUSTER_FAIL, m_mflags0 = 0, m_data = NoData\<rparr>"

lemma electors_slots_inv: "slots_inv electors"
  by (simp add: electors_def zero_server_def slots_inv_def slots_agree_def node_agrees_def newClusterNode_def node_slot_count_def)

lemma voter_slots_inv: "slots_inv voter"
proof -
  have "0 < REDIS_CLUSTER_SLOTS" by (simp add: REDIS_CLUSTER_SLOTS_def)
  then show ?thesis
    using slots_agree_add[of "c_slots electors" "heap electors" 1
        "newClusterNode (replicate 40 0x61) (REDIS_NODE_MYSELF OR REDIS_NODE_MASTER) 0" 0] electors_slots_inv
    by (simp add: slots_inv_def voter_def) (simp add: electors_def zero_server_def)
qed

lemma voter_grants: "vote_granted 3 vote_request voter"
proof -
  have "auth_slots_ok vote_request voter" by (simp add: auth_slots_ok_def vote_request_def)
  then show ?thesis
    by (simp add: vote_granted_def vote_request_def voter_def electors_def zero_server_def newClusterNode_def
        clusterNodeSetSlotBit_def nodeIsSlave_def nodeIsMaster_def nodeFailed_def)
qed

lemma voter_live:
  "me_live voter" "heap voter 3 = Some ((newClusterNode (replicate 40 0x63) REDIS_NODE_SLAVE 0)\<lparr>n_slaveof := 2\<rparr>)"
  "heap voter 2 \<noteq> None" "c_currentEpoch voter = 7"
  by (simp_all add: me_live_def voter_def electors_def zero_server_def newClusterNode_def clusterNodeSetSlotBit_def)

theorem vote_correct_witness:
  "returns (clusterSendFailoverAuthIfNeeded 3 vote_request voter) (\<lambda>s'. c_lastVoteEpoch s' = 7)"
proof -
  let ?nd = "(newClusterNode (replicate 40 0x63) REDIS_NODE_SLAVE 0)\<lparr>n_slaveof := 2\<rparr>"
  have cl: "n_slaveof ?nd \<noteq> NULL \<longrightarrow> heap voter (n_slaveof ?nd) \<noteq> None"
      "n_link ?nd \<noteq> NULL \<longrightarrow> links voter (n_link ?nd) \<noteq> None"
    using voter_live by (simp_all add: newClusterNode_def)
  show ?thesis
    by (rule returns_mono[OF vote_correct[OF voter_slots_inv voter_live(1,2) cl, of vote_request]])
      (use voter_grants voter_live in auto)
qed

text \<open>Property C30. A granted vote is not made durable: \<open>clusterSendFailoverAuthIfNeeded\<close> acknowledges the vote
  and advances \<open>lastVoteEpoch\<close> in memory, but it neither saves the configuration file nor schedules saving it
  before the event loop sleeps. A voter that restarts before something else saves its
  configuration has forgotten the vote and can vote again in the same epoch.\<close>

theorem vote_not_saved:
  assumes "clusterSendFailoverAuthIfNeeded node request s = Some s'" and "vote_granted node request s"
  shows "c_lastVoteEpoch s' \<noteq> c_lastVoteEpoch s \<and> effects s' = effects s \<and>
     c_todo_before_sleep s' = c_todo_before_sleep s"
  using vote_fields[OF assms(1)] assms(2) by auto

theorem vote_not_saved_witness:
  "\<exists>s'. clusterSendFailoverAuthIfNeeded 3 vote_request voter = Some s' \<and> c_lastVoteEpoch s' \<noteq> c_lastVoteEpoch voter \<and>
     effects s' = effects voter \<and> c_todo_before_sleep s' = c_todo_before_sleep voter"
proof -
  have cl: "n_slaveof ((newClusterNode (replicate 40 0x63) REDIS_NODE_SLAVE 0)\<lparr>n_slaveof := 2\<rparr>) \<noteq> NULL \<longrightarrow>
      heap voter (n_slaveof ((newClusterNode (replicate 40 0x63) REDIS_NODE_SLAVE 0)\<lparr>n_slaveof := 2\<rparr>)) \<noteq> None"
    "n_link ((newClusterNode (replicate 40 0x63) REDIS_NODE_SLAVE 0)\<lparr>n_slaveof := 2\<rparr>) \<noteq> NULL \<longrightarrow>
      links voter (n_link ((newClusterNode (replicate 40 0x63) REDIS_NODE_SLAVE 0)\<lparr>n_slaveof := 2\<rparr>)) \<noteq> None"
    using voter_live by (simp_all add: newClusterNode_def)
  obtain s' where "clusterSendFailoverAuthIfNeeded 3 vote_request voter = Some s'"
    using vote_total[OF voter_slots_inv voter_live(1,2) cl] by blast
  then show ?thesis using vote_not_saved[OF _ voter_grants] by blast
qed

subsection \<open>Progress: the invariant is kept and epochs only grow\<close>

definition progress :: "server \<Rightarrow> server \<Rightarrow> bool" where
  "progress s s' \<longleftrightarrow> (inv s \<longrightarrow> inv s') \<and> c_lastVoteEpoch s' = c_lastVoteEpoch s \<and>
     c_currentEpoch s \<le> c_currentEpoch s' \<and> c_myself s' = c_myself s \<and> mstime s' = mstime s"

lemma quiet_progress: "quiet s s' \<Longrightarrow> progress s s'"
  using quiet_ids[of s s'] by (simp add: quiet_def progress_def)

lemma progress_refl [simp]: "progress s s"
  by (simp add: progress_def)

lemma progress_trans: "progress s s1 \<Longrightarrow> progress s1 s2 \<Longrightarrow> progress s s2"
  by (auto simp: progress_def)

lemma view_progress: "inv_view s' = inv_view s \<Longrightarrow> progress s s'"
  by (rule quiet_progress[OF quiet_view])

lemma inv_upd_epoch:
  "inv s \<Longrightarrow> c_currentEpoch s \<le> e \<Longrightarrow> inv (s\<lparr>c_currentEpoch := e\<rparr>)"
  by (auto simp: inv_def slots_inv_def nodes_inv_def alloc_inv_def)

lemma progress_upd_epoch: "c_currentEpoch s \<le> e \<Longrightarrow> progress s (s\<lparr>c_currentEpoch := e\<rparr>)"
  by (simp add: progress_def inv_upd_epoch)

lemma inv_view_more [simp]:
  "inv_view (s\<lparr>lastlog_time := t\<rparr>) = inv_view s"
  "inv_view (clusterHandleManualFailover s) = inv_view s"
  "inv_view (manualFailoverCheckTimeout s) = inv_view s"
  by (simp_all add: clusterHandleManualFailover_def manualFailoverCheckTimeout_def)
    (simp add: inv_view_def ids_def)

lemma clusterLogCantFailover_eq:
  assumes "clusterLogCantFailover r s = Some s'"
  shows "s' = s \<or> s' = s\<lparr>c_cant_failover_reason := r\<rparr> \<or>
     s' = s\<lparr>c_cant_failover_reason := r, lastlog_time := time_now s\<rparr>"
proof (cases "r = c_cant_failover_reason s \<and> time_now s - lastlog_time s < 60 * 5")
  case True
  then show ?thesis using assms by (simp add: clusterLogCantFailover_def)
next
  case False
  then obtain q where "s' = (if q then s\<lparr>c_cant_failover_reason := r\<rparr>
      else s\<lparr>c_cant_failover_reason := r, lastlog_time := time_now (s\<lparr>c_cant_failover_reason := r\<rparr>)\<rparr>)"
    using assms unfolding clusterLogCantFailover_def Let_def if_not_P[OF False] opt_bind by blast
  then show ?thesis by (cases q) (simp_all add: time_now_def)
qed

lemma clusterLogCantFailover_keeps [keeps]:
  "clusterLogCantFailover r s = Some s' \<Longrightarrow> inv_view s' = inv_view s"
  by (drule clusterLogCantFailover_eq) auto

lemma failover_schedule_keeps [keeps]:
  "failover_schedule s = Some s' \<Longrightarrow> inv_view s' = inv_view s"
  by (auto simp: failover_schedule_def opt_bind Let_def split: if_splits dest!: sends_keep)

lemma failover_update_rank_keeps [keeps]:
  "failover_update_rank s = Some s' \<Longrightarrow> inv_view s' = inv_view s"
  by (auto simp: failover_update_rank_def opt_bind split: if_splits)

lemma clusterHandleSlaveMigration_keeps [keeps]:
  "clusterHandleSlaveMigration k s = Some s' \<Longrightarrow> inv_view s' = inv_view s"
  by (auto simp: clusterHandleSlaveMigration_def opt_bind Let_def split: if_splits prod.splits dest!: clusterSetMaster_keeps)

lemma failover_request_votes_progress:
  assumes "failover_request_votes s = Some s'" and "c_currentEpoch s \<noteq> - 1"
  shows "progress s s'"
proof -
  let ?s2 = "s\<lparr>c_currentEpoch := c_currentEpoch s + 1, c_failover_auth_epoch := c_currentEpoch s + 1\<rparr>"
  obtain s3 where s3: "clusterRequestFailoverAuth ?s2 = Some s3"
    and s': "s' = clusterDoBeforeSleep (CLUSTER_TODO_SAVE_CONFIG OR CLUSTER_TODO_UPDATE_STATE OR CLUSTER_TODO_FSYNC_CONFIG)
       (s3\<lparr>c_failover_auth_sent := True\<rparr>)"
    using assms(1) by (auto simp: failover_request_votes_def opt_bind)
  have "progress s (s\<lparr>c_currentEpoch := c_currentEpoch s + 1\<rparr>)"
    using word_less_Suc[OF order_refl assms(2)] by (intro progress_upd_epoch) simp
  moreover have "inv_view s' = inv_view (s\<lparr>c_currentEpoch := c_currentEpoch s + 1\<rparr>)"
    using sends_keep(8)[OF s3] by (simp add: s')
  ultimately show ?thesis using view_progress progress_trans by blast
qed

lemma failover_take_slot_quiet:
  assumes "failover_take_slot om j s = Some s'" and "j < REDIS_CLUSTER_SLOTS" and "slots_inv s"
  shows "quiet s s' \<and> slots_inv s'"
proof -
  obtain n where n: "heap s om = Some n" using assms(1) by (auto simp: failover_take_slot_def opt_bind deref_def)
  show ?thesis
  proof (cases "clusterNodeGetSlotBit n j")
    case False
    then show ?thesis using assms n by (auto simp: failover_take_slot_def deref_def)
  next
    case True
    then obtain r1 s1 r2 where d: "clusterDelSlot j s = Some (r1, s1)" and a: "clusterAddSlot (myself s1) j s1 = Some (r2, s')"
      using assms(1) n by (auto simp: failover_take_slot_def opt_bind deref_def)
    show ?thesis by (rule slot_move_quiet[OF d a assms(2,3)])
  qed
qed

lemma failover_take_slots_quiet:
  assumes run: "foldM (failover_take_slot om) [0..<REDIS_CLUSTER_SLOTS] s = Some s'" and inv: "slots_inv s"
  shows "quiet s s' \<and> slots_inv s'"
  by (rule slot_move_quiet_foldM[where g = "\<lambda>s. s", OF failover_take_slot_quiet run inv])

lemma node_view_epoch [simp]: "node_view (n\<lparr>n_configEpoch := e\<rparr>) = node_view n"
  by (simp add: node_view_def)

lemma failover_become_master_parts:
  assumes run: "failover_become_master s = Some s'"
  obtains me s1 s3 s4 s5 s6 where "heap s (myself s) = Some me"
    "clusterSetNodeAsMaster (myself s) s = Some s1"
    "foldM (failover_take_slot (n_slaveof me)) [0..<REDIS_CLUSTER_SLOTS] (replicationUnsetMaster s1) = Some s3"
    "node_upd (myself s3) (\<lambda>me. me\<lparr>n_configEpoch := c_failover_auth_epoch s3\<rparr>) s3 = Some s4"
    "clusterUpdateState s4 = Some s5"
    "clusterBroadcastPong CLUSTER_BROADCAST_ALL (clusterSaveConfigOrDie True s5) = Some s6"
    "s' = resetManualFailover s6"
  using run by (auto simp: failover_become_master_def opt_bind deref_def)

lemma failover_become_master_quiet:
  assumes run: "failover_become_master s = Some s'" and inv: "slots_inv s"
  shows "quiet s s'"
proof -
  obtain me s1 s3 s4 s5 s6 where me: "heap s (myself s) = Some me"
    and s1: "clusterSetNodeAsMaster (myself s) s = Some s1"
    and s3: "foldM (failover_take_slot (n_slaveof me)) [0..<REDIS_CLUSTER_SLOTS] (replicationUnsetMaster s1) = Some s3"
    and s4: "node_upd (myself s3) (\<lambda>me. me\<lparr>n_configEpoch := c_failover_auth_epoch s3\<rparr>) s3 = Some s4"
    and s5: "clusterUpdateState s4 = Some s5"
    and s6: "clusterBroadcastPong CLUSTER_BROADCAST_ALL (clusterSaveConfigOrDie True s5) = Some s6"
    and s': "s' = resetManualFailover s6"
    by (rule failover_become_master_parts[OF run])
  have v2: "inv_view (replicationUnsetMaster s1) = inv_view s"
    using clusterSetNodeAsMaster_keeps[OF s1] by simp
  have i2: "slots_inv (replicationUnsetMaster s1)" using slots_view_inv[OF inv_view_slots[OF v2] inv] .
  have v6: "inv_view s' = inv_view s3"
    using sends_keep(4)[OF s6] clusterUpdateState_keeps[OF s5] inv_view_node_upd[OF s4] by (simp add: s')
  show ?thesis
    using quiet_view[OF v2] failover_take_slots_quiet[OF s3 i2] quiet_view[OF v6] quiet_trans by blast
qed

end
