(* ===== verification/ClusterHandshake.thy ===== *)
theory ClusterHandshake
  imports ClusterElection
begin

text \<open>
  Nodes in handshake own no slots. \<open>clusterProcessPacket\<close> and \<open>clusterCron\<close> free a node in handshake
  with \<open>freeClusterNode\<close>, which does not release its slots: that is right only as long as every assigned slot
  belongs to a live node that is not in handshake (\<open>owners_known\<close>). Operations that do not change the owners of
  slots nor put a node in handshake keep the view \<open>hs_view\<close>, which also holds the acknowledgements sent; those facts are collected in \<open>tidily\<close>.
\<close>

definition owners_known :: "server \<Rightarrow> bool" where
  "owners_known s \<longleftrightarrow> (\<forall>j<REDIS_CLUSTER_SLOTS. c_slots s j \<noteq> NULL \<longrightarrow>
     (\<exists>n. heap s (c_slots s j) = Some n \<and> \<not> nodeInHandshake n))"

lemma owners_knownD:
  "owners_known s \<Longrightarrow> j < REDIS_CLUSTER_SLOTS \<Longrightarrow> c_slots s j \<noteq> NULL \<Longrightarrow>
     \<exists>n. heap s (c_slots s j) = Some n \<and> \<not> nodeInHandshake n"
  by (simp add: owners_known_def)

definition tidy :: "server \<Rightarrow> server \<Rightarrow> bool" where
  "tidy s s' \<longleftrightarrow> (owners_known s \<longrightarrow> owners_known s')"

text \<open>The acknowledgements of votes sent so far.\<close>

definition acks :: "server \<Rightarrow> clusterMsg list" where
  "acks s = filter (\<lambda>m. m_type m = CLUSTERMSG_TYPE_FAILOVER_AUTH_ACK) (map snd (outbox s))"

definition hs_view where
  "hs_view s = (c_slots s, \<lambda>p. map_option nodeInHandshake (heap s p), acks s)"

named_theorems tidily \<comment> \<open>operations that change neither the owners of slots nor who is in handshake, and acknowledge no vote\<close>

lemma tidy_refl [simp]: "tidy s s"
  by (simp add: tidy_def)

lemma tidy_trans: "tidy s s1 \<Longrightarrow> tidy s1 s2 \<Longrightarrow> tidy s s2"
  by (simp add: tidy_def)

lemma hs_viewD:
  assumes "hs_view s' = hs_view s"
  shows "c_slots s' = c_slots s" "map_option nodeInHandshake (heap s' p) = map_option nodeInHandshake (heap s p)"
    "heap s' p = None \<longleftrightarrow> heap s p = None" "acks s' = acks s"
  using assms by (auto simp: hs_view_def fun_eq_iff) (metis map_option_is_None)+

lemma hs_view_node:
  assumes "hs_view s' = hs_view s" and "heap s p = Some n"
  shows "\<exists>n'. heap s' p = Some n' \<and> nodeInHandshake n' = nodeInHandshake n"
  using hs_viewD(2)[OF assms(1), of p] assms(2) by (cases "heap s' p") auto

lemma hs_view_tidy: "hs_view s' = hs_view s \<Longrightarrow> tidy s s'"
  using hs_viewD(1)[of s' s] hs_view_node[of s' s] unfolding tidy_def owners_known_def by metis

lemma whenever_tidy_foldM:
  assumes "\<And>x s. x \<in> set xs \<Longrightarrow> whenever (f x s) (tidy s)"
  shows "whenever (foldM f xs s) (tidy s)"
proof (rule whenever_foldM)
  fix x s1 assume "x \<in> set xs" "tidy s s1"
  then show "whenever (f x s1) (tidy s)"
    using assms[of x s1] by (auto intro: tidy_trans elim: whenever_mono)
qed simp

lemma owner_in_handshake:
  assumes "owners_known s" and "slots_inv s" and "heap s p = Some n" and "nodeInHandshake n"
  shows "n_numslots n = 0"
proof -
  have "p \<noteq> NULL" using assms(2,3) slots_agree_null[of "c_slots s" "heap s"]
    by (cases "p = NULL") (simp_all add: slots_inv_def)
  then have "c_slots s k \<noteq> p" if "k < REDIS_CLUSTER_SLOTS" for k
    using owners_knownD[OF assms(1) that] assms(3,4) by auto
  then show ?thesis using slots_agree_numslots_zero[OF assms(2)[unfolded slots_inv_def] assms(3)] by simp
qed

subsection \<open>Operations that keep the view\<close>

lemma hs_view_simps [simp]:
  "hs_view (s\<lparr>c_nodes := nds\<rparr>) = hs_view s"
  "hs_view (s\<lparr>c_nodes_black_list := b\<rparr>) = hs_view s"
  "hs_view (s\<lparr>links := l\<rparr>) = hs_view s"
  "hs_view (s\<lparr>rng := r\<rparr>) = hs_view s"
  "hs_view (s\<lparr>c_currentEpoch := e\<rparr>) = hs_view s"
  "hs_view (s\<lparr>c_lastVoteEpoch := e\<rparr>) = hs_view s"
  "hs_view (s\<lparr>c_state := st\<rparr>) = hs_view s"
  "hs_view (s\<lparr>c_todo_before_sleep := td\<rparr>) = hs_view s"
  "hs_view (s\<lparr>c_mf_end := t\<rparr>) = hs_view s"
  "hs_view (s\<lparr>c_mf_slave := p\<rparr>) = hs_view s"
  "hs_view (s\<lparr>c_mf_master_offset := t\<rparr>) = hs_view s"
  "hs_view (s\<lparr>c_failover_auth_count := t\<rparr>) = hs_view s"
  "hs_view (s\<lparr>c_failover_auth_sent := b0\<rparr>) = hs_view s"
  "hs_view (s\<lparr>c_failover_auth_epoch := e\<rparr>) = hs_view s"
  "hs_view (s\<lparr>c_cant_failover_reason := cf\<rparr>) = hs_view s"
  "hs_view (s\<lparr>lastlog_time := t\<rparr>) = hs_view s"
  "hs_view (s\<lparr>c_stats_bus_messages_received := t\<rparr>) = hs_view s"
  "hs_view (do_log ef s) = hs_view s"
  "hs_view (clusterDoBeforeSleep f s) = hs_view s"
  "hs_view (clusterCloseAllSlots s) = hs_view s"
  "hs_view (clusterBlacklistCleanup s) = hs_view s"
  "hs_view (replicationSetMaster ip port s) = hs_view s"
  "hs_view (replicationUnsetMaster s) = hs_view s"
  "hs_view (resetManualFailover s) = hs_view s"
  "hs_view (pauseClients t s) = hs_view s"
  "hs_view (clusterSaveConfigOrDie b0 s) = hs_view s"
  "hs_view (clusterHandleManualFailover s) = hs_view s"
  "hs_view (manualFailoverCheckTimeout s) = hs_view s"
  by (simp_all add: hs_view_def acks_def do_log_def clusterDoBeforeSleep_def clusterCloseAllSlots_def clusterBlacklistCleanup_def
      replicationSetMaster_def replicationUnsetMaster_def resetManualFailover_def pauseClients_def clientsArePaused_def
      clusterSaveConfigOrDie_def clusterHandleManualFailover_def manualFailoverCheckTimeout_def Let_def
      split: option.splits prod.splits)

lemma hs_view_upd:
  "heap s p = Some n \<Longrightarrow> nodeInHandshake n' = nodeInHandshake n \<Longrightarrow> hs_view (s\<lparr>heap := (heap s)(p \<mapsto> n')\<rparr>) = hs_view s"
  by (auto simp: hs_view_def acks_def fun_eq_iff)

lemma hs_view_node_upd [tidily]:
  assumes "node_upd p f s = Some s'" and "\<And>n. nodeInHandshake (f n) = nodeInHandshake n"
  shows "hs_view s' = hs_view s"
  using assms by (auto simp: node_upd_def hs_view_upd split: option.splits)

text \<open>Writes of the other flags leave the bit of the handshake alone.\<close>

lemma handshake_bit [simp]:
  "nodeInHandshake (n\<lparr>n_flags := f\<rparr>) \<longleftrightarrow> bit f 5"
  "nodeInHandshake (n\<lparr>n_configEpoch := e\<rparr>) = nodeInHandshake n"
  "nodeInHandshake (n\<lparr>n_slaves := sl\<rparr>) = nodeInHandshake n"
  "nodeInHandshake (n\<lparr>n_slaveof := p\<rparr>) = nodeInHandshake n"
  "nodeInHandshake (n\<lparr>n_fail_reports := fr\<rparr>) = nodeInHandshake n"
  "nodeInHandshake (n\<lparr>n_fail_time := t\<rparr>) = nodeInHandshake n"
  "nodeInHandshake (n\<lparr>n_voted_time := t\<rparr>) = nodeInHandshake n"
  "nodeInHandshake (n\<lparr>n_link := l\<rparr>) = nodeInHandshake n"
  "nodeInHandshake (n\<lparr>n_name := nm\<rparr>) = nodeInHandshake n"
  "nodeInHandshake (n\<lparr>n_ping_sent := t\<rparr>) = nodeInHandshake n"
  "nodeInHandshake (n\<lparr>n_pong_received := t\<rparr>) = nodeInHandshake n"
  "nodeInHandshake (n\<lparr>n_repl_offset := t\<rparr>) = nodeInHandshake n"
  "nodeInHandshake (n\<lparr>n_repl_offset_time := t\<rparr>) = nodeInHandshake n"
  "nodeInHandshake (n\<lparr>n_ip := ip\<rparr>) = nodeInHandshake n"
  "nodeInHandshake (n\<lparr>n_port := pt\<rparr>) = nodeInHandshake n"
  by (simp_all add: node_flag_bits)

lemma handshake_bit_flags: "bit (n_flags n) 5 \<longleftrightarrow> nodeInHandshake n"
  by (simp add: node_flag_bits)

lemma flags_bit5 [simp]:
  "bit ((f :: u32) AND - 5) 5 = bit f 5" "bit (f AND - 9) 5 = bit f 5" "bit (f AND - 3) 5 = bit f 5" "bit (f AND - 2) 5 = bit f 5"
  "bit (f AND - 129) 5 = bit f 5"
  "bit (f OR 8) 5 = bit f 5" "bit (f OR 1) 5 = bit f 5" "bit (f OR 2) 5 = bit f 5" "bit (f OR 4) 5 = bit f 5" "bit (f OR 64) 5 = bit f 5"
  by (simp_all add: bit_and_iff bit_or_iff)

lemma but_bus_hs_view:
  assumes "but_bus s' = but_bus s" and "acks s' = acks s"
  shows "hs_view s' = hs_view s"
proof -
  have "map_option nodeInHandshake (heap s' p) = map_option nodeInHandshake (heap s p)" for p
    using but_bus_heap[OF assms(1), of p]
    by (cases "heap s p"; cases "heap s' p") (auto simp: nodeInHandshake_def dest: ping_sent_eqD(3))
  then show ?thesis using but_bus_fields(5)[OF assms(1)] assms(2) by (simp add: hs_view_def)
qed

text \<open>Only \<open>clusterSendFailoverAuth\<close> sends acknowledgements.\<close>

lemma clusterBuildMessageHdr_type: "clusterBuildMessageHdr ty s = Some hdr \<Longrightarrow> m_type hdr = ty"
  by (auto simp: clusterBuildMessageHdr_def opt_bind Let_def)

lemma clusterSendMessage_acks:
  "clusterSendMessage l m s = Some s' \<Longrightarrow> m_type m \<noteq> CLUSTERMSG_TYPE_FAILOVER_AUTH_ACK \<Longrightarrow> acks s' = acks s"
  by (auto simp: clusterSendMessage_def opt_bind acks_def)

lemma clusterBroadcastMessage_acks:
  assumes "clusterBroadcastMessage m s = Some s'" and "m_type m \<noteq> CLUSTERMSG_TYPE_FAILOVER_AUTH_ACK"
  shows "acks s' = acks s"
proof -
  have "whenever (clusterBroadcastMessage m s) (\<lambda>s'. acks s' = acks s)"
    unfolding clusterBroadcastMessage_def
    by (rule whenever_foldM)
      (auto simp: whenever_def opt_bind assms(2) split: if_splits dest!: clusterSendMessage_acks)
  then show ?thesis using assms(1) by (rule wheneverD)
qed

lemma clusterSendPing_acks:
  assumes "clusterSendPing l ty s = Some s'" and "ty \<noteq> CLUSTERMSG_TYPE_FAILOVER_AUTH_ACK"
  shows "acks s' = acks s"
proof -
  obtain lk :: clusterLink and s1 hdr g where s1: "(if l_node lk \<noteq> NULL \<and> ty = CLUSTERMSG_TYPE_PING
       then node_upd (l_node lk) (\<lambda>n. n\<lparr>n_ping_sent := mstime s\<rparr>) s else Some s) = Some s1"
    and hdr: "clusterBuildMessageHdr ty s1 = Some hdr"
    and g: "(case g of (gossip, rnd) \<Rightarrow> clusterSendMessage l
       (hdr\<lparr>m_count := word_of_nat (length gossip), m_totlen := CLUSTERMSG_MIN_LEN + sizeof_gossip * word_of_nat (length gossip),
            m_data := PingData gossip\<rparr>) (s1\<lparr>rng := rnd\<rparr>)) = Some s'"
    using assms(1) unfolding clusterSendPing_def Let_def opt_bind by blast
  obtain gs rnd where "g = (gs, rnd)" by fastforce
  then have send: "clusterSendMessage l
       (hdr\<lparr>m_count := word_of_nat (length gs), m_totlen := CLUSTERMSG_MIN_LEN + sizeof_gossip * word_of_nat (length gs),
            m_data := PingData gs\<rparr>) (s1\<lparr>rng := rnd\<rparr>) = Some s'"
    using g by simp
  have "acks s1 = acks s" using s1 by (auto simp: node_upd_def acks_def split: if_splits option.splits)
  then show ?thesis
    using clusterSendMessage_acks[OF send] clusterBuildMessageHdr_type[OF hdr] assms(2) by (simp add: acks_def)
qed

lemma clusterBroadcastPong_acks:
  assumes "clusterBroadcastPong tg s = Some s'"
  shows "acks s' = acks s"
proof -
  have "whenever (clusterBroadcastPong tg s) (\<lambda>s'. acks s' = acks s)"
    unfolding clusterBroadcastPong_def
    by (rule whenever_foldM) (auto simp: whenever_def opt_bind split: if_splits dest!: clusterSendPing_acks)
  then show ?thesis using assms by (rule wheneverD)
qed

lemma sends_acks:
  "clusterSendFail nm s = Some s' \<Longrightarrow> acks s' = acks s"
  "clusterSendUpdate l p s = Some s' \<Longrightarrow> acks s' = acks s"
  "clusterRequestFailoverAuth s = Some s' \<Longrightarrow> acks s' = acks s"
  "clusterSendMFStart p s = Some s' \<Longrightarrow> acks s' = acks s"
  "clusterSendPublish l ch m s = Some s' \<Longrightarrow> acks s' = acks s"
  by (auto simp: clusterSendFail_def clusterSendUpdate_def clusterRequestFailoverAuth_def clusterSendMFStart_def
      clusterSendPublish_def opt_bind Let_def split: if_splits
      dest!: clusterBuildMessageHdr_type clusterBroadcastMessage_acks clusterSendMessage_acks)

lemma sends_tidily [tidily]:
  "clusterBroadcastPong tg s = Some s' \<Longrightarrow> hs_view s' = hs_view s"
  "clusterSendFail nm s = Some s' \<Longrightarrow> hs_view s' = hs_view s"
  "clusterSendUpdate l p s = Some s' \<Longrightarrow> hs_view s' = hs_view s"
  "clusterRequestFailoverAuth s = Some s' \<Longrightarrow> hs_view s' = hs_view s"
  "clusterSendMFStart p s = Some s' \<Longrightarrow> hs_view s' = hs_view s"
  "clusterSendPublish l ch m s = Some s' \<Longrightarrow> hs_view s' = hs_view s"
  "clusterSendPing l ty s = Some s' \<Longrightarrow> ty \<noteq> CLUSTERMSG_TYPE_FAILOVER_AUTH_ACK \<Longrightarrow> hs_view s' = hs_view s"
  by (auto intro!: but_bus_hs_view dest: keeps_bus sends_acks clusterBroadcastPong_acks clusterSendPing_acks)

lemma clusterNodeAddFailureReport_tidily [tidily]:
  "clusterNodeAddFailureReport a b s = Some (r, s') \<Longrightarrow> hs_view s' = hs_view s"
  by (auto simp: clusterNodeAddFailureReport_def opt_bind split: option.splits dest!: hs_view_node_upd)

lemma clusterNodeCleanupFailureReports_tidily [tidily]:
  "clusterNodeCleanupFailureReports a s = Some s' \<Longrightarrow> hs_view s' = hs_view s"
  by (auto simp: clusterNodeCleanupFailureReports_def Let_def dest!: hs_view_node_upd)

lemma clusterNodeDelFailureReport_tidily [tidily]:
  "clusterNodeDelFailureReport a b s = Some (r, s') \<Longrightarrow> hs_view s' = hs_view s"
  by (auto simp: clusterNodeDelFailureReport_def opt_bind split: option.splits
      dest!: hs_view_node_upd clusterNodeCleanupFailureReports_tidily)

lemma clusterNodeFailureReportsCount_tidily [tidily]:
  "clusterNodeFailureReportsCount a s = Some (r, s') \<Longrightarrow> hs_view s' = hs_view s"
  by (auto simp: clusterNodeFailureReportsCount_def opt_bind dest!: clusterNodeCleanupFailureReports_tidily)

lemma clusterNodeRemoveSlave_tidily [tidily]:
  "clusterNodeRemoveSlave a b s = Some (r, s') \<Longrightarrow> hs_view s' = hs_view s"
  by (auto simp: clusterNodeRemoveSlave_def opt_bind split: option.splits dest!: hs_view_node_upd)

lemma clusterNodeAddSlave_tidily [tidily]:
  "clusterNodeAddSlave a b s = Some (r, s') \<Longrightarrow> hs_view s' = hs_view s"
  by (auto simp: clusterNodeAddSlave_def opt_bind split: if_splits dest!: hs_view_node_upd)

lemma clusterNodeResetSlaves_tidily [tidily]:
  "clusterNodeResetSlaves a s = Some s' \<Longrightarrow> hs_view s' = hs_view s"
  by (auto simp: clusterNodeResetSlaves_def dest!: hs_view_node_upd)

lemma freeClusterLink_tidily [tidily]:
  "freeClusterLink l s = Some s' \<Longrightarrow> hs_view s' = hs_view s"
  by (auto simp: freeClusterLink_def opt_bind split: if_splits dest!: hs_view_node_upd)

lemma clusterAddNode_tidily [tidily]:
  "clusterAddNode p s = Some (r, s') \<Longrightarrow> hs_view s' = hs_view s"
  by (auto simp: clusterAddNode_def opt_bind split: option.splits)

lemma clusterRenameNode_tidily [tidily]:
  "clusterRenameNode p nm s = Some s' \<Longrightarrow> hs_view s' = hs_view s"
  by (auto simp: clusterRenameNode_def opt_bind dest!: clusterAddNode_tidily hs_view_node_upd)

lemma markNodeAsFailingIfNeeded_tidily [tidily]:
  "markNodeAsFailingIfNeeded p s = Some s' \<Longrightarrow> hs_view s' = hs_view s"
  by (auto simp: markNodeAsFailingIfNeeded_def opt_bind Let_def handshake_bit_flags split: if_splits
      dest!: clusterNodeFailureReportsCount_tidily hs_view_node_upd sends_tidily)

lemma clearNodeFailureIfNeeded_tidily [tidily]:
  "clearNodeFailureIfNeeded p s = Some s' \<Longrightarrow> hs_view s' = hs_view s"
  by (auto simp: clearNodeFailureIfNeeded_def opt_bind Let_def handshake_bit_flags split: if_splits dest!: hs_view_node_upd)

lemma nodeUpdateAddressIfNeeded_tidily [tidily]:
  "nodeUpdateAddressIfNeeded p l port s = Some (r, s') \<Longrightarrow> hs_view s' = hs_view s"
  by (auto simp: nodeUpdateAddressIfNeeded_def opt_bind Let_def split: if_splits dest!: hs_view_node_upd freeClusterLink_tidily)

lemma clusterSetNodeAsMaster_tidily [tidily]:
  "clusterSetNodeAsMaster n s = Some s' \<Longrightarrow> hs_view s' = hs_view s"
  by (auto simp: clusterSetNodeAsMaster_def opt_bind handshake_bit_flags split: if_splits
      dest!: hs_view_node_upd clusterNodeRemoveSlave_tidily)

lemma clusterSetMaster_tidily [tidily]:
  "clusterSetMaster n s = Some s' \<Longrightarrow> hs_view s' = hs_view s"
  by (auto simp: clusterSetMaster_def opt_bind handshake_bit_flags split: if_splits
      dest!: hs_view_node_upd clusterNodeRemoveSlave_tidily clusterNodeAddSlave_tidily)

lemma clusterUpdateState_tidily [tidily]:
  "clusterUpdateState s = Some s' \<Longrightarrow> hs_view s' = hs_view s"
  by (elim clusterUpdateState_frame) (simp add: hs_view_def acks_def)

lemma clusterHandleConfigEpochCollision_tidily [tidily]:
  "clusterHandleConfigEpochCollision p s = Some s' \<Longrightarrow> hs_view s' = hs_view s"
  by (auto simp: clusterHandleConfigEpochCollision_def opt_bind Let_def split: if_splits dest!: hs_view_node_upd)

lemma clusterLogCantFailover_tidily [tidily]:
  "clusterLogCantFailover r s = Some s' \<Longrightarrow> hs_view s' = hs_view s"
  by (drule clusterLogCantFailover_eq) auto

lemma clusterHandleSlaveMigration_tidily [tidily]:
  "clusterHandleSlaveMigration k s = Some s' \<Longrightarrow> hs_view s' = hs_view s"
  by (auto simp: clusterHandleSlaveMigration_def opt_bind Let_def split: if_splits prod.splits dest!: clusterSetMaster_tidily)

subsection \<open>Operations that add nodes or move slots\<close>

lemma createClusterNode_tidy:
  assumes "createClusterNode nm fl s = (p, s')" and "alloc_inv s"
  shows "tidy s s'"
proof -
  obtain name where v: "p = brk s" "c_slots s' = c_slots s" "heap s' = (heap s)(p \<mapsto> newClusterNode name fl (mstime s))"
    using createClusterNode_view[OF assms(1)] by blast
  have fresh: "heap s p = None" using assms(2) v(1) by (simp add: alloc_inv_def)
  show ?thesis
    unfolding tidy_def owners_known_def v(2,3)
  proof (intro impI allI)
    fix j assume known: "\<forall>j<REDIS_CLUSTER_SLOTS. c_slots s j \<noteq> NULL \<longrightarrow>
        (\<exists>n. heap s (c_slots s j) = Some n \<and> \<not> nodeInHandshake n)" and j: "j < REDIS_CLUSTER_SLOTS" "c_slots s j \<noteq> NULL"
    then obtain n where "heap s (c_slots s j) = Some n" "\<not> nodeInHandshake n" by blast
    then show "\<exists>n. ((heap s)(p \<mapsto> newClusterNode name fl (mstime s))) (c_slots s j) = Some n \<and> \<not> nodeInHandshake n"
      using fresh by (intro exI[of _ n]) auto
  qed
qed

text \<open>A node in handshake may be freed.\<close>

lemma freeClusterNode_tidy:
  assumes run: "freeClusterNode p s = Some s'" and hs: "\<And>n. heap s p = Some n \<Longrightarrow> nodeInHandshake n"
  shows "tidy s s'"
proof -
  obtain n d s2 s3 where n: "heap s p = Some n" and d: "dictDelete (c_nodes s) (n_name n) = Some d"
    and s2: "(if n_slaveof n \<noteq> 0 then map_option snd (clusterNodeRemoveSlave (n_slaveof n) p (s\<lparr>c_nodes := d\<rparr>))
            else Some (s\<lparr>c_nodes := d\<rparr>)) = Some s2"
    and s3: "(if n_link n \<noteq> 0 then freeClusterLink (n_link n) s2 else Some s2) = Some s3"
    and s': "s' = s3\<lparr>heap := (heap s3)(p := None)\<rparr>"
    using run by (auto simp: freeClusterNode_def opt_bind deref_def Let_def)
  have v: "hs_view s3 = hs_view s"
    using s2 s3 by (auto split: if_splits dest!: clusterNodeRemoveSlave_tidily freeClusterLink_tidily)
  have "\<exists>m. heap s3 q = Some m \<and> \<not> nodeInHandshake m \<and> q \<noteq> p" if "heap s q = Some m'" "\<not> nodeInHandshake m'" for q m'
    using hs_view_node[OF v that(1)] that hs by auto
  then have "\<exists>m. heap s' q = Some m \<and> \<not> nodeInHandshake m" if "heap s q = Some m'" "\<not> nodeInHandshake m'" for q m'
    using that by (simp add: s') blast
  moreover have "c_slots s' = c_slots s" using hs_viewD(1)[OF v] by (simp add: s')
  ultimately show ?thesis unfolding tidy_def owners_known_def by metis
qed

lemma freeClusterNode_handshake_quiet:
  assumes "freeClusterNode p s = Some s'" and hs: "\<And>n. heap s p = Some n \<Longrightarrow> nodeInHandshake n"
    and "owners_known s" and "slots_inv s"
  shows "quiet s s'"
proof (rule freeClusterNode_quiet[OF assms(1)])
  fix n assume n: "heap s p = Some n"
  show "n_numslots n = 0" by (rule owner_in_handshake[OF assms(3,4) n hs[OF n]])
qed

text \<open>Slots move to nodes that are not in handshake.\<close>

lemma but_slots_handshake:
  assumes "but_slots s' = but_slots s" and "heap s p = Some n"
  shows "\<exists>n'. heap s' p = Some n' \<and> nodeInHandshake n' = nodeInHandshake n"
proof -
  obtain n' where n': "heap s' p = Some n'" "node_but_slots n = node_but_slots n'"
    using but_slots_node[OF assms(1)[symmetric] assms(2)] by blast
  then show ?thesis using node_but_slots_simps(1)[OF n'(2)] by (simp add: nodeInHandshake_def)
qed

lemma but_slots_tidy:
  assumes fr: "but_slots s' = but_slots s"
    and sl: "\<And>k. k < REDIS_CLUSTER_SLOTS \<Longrightarrow> c_slots s' k = c_slots s k \<or> c_slots s' k = NULL \<or> (\<exists>n. heap s (c_slots s' k) = Some n \<and> \<not> nodeInHandshake n)"
  shows "tidy s s'"
  unfolding tidy_def owners_known_def
proof (intro impI allI)
  fix k assume known: "\<forall>j<REDIS_CLUSTER_SLOTS. c_slots s j \<noteq> NULL \<longrightarrow>
      (\<exists>n. heap s (c_slots s j) = Some n \<and> \<not> nodeInHandshake n)" and k: "k < REDIS_CLUSTER_SLOTS" "c_slots s' k \<noteq> NULL"
  then obtain n where "heap s (c_slots s' k) = Some n" "\<not> nodeInHandshake n" using sl[OF k(1)] by metis
  then show "\<exists>n. heap s' (c_slots s' k) = Some n \<and> \<not> nodeInHandshake n" using but_slots_handshake[OF fr] by blast
qed

lemma clusterDelNodeSlots_tidy:
  assumes run: "clusterDelNodeSlots p s = Some (d, s')" and inv: "slots_inv s" and p: "heap s p \<noteq> None"
  shows "tidy s s'"
proof -
  have fr: "but_slots s' = but_slots s" and sl: "\<And>j. j < REDIS_CLUSTER_SLOTS \<Longrightarrow> c_slots s' j = (if c_slots s j = p then NULL else c_slots s j)"
    using returnsD[OF clusterDelNodeSlots_spec[OF inv p]] run by auto
  show ?thesis by (rule but_slots_tidy[OF fr]) (simp add: sl)
qed

definition known :: "ptr \<Rightarrow> server \<Rightarrow> bool" where
  "known p s \<longleftrightarrow> (\<exists>n. heap s p = Some n \<and> \<not> nodeInHandshake n)"

lemma known_hs_view: "hs_view s' = hs_view s \<Longrightarrow> known p s' = known p s"
  using hs_view_node[of s' s p] hs_view_node[of s s' p] by (auto simp: known_def)

lemma slot_move_tidy:
  assumes d: "clusterDelSlot j s = Some (r1, s1)" and a: "clusterAddSlot p j s1 = Some (r2, s2)"
    and j: "j < REDIS_CLUSTER_SLOTS" and inv: "slots_inv s" and p: "known p s"
  shows "tidy s s2 \<and> known p s2"
proof -
  obtain n where n: "heap s p = Some n" "\<not> nodeInHandshake n" using p by (auto simp: known_def)
  have s1: "slots_inv s1" "but_slots s1 = but_slots s" "c_slots s1 = (c_slots s)(j := NULL)"
    using returnsD[OF clusterDelSlot_spec[OF inv j]] d by auto
  have al: "heap s1 p \<noteq> None" using n(1) but_slots_alloc[OF s1(2), of p] by auto
  have s2: "but_slots s2 = but_slots s1" "c_slots s2 = (c_slots s1)(j := p)"
    using returnsD[OF clusterAddSlot_spec[OF s1(1) j al]] a s1(3) by auto
  have fr: "but_slots s2 = but_slots s" using s1(2) s2(1) by simp
  have "tidy s s2"
    by (rule but_slots_tidy[OF fr]) (use n in \<open>simp add: s2(2) s1(3)\<close>)
  then show ?thesis using but_slots_handshake[OF fr n(1)] n(2) by (auto simp: known_def)
qed

lemma slot_move_tidy_foldM:
  assumes step: "\<And>j st st'. j < REDIS_CLUSTER_SLOTS \<Longrightarrow> f j st = Some st' \<Longrightarrow> slots_inv (g st) \<Longrightarrow> known p (g st) \<Longrightarrow>
      slots_inv (g st') \<and> tidy (g st) (g st') \<and> known p (g st')"
    and run: "foldM f [0..<REDIS_CLUSTER_SLOTS] st = Some st'" and inv: "slots_inv (g st)" and p: "known p (g st)"
  shows "tidy (g st) (g st') \<and> known p (g st')"
proof -
  have "whenever (foldM f [0..<REDIS_CLUSTER_SLOTS] st) (\<lambda>st'. slots_inv (g st') \<and> tidy (g st) (g st') \<and> known p (g st'))"
  proof (rule whenever_foldM, goal_cases)
    case 1
    then show ?case using inv p by simp
  next
    case (2 j st1)
    then show ?case using step[of j st1] tidy_trans by (auto simp: whenever_def)
  qed
  then show ?thesis using run by (auto dest: wheneverD)
qed

lemma clusterUpdateSlots_step_tidy:
  assumes run: "clusterUpdateSlots_step sender e slots cm j (nm, dirty, s) = Some (nm', dirty', s')"
    and j: "j < REDIS_CLUSTER_SLOTS" and inv: "slots_inv s" and p: "known sender s"
  shows "slots_inv s' \<and> tidy s s' \<and> known sender s'"
proof (cases "s' = s")
  case False
  then obtain r1 s1 r2 s2 f where m: "clusterDelSlot j s = Some (r1, s1)" "clusterAddSlot sender j s1 = Some (r2, s2)"
    and s': "s' = clusterDoBeforeSleep f s2"
    using run by (auto simp: clusterUpdateSlots_step_def opt_bind Let_def split: if_splits)
  have v: "hs_view s' = hs_view s2" by (simp add: s')
  then show ?thesis
    using slot_move_tidy[OF m j inv p] hs_view_tidy[OF v] known_hs_view[OF v] tidy_trans clusterUpdateSlots_step_quiet[OF run j inv]
    by blast
qed (simp add: inv p)

lemma but_keys_hs_view:
  assumes "but_keys s' = but_keys s"
  shows "hs_view s' = hs_view s"
  using arg_cong[OF assms, of hs_view] by (simp add: but_keys_def hs_view_def acks_def)

lemma clusterUpdateSlotsConfigWith_tidy:
  assumes run: "clusterUpdateSlotsConfigWith sender e slots s = Some s'" and inv: "slots_inv s" and p: "known sender s"
  shows "tidy s s'"
proof (cases "sender = myself s")
  case True
  then show ?thesis using run by (auto simp: clusterUpdateSlotsConfigWith_def opt_bind)
next
  case False
  obtain cm nm dirty s1 where loop: "foldM (clusterUpdateSlots_step sender e slots cm) [0..<REDIS_CLUSTER_SLOTS] (NULL, [], s)
      = Some (nm, dirty, s1)"
    and s': "(\<exists>f s2. clusterSetMaster sender s1 = Some s2 \<and> s' = clusterDoBeforeSleep f s2) \<or>
      s' = fold (\<lambda>j s. snd (delKeysInSlot j s)) dirty s1"
    by (rule clusterUpdateSlotsConfigWith_parts[OF run False])
  have "tidy s s1"
    using slot_move_tidy_foldM[where g = "\<lambda>(_, _, s). s" and p = sender, OF _ loop] clusterUpdateSlots_step_tidy inv p by auto
  moreover have "hs_view s' = hs_view s1"
    using s' clusterSetMaster_tidily but_keys_hs_view[OF delKeysInSlots_but_keys] by auto
  ultimately show ?thesis using hs_view_tidy tidy_trans by blast
qed

text \<open>The failover: this server, which is not in handshake, takes slots.\<close>

lemma failover_take_slot_tidy:
  assumes "failover_take_slot om j s = Some s'" and "j < REDIS_CLUSTER_SLOTS" and "slots_inv s" and "known (myself s) s"
  shows "tidy s s' \<and> known (myself s) s' \<and> myself s' = myself s"
proof -
  obtain n where n: "heap s om = Some n" using assms(1) by (auto simp: failover_take_slot_def opt_bind deref_def)
  show ?thesis
  proof (cases "clusterNodeGetSlotBit n j")
    case False
    then show ?thesis using assms n by (auto simp: failover_take_slot_def deref_def)
  next
    case True
    then obtain r1 s1 r2 where d: "clusterDelSlot j s = Some (r1, s1)" and a: "clusterAddSlot (myself s1) j s1 = Some (r2, s')"
      using assms(1) n by (auto simp: failover_take_slot_def opt_bind deref_def)
    have my: "myself s1 = myself s" by (rule quiet_ids(3)[OF clusterDelSlot_quiet[OF d assms(2,3)]])
    show ?thesis
      using slot_move_tidy[OF d a[unfolded my] assms(2-4)] slot_move_quiet[OF d a assms(2,3)] quiet_ids(3) by blast
  qed
qed

lemma failover_take_slots_tidy:
  assumes run: "foldM (failover_take_slot om) [0..<REDIS_CLUSTER_SLOTS] s = Some s'" and inv: "slots_inv s" and me: "known (myself s) s"
  shows "tidy s s'"
proof -
  have "whenever (foldM (failover_take_slot om) [0..<REDIS_CLUSTER_SLOTS] s) (\<lambda>s'. slots_inv s' \<and> tidy s s' \<and> known (myself s') s')"
  proof (rule whenever_foldM, goal_cases)
    case 1
    then show ?case using inv me by simp
  next
    case (2 j s1)
    then have "slots_inv s2 \<and> tidy s s2 \<and> known (myself s2) s2" if "failover_take_slot om j s1 = Some s2" for s2
      using failover_take_slot_tidy[OF that] failover_take_slot_quiet[OF that] tidy_trans[of s s1 s2] by simp
    then show ?case by (simp add: whenever_def)
  qed
  then show ?thesis using run by (auto dest: wheneverD)
qed

lemma failover_become_master_tidy:
  assumes run: "failover_become_master s = Some s'" and inv: "slots_inv s" and me: "known (myself s) s"
  shows "tidy s s'"
proof -
  obtain nd s1 s3 s4 s5 s6 where "heap s (myself s) = Some nd" and s1: "clusterSetNodeAsMaster (myself s) s = Some s1"
    and s3: "foldM (failover_take_slot (n_slaveof nd)) [0..<REDIS_CLUSTER_SLOTS] (replicationUnsetMaster s1) = Some s3"
    and s4: "node_upd (myself s3) (\<lambda>me. me\<lparr>n_configEpoch := c_failover_auth_epoch s3\<rparr>) s3 = Some s4"
    and s5: "clusterUpdateState s4 = Some s5"
    and s6: "clusterBroadcastPong CLUSTER_BROADCAST_ALL (clusterSaveConfigOrDie True s5) = Some s6"
    and s': "s' = resetManualFailover s6"
    by (rule failover_become_master_parts[OF run])
  have v2: "hs_view (replicationUnsetMaster s1) = hs_view s"
    using clusterSetNodeAsMaster_tidily[OF s1] by simp
  have iv: "inv_view (replicationUnsetMaster s1) = inv_view s" using clusterSetNodeAsMaster_keeps[OF s1] by simp
  have i2: "slots_inv (replicationUnsetMaster s1)" using slots_view_inv[OF inv_view_slots[OF iv] inv] .
  have my: "myself (replicationUnsetMaster s1) = myself s" using inv_viewD(4)[OF iv] by (simp add: ids_def)
  have me2: "known (myself (replicationUnsetMaster s1)) (replicationUnsetMaster s1)"
    using me known_hs_view[OF v2] my by simp
  have v6: "hs_view s' = hs_view s3"
    using sends_tidily(1)[OF s6] clusterUpdateState_tidily[OF s5] hs_view_node_upd[OF s4] by (simp add: s')
  show ?thesis
    using hs_view_tidy[OF v2] failover_take_slots_tidy[OF s3 i2 me2] hs_view_tidy[OF v6] tidy_trans by blast
qed

lemma failover_schedule_tidily [tidily]:
  "failover_schedule s = Some s' \<Longrightarrow> hs_view s' = hs_view s"
  by (auto simp: failover_schedule_def opt_bind Let_def split: if_splits dest!: sends_tidily) (simp_all add: hs_view_def acks_def)

lemma failover_update_rank_tidily [tidily]:
  "failover_update_rank s = Some s' \<Longrightarrow> hs_view s' = hs_view s"
  by (auto simp: failover_update_rank_def opt_bind hs_view_def acks_def split: if_splits)

lemma failover_request_votes_tidily [tidily]:
  "failover_request_votes s = Some s' \<Longrightarrow> hs_view s' = hs_view s"
  by (auto simp: failover_request_votes_def opt_bind Let_def dest!: sends_tidily)

subsection \<open>Calm and advancing operations\<close>

text \<open>The whole invariant. A calm operation keeps it, and the epochs, and forgets no node that is not in handshake; an
  advancing operation may also increase the current epoch.\<close>

definition sound :: "server \<Rightarrow> bool" where
  "sound s \<longleftrightarrow> inv s \<and> owners_known s"

definition calm :: "server \<Rightarrow> server \<Rightarrow> bool" where
  "calm s s' \<longleftrightarrow> sound s' \<and> ids s' = ids s \<and> acks s' = acks s \<and> (\<forall>p. known p s \<longrightarrow> known p s')"

definition advance :: "server \<Rightarrow> server \<Rightarrow> bool" where
  "advance s s' \<longleftrightarrow> sound s' \<and> acks s' = acks s \<and> c_lastVoteEpoch s' = c_lastVoteEpoch s \<and> c_currentEpoch s \<le> c_currentEpoch s' \<and>
     c_myself s' = c_myself s \<and> mstime s' = mstime s \<and> (\<forall>p. known p s \<longrightarrow> known p s')"

lemma advance_epoch:
  assumes "sound s" and "c_currentEpoch s \<le> e"
  shows "advance s (s\<lparr>c_currentEpoch := e\<rparr>)"
  using inv_upd_epoch[OF _ assms(2)] assms by (simp add: advance_def sound_def owners_known_def acks_def known_def)

lemma soundD: "sound s \<Longrightarrow> inv s" "sound s \<Longrightarrow> slots_inv s" "sound s \<Longrightarrow> alloc_inv s" "sound s \<Longrightarrow> owners_known s"
  by (simp_all add: sound_def inv_def)

lemma calmI: "sound s \<Longrightarrow> quiet s s' \<Longrightarrow> tidy s s' \<Longrightarrow> acks s' = acks s \<Longrightarrow> (\<And>p. known p s \<Longrightarrow> known p s') \<Longrightarrow> calm s s'"
  by (simp add: calm_def sound_def quiet_def tidy_def)

lemma calm_refl: "sound s \<Longrightarrow> calm s s"
  by (simp add: calm_def)

lemma calm_trans: "calm s s1 \<Longrightarrow> (sound s1 \<Longrightarrow> calm s1 s2) \<Longrightarrow> calm s s2"
  by (simp add: calm_def)

lemma calm_sound: "calm s s' \<Longrightarrow> sound s'"
  by (simp add: calm_def)

lemma calm_known: "calm s s' \<Longrightarrow> known p s \<Longrightarrow> known p s'"
  by (simp add: calm_def)

lemma calm_view: "sound s \<Longrightarrow> inv_view s' = inv_view s \<Longrightarrow> hs_view s' = hs_view s \<Longrightarrow> calm s s'"
  using hs_viewD(4)[of s' s] known_hs_view[of s' s] by (simp add: calmI quiet_view hs_view_tidy)

lemma calm_advance: "calm s s' \<Longrightarrow> advance s s'"
  by (simp add: calm_def advance_def ids_def)

lemma advance_trans: "advance s s1 \<Longrightarrow> (sound s1 \<Longrightarrow> advance s1 s2) \<Longrightarrow> advance s s2"
  by (auto simp: advance_def)

lemma advance_known: "advance s s' \<Longrightarrow> known p s \<Longrightarrow> known p s'"
  by (simp add: advance_def)

lemma advance_sound: "advance s s' \<Longrightarrow> sound s'"
  by (simp add: advance_def)

lemma calm_foldM:
  assumes step: "\<And>x s s'. x \<in> set xs \<Longrightarrow> sound s \<Longrightarrow> f x s = Some s' \<Longrightarrow> calm s s'"
    and run: "foldM f xs s = Some s'" and inv: "sound s"
  shows "calm s s'"
proof -
  have "whenever (foldM f xs s) (calm s)"
  proof (rule whenever_foldM, goal_cases)
    case 1
    then show ?case by (rule calm_refl[OF inv])
  next
    case (2 x s1)
    then show ?case using step[of x s1] calm_trans calm_sound by (auto simp: whenever_def)
  qed
  then show ?thesis using run by (rule wheneverD)
qed

lemma createClusterNode_calm:
  assumes c: "createClusterNode nm fl s = (p, s')" and inv: "sound s"
  shows "calm s s'"
proof (rule calmI[OF inv createClusterNode_quiet[OF c] createClusterNode_tidy[OF c soundD(3)[OF inv]]])
  show "acks s' = acks s"
    using c by (auto simp: createClusterNode_def getRandomHexChars_def Let_def acks_def split: option.splits prod.splits)
  obtain name where v: "p = brk s" "heap s' = (heap s)(p \<mapsto> newClusterNode name fl (mstime s))"
    using createClusterNode_view[OF c] by blast
  then have "heap s p = None" using soundD(3)[OF inv] by (simp add: alloc_inv_def)
  then show "known q s'" if "known q s" for q using that by (auto simp: known_def v(2))
qed

lemma hs_view_calm:
  assumes "hs_view s' = hs_view s" and "quiet s s'" and "sound s"
  shows "calm s s'"
  using calmI[OF assms(3,2) hs_view_tidy[OF assms(1)] hs_viewD(4)[OF assms(1)]] known_hs_view[OF assms(1)] by blast

lemma clusterAddNode_calm: "clusterAddNode p s = Some (r, s') \<Longrightarrow> sound s \<Longrightarrow> calm s s'"
  by (rule hs_view_calm[OF clusterAddNode_tidily clusterAddNode_quiet])

lemma clusterRenameNode_calm: "clusterRenameNode p nm s = Some s' \<Longrightarrow> sound s \<Longrightarrow> calm s s'"
  by (rule hs_view_calm[OF clusterRenameNode_tidily clusterRenameNode_quiet])

lemma node_upd_calm:
  assumes u: "node_upd p f s = Some s'" and inv: "sound s"
    and v: "\<And>n. node_view (f n) = node_view n" and hs: "\<And>n. nodeInHandshake (f n) \<Longrightarrow> nodeInHandshake n"
  shows "calm s s'"
proof -
  obtain n where n: "heap s p = Some n" "s' = s\<lparr>heap := (heap s)(p \<mapsto> f n)\<rparr>"
    using u by (auto simp: node_upd_def split: option.splits)
  have k: "known q s'" if "known q s" for q using that n hs by (auto simp: known_def)
  have "tidy s s'" unfolding tidy_def owners_known_def using k n(2) by (simp add: known_def)
  moreover have "acks s' = acks s" by (simp add: n(2) acks_def)
  ultimately show ?thesis using calmI[OF inv quiet_view[OF inv_view_node_upd[OF u v]]] k by blast
qed

lemma clusterStartHandshake_calm:
  assumes "clusterStartHandshake ip port s = Some (r, s')" and inv: "sound s"
  shows "calm s s'"
proof (cases "s' = s")
  case False
  then obtain n s1 s2 ni nr where c: "createClusterNode None (REDIS_NODE_HANDSHAKE OR REDIS_NODE_MEET) s = (n, s1)"
    and u: "node_upd n (\<lambda>nd. nd\<lparr>n_ip := ni, n_port := port\<rparr>) s1 = Some s2" and a: "clusterAddNode n s2 = Some (nr, s')"
    using assms(1) by (auto simp: clusterStartHandshake_def opt_bind Let_def split: option.splits if_splits prod.splits)
  show ?thesis
    using createClusterNode_calm[OF c inv] node_upd_calm[OF u] clusterAddNode_calm[OF a] calm_trans calm_sound
    by (metis handshake_bit(14,15) node_view_flags(3))
qed (simp add: calm_refl[OF inv])

lemma freeClusterNode_calm:
  assumes run: "freeClusterNode p s = Some s'" and hs: "\<And>n. heap s p = Some n \<Longrightarrow> nodeInHandshake n" and inv: "sound s"
  shows "calm s s'"
proof -
  obtain n d s2 s3 where n: "heap s p = Some n" and d: "dictDelete (c_nodes s) (n_name n) = Some d"
    and s2: "(if n_slaveof n \<noteq> 0 then map_option snd (clusterNodeRemoveSlave (n_slaveof n) p (s\<lparr>c_nodes := d\<rparr>))
            else Some (s\<lparr>c_nodes := d\<rparr>)) = Some s2"
    and s3: "(if n_link n \<noteq> 0 then freeClusterLink (n_link n) s2 else Some s2) = Some s3"
    and s': "s' = s3\<lparr>heap := (heap s3)(p := None)\<rparr>"
    using run by (auto simp: freeClusterNode_def opt_bind deref_def Let_def)
  have v: "hs_view s3 = hs_view s"
    using s2 s3 by (auto split: if_splits dest!: clusterNodeRemoveSlave_tidily freeClusterLink_tidily)
  have "known q s'" if q: "known q s" for q
  proof -
    have "q \<noteq> p" using q hs by (auto simp: known_def)
    then show ?thesis using q known_hs_view[OF v, of q] by (simp add: known_def s')
  qed
  moreover have "acks s' = acks s" using hs_viewD(4)[OF v] by (simp add: s' acks_def)
  ultimately show ?thesis
    using calmI[OF inv freeClusterNode_handshake_quiet[OF run hs soundD(4,2)[OF inv]] freeClusterNode_tidy[OF run hs]] by blast
qed

lemma but_slots_known: "but_slots s' = but_slots s \<Longrightarrow> known p s \<Longrightarrow> known p s'"
  using but_slots_handshake[of s' s p] by (auto simp: known_def)

lemma but_slots_acks: "but_slots s' = but_slots s \<Longrightarrow> acks s' = acks s"
  by (drule arg_cong[of _ _ outbox]) (simp add: but_slots_def acks_def)

lemma clusterDelNodeSlots_calm:
  assumes run: "clusterDelNodeSlots p s = Some (d, s')" and inv: "sound s" and p: "known p s"
  shows "calm s s'"
proof -
  have al: "heap s p \<noteq> None" using p by (auto simp: known_def)
  have fr: "but_slots s' = but_slots s" using returnsD[OF clusterDelNodeSlots_spec[OF soundD(2)[OF inv] al]] run by auto
  show ?thesis
    by (rule calmI[OF inv clusterDelNodeSlots_quiet[OF run soundD(2)[OF inv]]
          clusterDelNodeSlots_tidy[OF run soundD(2)[OF inv] al] but_slots_acks[OF fr] but_slots_known[OF fr]])
qed

lemma clusterUpdateSlotsConfigWith_calm:
  assumes run: "clusterUpdateSlotsConfigWith sender e slots s = Some s'" and inv: "sound s" and p: "known sender s"
  shows "calm s s'"
proof (cases "sender = myself s")
  case True
  then show ?thesis using run calm_refl[OF inv] by (auto simp: clusterUpdateSlotsConfigWith_def opt_bind)
next
  case False
  obtain cm nm dirty s1 where loop: "foldM (clusterUpdateSlots_step sender e slots cm) [0..<REDIS_CLUSTER_SLOTS] (NULL, [], s)
      = Some (nm, dirty, s1)"
    and s': "(\<exists>f s2. clusterSetMaster sender s1 = Some s2 \<and> s' = clusterDoBeforeSleep f s2) \<or>
      s' = fold (\<lambda>j s. snd (delKeysInSlot j s)) dirty s1"
    by (rule clusterUpdateSlotsConfigWith_parts[OF run False])
  have sd: "heap s sender \<noteq> None" "sender \<noteq> NULL"
    using p slots_agree_nonnull[OF soundD(2)[OF inv, unfolded slots_inv_def]] by (auto simp: known_def)
  have "but_claims s1 = but_claims s"
    using returnsD[OF clusterUpdateSlots_loop_spec[OF soundD(2)[OF inv] sd(1) False sd(2), of e slots cm]] loop by auto
  then have fr: "but_slots (s1\<lparr>c_todo_before_sleep := 0\<rparr>) = but_slots (s\<lparr>c_todo_before_sleep := 0\<rparr>)"
    by (simp add: but_claims_def)
  have "known q s1" if "known q s" for q using but_slots_known[OF fr, of q] that by (simp add: known_def)
  moreover have "acks s1 = acks s" using but_slots_acks[OF fr] by (simp add: acks_def)
  moreover have v: "hs_view s' = hs_view s1"
    using s' clusterSetMaster_tidily but_keys_hs_view[OF delKeysInSlots_but_keys] by auto
  ultimately show ?thesis
    using calmI[OF inv clusterUpdateSlotsConfigWith_quiet[OF run soundD(2)[OF inv]]
        clusterUpdateSlotsConfigWith_tidy[OF run soundD(2)[OF inv] p]] known_hs_view[OF v] hs_viewD(4)[OF v] by metis
qed

lemma clusterProcessGossip_entry_calm:
  assumes "clusterProcessGossip_entry sender g s = Some s'" and inv: "sound s"
  shows "calm s s'"
proof (cases "clusterLookupNode (g_nodename g) s = 0")
  case True
  show ?thesis
  proof (cases "clusterBlacklistExists (g_nodename g) s")
    case (Pair b s1)
    then have "s1 = clusterBlacklistCleanup s" by (simp add: clusterBlacklistExists_def Let_def)
    then have "calm s s1" by (simp add: calm_view[OF inv])
    then show ?thesis
      using assms(1) True Pair clusterStartHandshake_calm[of _ _ s1] calm_trans[of s s1] calm_refl[OF inv]
      by (auto simp: clusterProcessGossip_entry_def Let_def split: if_splits)
  qed
next
  case False
  then obtain s1 where s1: "(if sender = NULL then Some s
             else do {
               sd \<leftarrow> deref (heap s) sender;
               if nodeIsMaster sd \<and> clusterLookupNode (g_nodename g) s \<noteq> myself s then
                 if (ucast (g_flags g) :: u32) AND (REDIS_NODE_FAIL OR REDIS_NODE_PFAIL) \<noteq> 0 then do {
                   (_, s') \<leftarrow> clusterNodeAddFailureReport (clusterLookupNode (g_nodename g) s) sender s;
                   markNodeAsFailingIfNeeded (clusterLookupNode (g_nodename g) s) s'
                 }
                 else map_option snd (clusterNodeDelFailureReport (clusterLookupNode (g_nodename g) s) sender s)
               else Some s
             }) = Some s1"
    and s': "s' = s1 \<or> (\<exists>r ip port. clusterStartHandshake ip port s1 = Some (r, s'))"
    using assms(1) by (auto simp: clusterProcessGossip_entry_def opt_bind Let_def split: if_splits)
  have v: "hs_view s1 = hs_view s"
    using s1 by (auto simp: opt_bind split: if_splits
        dest!: clusterNodeAddFailureReport_tidily markNodeAsFailingIfNeeded_tidily clusterNodeDelFailureReport_tidily)
  have iv: "inv_view s1 = inv_view s"
    using s1 by (auto simp: opt_bind split: if_splits
        dest!: clusterNodeAddFailureReport_keeps markNodeAsFailingIfNeeded_keeps clusterNodeDelFailureReport_keeps)
  show ?thesis using s' calm_view[OF inv iv v] clusterStartHandshake_calm calm_trans by blast
qed

lemma clusterProcessGossipSection_calm:
  assumes "clusterProcessGossipSection hdr link s = Some s'" and inv: "sound s"
  shows "calm s s'"
proof -
  obtain sender gs where run: "foldM (clusterProcessGossip_entry sender) gs s = Some s'"
    using assms(1) by (cases "m_data hdr") (auto simp: clusterProcessGossipSection_def opt_bind Let_def)
  show ?thesis by (rule calm_foldM[OF clusterProcessGossip_entry_calm run inv])
qed

end
