(* ===== verification/ClusterPromote.thy ===== *)
theory ClusterPromote
  imports ClusterElection
begin

text \<open>What winning an election does: the frame facts on links, the promotion of a node to
  master, and the takeover of the old master's slots.\<close>

subsection \<open>Winning an election\<close>

text \<open>What readiness to send depends on, apart from this server's own node.\<close>

definition link_view where
  "link_view s = (c_nodes s, links s, rng s, c_myself s, \<lambda>p. map_option n_link (heap s p))"

lemma link_viewD:
  assumes "link_view s' = link_view s"
  shows "c_nodes s' = c_nodes s" "links s' = links s" "rng s' = rng s" "c_myself s' = c_myself s"
    "map_option n_link (heap s' p) = map_option n_link (heap s p)"
    "heap s' p = None \<longleftrightarrow> heap s p = None"
  using assms by (auto simp: link_view_def fun_eq_iff) (metis map_option_is_None)+

lemma bus_ready_link_view:
  assumes v: "link_view s' = link_view s" and rdy: "bus_ready s" and me: "me_live s'"
  shows "bus_ready s'"
proof -
  have "table_live s'"
    unfolding table_live_def
  proof clarify
    fix k p assume "(k, p) \<in> set (c_nodes s')"
    then obtain n where n: "heap s p = Some n" "n_link n \<noteq> NULL \<longrightarrow> links s (n_link n) \<noteq> None"
      using rdy link_viewD(1)[OF v] by (auto simp: bus_ready_def table_live_def)
    then obtain n' where "heap s' p = Some n'" "n_link n' = n_link n"
      using link_viewD(5)[OF v, of p] by (cases "heap s' p") auto
    then show "\<exists>n. heap s' p = Some n \<and> (n_link n \<noteq> NULL \<longrightarrow> links s' (n_link n) \<noteq> None)"
      using n link_viewD(2)[OF v] by auto
  qed
  then show ?thesis
    using rdy me link_viewD(1-4)[OF v] link_viewD(6)[OF v] by (simp add: bus_ready_def fair_def)
qed

lemma link_view_simps [simp]:
  "link_view (clusterDoBeforeSleep f s) = link_view s"
  "link_view (replicationUnsetMaster s) = link_view s"
  "link_view (clusterSaveConfigOrDie b s) = link_view s"
  by (simp_all add: link_view_def clusterDoBeforeSleep_def replicationUnsetMaster_def clusterSaveConfigOrDie_def
      do_log_def Let_def split: option.splits)

lemma link_view_upd: "heap s p = Some n \<Longrightarrow> n_link n' = n_link n \<Longrightarrow> link_view (s\<lparr>heap := (heap s)(p \<mapsto> n')\<rparr>) = link_view s"
  by (auto simp: link_view_def fun_eq_iff)

lemma but_slots_link_view:
  assumes "but_slots s' = but_slots s"
  shows "link_view s' = link_view s"
proof -
  have "map_option n_link (heap s' p) = map_option n_link (heap s p)" for p
    using but_slots_heap[OF assms, of p]
    by (cases "heap s p"; cases "heap s' p") (auto dest: node_but_slots_simps(6))
  then show ?thesis
    using arg_cong[OF assms, of c_nodes] arg_cong[OF assms, of links] arg_cong[OF assms, of rng] arg_cong[OF assms, of c_myself]
    by (simp add: link_view_def but_slots_def)
qed

lemma clusterUpdateState_heap:
  assumes "clusterUpdateState s = Some s'"
  shows "heap s' = heap s" "link_view s' = link_view s" "effects s' = effects s" "masterhost s' = masterhost s"
  by (rule clusterUpdateState_frame[OF assms], simp add: link_view_def)+

lemma master_flags_bits:
  "nodeIsMaster (n\<lparr>n_flags := (f AND - 3) OR 1, n_slaveof := p\<rparr>)"
  "\<not> nodeIsSlave (n\<lparr>n_flags := (f AND - 3) OR 1, n_slaveof := p\<rparr>)"
  by (simp_all add: nodeIsSlave_def nodeIsMaster_def bit.conj_disj_distrib2 and.assoc)

lemma clusterSetNodeAsMaster_spec:
  assumes nd: "heap s n = Some nd" "\<not> nodeIsMaster nd"
    and om: "n_slaveof nd \<noteq> NULL \<longrightarrow> heap s (n_slaveof nd) \<noteq> None" "n_slaveof nd \<noteq> n"
  shows "returns (clusterSetNodeAsMaster n s) (\<lambda>s'. inv_view s' = inv_view s \<and> link_view s' = link_view s \<and>
     effects s' = effects s \<and> masterhost s' = masterhost s \<and> c_failover_auth_epoch s' = c_failover_auth_epoch s \<and>
     (\<exists>nd'. heap s' n = Some nd' \<and> nodeIsMaster nd' \<and> \<not> nodeIsSlave nd' \<and> n_slaveof nd' = NULL))"
proof -
  have "\<exists>s1. (if n_slaveof nd \<noteq> NULL then map_option snd (clusterNodeRemoveSlave (n_slaveof nd) n s) else Some s) = Some s1 \<and>
      heap s1 n = Some nd \<and> link_view s1 = link_view s \<and> effects s1 = effects s \<and> masterhost s1 = masterhost s \<and>
      c_failover_auth_epoch s1 = c_failover_auth_epoch s"
  proof (cases "n_slaveof nd = 0")
    case True
    then show ?thesis using nd by simp
  next
    case False
    then obtain m where m: "heap s (n_slaveof nd) = Some m" using om by auto
    obtain r s1 where r: "clusterNodeRemoveSlave (n_slaveof nd) n s = Some (r, s1)"
      using clusterNodeRemoveSlave_total[of s "n_slaveof nd" n] m by auto
    obtain sls where s1: "s1 = s\<lparr>heap := (heap s)(n_slaveof nd \<mapsto> m\<lparr>n_slaves := sls\<rparr>)\<rparr>"
      using clusterNodeRemoveSlave_upd[OF r m] by blast
    then show ?thesis using False r nd om(2) link_view_upd[OF m, of "m\<lparr>n_slaves := sls\<rparr>"] by simp
  qed
  then obtain s1 where s1: "(if n_slaveof nd \<noteq> NULL then map_option snd (clusterNodeRemoveSlave (n_slaveof nd) n s) else Some s) = Some s1"
    "heap s1 n = Some nd" "link_view s1 = link_view s" "effects s1 = effects s" "masterhost s1 = masterhost s"
    "c_failover_auth_epoch s1 = c_failover_auth_epoch s" by blast
  define nd' where "nd' = nd\<lparr>n_flags := (n_flags nd AND - 3) OR 1, n_slaveof := 0\<rparr>"
  define s' where "s' = clusterDoBeforeSleep 6 (s1\<lparr>heap := (heap s1)(n \<mapsto> nd')\<rparr>)"
  have run: "clusterSetNodeAsMaster n s = Some s'"
    using nd s1 by (simp add: clusterSetNodeAsMaster_def deref_def node_upd_def s'_def nd'_def)
  have lv: "link_view s' = link_view s"
    using s1(3) link_view_upd[OF s1(2), of nd'] by (simp add: s'_def nd'_def)
  have bits: "nodeIsMaster nd' \<and> \<not> nodeIsSlave nd' \<and> n_slaveof nd' = 0"
    by (simp add: nd'_def master_flags_bits)
  show ?thesis
    using clusterSetNodeAsMaster_keeps[OF run] lv bits s1
    by (simp add: run wp s'_def clusterDoBeforeSleep_def)
qed

lemma failover_take_slots_spec:
  assumes inv: "slots_inv s" and om: "heap s om \<noteq> None" "om \<noteq> NULL" "om \<noteq> myself s" and me: "heap s (myself s) \<noteq> None"
  shows "returns (foldM (failover_take_slot om) [0..<REDIS_CLUSTER_SLOTS] s) (\<lambda>s'. slots_inv s' \<and> but_slots s' = but_slots s \<and>
     c_slots s' = (\<lambda>k. if k < REDIS_CLUSTER_SLOTS \<and> c_slots s k = om then myself s else c_slots s k))"
proof -
  define I where "I j s' \<longleftrightarrow> slots_inv s' \<and> but_slots s' = but_slots s \<and>
     c_slots s' = (\<lambda>k. if k < j \<and> c_slots s k = om then myself s else c_slots s k)" for j and s' :: server
  have "returns (foldM (failover_take_slot om) [0..<REDIS_CLUSTER_SLOTS] s) (I REDIS_CLUSTER_SLOTS)"
  proof (rule returns_foldM_upt)
    show "I 0 s" using inv by (simp add: I_def)
  next
    fix j s1 assume j: "j < REDIS_CLUSTER_SLOTS" and I: "I j s1"
    then have s1: "slots_inv s1" "but_slots s1 = but_slots s"
      and sl: "c_slots s1 = (\<lambda>k. if k < j \<and> c_slots s k = om then myself s else c_slots s k)" by (auto simp: I_def)
    have my: "myself s1 = myself s" using arg_cong[OF s1(2), of c_myself] by (simp add: but_slots_def)
    obtain n where n: "heap s1 om = Some n" using but_slots_alloc[OF s1(2), of om] om(1) by auto
    have bit: "clusterNodeGetSlotBit n j \<longleftrightarrow> c_slots s j = om"
      using slots_agree_owner[OF s1(1)[unfolded slots_inv_def] n j] by (simp add: clusterNodeGetSlotBit_def sl)
    show "returns (failover_take_slot om j s1) (I (Suc j))"
    proof (cases "c_slots s j = om")
      case False
      have "c_slots s1 = (\<lambda>k. if k < Suc j \<and> c_slots s k = om then myself s else c_slots s k)"
        using False by (auto simp: sl fun_eq_iff less_Suc_eq)
      then show ?thesis using False n bit s1 by (simp add: failover_take_slot_def wp deref_def I_def)
    next
      case True
      obtain r1 s2 where s2: "clusterDelSlot j s1 = Some (r1, s2)" "slots_inv s2" "but_slots s2 = but_slots s1"
        "c_slots s2 = (c_slots s1)(j := 0)"
        using returnsD[OF clusterDelSlot_spec[OF s1(1) j]] by auto
      have my2: "myself s2 = myself s" using arg_cong[OF s2(3), of c_myself] my by (simp add: but_slots_def)
      have "heap s2 (myself s2) \<noteq> None"
        using me but_slots_alloc[OF s2(3)] but_slots_alloc[OF s1(2)] my2 by metis
      from returnsD[OF clusterAddSlot_spec[OF s2(2) j this]]
      obtain r2 s3 where s3: "clusterAddSlot (myself s2) j s2 = Some (r2, s3)" "slots_inv s3" "but_slots s3 = but_slots s2"
        "c_slots s3 = (c_slots s1)(j := myself s)"
        using s2(4) my2 by auto
      have "c_slots s3 = (\<lambda>k. if k < Suc j \<and> c_slots s k = om then myself s else c_slots s k)"
        using True by (auto simp: s3(4) sl fun_eq_iff less_Suc_eq)
      then show ?thesis using True n bit s1(2) s2(1,3) s3(1,2,3)
        by (simp add: failover_take_slot_def wp deref_def I_def)
    qed
  qed
  then show ?thesis by (rule returns_mono) (simp add: I_def)
qed

lemma resetManualFailover_frame:
  "heap (resetManualFailover s) = heap s" "c_slots (resetManualFailover s) = c_slots s"
  "c_myself (resetManualFailover s) = c_myself s" "masterhost (resetManualFailover s) = masterhost s"
  "effects (resetManualFailover s) = effects s" "c_mf_end (resetManualFailover s) = 0"
  by (simp_all add: resetManualFailover_def clientsArePaused_def Let_def split: prod.splits)

lemma clusterSaveConfigOrDie_fields:
  "heap (clusterSaveConfigOrDie b s) = heap s" "c_myself (clusterSaveConfigOrDie b s) = c_myself s"
  "c_slots (clusterSaveConfigOrDie b s) = c_slots s" "masterhost (clusterSaveConfigOrDie b s) = masterhost s"
  "SaveConfig b (c_currentEpoch s) (c_lastVoteEpoch s) \<in> set (effects (clusterSaveConfigOrDie b s))"
  by (simp_all add: clusterSaveConfigOrDie_def do_log_def Let_def)

text \<open>The state of a new master just before it tells the cluster (lines 3805 to 3843).\<close>

definition won :: "server \<Rightarrow> ptr \<Rightarrow> server \<Rightarrow> bool" where
  "won s om s' \<longleftrightarrow> inv s' \<and> ids s' = ids s \<and> masterhost s' = None \<and>
     (\<forall>j. c_slots s' j = (if j < REDIS_CLUSTER_SLOTS \<and> c_slots s j = om then myself s else c_slots s j)) \<and>
     (\<exists>me'. heap s' (myself s) = Some me' \<and> nodeIsMaster me' \<and> \<not> nodeIsSlave me' \<and> n_slaveof me' = NULL \<and>
        n_configEpoch me' = c_failover_auth_epoch s)"

lemma won_view:
  assumes "won s om s1" and v: "inv_view s' = inv_view s1" and "masterhost s' = masterhost s1"
    and n: "\<And>n. heap s1 (myself s) = Some n \<Longrightarrow> \<exists>n'. heap s' (myself s) = Some n' \<and> n_flags n' = n_flags n \<and>
      n_slaveof n' = n_slaveof n \<and> n_configEpoch n' = n_configEpoch n"
  shows "won s om s'"
proof -
  obtain n where n1: "heap s1 (myself s) = Some n" "nodeIsMaster n" "\<not> nodeIsSlave n" "n_slaveof n = NULL"
    "n_configEpoch n = c_failover_auth_epoch s" using assms(1) by (auto simp: won_def)
  obtain n' where "heap s' (myself s) = Some n'" "n_flags n' = n_flags n" "n_slaveof n' = n_slaveof n"
    "n_configEpoch n' = n_configEpoch n" using n[OF n1(1)] by blast
  then show ?thesis using n1(2-) assms(1,3) inv_viewD(1,4)[OF v] quiet_view[OF v]
    by (simp add: won_def quiet_def nodeIsMaster_def nodeIsSlave_def)
qed

lemma failover_promote_spec:
  assumes inv: "inv s" and rdy: "bus_ready s" and me: "heap s (myself s) = Some me" "\<not> nodeIsMaster me"
    and om: "n_slaveof me \<noteq> NULL" "n_slaveof me \<noteq> myself s"
  shows "\<exists>s1 s3 s4. clusterSetNodeAsMaster (myself s) s = Some s1 \<and>
     foldM (failover_take_slot (n_slaveof me)) [0..<REDIS_CLUSTER_SLOTS] (replicationUnsetMaster s1) = Some s3 \<and>
     node_upd (myself s3) (\<lambda>me. me\<lparr>n_configEpoch := c_failover_auth_epoch s3\<rparr>) s3 = Some s4 \<and>
     won s (n_slaveof me) s4 \<and> link_view s4 = link_view s"
proof -
  have live: "heap s (n_slaveof me) \<noteq> None" using rdy me om(1) by (auto simp: bus_ready_def me_live_def)
  obtain s1 nd where s1: "clusterSetNodeAsMaster (myself s) s = Some s1" "inv_view s1 = inv_view s" "link_view s1 = link_view s"
    "c_failover_auth_epoch s1 = c_failover_auth_epoch s" and nd: "heap s1 (myself s) = Some nd" "nodeIsMaster nd" "\<not> nodeIsSlave nd"
    "n_slaveof nd = NULL"
    using returnsD[OF clusterSetNodeAsMaster_spec[OF me]] live om by auto
  define s2 where "s2 = replicationUnsetMaster s1"
  have v2: "inv_view s2 = inv_view s" and lv2: "link_view s2 = link_view s" and h2: "heap s2 = heap s1"
    and f2: "c_failover_auth_epoch s2 = c_failover_auth_epoch s" "masterhost s2 = None" "myself s2 = myself s"
    using s1 inv_viewD(4)[OF s1(2)]
    by (simp_all add: s2_def) (simp_all add: replicationUnsetMaster_def Let_def do_log_def ids_def split: option.splits)
  have i2: "inv s2" using quiet_view[OF v2] inv by (simp add: quiet_def)
  have "heap s2 (n_slaveof me) \<noteq> None" using live inv_viewD(6)[OF v2] by simp
  then obtain s3 where s3: "foldM (failover_take_slot (n_slaveof me)) [0..<REDIS_CLUSTER_SLOTS] s2 = Some s3"
    "but_slots s3 = but_slots s2" "c_slots s3 = (\<lambda>k. if k < REDIS_CLUSTER_SLOTS \<and> c_slots s2 k = n_slaveof me then myself s2 else c_slots s2 k)"
    using returnsD[OF failover_take_slots_spec[of s2 "n_slaveof me"]] i2 om nd(1) f2(3) h2 by (auto simp: inv_def)
  have q3: "inv s3" "ids s3 = ids s2"
    using failover_take_slots_quiet[OF s3(1)] i2 by (auto simp: inv_def quiet_def)
  have f3: "c_failover_auth_epoch s3 = c_failover_auth_epoch s" "masterhost s3 = None" "myself s3 = myself s"
    using arg_cong[OF s3(2), of c_failover_auth_epoch] arg_cong[OF s3(2), of masterhost] arg_cong[OF s3(2), of c_myself]
    by (simp_all add: but_slots_def f2)
  obtain nd3 where nd3: "heap s3 (myself s) = Some nd3" "n_flags nd3 = n_flags nd" "n_slaveof nd3 = NULL"
    using but_slots_node[OF s3(2)[symmetric], of "myself s" nd] nd h2 node_but_slots_simps(1,4) by metis
  define s4 where "s4 = s3\<lparr>heap := (heap s3)(myself s \<mapsto> nd3\<lparr>n_configEpoch := c_failover_auth_epoch s\<rparr>)\<rparr>"
  have run4: "node_upd (myself s3) (\<lambda>me. me\<lparr>n_configEpoch := c_failover_auth_epoch s3\<rparr>) s3 = Some s4"
    using nd3 f3 by (simp add: node_upd_def s4_def)
  have v4: "inv_view s4 = inv_view s3" by (rule inv_view_node_upd[OF run4]) simp
  have "link_view s4 = link_view s3" using link_view_upd[OF nd3(1)] by (simp add: s4_def)
  then have lv4: "link_view s4 = link_view s" using but_slots_link_view[OF s3(2)] lv2 by simp
  have "won s (n_slaveof me) s4"
    using quiet_view[OF v4] q3 f3(2) inv_viewD(1,4)[OF v4] inv_viewD(1,4)[OF v2] s3(3) f2(3) nd3 nd(2,3)
    by (simp add: won_def quiet_def s4_def nodeIsMaster_def nodeIsSlave_def)
  then show ?thesis using s1(1) s3(1) run4 lv4 by (auto simp: s2_def)
qed

lemma failover_become_master_ok:
  assumes inv: "inv s" and rdy: "bus_ready s" and me: "heap s (myself s) = Some me" "\<not> nodeIsMaster me"
    and om: "n_slaveof me \<noteq> NULL" "n_slaveof me \<noteq> myself s"
  shows "returns (failover_become_master s) (\<lambda>s'. won s (n_slaveof me) s' \<and> c_mf_end s' = 0 \<and>
     SaveConfig True (c_currentEpoch s) (c_lastVoteEpoch s) \<in> set (effects s'))"
proof -
  obtain s1 s3 s4 where s1: "clusterSetNodeAsMaster (myself s) s = Some s1"
    and s3: "foldM (failover_take_slot (n_slaveof me)) [0..<REDIS_CLUSTER_SLOTS] (replicationUnsetMaster s1) = Some s3"
    and s4: "node_upd (myself s3) (\<lambda>me. me\<lparr>n_configEpoch := c_failover_auth_epoch s3\<rparr>) s3 = Some s4"
    and w4: "won s (n_slaveof me) s4" and lv4: "link_view s4 = link_view s"
    using failover_promote_spec[OF assms] by blast
  have my4: "myself s4 = myself s" using w4 by (simp add: won_def ids_def)
  obtain s5 where s5: "clusterUpdateState s4 = Some s5"
    using w4 my4 by (auto simp: won_def dest: clusterUpdateState_run)
  define s5' where "s5' = clusterSaveConfigOrDie True s5"
  have h5: "heap s5' = heap s4" using clusterUpdateState_heap(1)[OF s5] by (simp add: s5'_def clusterSaveConfigOrDie_fields)
  have v5: "inv_view s5' = inv_view s4" using clusterUpdateState_keeps[OF s5] by (simp add: s5'_def)
  have w5: "won s (n_slaveof me) s5'"
    by (rule won_view[OF w4 v5])
      (auto simp: h5, simp add: s5'_def clusterSaveConfigOrDie_fields clusterUpdateState_heap(4)[OF s5])
  have my5: "myself s5' = myself s" using w5 by (simp add: won_def ids_def)
  have "bus_ready s5'"
  proof (rule bus_ready_link_view[OF _ rdy])
    show "link_view s5' = link_view s" using lv4 clusterUpdateState_heap(2)[OF s5] by (simp add: s5'_def)
    show "me_live s5'" using w5 my5 by (auto simp: won_def me_live_def)
  qed
  then obtain s6 where s6: "clusterBroadcastPong CLUSTER_BROADCAST_ALL s5' = Some s6" and fr: "but_bus s6 = but_bus s5'"
    using returnsD[OF clusterBroadcastPong_returns] by blast
  have fx: "effects s6 = effects s5'" "masterhost s6 = masterhost s5'"
    using arg_cong[OF fr, of effects] arg_cong[OF fr, of masterhost] by (simp_all add: but_bus_def)
  have w6: "won s (n_slaveof me) (resetManualFailover s6)"
  proof (rule won_view[OF w5])
    fix n assume "heap s5' (myself s) = Some n"
    then show "\<exists>n'. heap (resetManualFailover s6) (myself s) = Some n' \<and> n_flags n' = n_flags n \<and>
        n_slaveof n' = n_slaveof n \<and> n_configEpoch n' = n_configEpoch n"
      using but_bus_node[OF fr] ping_sent_eqD(3,5,6) unfolding resetManualFailover_frame by blast
  qed (use fx but_bus_inv_view[OF fr] in \<open>simp_all add: resetManualFailover_frame\<close>)
  have "failover_become_master s = Some (resetManualFailover s6)"
    using me s1 s3 s4 s5 s6 by (simp add: failover_become_master_def deref_def s5'_def)
  moreover have "SaveConfig True (c_currentEpoch s) (c_lastVoteEpoch s) \<in> set (effects s6)"
    using clusterSaveConfigOrDie_fields(5)[of True s5] inv_viewD(4)[OF clusterUpdateState_keeps[OF s5]] w4 fx
    by (simp add: s5'_def won_def ids_def)
  ultimately show ?thesis using w6 by (simp add: wp resetManualFailover_frame)
qed


text \<open>Replica 3 of the failed master 2, elected in epoch 8.\<close>

definition candidate :: server where
  "candidate = electors\<lparr>c_myself := 3, c_failover_auth_epoch := 8, rng := (\<lambda>i. i), c_slots := (c_slots electors)(5 := 2),
     heap := (heap electors)(2 \<mapsto> snd (clusterNodeSetSlotBit
       ((newClusterNode (replicate 40 0x62) (REDIS_NODE_MASTER OR REDIS_NODE_FAIL) 0)\<lparr>n_slaves := [3]\<rparr>) 5))\<rparr>"

lemma candidate_facts:
  "heap candidate 3 = Some ((newClusterNode (replicate 40 0x63) REDIS_NODE_SLAVE 0)\<lparr>n_slaveof := 2\<rparr>)"
  "c_myself candidate = 3" "c_slots candidate 5 = 2" "c_failover_auth_epoch candidate = 8"
  by (simp_all add: candidate_def electors_def)

lemma candidate_inv: "inv candidate"
proof -
  have "5 < REDIS_CLUSTER_SLOTS" by (simp add: REDIS_CLUSTER_SLOTS_def)
  then have "slots_inv candidate"
    using slots_agree_add[of "c_slots electors" "heap electors" 2
        "(newClusterNode (replicate 40 0x62) (REDIS_NODE_MASTER OR REDIS_NODE_FAIL) 0)\<lparr>n_slaves := [3]\<rparr>" 5] electors_slots_inv
    by (simp add: slots_inv_def candidate_def) (simp add: electors_def zero_server_def)
  moreover have "nodes_inv candidate"
    by (simp add: nodes_inv_def candidate_def electors_def zero_server_def newClusterNode_def clusterNodeSetSlotBit_def dictWf_def)
  ultimately show ?thesis
    by (simp add: inv_def alloc_inv_def candidate_def electors_def zero_server_def)
qed

lemma candidate_ready: "bus_ready candidate"
proof -
  have "\<exists>j\<ge>i. j mod 3 = k" if "k < 3" for i k :: nat
    using that by (intro exI[of _ "3 * i + k"]) auto
  then show ?thesis
    by (simp add: bus_ready_def me_live_def table_live_def fair_def candidate_def electors_def zero_server_def
        newClusterNode_def clusterNodeSetSlotBit_def)
qed


subsection \<open>Who may become master\<close>

text \<open>The guards of lines 3584 to 3803 on the way to the promotion.\<close>

definition election_won :: "server \<Rightarrow> bool" where
  "election_won s \<longleftrightarrow> (\<exists>me m. heap s (myself s) = Some me \<and> heap s (n_slaveof me) = Some m \<and>
     \<not> nodeIsMaster me \<and> n_slaveof me \<noteq> NULL \<and> n_numslots m \<noteq> 0 \<and>
     (nodeFailed m \<or> c_mf_end s \<noteq> 0 \<and> c_mf_can_start s) \<and>
     c_failover_auth_sent s \<and> c_failover_auth_count s \<ge> c_size s div 2 + 1 \<and>
     c_failover_auth_time s \<le> mstime s \<and> mstime s - c_failover_auth_time s \<le> failover_auth_timeout s)"

lemma clusterLogCantFailover_heap:
  "clusterLogCantFailover r s = Some s' \<Longrightarrow> heap s' = heap s"
  by (drule clusterLogCantFailover_eq) auto

lemma failover_update_rank_frame:
  assumes "failover_update_rank s = Some s1"
  shows "heap s1 = heap s" "c_failover_auth_sent s1 = c_failover_auth_sent s" "c_failover_auth_count s1 = c_failover_auth_count s"
    "mstime s1 = mstime s" "c_failover_auth_sent s \<Longrightarrow> s1 = s"
  using assms by (auto simp: failover_update_rank_def opt_bind split: if_splits)

text \<open>The ways through \<open>clusterHandleSlaveFailover\<close>: nothing is sent, an attempt is scheduled, votes are requested,
  or the election is won.\<close>

abbreviation failover_enter :: "server \<Rightarrow> server" where
  "failover_enter s \<equiv> s\<lparr>c_todo_before_sleep := c_todo_before_sleep s AND NOT CLUSTER_TODO_HANDLE_FAILOVER\<rparr>"

lemma clusterHandleSlaveFailover_cases:
  assumes run: "clusterHandleSlaveFailover s = Some s'"
  obtains (denied) "s' = (failover_enter s)\<lparr>c_cant_failover_reason := CANT_FAILOVER_NONE\<rparr>"
    | (waiting) r s1 where "s1 = failover_enter s \<or> failover_update_rank (failover_enter s) = Some s1"
        "clusterLogCantFailover r s1 = Some s'"
    | (scheduled) "failover_schedule (failover_enter s) = Some s'"
    | (requested) s1 where "failover_update_rank (failover_enter s) = Some s1" "failover_request_votes s1 = Some s'"
    | (promoted) "election_won s" "failover_become_master (failover_enter s) = Some s'"
proof -
  define t where "t = failover_enter s"
  define manual where "manual \<longleftrightarrow> c_mf_end s \<noteq> 0 \<and> c_mf_can_start s"
  have t: "heap t = heap s" "failover_auth_timeout t = failover_auth_timeout s" "mstime t = mstime s" "myself t = myself s"
    "c_failover_auth_sent t = c_failover_auth_sent s" "c_failover_auth_count t = c_failover_auth_count s"
    "c_failover_auth_time t = c_failover_auth_time s"
    by (simp_all add: t_def failover_auth_timeout_def)
  note run' = run[unfolded clusterHandleSlaveFailover_def Let_def, folded t_def manual_def]
  obtain allowed where al: "failover_allowed manual t = Some allowed"
    using run' by (auto simp: opt_bind)
  show ?thesis
  proof (cases allowed)
    case False
    then show ?thesis using denied run' al by (simp add: t_def)
  next
    case True
    then obtain age where age: "failover_data_age t = Some age" using run' al by (auto simp: opt_bind)
    consider r where "clusterLogCantFailover r t = Some s'" | "failover_schedule t = Some s'"
      | s1 where "failover_update_rank t = Some s1" "\<not> (mstime s - c_failover_auth_time s > failover_auth_timeout t * 2)"
      using run' al age \<open>allowed\<close> by (cases "failover_update_rank t") (auto split: if_splits)
    then show ?thesis
    proof cases
      case (3 s1)
      note f = failover_update_rank_frame[OF 3(1)]
      consider r where "clusterLogCantFailover r s1 = Some s'" | "failover_request_votes s1 = Some s'"
        | "\<not> mstime s1 < c_failover_auth_time s1" "\<not> mstime s - c_failover_auth_time s > failover_auth_timeout t"
          "c_failover_auth_sent s1" "c_failover_auth_count s1 \<ge> c_size s div 2 + 1" "failover_become_master s1 = Some s'"
        | r where "clusterLogCantFailover r t = Some s'"
        using run' al age \<open>allowed\<close> 3 by (auto split: if_splits)
      then show ?thesis
      proof cases
        case 3
        then have s1: "s1 = t" using f by simp
        have "election_won s"
          using 3 al \<open>allowed\<close> unfolding s1
          by (auto simp: election_won_def failover_allowed_def opt_bind deref_def t manual_def not_less split: if_splits)
        then show ?thesis using promoted 3(5) by (simp add: s1 t_def)
      qed (use waiting requested \<open>failover_update_rank t = Some s1\<close> t_def in blast)+
    qed (use waiting scheduled t_def in blast)+
  qed
qed

lemma sends_flags:
  assumes "but_bus s' = but_bus s" and "heap s' p = Some n'"
  shows "\<exists>n. heap s p = Some n \<and> n_flags n = n_flags n'"
  using but_bus_node[OF assms(1)[symmetric] assms(2)] ping_sent_eqD(3) by blast

lemma failover_schedule_flags:
  assumes "failover_schedule s = Some s'" and "heap s' p = Some n'"
  shows "\<exists>n. heap s p = Some n \<and> n_flags n = n_flags n'"
proof -
  obtain t where "clusterBroadcastPong CLUSTER_BROADCAST_LOCAL_SLAVES t = Some s'" "heap t = heap s"
    using assms(1) by (auto simp: failover_schedule_def opt_bind Let_def split: if_splits)
  then show ?thesis using sends_flags[OF clusterBroadcastPong_bus assms(2)] by metis
qed

lemma failover_request_votes_flags:
  assumes "failover_request_votes s = Some s'" and "heap s' p = Some n'"
  shows "\<exists>n. heap s p = Some n \<and> n_flags n = n_flags n'"
proof -
  obtain t t' where "clusterRequestFailoverAuth t = Some t'" "heap t = heap s" "heap s' = heap t'"
    using assms(1) by (auto simp: failover_request_votes_def opt_bind Let_def clusterDoBeforeSleep_def)
  then show ?thesis using sends_flags[OF clusterRequestFailoverAuth_bus] assms(2) by metis
qed


definition elected :: server where
  "elected = candidate\<lparr>c_failover_auth_sent := True, c_failover_auth_count := 2, c_failover_auth_time := 99000,
     repl_state := REPL_CONNECTED, srv_master := Some \<lparr>mc_lastinteraction = 0, mc_reploff = 0\<rparr>\<rparr>"

lemma elected_ready: "inv elected" "bus_ready elected"
  using candidate_inv candidate_ready
  by (simp_all add: elected_def inv_def slots_inv_def nodes_inv_def alloc_inv_def bus_ready_def me_live_def table_live_def fair_def)

lemma elected_run: "clusterHandleSlaveFailover elected = failover_become_master elected"
proof -
  have todo: "elected\<lparr>c_todo_before_sleep := c_todo_before_sleep elected AND NOT CLUSTER_TODO_HANDLE_FAILOVER\<rparr> = elected"
    by (simp add: elected_def candidate_def electors_def zero_server_def)
  have "failover_allowed False elected = Some True"
    by (simp add: failover_allowed_def elected_def candidate_def electors_def zero_server_def deref_def newClusterNode_def
        clusterNodeSetSlotBit_def nodeIsMaster_def nodeFailed_def)
  moreover have "failover_data_age elected = Some 0"
    by (simp add: failover_data_age_def elected_def candidate_def electors_def zero_server_def)
  moreover have "failover_update_rank elected = Some elected"
    by (simp add: failover_update_rank_def elected_def)
  moreover have "c_mf_end elected = 0" "mstime elected = 100000" "c_failover_auth_time elected = 99000"
    "c_failover_auth_count elected = 2" "c_size elected = 2" "failover_auth_timeout elected = 30000" "c_failover_auth_sent elected"
    "repl_ping_slave_period elected = 10" "cluster_node_timeout elected = 15000"
    by (simp_all add: elected_def candidate_def electors_def zero_server_def failover_auth_timeout_def)
  ultimately show ?thesis using todo by (simp add: clusterHandleSlaveFailover_def Let_def)
qed


end
