(* ===== verification/ClusterPacket.thy ===== *)
theory ClusterPacket
  imports ClusterHandshake ClusterPromote
begin

text \<open>
  Processing a received packet (\<open>clusterProcessPacket\<close>), cut at the joints of the source: the checks of
  the header, the epochs, MEET and PING, the node at the other end of the link, addresses and PONG, roles, slots,
  and one definition per remaining type of packet.
  A packet comes decoded, with the length of the receive buffer; reading more than the decoded data is reading past
  the buffer and aborts.
\<close>

subsection \<open>The header\<close>

text \<open>Lines 2074 to 2110. The lengths are 32-bit words: their sum wraps around.\<close>

definition packet_explen :: "clusterMsg \<Rightarrow> u32 option" where
  "packet_explen hdr =
     (let type = m_type hdr in
      if type = CLUSTERMSG_TYPE_PING \<or> type = CLUSTERMSG_TYPE_PONG \<or> type = CLUSTERMSG_TYPE_MEET
      then Some (CLUSTERMSG_MIN_LEN + sizeof_gossip * ucast (m_count hdr))
      else if type = CLUSTERMSG_TYPE_FAIL then Some (CLUSTERMSG_MIN_LEN + sizeof_fail)
      else if type = CLUSTERMSG_TYPE_PUBLISH
      then (case m_data hdr of
              PublishData channel_len message_len bulk_data \<Rightarrow>
                Some (CLUSTERMSG_MIN_LEN + (sizeof_publish + channel_len + message_len))
            | _ \<Rightarrow> None)
      else if type = CLUSTERMSG_TYPE_FAILOVER_AUTH_REQUEST \<or> type = CLUSTERMSG_TYPE_FAILOVER_AUTH_ACK \<or>
              type = CLUSTERMSG_TYPE_MFSTART
      then Some CLUSTERMSG_MIN_LEN
      else if type = CLUSTERMSG_TYPE_UPDATE then Some (CLUSTERMSG_MIN_LEN + sizeof_update)
      else Some (m_totlen hdr))"

definition packet_valid :: "nat \<Rightarrow> clusterMsg \<Rightarrow> bool option" where
  "packet_valid rcvbuf_len hdr =
     (if m_totlen hdr < 16 then Some False
      else if m_ver hdr \<noteq> 0 then Some False
      else if unat (m_totlen hdr) > rcvbuf_len then Some False
      else map_option (\<lambda>explen. m_totlen hdr = explen) (packet_explen hdr))"

subsection \<open>Epochs and offsets of the sender\<close>

text \<open>Lines 2118 to 2148, for a known sender that is not in handshake.\<close>

definition packet_epochs :: "ptr \<Rightarrow> clusterMsg \<Rightarrow> server \<Rightarrow> server option" where
  "packet_epochs sender hdr s = do {
     sd \<leftarrow> deref (heap s) sender;
     let s1 = (if m_currentEpoch hdr > c_currentEpoch s then s\<lparr>c_currentEpoch := m_currentEpoch hdr\<rparr> else s);
     s2 \<leftarrow> (if m_configEpoch hdr > n_configEpoch sd
            then map_option (clusterDoBeforeSleep (CLUSTER_TODO_SAVE_CONFIG OR CLUSTER_TODO_FSYNC_CONFIG))
                   (node_upd sender (\<lambda>n. n\<lparr>n_configEpoch := m_configEpoch hdr\<rparr>) s1)
            else Some s1);
     s3 \<leftarrow> node_upd sender (\<lambda>n. n\<lparr>n_repl_offset := sint (m_offset hdr), n_repl_offset_time := mstime s2\<rparr>) s2;
     me \<leftarrow> deref (heap s3) (myself s3);
     sd \<leftarrow> deref (heap s3) sender;
     Some (if c_mf_end s3 \<noteq> 0 \<and> nodeIsSlave me \<and> n_slaveof me = sender \<and>
              m_mflags0 hdr AND CLUSTERMSG_FLAG0_PAUSED \<noteq> 0 \<and> c_mf_master_offset s3 = 0
           then s3\<lparr>c_mf_master_offset := n_repl_offset sd\<rparr> else s3)
   }"

subsection \<open>MEET and PING\<close>

text \<open>Lines 2170 to 2208: a MEET of an unknown sender enters it in handshake; both are answered.\<close>

definition packet_meet :: "ptr \<Rightarrow> ptr \<Rightarrow> clusterMsg \<Rightarrow> server \<Rightarrow> server option" where
  "packet_meet link sender hdr s =
     (if sender = NULL \<and> m_type hdr = CLUSTERMSG_TYPE_MEET then do {
        let (node, s1) = createClusterNode None REDIS_NODE_HANDSHAKE s;
        l \<leftarrow> deref (links s1) link;
        s2 \<leftarrow> node_upd node (\<lambda>n. n\<lparr>n_ip := l_peer_ip l, n_port := uint (m_port hdr)\<rparr>) s1;
        (_, s3) \<leftarrow> clusterAddNode node s2;
        Some (clusterDoBeforeSleep CLUSTER_TODO_SAVE_CONFIG s3)
      } else Some s)"

definition packet_ping :: "ptr \<Rightarrow> ptr \<Rightarrow> clusterMsg \<Rightarrow> server \<Rightarrow> server option" where
  "packet_ping link sender hdr s = do {
     s1 \<leftarrow> packet_meet link sender hdr s;
     s2 \<leftarrow> clusterProcessGossipSection hdr link s1;
     clusterSendPing link CLUSTERMSG_TYPE_PONG s2
   }"

subsection \<open>The node at the other end of the link\<close>

text \<open>Lines 2221 to 2279. The flag tells whether to go on with the packet; the link is gone otherwise.\<close>

definition packet_handshake :: "ptr \<Rightarrow> ptr \<Rightarrow> clusterMsg \<Rightarrow> server \<Rightarrow> (bool \<times> server) option" where
  "packet_handshake link sender hdr s = do {
     l \<leftarrow> deref (links s) link;
     if l_node l = NULL then Some (True, s)
     else do {
       nd \<leftarrow> deref (heap s) (l_node l);
       if nodeInHandshake nd then
         if sender \<noteq> NULL then do {
           (updated, s1) \<leftarrow> nodeUpdateAddressIfNeeded sender link (uint (m_port hdr)) s;
           let s2 = (if updated then clusterDoBeforeSleep (CLUSTER_TODO_SAVE_CONFIG OR CLUSTER_TODO_UPDATE_STATE) s1
                     else s1);
           l \<leftarrow> deref (links s2) link;
           s3 \<leftarrow> freeClusterNode (l_node l) s2;
           Some (False, s3)
         }
         else do {
           s1 \<leftarrow> clusterRenameNode (l_node l) (m_sender hdr) s;
           s2 \<leftarrow> node_upd (l_node l) (\<lambda>n. n\<lparr>n_flags := (n_flags n AND NOT REDIS_NODE_HANDSHAKE) OR
                    (ucast (m_flags hdr) AND (REDIS_NODE_MASTER OR REDIS_NODE_SLAVE))\<rparr>) s1;
           Some (True, clusterDoBeforeSleep CLUSTER_TODO_SAVE_CONFIG s2)
         }
       else if take REDIS_CLUSTER_NAMELEN (n_name nd) \<noteq> take REDIS_CLUSTER_NAMELEN (m_sender hdr) then do {
         s1 \<leftarrow> node_upd (l_node l) (\<lambda>n. n\<lparr>n_flags := n_flags n OR REDIS_NODE_NOADDR, n_ip := [], n_port := 0\<rparr>) s;
         s2 \<leftarrow> freeClusterLink link s1;
         Some (False, clusterDoBeforeSleep CLUSTER_TODO_SAVE_CONFIG s2)
       }
       else Some (True, s)
     }
   }"

text \<open>Lines 2285 to 2291, and 2295 to 2326.\<close>

definition packet_address :: "ptr \<Rightarrow> ptr \<Rightarrow> clusterMsg \<Rightarrow> server \<Rightarrow> server option" where
  "packet_address link sender hdr s =
     (if sender \<noteq> NULL \<and> m_type hdr = CLUSTERMSG_TYPE_PING then do {
        sd \<leftarrow> deref (heap s) sender;
        if nodeInHandshake sd then Some s
        else do {
          (updated, s1) \<leftarrow> nodeUpdateAddressIfNeeded sender link (uint (m_port hdr)) s;
          Some (if updated then clusterDoBeforeSleep (CLUSTER_TODO_SAVE_CONFIG OR CLUSTER_TODO_UPDATE_STATE) s1 else s1)
        }
      } else Some s)"

definition packet_pong :: "ptr \<Rightarrow> clusterMsg \<Rightarrow> server \<Rightarrow> server option" where
  "packet_pong link hdr s = do {
     l \<leftarrow> deref (links s) link;
     if l_node l \<noteq> NULL \<and> m_type hdr = CLUSTERMSG_TYPE_PONG then do {
       s1 \<leftarrow> node_upd (l_node l) (\<lambda>n. n\<lparr>n_pong_received := mstime s, n_ping_sent := 0\<rparr>) s;
       nd \<leftarrow> deref (heap s1) (l_node l);
       if nodeTimedOut nd then
         map_option (clusterDoBeforeSleep (CLUSTER_TODO_SAVE_CONFIG OR CLUSTER_TODO_UPDATE_STATE))
           (node_upd (l_node l) (\<lambda>n. n\<lparr>n_flags := n_flags n AND NOT REDIS_NODE_PFAIL\<rparr>) s1)
       else if nodeFailed nd then clearNodeFailureIfNeeded (l_node l) s1
       else Some s1
     }
     else Some s
   }"

subsection \<open>The role of the sender\<close>

text \<open>Lines 2351 to 2368: a master turned into a replica gives up its slots and its replicas.\<close>

definition packet_demote :: "ptr \<Rightarrow> server \<Rightarrow> server option" where
  "packet_demote sender s = do {
     (_, s1) \<leftarrow> clusterDelNodeSlots sender s;
     s2 \<leftarrow> node_upd sender (\<lambda>n. n\<lparr>n_flags := (n_flags n AND NOT REDIS_NODE_MASTER) OR REDIS_NODE_SLAVE\<rparr>) s1;
     sd \<leftarrow> deref (heap s2) sender;
     s3 \<leftarrow> (if n_slaves sd \<noteq> [] then clusterNodeResetSlaves sender s2 else Some s2);
     Some (clusterDoBeforeSleep (CLUSTER_TODO_SAVE_CONFIG OR CLUSTER_TODO_UPDATE_STATE) s3)
   }"

text \<open>Lines 2373 to 2387.\<close>

definition packet_set_master :: "ptr \<Rightarrow> ptr \<Rightarrow> server \<Rightarrow> server option" where
  "packet_set_master sender master s = do {
     sd \<leftarrow> deref (heap s) sender;
     if master \<noteq> NULL \<and> n_slaveof sd \<noteq> master then do {
       s1 \<leftarrow> (if n_slaveof sd \<noteq> NULL then map_option snd (clusterNodeRemoveSlave (n_slaveof sd) sender s) else Some s);
       (_, s2) \<leftarrow> clusterNodeAddSlave master sender s1;
       s3 \<leftarrow> node_upd sender (\<lambda>n. n\<lparr>n_slaveof := master\<rparr>) s2;
       Some (clusterDoBeforeSleep CLUSTER_TODO_SAVE_CONFIG s3)
     }
     else Some s
   }"

definition packet_role :: "ptr \<Rightarrow> clusterMsg \<Rightarrow> server \<Rightarrow> server option" where
  "packet_role sender hdr s =
     (if sender = NULL then Some s
      else if m_slaveof hdr = REDIS_NODE_NULL_NAME then clusterSetNodeAsMaster sender s
      else do {
        let master = clusterLookupNode (m_slaveof hdr) s;
        sd \<leftarrow> deref (heap s) sender;
        s1 \<leftarrow> (if nodeIsMaster sd then packet_demote sender s else Some s);
        packet_set_master sender master s1
      })"

subsection \<open>The slots of the sender\<close>

text \<open>Lines 2409 to 2415.\<close>

definition packet_dirty_slots :: "ptr \<Rightarrow> clusterMsg \<Rightarrow> server \<Rightarrow> bool option" where
  "packet_dirty_slots sender hdr s =
     (if sender = NULL then Some False
      else do {
        sd \<leftarrow> deref (heap s) sender;
        let sender_master = (if nodeIsMaster sd then sender else n_slaveof sd);
        if sender_master = NULL then Some False
        else do {
          m \<leftarrow> deref (heap s) sender_master;
          Some (\<not> bitmap_equal (n_slots m) (m_myslots hdr))
        }
      })"

text \<open>Lines 2470 to 2499: the first claimed slot whose owner has a greater epoch; the owner, or \<open>NULL\<close>.\<close>

fun packet_stale_claim :: "nat list \<Rightarrow> ptr \<Rightarrow> u64 \<Rightarrow> bitmap \<Rightarrow> server \<Rightarrow> ptr option" where
  "packet_stale_claim [] sender senderConfigEpoch slots s = Some NULL"
| "packet_stale_claim (j # js) sender senderConfigEpoch slots s =
     (if \<not> bitmapTestBit slots j then packet_stale_claim js sender senderConfigEpoch slots s
      else if c_slots s j = sender \<or> c_slots s j = NULL then packet_stale_claim js sender senderConfigEpoch slots s
      else do {
        owner \<leftarrow> deref (heap s) (c_slots s j);
        if n_configEpoch owner > senderConfigEpoch then Some (c_slots s j)
        else packet_stale_claim js sender senderConfigEpoch slots s
      })"

definition packet_slots :: "ptr \<Rightarrow> u64 \<Rightarrow> clusterMsg \<Rightarrow> server \<Rightarrow> server option" where
  "packet_slots sender senderConfigEpoch hdr s = do {
     dirty_slots \<leftarrow> packet_dirty_slots sender hdr s;
     if sender = NULL then Some s
     else do {
       sd \<leftarrow> deref (heap s) sender;
       s1 \<leftarrow> (if nodeIsMaster sd \<and> dirty_slots
              then clusterUpdateSlotsConfigWith sender senderConfigEpoch (m_myslots hdr) s else Some s);
       s2 \<leftarrow> (if dirty_slots then do {
                stale \<leftarrow> packet_stale_claim [0..<REDIS_CLUSTER_SLOTS] sender senderConfigEpoch (m_myslots hdr) s1;
                if stale = NULL then Some s1
                else do {
                  sd \<leftarrow> deref (heap s1) sender;
                  clusterSendUpdate (n_link sd) stale s1
                }
              } else Some s1);
       me \<leftarrow> deref (heap s2) (myself s2);
       sd \<leftarrow> deref (heap s2) sender;
       if nodeIsMaster me \<and> nodeIsMaster sd \<and> senderConfigEpoch = n_configEpoch me
       then clusterHandleConfigEpochCollision sender s2 else Some s2
     }
   }"

text \<open>Lines 2213 to 2514.\<close>

definition packet_ping_pong :: "ptr \<Rightarrow> ptr \<Rightarrow> u64 \<Rightarrow> clusterMsg \<Rightarrow> server \<Rightarrow> (bool \<times> server) option" where
  "packet_ping_pong link sender senderConfigEpoch hdr s = do {
     (go_on, s1) \<leftarrow> packet_handshake link sender hdr s;
     if \<not> go_on then Some (False, s1)
     else do {
       s2 \<leftarrow> packet_address link sender hdr s1;
       s3 \<leftarrow> packet_pong link hdr s2;
       s4 \<leftarrow> packet_role sender hdr s3;
       s5 \<leftarrow> packet_slots sender senderConfigEpoch hdr s4;
       s6 \<leftarrow> clusterProcessGossipSection hdr link s5;
       Some (True, s6)
     }
   }"

subsection \<open>The other types\<close>

text \<open>Lines 2519 to 2546.\<close>

definition packet_fail :: "ptr \<Rightarrow> clusterMsg \<Rightarrow> server \<Rightarrow> server option" where
  "packet_fail sender hdr s =
     (if sender = NULL then Some s
      else (case m_data hdr of
        FailData nodename \<Rightarrow>
          let failing = clusterLookupNode nodename s
          in if failing = NULL then Some s
             else do {
               nd \<leftarrow> deref (heap s) failing;
               if n_flags nd AND (REDIS_NODE_FAIL OR REDIS_NODE_MYSELF) \<noteq> 0 then Some s
               else map_option (clusterDoBeforeSleep (CLUSTER_TODO_SAVE_CONFIG OR CLUSTER_TODO_UPDATE_STATE))
                 (node_upd failing (\<lambda>n. n\<lparr>n_flags := (n_flags n OR REDIS_NODE_FAIL) AND NOT REDIS_NODE_PFAIL,
                                         n_fail_time := mstime s\<rparr>) s)
             }
      | _ \<Rightarrow> None))"

text \<open>Lines 2550 to 2578.\<close>

definition packet_publish :: "clusterMsg \<Rightarrow> server \<Rightarrow> server option" where
  "packet_publish hdr s =
     (if num_pubsub s = 0 then Some s
      else (case m_data hdr of
        PublishData channel_len message_len bulk_data \<Rightarrow> do {
          redisAssert (unat channel_len + unat message_len \<le> length bulk_data);
          Some (do_log (PublishMessage (take (unat channel_len) bulk_data)
                                       (take (unat message_len) (drop (unat channel_len) bulk_data))) s)
        }
      | _ \<Rightarrow> None))"

text \<open>Lines 2589 to 2608.\<close>

definition packet_auth_ack :: "ptr \<Rightarrow> u64 \<Rightarrow> server \<Rightarrow> server option" where
  "packet_auth_ack sender senderCurrentEpoch s =
     (if sender = NULL then Some s
      else do {
        sd \<leftarrow> deref (heap s) sender;
        if nodeIsMaster sd \<and> n_numslots sd > 0 \<and> senderCurrentEpoch \<ge> c_failover_auth_epoch s
        then Some (clusterDoBeforeSleep CLUSTER_TODO_HANDLE_FAILOVER
               (s\<lparr>c_failover_auth_count := c_failover_auth_count s + 1\<rparr>))
        else Some s
      })"

text \<open>Lines 2614 to 2630.\<close>

definition packet_mfstart :: "ptr \<Rightarrow> server \<Rightarrow> server option" where
  "packet_mfstart sender s =
     (if sender = NULL then Some s
      else do {
        sd \<leftarrow> deref (heap s) sender;
        if n_slaveof sd \<noteq> myself s then Some s
        else let s1 = resetManualFailover s
             in Some (pauseClients (mstime s1 + REDIS_CLUSTER_MF_TIMEOUT * 2)
                  (s1\<lparr>c_mf_end := mstime s1 + REDIS_CLUSTER_MF_TIMEOUT, c_mf_slave := sender\<rparr>))
      })"

text \<open>Lines 2632 to 2661.\<close>

definition packet_update :: "ptr \<Rightarrow> clusterMsg \<Rightarrow> server \<Rightarrow> server option" where
  "packet_update sender hdr s =
     (case m_data hdr of
        UpdateData reportedConfigEpoch nodename slots \<Rightarrow>
          if sender = NULL then Some s
          else let n = clusterLookupNode nodename s
               in if n = NULL then Some s
                  else do {
                    nd \<leftarrow> deref (heap s) n;
                    if n_configEpoch nd \<ge> reportedConfigEpoch then Some s
                    else do {
                      s1 \<leftarrow> (if nodeIsSlave nd then clusterSetNodeAsMaster n s else Some s);
                      s2 \<leftarrow> node_upd n (\<lambda>n. n\<lparr>n_configEpoch := reportedConfigEpoch\<rparr>) s1;
                      clusterUpdateSlotsConfigWith n reportedConfigEpoch slots
                        (clusterDoBeforeSleep (CLUSTER_TODO_SAVE_CONFIG OR CLUSTER_TODO_FSYNC_CONFIG) s2)
                    }
                  }
      | _ \<Rightarrow> None)"

subsection \<open>clusterProcessPacket\<close>

text \<open>The type of the packet, for a packet past the checks of the header.\<close>

definition packet_dispatch :: "ptr \<Rightarrow> ptr \<Rightarrow> u64 \<Rightarrow> u64 \<Rightarrow> clusterMsg \<Rightarrow> server \<Rightarrow> (bool \<times> server) option" where
  "packet_dispatch link sender senderCurrentEpoch senderConfigEpoch hdr s =
     (let type = m_type hdr in
      if type = CLUSTERMSG_TYPE_PING \<or> type = CLUSTERMSG_TYPE_PONG \<or> type = CLUSTERMSG_TYPE_MEET then do {
        s1 \<leftarrow> (if type = CLUSTERMSG_TYPE_PING \<or> type = CLUSTERMSG_TYPE_MEET then packet_ping link sender hdr s else Some s);
        packet_ping_pong link sender senderConfigEpoch hdr s1
      }
      else map_option (Pair True)
       (if type = CLUSTERMSG_TYPE_FAIL then packet_fail sender hdr s
        else if type = CLUSTERMSG_TYPE_PUBLISH then packet_publish hdr s
        else if type = CLUSTERMSG_TYPE_FAILOVER_AUTH_REQUEST then
          (if sender = NULL then Some s else clusterSendFailoverAuthIfNeeded sender hdr s)
        else if type = CLUSTERMSG_TYPE_FAILOVER_AUTH_ACK then packet_auth_ack sender senderCurrentEpoch s
        else if type = CLUSTERMSG_TYPE_MFSTART then packet_mfstart sender s
        else if type = CLUSTERMSG_TYPE_UPDATE then packet_update sender hdr s
        else Some s))"

definition clusterProcessPacket :: "ptr \<Rightarrow> nat \<Rightarrow> clusterMsg \<Rightarrow> server \<Rightarrow> (bool \<times> server) option" where
  "clusterProcessPacket link rcvbuf_len hdr s0 = do {
     let s = s0\<lparr>c_stats_bus_messages_received := c_stats_bus_messages_received s0 + 1\<rparr>;
     valid \<leftarrow> packet_valid rcvbuf_len hdr;
     if \<not> valid then Some (True, s)
     else do {
       let sender = clusterLookupNode (m_sender hdr) s;
       known \<leftarrow> (if sender = NULL then Some False
                 else map_option (\<lambda>sd. \<not> nodeInHandshake sd) (deref (heap s) sender));
       if known then do {
         s1 \<leftarrow> packet_epochs sender hdr s;
         packet_dispatch link sender (m_currentEpoch hdr) (m_configEpoch hdr) hdr s1
       }
       else packet_dispatch link sender 0 0 hdr s
     }
   }"

subsection \<open>Every packet keeps the invariant\<close>

lemma packet_epochs_advance:
  assumes run: "packet_epochs sender hdr s = Some s'" and inv: "sound s"
  shows "advance s s' \<and>
    c_currentEpoch s' = max (c_currentEpoch s) (m_currentEpoch hdr) \<and> c_nodes s' = c_nodes s"
proof -
  define s1 where "s1 = (if m_currentEpoch hdr > c_currentEpoch s then s\<lparr>c_currentEpoch := m_currentEpoch hdr\<rparr> else s)"
  have a1: "advance s s1"
    using advance_epoch[OF inv, of "m_currentEpoch hdr"] calm_advance[OF calm_refl[OF inv]] by (simp add: s1_def)
  note i1 = advance_sound[OF a1]
  obtain sd s2 s3 and me sd' :: clusterNode where sd: "heap s sender = Some sd"
    and s2: "(if m_configEpoch hdr > n_configEpoch sd
            then map_option (clusterDoBeforeSleep (CLUSTER_TODO_SAVE_CONFIG OR CLUSTER_TODO_FSYNC_CONFIG))
                   (node_upd sender (\<lambda>n. n\<lparr>n_configEpoch := m_configEpoch hdr\<rparr>) s1)
            else Some s1) = Some s2"
    and s3: "node_upd sender (\<lambda>n. n\<lparr>n_repl_offset := sint (m_offset hdr), n_repl_offset_time := mstime s2\<rparr>) s2 = Some s3"
    and s4: "s' = (if c_mf_end s3 \<noteq> 0 \<and> nodeIsSlave me \<and> n_slaveof me = sender \<and>
              m_mflags0 hdr AND CLUSTERMSG_FLAG0_PAUSED \<noteq> 0 \<and> c_mf_master_offset s3 = 0
           then s3\<lparr>c_mf_master_offset := n_repl_offset sd'\<rparr> else s3)"
    using run unfolding packet_epochs_def Let_def s1_def[symmetric] opt_bind deref_def by blast
  have s': "s' = s3 \<or> (\<exists>t. s' = s3\<lparr>c_mf_master_offset := t\<rparr>)" using if_eqD[OF s4] by blast
  have v2: "inv_view s2 = inv_view s1" using s2 by (auto split: if_splits dest!: inv_view_node_upd)
  have h2: "hs_view s2 = hs_view s1" using s2 by (auto split: if_splits dest!: hs_view_node_upd)
  have v3: "inv_view s3 = inv_view s2" "hs_view s3 = hs_view s2"
    using inv_view_node_upd[OF s3] hs_view_node_upd[OF s3] by (simp_all add: node_view_def)
  have v: "inv_view s' = inv_view s1" "hs_view s' = hs_view s1" using v2 h2 v3 s' by auto
  have c: "calm s1 s'" by (rule calm_view[OF i1 v])
  have "c_currentEpoch s' = max (c_currentEpoch s) (m_currentEpoch hdr)"
    using inv_viewD(4)[OF v(1)] by (auto simp: ids_def s1_def max_def)
  moreover have "c_nodes s' = c_nodes s" using inv_viewD(2)[OF v(1)] by (simp add: s1_def)
  ultimately show ?thesis using advance_trans[OF a1 calm_advance[OF c]] by simp
qed

lemma packet_meet_calm:
  assumes run: "packet_meet link sender hdr s = Some s'" and inv: "sound s"
  shows "calm s s'"
proof (cases "sender = NULL \<and> m_type hdr = CLUSTERMSG_TYPE_MEET")
  case True
  obtain node s1 where c: "createClusterNode None REDIS_NODE_HANDSHAKE s = (node, s1)" by fastforce
  obtain ip s2 r s3 where u: "node_upd node (\<lambda>n. n\<lparr>n_ip := ip, n_port := uint (m_port hdr)\<rparr>) s1 = Some s2"
    and a: "clusterAddNode node s2 = Some (r, s3)" and s': "s' = clusterDoBeforeSleep 4 s3"
    using run True c by (auto simp: packet_meet_def opt_bind)
  have "calm s s1" by (rule createClusterNode_calm[OF c inv])
  moreover have "sound s1 \<Longrightarrow> calm s1 s2" by (rule node_upd_calm[OF u]) simp_all
  moreover have "sound s2 \<Longrightarrow> calm s2 s3" by (rule clusterAddNode_calm[OF a])
  moreover have "sound s3 \<Longrightarrow> calm s3 s'" by (rule calm_view) (simp_all add: s')
  ultimately show ?thesis using calm_trans by blast
qed (use run inv in \<open>auto simp: packet_meet_def calm_refl\<close>)

lemma clusterSendPing_calm: "clusterSendPing l ty s = Some s' \<Longrightarrow> ty \<noteq> CLUSTERMSG_TYPE_FAILOVER_AUTH_ACK \<Longrightarrow> sound s \<Longrightarrow> calm s s'"
  by (rule calm_view) (auto dest: sends_keep(3) sends_tidily(7))

lemma packet_ping_calm:
  assumes run: "packet_ping link sender hdr s = Some s'" and inv: "sound s"
  shows "calm s s'"
proof -
  obtain s1 s2 where "packet_meet link sender hdr s = Some s1" "clusterProcessGossipSection hdr link s1 = Some s2"
    and p: "clusterSendPing link CLUSTERMSG_TYPE_PONG s2 = Some s'"
    using run by (auto simp: packet_ping_def opt_bind)
  then have c: "calm s s2" using calm_trans[OF packet_meet_calm[OF _ inv] clusterProcessGossipSection_calm] by blast
  have "calm s2 s'" by (rule clusterSendPing_calm[OF p _ calm_sound[OF c]]) simp
  then show ?thesis using calm_trans[OF c] by blast
qed

lemma packet_handshake_cases:
  assumes "packet_handshake link sender hdr s = Some (r, s')"
  obtains (skip) "s' = s" "r"
    | (known) l nd u s1 l' where "links s link = Some l" "heap s (l_node l) = Some nd" "nodeInHandshake nd"
        "nodeUpdateAddressIfNeeded sender link (uint (m_port hdr)) s = Some (u, s1)"
        "links s1 link = Some l'"
        "freeClusterNode (l_node l') (if u then clusterDoBeforeSleep (CLUSTER_TODO_SAVE_CONFIG OR CLUSTER_TODO_UPDATE_STATE) s1
           else s1) = Some s'" "\<not> r"
    | (fresh) l s1 s2 where "links s link = Some l" "clusterRenameNode (l_node l) (m_sender hdr) s = Some s1"
        "node_upd (l_node l) (\<lambda>n. n\<lparr>n_flags := (n_flags n AND NOT REDIS_NODE_HANDSHAKE) OR
                    (ucast (m_flags hdr) AND (REDIS_NODE_MASTER OR REDIS_NODE_SLAVE))\<rparr>) s1 = Some s2"
        "s' = clusterDoBeforeSleep CLUSTER_TODO_SAVE_CONFIG s2" "r"
    | (mismatch) l s1 s2 where "links s link = Some l"
        "node_upd (l_node l) (\<lambda>n. n\<lparr>n_flags := n_flags n OR REDIS_NODE_NOADDR, n_ip := [], n_port := 0\<rparr>) s = Some s1"
        "freeClusterLink link s1 = Some s2" "s' = clusterDoBeforeSleep CLUSTER_TODO_SAVE_CONFIG s2" "\<not> r"
proof -
  obtain l where l: "links s link = Some l" using assms by (auto simp: packet_handshake_def opt_bind deref_def)
  show ?thesis
  proof (cases "l_node l = NULL")
    case True
    then show ?thesis using assms l skip by (simp add: packet_handshake_def deref_def)
  next
    case linked: False
    then obtain nd where nd: "heap s (l_node l) = Some nd" using assms l by (auto simp: packet_handshake_def opt_bind deref_def)
    consider "nodeInHandshake nd" "sender \<noteq> NULL" | "nodeInHandshake nd" "sender = NULL"
      | "\<not> nodeInHandshake nd" "take 40 (n_name nd) \<noteq> take 40 (m_sender hdr)"
      | "\<not> nodeInHandshake nd" "take 40 (n_name nd) = take 40 (m_sender hdr)" by blast
    then show ?thesis
    proof cases
      case 1
      have run: "(nodeUpdateAddressIfNeeded sender link (uint (m_port hdr)) s \<bind> (\<lambda>(updated, s1). do {
           let s2 = (if updated then clusterDoBeforeSleep (CLUSTER_TODO_SAVE_CONFIG OR CLUSTER_TODO_UPDATE_STATE) s1 else s1);
           l \<leftarrow> deref (links s2) link;
           s3 \<leftarrow> freeClusterNode (l_node l) s2;
           Some (False, s3)
         })) = Some (r, s')"
        using assms l linked nd 1 by (simp add: packet_handshake_def deref_def)
      then obtain u s1 where u: "nodeUpdateAddressIfNeeded sender link (uint (m_port hdr)) s = Some (u, s1)"
        by (cases "nodeUpdateAddressIfNeeded sender link (uint (m_port hdr)) s") auto
      define s2 where "s2 = (if u then clusterDoBeforeSleep (CLUSTER_TODO_SAVE_CONFIG OR CLUSTER_TODO_UPDATE_STATE) s1 else s1)"
      have "links s2 = links s1" by (simp add: s2_def clusterDoBeforeSleep_def)
      moreover obtain l' where "links s2 link = Some l'" "freeClusterNode (l_node l') s2 = Some s'" "\<not> r"
        using run unfolding u by (auto simp: opt_bind deref_def Let_def simp flip: s2_def)
      ultimately show ?thesis using known[OF l nd 1(1) u] by (simp add: s2_def)
    next
      case 2
      then show ?thesis using assms l linked nd fresh[OF l] by (auto simp: packet_handshake_def opt_bind deref_def)
    next
      case 3
      then show ?thesis using assms l linked nd mismatch[OF l] by (auto simp: packet_handshake_def opt_bind deref_def)
    next
      case 4
      then show ?thesis using assms l linked nd skip by (simp add: packet_handshake_def deref_def)
    qed
  qed
qed

lemma nodeUpdateAddressIfNeeded_calm:
  "nodeUpdateAddressIfNeeded p l port s = Some (u, s') \<Longrightarrow> sound s \<Longrightarrow> calm s s'"
  by (rule calm_view) (auto dest: nodeUpdateAddressIfNeeded_keeps nodeUpdateAddressIfNeeded_tidily)

lemma clusterDoBeforeSleep_calm: "sound s \<Longrightarrow> calm s (clusterDoBeforeSleep f s)"
  by (rule calm_view) simp_all

text \<open>The address update keeps what a link points at, unless it frees the link.\<close>

lemma nodeUpdateAddressIfNeeded_link:
  assumes "nodeUpdateAddressIfNeeded p l port s = Some (u, s')" and "links s' k = Some lk"
  shows "links s k = Some lk"
proof (cases "s' = s")
  case False
  obtain n lk0 where n: "heap s p = Some n" "links s l = Some lk0" "l \<noteq> n_link n" "\<not> (n_port n = port \<and> l_peer_ip lk0 = n_ip n)"
    using assms(1) False by (auto simp: nodeUpdateAddressIfNeeded_def opt_bind deref_def Let_def split: if_splits)
  define s1 where "s1 = s\<lparr>heap := (heap s)(p \<mapsto> n\<lparr>n_ip := l_peer_ip lk0, n_port := port\<rparr>)\<rparr>"
  have run: "((if n_link n \<noteq> NULL then freeClusterLink (n_link n) s1 else Some s1) \<bind> (\<lambda>s2. do {
         me \<leftarrow> deref (heap s2) (myself s2);
         Some (True, if nodeIsSlave me \<and> n_slaveof me = p then replicationSetMaster (l_peer_ip lk0) port s2 else s2)
       })) = Some (u, s')"
    using assms(1) n unfolding nodeUpdateAddressIfNeeded_def deref_def node_upd_def s1_def Let_def
    by (simp split del: if_split)
  then obtain s2 where s2: "(if n_link n \<noteq> NULL then freeClusterLink (n_link n) s1 else Some s1) = Some s2"
    by (cases "if n_link n \<noteq> NULL then freeClusterLink (n_link n) s1 else Some s1") auto
  have s': "s' = s2 \<or> s' = replicationSetMaster (l_peer_ip lk0) port s2"
    using run unfolding s2 by (auto simp: opt_bind split: if_splits)
  have "links s2 = links s1 \<or> links s2 = (links s1)(n_link n := None)"
    using s2 by (auto simp: freeClusterLink_def opt_bind node_upd_def split: if_splits option.splits)
  moreover have "links s' = links s2" using s' by (auto simp: replicationSetMaster_def do_log_def)
  ultimately show ?thesis using assms(2) by (auto simp: s1_def split: if_splits)
qed (use assms(2) in simp)

lemma packet_handshake_calm:
  assumes run: "packet_handshake link sender hdr s = Some (r, s')" and inv: "sound s"
  shows "calm s s'"
  using run
proof (cases rule: packet_handshake_cases)
  case skip
  then show ?thesis by (simp add: calm_refl[OF inv])
next
  case (known l nd u s1 l')
  have "l' = l" using nodeUpdateAddressIfNeeded_link[OF known(4,5)] known(1) by simp
  define s2 where "s2 = (if u then clusterDoBeforeSleep (CLUSTER_TODO_SAVE_CONFIG OR CLUSTER_TODO_UPDATE_STATE) s1 else s1)"
  have v: "hs_view s2 = hs_view s" using nodeUpdateAddressIfNeeded_tidily[OF known(4)] by (simp add: s2_def)
  have c1: "calm s s1" by (rule nodeUpdateAddressIfNeeded_calm[OF known(4) inv])
  have c2: "sound s1 \<Longrightarrow> calm s1 s2" by (simp add: s2_def clusterDoBeforeSleep_calm calm_refl)
  have "nodeInHandshake n" if "heap s2 (l_node l') = Some n" for n
    using hs_view_node[OF v known(2)] known(3) that \<open>l' = l\<close> by auto
  then have "sound s2 \<Longrightarrow> calm s2 s'" using freeClusterNode_calm[OF known(6)[folded s2_def]] by blast
  then show ?thesis using calm_trans[OF calm_trans[OF c1 c2]] by blast
next
  case (fresh l s1 s2)
  have "calm s s1" by (rule clusterRenameNode_calm[OF fresh(2) inv])
  moreover have "sound s1 \<Longrightarrow> calm s1 s2"
    by (rule node_upd_calm[OF fresh(3)]) (simp_all add: bit_and_iff bit_or_iff)
  moreover have "sound s2 \<Longrightarrow> calm s2 s'" using clusterDoBeforeSleep_calm fresh(4) by simp
  ultimately show ?thesis using calm_trans by blast
next
  case (mismatch l s1 s2)
  have "calm s s1"
    by (rule node_upd_calm[OF mismatch(2) inv]) (simp_all add: node_view_def handshake_bit_flags)
  moreover have "sound s1 \<Longrightarrow> calm s1 s2"
    by (rule calm_view[OF _ freeClusterLink_keeps[OF mismatch(3)] freeClusterLink_tidily[OF mismatch(3)]])
  moreover have "sound s2 \<Longrightarrow> calm s2 s'" using clusterDoBeforeSleep_calm mismatch(4) by simp
  ultimately show ?thesis using calm_trans by blast
qed

lemma packet_address_calm:
  assumes run: "packet_address link sender hdr s = Some s'" and inv: "sound s"
  shows "calm s s'"
proof (cases "s' = s")
  case False
  then obtain u s1 where u: "nodeUpdateAddressIfNeeded sender link (uint (m_port hdr)) s = Some (u, s1)"
    and s': "s' = s1 \<or> (\<exists>f. s' = clusterDoBeforeSleep f s1)"
    using run by (auto simp: packet_address_def opt_bind split: if_splits)
  have "sound s1 \<Longrightarrow> calm s1 s'" using s' by (auto simp: clusterDoBeforeSleep_calm calm_refl)
  then show ?thesis by (rule calm_trans[OF nodeUpdateAddressIfNeeded_calm[OF u inv]])
qed (simp add: calm_refl[OF inv])

lemma packet_pong_calm:
  assumes run: "packet_pong link hdr s = Some s'" and inv: "sound s"
  shows "calm s s'"
proof (cases "s' = s")
  case False
  obtain l where l: "deref (links s) link = Some l" using run unfolding packet_pong_def by (elim bind_SomeE)
  have guard: "l_node l \<noteq> NULL \<and> m_type hdr = CLUSTERMSG_TYPE_PONG"
    using run False unfolding packet_pong_def l by (auto split: if_splits)
  obtain s1 where s1: "node_upd (l_node l) (\<lambda>n. n\<lparr>n_pong_received := mstime s, n_ping_sent := 0\<rparr>) s = Some s1"
    and rest: "(deref (heap s1) (l_node l) \<bind> (\<lambda>nd. if nodeTimedOut nd
       then map_option (clusterDoBeforeSleep (CLUSTER_TODO_SAVE_CONFIG OR CLUSTER_TODO_UPDATE_STATE))
           (node_upd (l_node l) (\<lambda>n. n\<lparr>n_flags := n_flags n AND NOT REDIS_NODE_PFAIL\<rparr>) s1)
       else if nodeFailed nd then clearNodeFailureIfNeeded (l_node l) s1
       else Some s1)) = Some s'"
    using run unfolding packet_pong_def l Option.bind.bind_lunit if_P[OF guard] by (rule bind_SomeE)
  define p where "p = l_node l"
  note s1 = s1[folded p_def] and rest = rest[folded p_def]
  have s': "s' = s1 \<or> clearNodeFailureIfNeeded p s1 = Some s' \<or>
      (\<exists>f s2. node_upd p (\<lambda>n. n\<lparr>n_flags := n_flags n AND NOT REDIS_NODE_PFAIL\<rparr>) s1 = Some s2 \<and> s' = clusterDoBeforeSleep f s2)"
    using rest by (auto simp: opt_bind split: if_splits)
  have c1: "calm s s1" by (rule node_upd_calm[OF s1 inv]) (simp_all add: node_view_def)
  have "calm s1 s'" if "node_upd p (\<lambda>n. n\<lparr>n_flags := n_flags n AND NOT REDIS_NODE_PFAIL\<rparr>) s1 = Some s2"
    and "s' = clusterDoBeforeSleep f s2" for s2 f
  proof -
    have "calm s1 s2" by (rule node_upd_calm[OF that(1) calm_sound[OF c1]]) (simp_all add: handshake_bit_flags)
    then show ?thesis using calm_trans clusterDoBeforeSleep_calm that(2) by blast
  qed
  moreover have "calm s1 s'" if "clearNodeFailureIfNeeded p s1 = Some s'"
    by (rule calm_view[OF calm_sound[OF c1] clearNodeFailureIfNeeded_keeps[OF that] clearNodeFailureIfNeeded_tidily[OF that]])
  ultimately have "calm s1 s'" using s' calm_refl[OF calm_sound[OF c1]] by auto
  then show ?thesis using calm_trans[OF c1] by blast
qed (simp add: calm_refl[OF inv])

lemma clusterNodeResetSlaves_calm: "clusterNodeResetSlaves p s = Some s' \<Longrightarrow> sound s \<Longrightarrow> calm s s'"
  by (rule calm_view) (auto dest: clusterNodeResetSlaves_keeps clusterNodeResetSlaves_tidily)

lemma packet_demote_calm:
  assumes run: "packet_demote sender s = Some s'" and inv: "sound s" and sd: "known sender s"
  shows "calm s s'"
proof -
  obtain d s1 s2 s3 where s1: "clusterDelNodeSlots sender s = Some (d, s1)"
    and s2: "node_upd sender (\<lambda>n. n\<lparr>n_flags := (n_flags n AND NOT REDIS_NODE_MASTER) OR REDIS_NODE_SLAVE\<rparr>) s1 = Some s2"
    and s3: "s3 = s2 \<or> clusterNodeResetSlaves sender s2 = Some s3"
    and s': "\<exists>f. s' = clusterDoBeforeSleep f s3"
    using run by (auto simp: packet_demote_def opt_bind split: if_splits)
  have "calm s s1" by (rule clusterDelNodeSlots_calm[OF s1 inv sd])
  moreover have "sound s1 \<Longrightarrow> calm s1 s2"
    by (rule node_upd_calm[OF s2]) (simp_all add: handshake_bit_flags)
  moreover have "sound s2 \<Longrightarrow> calm s2 s3"
    using s3 clusterNodeResetSlaves_calm calm_refl by auto
  moreover have "sound s3 \<Longrightarrow> calm s3 s'" using s' clusterDoBeforeSleep_calm by auto
  ultimately show ?thesis using calm_trans by blast
qed

lemma packet_set_master_calm:
  assumes run: "packet_set_master sender master s = Some s'" and inv: "sound s"
  shows "calm s s'"
proof -
  have "inv_view s' = inv_view s"
    using run by (auto simp: packet_set_master_def opt_bind node_view_def split: if_splits
        dest!: inv_view_node_upd clusterNodeRemoveSlave_keeps clusterNodeAddSlave_keeps)
  moreover have "hs_view s' = hs_view s"
    using run by (auto simp: packet_set_master_def opt_bind split: if_splits
        dest!: hs_view_node_upd clusterNodeRemoveSlave_tidily clusterNodeAddSlave_tidily)
  ultimately show ?thesis by (rule calm_view[OF inv])
qed

lemma clusterSetNodeAsMaster_calm: "clusterSetNodeAsMaster p s = Some s' \<Longrightarrow> sound s \<Longrightarrow> calm s s'"
  by (rule calm_view) (auto dest: clusterSetNodeAsMaster_keeps clusterSetNodeAsMaster_tidily)

lemma packet_role_calm:
  assumes run: "packet_role sender hdr s = Some s'" and inv: "sound s" and sd: "sender \<noteq> NULL \<Longrightarrow> known sender s"
  shows "calm s s'"
proof (cases "sender = NULL \<or> m_slaveof hdr = REDIS_NODE_NULL_NAME")
  case True
  then show ?thesis using run inv clusterSetNodeAsMaster_calm calm_refl by (auto simp: packet_role_def split: if_splits)
next
  case False
  then obtain m s1 where s1: "s1 = s \<or> packet_demote sender s = Some s1" and s': "packet_set_master sender m s1 = Some s'"
    using run by (auto simp: packet_role_def opt_bind split: if_splits)
  have "calm s s1" using s1 packet_demote_calm[OF _ inv sd] calm_refl[OF inv] False by auto
  then show ?thesis using packet_set_master_calm[OF s'] calm_trans by blast
qed

lemma clusterHandleConfigEpochCollision_advance:
  assumes run: "clusterHandleConfigEpochCollision p s = Some s'" and inv: "sound s" and room: "c_currentEpoch s \<noteq> - 1"
  shows "advance s s'"
proof (cases "s' = s")
  case False
  then obtain s2 where u: "node_upd (myself s) (\<lambda>me. me\<lparr>n_configEpoch := c_currentEpoch s + 1\<rparr>)
      (s\<lparr>c_currentEpoch := c_currentEpoch s + 1\<rparr>) = Some s2" and s': "s' = clusterSaveConfigOrDie True s2"
    using run by (auto simp: clusterHandleConfigEpochCollision_def opt_bind split: if_splits)
  let ?s1 = "s\<lparr>c_currentEpoch := c_currentEpoch s + 1\<rparr>"
  have le: "c_currentEpoch s \<le> c_currentEpoch s + 1" using word_less_Suc[OF order_refl room] by simp
  note a1 = advance_epoch[OF inv le]
  have "calm ?s1 s2" by (rule node_upd_calm[OF u advance_sound[OF a1]]) simp_all
  moreover have "sound s2 \<Longrightarrow> calm s2 s'" by (rule calm_view) (simp_all add: s')
  ultimately show ?thesis using calm_trans[of ?s1 s2 s'] calm_advance advance_trans[OF a1] by blast
qed (simp add: calm_advance[OF calm_refl[OF inv]])

lemma clusterSendUpdate_calm: "clusterSendUpdate l n s = Some s' \<Longrightarrow> sound s \<Longrightarrow> calm s s'"
  by (rule calm_view) (auto dest: sends_keep(7) sends_tidily(3))

lemma packet_slots_advance:
  assumes run: "packet_slots sender e hdr s = Some s'" and inv: "sound s" and sd: "sender \<noteq> NULL \<Longrightarrow> known sender s"
    and room: "c_currentEpoch s \<noteq> - 1"
  shows "advance s s'"
proof (cases "sender = NULL")
  case True
  then show ?thesis using run calm_advance[OF calm_refl[OF inv]] by (auto simp: packet_slots_def opt_bind)
next
  case False
  obtain s1 s2 where s1: "s1 = s \<or> clusterUpdateSlotsConfigWith sender e (m_myslots hdr) s = Some s1"
    and s2: "s2 = s1 \<or> (\<exists>l p. clusterSendUpdate l p s1 = Some s2)"
    and s': "s' = s2 \<or> clusterHandleConfigEpochCollision sender s2 = Some s'"
    using run False by (auto simp: packet_slots_def opt_bind split: if_splits)
  have "calm s s1" using s1 clusterUpdateSlotsConfigWith_calm[OF _ inv sd] calm_refl[OF inv] False by auto
  moreover have "sound s1 \<Longrightarrow> calm s1 s2" using s2 clusterSendUpdate_calm calm_refl by auto
  ultimately have c: "calm s s2" using calm_trans by blast
  then have "c_currentEpoch s2 \<noteq> - 1" using room by (simp add: calm_def ids_def)
  then have "sound s2 \<Longrightarrow> advance s2 s'"
    using s' clusterHandleConfigEpochCollision_advance calm_advance[OF calm_refl] by auto
  then show ?thesis using advance_trans[OF calm_advance[OF c]] by blast
qed

lemma packet_ping_pong_advance:
  assumes run: "packet_ping_pong link sender e hdr s = Some (r, s')" and inv: "sound s"
    and sd: "sender \<noteq> NULL \<Longrightarrow> known sender s" and room: "c_currentEpoch s \<noteq> - 1"
  shows "advance s s'"
proof -
  obtain go s1 where s1: "packet_handshake link sender hdr s = Some (go, s1)"
    using run by (auto simp: packet_ping_pong_def opt_bind)
  have c1: "calm s s1" by (rule packet_handshake_calm[OF s1 inv])
  show ?thesis
  proof (cases go)
    case False
    then show ?thesis using run s1 calm_advance[OF c1] by (simp add: packet_ping_pong_def)
  next
    case True
    then obtain s2 s3 s4 s5 where s2: "packet_address link sender hdr s1 = Some s2" and s3: "packet_pong link hdr s2 = Some s3"
      and s4: "packet_role sender hdr s3 = Some s4" and s5: "packet_slots sender e hdr s4 = Some s5"
      and s6: "clusterProcessGossipSection hdr link s5 = Some s'"
      using run s1 by (auto simp: packet_ping_pong_def opt_bind)
    have c3: "calm s s3"
      using calm_trans[OF c1 packet_address_calm[OF s2]] packet_pong_calm[OF s3] calm_trans by blast
    have c4: "calm s s4"
      by (rule calm_trans[OF c3 packet_role_calm[OF s4]]) (use calm_known[OF c3] sd in auto)
    have "c_currentEpoch s4 \<noteq> - 1" using c4 room by (simp add: calm_def ids_def)
    then have "advance s s5"
      using advance_trans[OF calm_advance[OF c4] packet_slots_advance[OF s5]] calm_known[OF c4] sd by blast
    then show ?thesis using advance_trans calm_advance[OF clusterProcessGossipSection_calm[OF s6]] by blast
  qed
qed

lemma packet_fail_calm:
  assumes run: "packet_fail sender hdr s = Some s'" and inv: "sound s"
  shows "calm s s'"
proof -
  have "inv_view s' = inv_view s"
    using run by (auto simp: packet_fail_def opt_bind Let_def split: if_splits clusterMsgData.splits dest!: inv_view_node_upd)
  moreover have "hs_view s' = hs_view s"
    using run by (auto simp: packet_fail_def opt_bind Let_def handshake_bit_flags split: if_splits clusterMsgData.splits
        dest!: hs_view_node_upd)
  ultimately show ?thesis by (rule calm_view[OF inv])
qed

lemma packet_publish_calm: "packet_publish hdr s = Some s' \<Longrightarrow> sound s \<Longrightarrow> calm s s'"
  by (rule calm_view) (auto simp: packet_publish_def opt_bind split: if_splits clusterMsgData.splits)

lemma packet_auth_ack_calm: "packet_auth_ack p e s = Some s' \<Longrightarrow> sound s \<Longrightarrow> calm s s'"
  by (rule calm_view) (auto simp: packet_auth_ack_def opt_bind split: if_splits)

lemma packet_mfstart_calm: "packet_mfstart p s = Some s' \<Longrightarrow> sound s \<Longrightarrow> calm s s'"
  by (rule calm_view) (auto simp: packet_mfstart_def opt_bind Let_def split: if_splits)

lemma packet_update_calm:
  assumes run: "packet_update sender hdr s = Some s'" and inv: "sound s"
    and kn: "\<And>e nm sl. m_data hdr = UpdateData e nm sl \<Longrightarrow> clusterLookupNode nm s \<noteq> NULL \<Longrightarrow> known (clusterLookupNode nm s) s"
  shows "calm s s'"
proof (cases "s' = s")
  case False
  then obtain e nm sl where d: "m_data hdr = UpdateData e nm sl" using run by (cases "m_data hdr") (auto simp: packet_update_def)
  define n where "n = clusterLookupNode nm s"
  obtain s1 s2 where n: "n \<noteq> NULL" and s1: "s1 = s \<or> clusterSetNodeAsMaster n s = Some s1"
    and s2: "node_upd n (\<lambda>n. n\<lparr>n_configEpoch := e\<rparr>) s1 = Some s2"
    and s': "\<exists>f. clusterUpdateSlotsConfigWith n e sl (clusterDoBeforeSleep f s2) = Some s'"
    using run d False by (auto simp: packet_update_def Let_def opt_bind n_def split: if_splits)
  obtain f where s': "clusterUpdateSlotsConfigWith n e sl (clusterDoBeforeSleep f s2) = Some s'" using s' by blast
  have "calm s s1" using s1 clusterSetNodeAsMaster_calm[OF _ inv] calm_refl[OF inv] by auto
  moreover have "sound s1 \<Longrightarrow> calm s1 s2" by (rule node_upd_calm[OF s2]) simp_all
  ultimately have c: "calm s (clusterDoBeforeSleep f s2)" using calm_trans clusterDoBeforeSleep_calm by blast
  have "known n s" using kn[OF d] n by (simp add: n_def)
  then have "calm (clusterDoBeforeSleep f s2) s'"
    using clusterUpdateSlotsConfigWith_calm[OF s' calm_sound[OF c] calm_known[OF c]] by blast
  then show ?thesis using calm_trans[OF c] by blast
qed (simp add: calm_refl[OF inv])

subsection \<open>One vote per epoch\<close>

text \<open>
  The contract of a voter: it has a current epoch and the epoch of its last vote, and what it acknowledged is on record.
  A vote that counts moves the epoch of the last vote to the current epoch and acknowledges at most once, stamped with
  that epoch. Under the contract no two acknowledgements bear the same epoch.
\<close>

locale epoch_voter =
  fixes vote :: "'r \<Rightarrow> 's \<Rightarrow> 's option"
    and epoch :: "'s \<Rightarrow> 'e::linorder"
    and lastVote :: "'s \<Rightarrow> 'e"
    and receipts :: "'s \<Rightarrow> 'm list"
    and stamp :: "'m \<Rightarrow> 'e"
  assumes vote_epoch: "vote r s = Some s' \<Longrightarrow> epoch s' = epoch s"
    and vote_none: "vote r s = Some s' \<Longrightarrow> lastVote s' = lastVote s \<Longrightarrow> receipts s' = receipts s"
    and vote_some: "vote r s = Some s' \<Longrightarrow> lastVote s' \<noteq> lastVote s \<Longrightarrow> lastVote s' = epoch s \<and>
      (receipts s' = receipts s \<or> (\<exists>m. receipts s' = receipts s @ [m] \<and> stamp m = epoch s))"
begin

definition voted_once :: "'s \<Rightarrow> bool" where
  "voted_once s \<longleftrightarrow> lastVote s \<le> epoch s \<and> (\<forall>m \<in> set (receipts s). stamp m \<le> lastVote s) \<and>
     distinct (map stamp (receipts s))"

lemma vote_keeps:
  assumes "voted_once s" and "vote r s = Some s'"
  shows "voted_once s'"
proof (cases "lastVote s' = lastVote s")
  case True
  then show ?thesis using assms(1) vote_none[OF assms(2)] vote_epoch[OF assms(2)] by (simp add: voted_once_def)
next
  case False
  then have "lastVote s < epoch s" using assms(1) vote_some[OF assms(2) False] by (auto simp: voted_once_def)
  then have old: "stamp m < epoch s" if "m \<in> set (receipts s)" for m
    using assms(1) that by (auto simp: voted_once_def dest: le_less_trans)
  then have "epoch s \<notin> stamp ` set (receipts s)" by (metis imageE less_irrefl)
  then show ?thesis
    using assms(1) vote_some[OF assms(2) False] vote_epoch[OF assms(2)] old
    by (auto simp: voted_once_def less_imp_le)
qed

lemma other_keeps:
  "voted_once s \<Longrightarrow> lastVote s' = lastVote s \<Longrightarrow> receipts s' = receipts s \<Longrightarrow> epoch s \<le> epoch s' \<Longrightarrow> voted_once s'"
  by (auto simp: voted_once_def)

lemma receipts_unique:
  "voted_once s \<Longrightarrow> m \<in> set (receipts s) \<Longrightarrow> m' \<in> set (receipts s) \<Longrightarrow> stamp m = stamp m' \<Longrightarrow> m = m'"
  by (auto simp: voted_once_def distinct_map inj_on_def)

end

lemma clusterSendFailoverAuth_acks:
  assumes "clusterSendFailoverAuth node s = Some s'"
  shows "acks s' = acks s \<or> (\<exists>m. acks s' = acks s @ [m] \<and> m_currentEpoch m = c_currentEpoch s)"
proof -
  obtain nd where nd: "heap s node = Some nd" using assms by (auto simp: clusterSendFailoverAuth_def opt_bind deref_def)
  show ?thesis
  proof (cases "n_link nd = NULL")
    case True
    then show ?thesis using assms nd by (simp add: clusterSendFailoverAuth_def deref_def)
  next
    case False
    then obtain hdr where hdr: "clusterBuildMessageHdr CLUSTERMSG_TYPE_FAILOVER_AUTH_ACK s = Some hdr"
      and send: "clusterSendMessage (n_link nd) (hdr\<lparr>m_totlen := CLUSTERMSG_MIN_LEN\<rparr>) s = Some s'"
      using assms nd by (auto simp: clusterSendFailoverAuth_def opt_bind deref_def)
    have "m_type hdr = CLUSTERMSG_TYPE_FAILOVER_AUTH_ACK" "m_currentEpoch hdr = c_currentEpoch s"
      using hdr by (auto simp: clusterBuildMessageHdr_def opt_bind Let_def)
    then show ?thesis using send by (auto simp: clusterSendMessage_def opt_bind acks_def)
  qed
qed

lemma vote_acks:
  assumes run: "clusterSendFailoverAuthIfNeeded node request s = Some s'"
  shows "if vote_granted node request s
    then acks s' = acks s \<or> (\<exists>m. acks s' = acks s @ [m] \<and> m_currentEpoch m = c_currentEpoch s) else s' = s"
proof (cases "vote_granted node request s")
  case True
  then obtain s1 and nd :: clusterNode where s1: "clusterSendFailoverAuth node s = Some s1"
    and u: "node_upd (n_slaveof nd) (\<lambda>m. m\<lparr>n_voted_time := mstime s1\<rparr>) (s1\<lparr>c_lastVoteEpoch := c_currentEpoch s1\<rparr>) = Some s'"
    using vote_cases[OF run] True by auto
  have "acks s' = acks s1" using u by (auto simp: node_upd_def acks_def split: option.splits)
  then show ?thesis using clusterSendFailoverAuth_acks[OF s1] True by simp
next
  case False
  then show ?thesis using vote_fields(5)[OF run] by simp
qed

interpretation ev: epoch_voter "\<lambda>(node, request). clusterSendFailoverAuthIfNeeded node request"
    c_currentEpoch c_lastVoteEpoch acks m_currentEpoch
proof (unfold_locales, goal_cases)
  case (1 r s s')
  then show ?case using vote_fields(1) by (cases r) auto
next
  case (2 r s s')
  obtain p q where r: "r = (p, q)" by (cases r)
  have run: "clusterSendFailoverAuthIfNeeded p q s = Some s'" using 2(1) r by simp
  have "\<not> vote_granted p q s" using vote_fields(4)[OF run] 2(2) by auto
  then show ?case using vote_fields(5)[OF run] by simp
next
  case (3 r s s')
  obtain p q where r: "r = (p, q)" by (cases r)
  have run: "clusterSendFailoverAuthIfNeeded p q s = Some s'" using 3(1) r by simp
  have "vote_granted p q s" using vote_fields(5)[OF run] 3(2) by auto
  then show ?case using vote_fields(4)[OF run] vote_acks[OF run] by simp
qed

lemma vote_sound:
  assumes run: "clusterSendFailoverAuthIfNeeded node request s = Some s'" and inv: "sound s"
  shows "sound s'" "known p s \<Longrightarrow> known p s'"
proof -
  have "sound s' \<and> (known p s \<longrightarrow> known p s')"
  proof (cases "vote_granted node request s")
    case True
    then obtain s1 and nd :: clusterNode where s1: "clusterSendFailoverAuth node s = Some s1"
      and u: "node_upd (n_slaveof nd) (\<lambda>m. m\<lparr>n_voted_time := mstime s1\<rparr>) (s1\<lparr>c_lastVoteEpoch := c_currentEpoch s1\<rparr>) = Some s'"
      using vote_cases[OF run] True by auto
    note k = clusterSendFailoverAuth_keep[OF s1]
    have "inv s1" using quiet_view[OF but_bus_inv_view[OF k(1)]] soundD(1)[OF inv] by (simp add: quiet_def)
    moreover have "owners_known s1" using soundD(4)[OF inv] k(2) but_bus_fields(5)[OF k(1)] by (simp add: owners_known_def)
    ultimately have "sound (s1\<lparr>c_lastVoteEpoch := c_currentEpoch s1\<rparr>)"
      by (simp add: sound_def inv_def slots_inv_def nodes_inv_def alloc_inv_def owners_known_def)
    then have "calm (s1\<lparr>c_lastVoteEpoch := c_currentEpoch s1\<rparr>) s'" using node_upd_calm[OF u] by (simp add: node_view_def)
    then show ?thesis using calm_sound calm_known[of _ s' p] k(2) by (simp add: known_def)
  next
    case False
    then show ?thesis using vote_fields(5)[OF run] inv by simp
  qed
  then show "sound s'" "known p s \<Longrightarrow> known p s'" by blast+
qed

subsection \<open>The contract of packet processing\<close>

text \<open>No packet names a node in handshake: its random name was never sent to anyone.\<close>

definition packet_known :: "clusterMsg \<Rightarrow> server \<Rightarrow> bool" where
  "packet_known hdr s \<longleftrightarrow>
     (clusterLookupNode (m_sender hdr) s \<noteq> NULL \<longrightarrow> known (clusterLookupNode (m_sender hdr) s) s) \<and>
     (case m_data hdr of UpdateData _ nodename _ \<Rightarrow>
        clusterLookupNode nodename s \<noteq> NULL \<longrightarrow> known (clusterLookupNode nodename s) s | _ \<Rightarrow> True)"

text \<open>What an event may do: keep the invariant, never lower the current epoch, and vote at most once, in the current epoch.\<close>

definition step_ok :: "server \<Rightarrow> server \<Rightarrow> bool" where
  "step_ok s s' \<longleftrightarrow> sound s' \<and> c_currentEpoch s \<le> c_currentEpoch s' \<and> c_myself s' = c_myself s \<and>
     c_lastVoteEpoch s \<le> c_lastVoteEpoch s' \<and> (\<forall>p. known p s \<longrightarrow> known p s') \<and> (ev.voted_once s \<longrightarrow> ev.voted_once s')"

lemma advance_step_ok: "advance s s' \<Longrightarrow> step_ok s s'"
  using ev.other_keeps[of s s'] by (simp add: advance_def step_ok_def)

lemma step_ok_trans: "step_ok s s1 \<Longrightarrow> (sound s1 \<Longrightarrow> step_ok s1 s2) \<Longrightarrow> step_ok s s2"
  by (auto simp: step_ok_def)

lemma vote_step_ok:
  assumes run: "clusterSendFailoverAuthIfNeeded node request s = Some s'" and inv: "sound s"
  shows "step_ok s s'"
  using vote_sound[OF run inv] vote_fields[OF run] ev.vote_keeps[of s "(node, request)" s'] run soundD(1)[OF inv]
  by (cases "vote_granted node request s") (auto simp: step_ok_def inv_def)

lemma lookup_cong: "c_nodes s' = c_nodes s \<Longrightarrow> clusterLookupNode nm s' = clusterLookupNode nm s"
  by (simp add: clusterLookupNode_def)

lemma packet_dispatch_step_ok:
  assumes run: "packet_dispatch link sender e1 e2 hdr s = Some (r, s')" and inv: "sound s"
    and sd: "sender \<noteq> NULL \<Longrightarrow> known sender s"
    and upd: "\<And>e nm sl. m_data hdr = UpdateData e nm sl \<Longrightarrow> clusterLookupNode nm s \<noteq> NULL \<Longrightarrow> known (clusterLookupNode nm s) s"
    and room: "c_currentEpoch s \<noteq> - 1"
  shows "step_ok s s'"
proof (cases "m_type hdr = CLUSTERMSG_TYPE_PING \<or> m_type hdr = CLUSTERMSG_TYPE_PONG \<or> m_type hdr = CLUSTERMSG_TYPE_MEET")
  case True
  then obtain s1 where s1: "s1 = s \<or> packet_ping link sender hdr s = Some s1"
    and s': "packet_ping_pong link sender e2 hdr s1 = Some (r, s')"
    using run by (auto simp: packet_dispatch_def Let_def opt_bind split: if_splits)
  have c: "calm s s1" using s1 packet_ping_calm[OF _ inv] calm_refl[OF inv] by auto
  have "c_currentEpoch s1 \<noteq> - 1" using c room by (simp add: calm_def ids_def)
  then have "advance s1 s'"
    using packet_ping_pong_advance[OF s' calm_sound[OF c]] sd calm_known[OF c] by blast
  then show ?thesis using advance_step_ok[OF advance_trans[OF calm_advance[OF c]]] by blast
next
  case False
  define t where "t = m_type hdr"
  have "map_option (Pair True)
       (if t = CLUSTERMSG_TYPE_FAIL then packet_fail sender hdr s
        else if t = CLUSTERMSG_TYPE_PUBLISH then packet_publish hdr s
        else if t = CLUSTERMSG_TYPE_FAILOVER_AUTH_REQUEST then
          (if sender = NULL then Some s else clusterSendFailoverAuthIfNeeded sender hdr s)
        else if t = CLUSTERMSG_TYPE_FAILOVER_AUTH_ACK then packet_auth_ack sender e1 s
        else if t = CLUSTERMSG_TYPE_MFSTART then packet_mfstart sender s
        else if t = CLUSTERMSG_TYPE_UPDATE then packet_update sender hdr s
        else Some s) = Some (r, s')"
    using run False by (simp only: packet_dispatch_def Let_def t_def if_False)
  then have "packet_fail sender hdr s = Some s' \<or> packet_publish hdr s = Some s' \<or>
      clusterSendFailoverAuthIfNeeded sender hdr s = Some s' \<or> packet_auth_ack sender e1 s = Some s' \<or>
      packet_mfstart sender s = Some s' \<or> packet_update sender hdr s = Some s' \<or> s' = s"
    by (simp only: map_option_eq_Some prod.inject) (auto split: if_splits)
  moreover have "calm s s'" if "packet_update sender hdr s = Some s'" by (rule packet_update_calm[OF that inv upd])
  ultimately have "calm s s' \<or> step_ok s s'"
    using packet_fail_calm[OF _ inv] packet_publish_calm[OF _ inv] vote_step_ok[OF _ inv] packet_auth_ack_calm[OF _ inv]
      packet_mfstart_calm[OF _ inv] calm_refl[OF inv] by blast
  then show ?thesis using advance_step_ok calm_advance by blast
qed

lemma clusterProcessPacket_step_ok:
  assumes run: "clusterProcessPacket link len hdr s = Some (r, s')" and inv: "sound s" and kn: "packet_known hdr s"
    and room: "c_currentEpoch s \<noteq> - 1" "m_currentEpoch hdr \<noteq> - 1"
  shows "step_ok s s'"
proof -
  define s0 where "s0 = s\<lparr>c_stats_bus_messages_received := c_stats_bus_messages_received s + 1\<rparr>"
  have c0: "calm s s0" by (rule calm_view[OF inv]) (simp_all add: s0_def)
  define sender where "sender = clusterLookupNode (m_sender hdr) s0"
  have lk: "clusterLookupNode nm s0 = clusterLookupNode nm s" for nm by (rule lookup_cong) (simp add: s0_def)
  have sd: "sender \<noteq> NULL \<Longrightarrow> known sender s0" using kn calm_known[OF c0] by (simp add: packet_known_def sender_def lk)
  have upd: "known (clusterLookupNode nm s0) s0"
    if "m_data hdr = UpdateData e nm sl" "clusterLookupNode nm s0 \<noteq> NULL" for e nm sl
    using kn that calm_known[OF c0] by (simp add: packet_known_def lk)
  have room0: "c_currentEpoch s0 \<noteq> - 1" using room by (simp add: s0_def)
  have "step_ok s0 s'"
  proof (cases "s' = s0")
    case True
    then show ?thesis using advance_step_ok calm_advance calm_refl[OF calm_sound[OF c0]] by simp
  next
    case False
    consider "packet_dispatch link sender 0 0 hdr s0 = Some (r, s')"
      | s1 where "packet_epochs sender hdr s0 = Some s1"
          "packet_dispatch link sender (m_currentEpoch hdr) (m_configEpoch hdr) hdr s1 = Some (r, s')" "sender \<noteq> NULL"
      using run False unfolding clusterProcessPacket_def Let_def s0_def[symmetric] sender_def[symmetric]
      by (auto simp: opt_bind split: if_splits)
    then show ?thesis
    proof cases
      case 1
      show ?thesis by (rule packet_dispatch_step_ok[OF 1 calm_sound[OF c0] sd upd room0])
    next
      case (2 s1)
      note e = packet_epochs_advance[OF 2(1) calm_sound[OF c0]]
      have lk1: "clusterLookupNode nm s1 = clusterLookupNode nm s0" for nm by (rule lookup_cong) (use e in simp)
      have r1: "c_currentEpoch s1 \<noteq> - 1" using e room0 room(2) by (auto simp: max_def)
      have "step_ok s1 s'" if i1: "sound s1"
      proof (rule packet_dispatch_step_ok[OF 2(2) i1 _ _ r1])
        show "known sender s1" using advance_known[OF conjunct1[OF e]] sd[OF 2(3)] by blast
        show "known (clusterLookupNode nm s1) s1"
          if "m_data hdr = UpdateData e' nm sl" "clusterLookupNode nm s1 \<noteq> NULL" for e' nm sl
          using upd[of e' nm sl] that e unfolding lk1 by (blast intro: advance_known)
      qed
      then show ?thesis using step_ok_trans[OF advance_step_ok[OF conjunct1[OF e]]] by blast
    qed
  qed
  then show ?thesis using step_ok_trans[OF advance_step_ok[OF calm_advance[OF c0]]] by blast
qed

subsection \<open>Properties\<close>

text \<open>Property C4. Every packet that is processed without aborting keeps the invariant (slot table, bitmaps, counters, node
  table and blacklisted names agree, and no slot belongs to a node in handshake), never lowers the current epoch nor the epoch of
  the last vote, and preserves that no two acknowledgements of votes bear the same epoch. The packet names no node in handshake,
  and the epochs are not at the end of their range.\<close>

theorem clusterProcessPacket_safe:
  assumes "clusterProcessPacket link len hdr s = Some (r, s')" and "sound s" and "packet_known hdr s"
    and "c_currentEpoch s \<noteq> - 1" "m_currentEpoch hdr \<noteq> - 1"
  shows "sound s' \<and> c_currentEpoch s \<le> c_currentEpoch s' \<and> c_lastVoteEpoch s \<le> c_lastVoteEpoch s' \<and>
    (distinct (map m_currentEpoch (acks s)) \<and> (\<forall>m \<in> set (acks s). m_currentEpoch m \<le> c_lastVoteEpoch s) \<longrightarrow>
     distinct (map m_currentEpoch (acks s')) \<and> (\<forall>m \<in> set (acks s'). m_currentEpoch m \<le> c_lastVoteEpoch s'))"
  using clusterProcessPacket_step_ok[OF assms] soundD(1)[OF assms(2)]
  by (simp add: step_ok_def ev.voted_once_def inv_def)

lemma voter_sound: "sound voter"
proof -
  have "nodes_inv voter"
    by (simp add: nodes_inv_def voter_def electors_def zero_server_def newClusterNode_def clusterNodeSetSlotBit_def dictWf_def)
  moreover have "owners_known voter"
    by (simp add: owners_known_def voter_def electors_def zero_server_def newClusterNode_def clusterNodeSetSlotBit_def nodeInHandshake_def)
  ultimately show ?thesis using voter_slots_inv
    by (simp add: sound_def inv_def alloc_inv_def) (simp add: voter_def electors_def zero_server_def)
qed

lemma voter_lookup: "clusterLookupNode (m_sender vote_request) voter = 3"
  by (simp add: clusterLookupNode_def dictFind_def vote_request_def voter_def electors_def)

lemma voter_packet: "\<exists>s'. clusterProcessPacket 9 2208 vote_request (voter\<lparr>c_currentEpoch := 6\<rparr>) = Some (True, s')"
proof -
  define s0 where "s0 = voter\<lparr>c_currentEpoch := 6, c_stats_bus_messages_received := 1\<rparr>"
  define nd where "nd = (newClusterNode (replicate 40 0x63) REDIS_NODE_SLAVE 0)\<lparr>n_slaveof := 2\<rparr>"
  have nd: "heap s0 3 = Some nd" using voter_live(2) by (simp add: s0_def nd_def)
  obtain me where me: "heap s0 (myself s0) = Some me" "myself s0 = 1"
    by (simp add: s0_def voter_def electors_def)
  have snd: "sound s0" using voter_sound
    by (simp add: s0_def sound_def inv_def slots_inv_def nodes_inv_def alloc_inv_def owners_known_def)
      (simp add: voter_def electors_def zero_server_def)
  have f: "c_currentEpoch s0 = 6" "c_mf_end s0 = 0" by (simp_all add: s0_def voter_def electors_def zero_server_def)
  obtain s1 where e: "packet_epochs 3 vote_request s0 = Some s1" and h: "\<exists>n'. heap s1 3 = Some n' \<and> n_slaveof n' = 2 \<and> n_link n' = 0"
    "heap s1 2 = heap s0 2" "heap s1 (Suc 0) = heap s0 (Suc 0)" "myself s1 = 1"
    using nd me f by (simp add: packet_epochs_def deref_def node_upd_def clusterDoBeforeSleep_def vote_request_def nd_def newClusterNode_def)
  have "sound s1" using packet_epochs_advance[OF e snd] advance_sound by blast
  moreover have "me_live s1"
    by (simp add: me_live_def h(3,4)) (simp add: s0_def voter_def electors_def newClusterNode_def clusterNodeSetSlotBit_def)
  moreover have "heap s1 2 \<noteq> None" using voter_live(3) by (simp add: h(2) s0_def)
  moreover obtain n' where "heap s1 3 = Some n'" "n_slaveof n' = 2" "n_link n' = 0" using h(1) by blast
  ultimately obtain s' where "clusterSendFailoverAuthIfNeeded 3 vote_request s1 = Some s'"
    using vote_total[of s1 3 n' vote_request] soundD(2) by auto
  moreover have "clusterLookupNode (m_sender vote_request) s0 = 3" using voter_lookup lookup_cong[of s0 voter] by (simp add: s0_def)
  moreover have "\<not> nodeInHandshake nd" by (simp add: nd_def nodeInHandshake_def newClusterNode_def)
  moreover have "packet_valid 2208 vote_request = Some True" "m_type vote_request = CLUSTERMSG_TYPE_FAILOVER_AUTH_REQUEST"
    by (simp_all add: packet_valid_def packet_explen_def vote_request_def CLUSTERMSG_MIN_LEN_def)
  moreover have "s0 = voter\<lparr>c_currentEpoch := 6, c_stats_bus_messages_received := c_stats_bus_messages_received voter + 1\<rparr>"
    by (simp add: s0_def voter_def electors_def zero_server_def)
  ultimately show ?thesis
    using e nd by (simp add: clusterProcessPacket_def packet_dispatch_def deref_def)
qed

theorem clusterProcessPacket_safe_witness:
  "\<exists>s'. clusterProcessPacket 9 2208 vote_request (voter\<lparr>c_currentEpoch := 6\<rparr>) = Some (True, s') \<and> sound s'"
proof -
  obtain s' where s': "clusterProcessPacket 9 2208 vote_request (voter\<lparr>c_currentEpoch := 6\<rparr>) = Some (True, s')"
    using voter_packet by blast
  have snd: "sound (voter\<lparr>c_currentEpoch := 6\<rparr>)" using voter_sound
    by (simp add: sound_def inv_def slots_inv_def nodes_inv_def alloc_inv_def owners_known_def)
      (simp add: voter_def electors_def zero_server_def)
  have "clusterLookupNode (m_sender vote_request) (voter\<lparr>c_currentEpoch := 6\<rparr>) = 3"
    using voter_lookup lookup_cong[of "voter\<lparr>c_currentEpoch := 6\<rparr>" voter] by simp
  then have kn: "packet_known vote_request (voter\<lparr>c_currentEpoch := 6\<rparr>)"
    using voter_live(2)
    by (simp add: packet_known_def known_def nodeInHandshake_def newClusterNode_def) (simp add: vote_request_def)
  have "m_currentEpoch vote_request \<noteq> - 1" by (simp add: vote_request_def)
  then show ?thesis using clusterProcessPacket_safe[OF s' snd kn] s' by simp
qed

text \<open>Property C37. The 32-bit sum of the lengths in a PUBLISH packet wraps around: a packet whose lengths exceed what it holds
  passes the checks of lines 2091 to 2097 and makes the node read past the packet as soon as it has subscribers.\<close>

theorem publish_length_wrap:
  assumes hdr: "m_type hdr = CLUSTERMSG_TYPE_PUBLISH" "m_ver hdr = 0" "m_data hdr = PublishData cl ml bulk"
    and len: "m_totlen hdr = CLUSTERMSG_MIN_LEN + (sizeof_publish + cl + ml)" "16 \<le> m_totlen hdr" "unat (m_totlen hdr) = len"
      "length bulk + 2216 = len"
    and wrap: "2 ^ 32 \<le> unat cl + unat ml"
    and sub: "num_pubsub s \<noteq> 0" and unknown: "clusterLookupNode (m_sender hdr) s = NULL"
  shows "packet_valid len hdr = Some True \<and> clusterProcessPacket link len hdr s = None"
proof -
  have valid: "packet_valid len hdr = Some True"
    using hdr len(1-3) by (simp add: packet_valid_def packet_explen_def not_less)
  have "unat (m_totlen hdr) < 2 ^ 32" by (rule order_less_le_trans[OF unsigned_less]) simp
  then have "length bulk < 2 ^ 32" using len(3,4) by linarith
  then have "\<not> unat cl + unat ml \<le> length bulk" using wrap by linarith
  moreover define s0 where "s0 = s\<lparr>c_stats_bus_messages_received := c_stats_bus_messages_received s + 1\<rparr>"
  ultimately have "packet_publish hdr s0 = None"
    using hdr(3) sub by (simp add: packet_publish_def redisAssert_def)
  moreover have "clusterLookupNode (m_sender hdr) s0 = NULL" using unknown lookup_cong[of s0 s] by (simp add: s0_def)
  ultimately have "clusterProcessPacket link len hdr s = None"
    using valid hdr(1) by (simp add: clusterProcessPacket_def packet_dispatch_def flip: s0_def)
  then show ?thesis using valid by blast
qed

definition evil_publish :: clusterMsg where
  "evil_publish = vote_request\<lparr>m_type := CLUSTERMSG_TYPE_PUBLISH, m_totlen := 2224, m_sender := [],
     m_data := PublishData (- 1) 1 (replicate 8 0)\<rparr>"

theorem publish_length_wrap_witness:
  "packet_valid 2224 evil_publish = Some True \<and> clusterProcessPacket 1 2224 evil_publish (voter\<lparr>num_pubsub := 1\<rparr>) = None"
proof (rule publish_length_wrap[where cl = "- 1" and ml = 1 and bulk = "replicate 8 0"])
  show "clusterLookupNode (m_sender evil_publish) (voter\<lparr>num_pubsub := 1\<rparr>) = NULL"
    by (simp add: clusterLookupNode_def dictFind_def evil_publish_def voter_def electors_def)
qed (simp_all add: evil_publish_def vote_request_def CLUSTERMSG_MIN_LEN_def sizeof_publish_def unsigned_minus_1_eq_mask mask_eq_exp_minus_1)

lemma and_or_zero: "f AND (a OR b) \<noteq> 0 \<longleftrightarrow> f AND a \<noteq> 0 \<or> f AND b \<noteq> (0 :: 'a::len word)"
  by (simp add: bit.conj_disj_distrib or_eq_0_iff)

text \<open>A FAIL message from a known node marks the node it names as FAIL, not PFAIL, with the present time, unless
  that is this server or already failed, and touches no other node; from an unknown sender it is ignored.\<close>

theorem fail_message_correct:
  assumes d: "m_data hdr = FailData nm" and live: "\<forall>e \<in> set (c_nodes s). heap s (snd e) \<noteq> None"
  shows "returns (packet_fail sender hdr s) (\<lambda>s'. \<forall>p. heap s' p =
     (case heap s p of None \<Rightarrow> None | Some n \<Rightarrow>
        Some (if sender \<noteq> NULL \<and> p = clusterLookupNode nm s \<and> p \<noteq> NULL \<and> \<not> nodeFailed n \<and> n_flags n AND REDIS_NODE_MYSELF = 0
              then n\<lparr>n_flags := (n_flags n OR REDIS_NODE_FAIL) AND NOT REDIS_NODE_PFAIL, n_fail_time := mstime s\<rparr> else n)))"
proof (cases "sender = NULL \<or> clusterLookupNode nm s = NULL")
  case True
  then show ?thesis using d by (auto simp: packet_fail_def wp split: option.splits)
next
  case False
  define p where "p = clusterLookupNode nm s"
  have "heap s p \<noteq> None"
    using live False map_of_SomeD by (fastforce simp: p_def clusterLookupNode_def dictFind_def split: option.splits)
  then obtain n where n: "heap s p = Some n" by auto
  have mask: "f AND 24 \<noteq> 0 \<longleftrightarrow> f AND 8 \<noteq> 0 \<or> f AND 16 \<noteq> 0" for f :: u32
    using and_or_zero[of f 8 16] by simp
  show ?thesis using False d n mask[of "n_flags n"]
    by (auto simp: packet_fail_def p_def[symmetric] deref_def node_upd_def wp clusterDoBeforeSleep_def nodeFailed_def split: option.splits)
qed

theorem fail_message_correct_witness:
  "returns (packet_fail 2 (vote_request\<lparr>m_data := FailData (replicate 40 0x63)\<rparr>) voter)
     (\<lambda>s'. \<exists>n. heap s' 3 = Some n \<and> nodeFailed n \<and> n_fail_time n = 100000)"
proof -
  define hdr where "hdr = vote_request\<lparr>m_data := FailData (replicate 40 0x63)\<rparr>"
  have d: "m_data hdr = FailData (replicate 40 0x63)" by (simp add: hdr_def)
  have live: "\<forall>e \<in> set (c_nodes voter). heap voter (snd e) \<noteq> None"
    using voter_live by (simp add: voter_def electors_def)
  have lk: "clusterLookupNode (replicate 40 0x63) voter = 3"
    by (simp add: clusterLookupNode_def dictFind_def voter_def electors_def)
  have "mstime voter = 100000" by (simp add: voter_def electors_def)
  then show ?thesis
    unfolding hdr_def[symmetric]
    by (intro returns_mono[OF fail_message_correct[OF d live, of 2]])
      (simp add: lk voter_live(2) newClusterNode_def nodeFailed_def)
qed

text \<open>An acknowledgement counts for the election when its sender is a known master that serves slots and its epoch is
  not older than the election's, and every one that does counts, a repeated one again.\<close>

theorem auth_ack_counts:
  assumes "heap s sender = Some sd" and "sender \<noteq> NULL"
  shows "returns (packet_auth_ack sender e s) (\<lambda>s'. c_failover_auth_count s' = c_failover_auth_count s +
       (if nodeIsMaster sd \<and> n_numslots sd > 0 \<and> e \<ge> c_failover_auth_epoch s then 1 else 0) \<and>
     returns (packet_auth_ack sender e s') (\<lambda>s''. c_failover_auth_count s'' = c_failover_auth_count s +
       (if nodeIsMaster sd \<and> n_numslots sd > 0 \<and> e \<ge> c_failover_auth_epoch s then 2 else 0)))"
  using assms by (simp add: packet_auth_ack_def wp deref_def clusterDoBeforeSleep_def)

theorem auth_ack_counts_witness:
  "returns (packet_auth_ack 1 7 voter) (\<lambda>s'. c_failover_auth_count s' = 1)"
proof -
  obtain n where n: "heap voter 1 = Some n" "nodeIsMaster n" "n_numslots n > 0"
    by (simp add: voter_def newClusterNode_def clusterNodeSetSlotBit_def nodeIsMaster_def zero_bitmap_def bitmapTestBit_def)
  have "c_failover_auth_epoch voter = 0" "c_failover_auth_count voter = 0"
    by (simp_all add: voter_def electors_def zero_server_def)
  then show ?thesis using n by (intro returns_mono[OF auth_ack_counts[OF n(1), of 7]]) auto
qed

text \<open>An UPDATE message changes nothing unless the epoch it reports is greater than the one known for the node it is
  about; then the node is a master with that epoch before its slots are claimed.\<close>

theorem update_message_epochs:
  assumes d: "m_data hdr = UpdateData e nm sl" and n: "clusterLookupNode nm s = p" "p \<noteq> NULL" "heap s p = Some nd"
    and sd: "sender \<noteq> NULL" and roles: "nodeIsMaster nd \<noteq> nodeIsSlave nd" "n_slaveof nd \<noteq> p"
      "n_slaveof nd \<noteq> NULL \<longrightarrow> heap s (n_slaveof nd) \<noteq> None"
  shows "if e \<le> n_configEpoch nd then packet_update sender hdr s = Some s
    else \<exists>s2 n2. heap s2 p = Some n2 \<and> nodeIsMaster n2 \<and> n_configEpoch n2 = e \<and> c_slots s2 = c_slots s \<and>
      packet_update sender hdr s = clusterUpdateSlotsConfigWith p e sl s2"
proof (cases "e \<le> n_configEpoch nd")
  case True
  then show ?thesis using d n sd by (simp add: packet_update_def deref_def)
next
  case False
  obtain s1 n1 where s1: "(if nodeIsSlave nd then clusterSetNodeAsMaster p s else Some s) = Some s1"
    "heap s1 p = Some n1" "nodeIsMaster n1" "c_slots s1 = c_slots s"
  proof (cases "nodeIsSlave nd")
    case True
    then have "\<not> nodeIsMaster nd" using roles(1) by blast
    then obtain s1 nd' where "clusterSetNodeAsMaster p s = Some s1" "inv_view s1 = inv_view s"
      "heap s1 p = Some nd'" "nodeIsMaster nd'"
      using returnsD[OF clusterSetNodeAsMaster_spec[OF n(3) _ roles(3,2)]] by blast
    then show ?thesis using True that[of s1 nd'] inv_viewD(1)[of s1 s] by simp
  next
    case False
    then show ?thesis using roles(1) n(3) that[of s nd] by simp
  qed
  define s2 where "s2 = clusterDoBeforeSleep (CLUSTER_TODO_SAVE_CONFIG OR CLUSTER_TODO_FSYNC_CONFIG)
      (s1\<lparr>heap := (heap s1)(p \<mapsto> n1\<lparr>n_configEpoch := e\<rparr>)\<rparr>)"
  have "packet_update sender hdr s = clusterUpdateSlotsConfigWith p e sl s2"
    using False d n sd s1 by (simp add: packet_update_def deref_def node_upd_def s2_def)
  moreover have "heap s2 p = Some (n1\<lparr>n_configEpoch := e\<rparr>)" "c_slots s2 = c_slots s"
    using s1(4) by (simp_all add: s2_def clusterDoBeforeSleep_def)
  moreover have "nodeIsMaster (n1\<lparr>n_configEpoch := e\<rparr>)" using s1(3) by (simp add: nodeIsMaster_def)
  moreover have "n_configEpoch (n1\<lparr>n_configEpoch := e\<rparr>) = e" by simp
  ultimately have "\<exists>s2 n2. heap s2 p = Some n2 \<and> nodeIsMaster n2 \<and> n_configEpoch n2 = e \<and> c_slots s2 = c_slots s \<and>
      packet_update sender hdr s = clusterUpdateSlotsConfigWith p e sl s2"
    by (intro exI[of _ s2] exI[of _ "n1\<lparr>n_configEpoch := e\<rparr>"] conjI)
  then show ?thesis using False by (simp only: if_False)
qed

theorem update_message_epochs_witness:
  "packet_update 1 (vote_request\<lparr>m_data := UpdateData 0 (replicate 40 0x63) zero_bitmap\<rparr>) voter = Some voter"
proof -
  define nd where "nd = (newClusterNode (replicate 40 0x63) REDIS_NODE_SLAVE 0)\<lparr>n_slaveof := 2\<rparr>"
  have nd: "heap voter 3 = Some nd" using voter_live(2) by (simp add: nd_def)
  have "nodeIsMaster nd \<noteq> nodeIsSlave nd" "n_slaveof nd = 2" "n_configEpoch nd = 0"
    by (simp_all add: nd_def newClusterNode_def nodeIsMaster_def nodeIsSlave_def)
  moreover have "clusterLookupNode (replicate 40 0x63) voter = 3"
    by (simp add: clusterLookupNode_def dictFind_def voter_def electors_def)
  ultimately show ?thesis
    using update_message_epochs[of "vote_request\<lparr>m_data := UpdateData 0 (replicate 40 0x63) zero_bitmap\<rparr>" 0 "replicate 40 0x63"
        zero_bitmap voter 3 nd 1] nd voter_live(3) by simp
qed

end
