(* ===== verification/Sds.thy ===== *)
theory Sds
  imports CString
begin

text \<open>
  Lines of arguments (sds.c): \<open>sdssplitargs\<close> splits a line into arguments that may be quoted, \<open>sdscatrepr\<close> writes a
  quoted argument. The arguments a line was made from are read back, whatever bytes they hold. A line is a C string, without the zero byte at its
  end.
\<close>

subsection \<open>Writing\<close>

definition isprint :: "u8 \<Rightarrow> bool" where
  "isprint c \<longleftrightarrow> 0x20 \<le> c \<and> c \<le> 0x7E"

text \<open>A digit of \<open>%02x\<close>.\<close>

definition hex_digit :: "nat \<Rightarrow> u8" where
  "hex_digit d = (if d < 10 then 0x30 + of_nat d else 0x57 + of_nat d)"

definition repr_char :: "u8 \<Rightarrow> bytes" where
  "repr_char c =
     (if c = 0x5C \<or> c = 0x22 then [0x5C, c]
      else if c = 0x0A then [0x5C, 0x6E]
      else if c = 0x0D then [0x5C, 0x72]
      else if c = 0x09 then [0x5C, 0x74]
      else if c = 0x07 then [0x5C, 0x61]
      else if c = 0x08 then [0x5C, 0x62]
      else if isprint c then [c]
      else [0x5C, 0x78, hex_digit (unat c div 16), hex_digit (unat c mod 16)])"

definition sdscatrepr :: "bytes \<Rightarrow> bytes \<Rightarrow> bytes" where
  "sdscatrepr s p = s @ [0x22] @ concat (map repr_char p) @ [0x22]"

subsection \<open>Splitting\<close>

definition is_hex_digit :: "u8 \<Rightarrow> bool" where
  "is_hex_digit c \<longleftrightarrow> (0x30 \<le> c \<and> c \<le> 0x39) \<or> (0x61 \<le> c \<and> c \<le> 0x66) \<or> (0x41 \<le> c \<and> c \<le> 0x46)"

definition hex_digit_to_int :: "u8 \<Rightarrow> nat" where
  "hex_digit_to_int c =
     (if 0x30 \<le> c \<and> c \<le> 0x39 then unat (c - 0x30)
      else if 0x61 \<le> c \<and> c \<le> 0x66 then unat (c - 0x61) + 10
      else if 0x41 \<le> c \<and> c \<le> 0x46 then unat (c - 0x41) + 10
      else 0)"

text \<open>Lines 1308 to 1315.\<close>

definition escaped :: "u8 \<Rightarrow> u8" where
  "escaped c = (if c = 0x6E then 0x0A else if c = 0x72 then 0x0D else if c = 0x74 then 0x09
     else if c = 0x62 then 0x08 else if c = 0x61 then 0x07 else c)"

text \<open>A closing quote must be followed by a space or by nothing.\<close>

definition quote_ends :: "bytes \<Rightarrow> bool" where
  "quote_ends p \<longleftrightarrow> p = [] \<or> isspace (hd p)"

text \<open>The loop of lines 1292 to 1364: \<open>in_quotes\<close>, \<open>in_single_quotes\<close> and neither. The result is the argument and the rest of the
  line; \<open>None\<close> is the \<open>goto err\<close>.\<close>

fun in_quotes :: "bytes \<Rightarrow> bytes \<Rightarrow> (bytes \<times> bytes) option" where
  "in_quotes [] current = None"
| "in_quotes (c # p) current =
     (if c = 0x5C \<and> 3 \<le> length p \<and> hd p = 0x78 \<and> is_hex_digit (p ! 1) \<and> is_hex_digit (p ! 2)
      then in_quotes (drop 3 p) (current @ [of_nat (hex_digit_to_int (p ! 1) * 16 + hex_digit_to_int (p ! 2))])
      else if c = 0x5C \<and> p \<noteq> [] then in_quotes (tl p) (current @ [escaped (hd p)])
      else if c = 0x22 then (if quote_ends p then Some (current, p) else None)
      else in_quotes p (current @ [c]))"

fun in_single_quotes :: "bytes \<Rightarrow> bytes \<Rightarrow> (bytes \<times> bytes) option" where
  "in_single_quotes [] current = None"
| "in_single_quotes (c # p) current =
     (if c = 0x5C \<and> p \<noteq> [] \<and> hd p = 0x27 then in_single_quotes (tl p) (current @ [0x27])
      else if c = 0x27 then (if quote_ends p then Some (current, p) else None)
      else in_single_quotes p (current @ [c]))"

fun unquoted :: "bytes \<Rightarrow> bytes \<Rightarrow> (bytes \<times> bytes) option" where
  "unquoted [] current = Some (current, [])"
| "unquoted (c # p) current =
     (if c = 0x20 \<or> c = 0x0A \<or> c = 0x0D \<or> c = 0x09 then Some (current, p)
      else if c = 0x22 then in_quotes p current
      else if c = 0x27 then in_single_quotes p current
      else unquoted p (current @ [c]))"

lemma in_quotes_shorter: "in_quotes p cur = Some (t, r) \<Longrightarrow> length r < length p"
  by (induction p cur rule: in_quotes.induct) (fastforce split: if_splits)+

lemma in_single_quotes_shorter: "in_single_quotes p cur = Some (t, r) \<Longrightarrow> length r < length p"
  by (induction p cur rule: in_single_quotes.induct) (fastforce split: if_splits)+

lemma unquoted_shorter: "unquoted p cur = Some (t, r) \<Longrightarrow> p \<noteq> [] \<Longrightarrow> length r < length p"
proof (induction p cur rule: unquoted.induct)
  case (2 c p cur)
  then show ?case
    using in_quotes_shorter[of p cur t r] in_single_quotes_shorter[of p cur t r] by (cases "p = []") (auto split: if_splits)
qed simp

function split_line :: "bytes \<Rightarrow> bytes list option" where
  "split_line line =
     (let p = dropWhile isspace line
      in if p = [] then Some []
         else (case unquoted p [] of
             None \<Rightarrow> None
           | Some (current, rest) \<Rightarrow> map_option ((#) current) (split_line rest)))"
  by auto
termination
proof (relation "measure length", goal_cases)
  case (2 line p x current rest)
  have "unquoted p [] = Some (current, rest)" "p \<noteq> []" using 2 by simp_all
  then have "length rest < length p" by (rule unquoted_shorter)
  also have "\<dots> \<le> length line" using 2 by (simp add: length_dropWhile_le)
  finally show ?case by simp
qed simp

declare split_line.simps [simp del]

definition sdssplitargs :: "bytes \<Rightarrow> bytes list option" where
  "sdssplitargs line = split_line (cstr line)"

subsection \<open>Reading back what was written\<close>

lemma hex_round: "d < 16 \<Longrightarrow> is_hex_digit (hex_digit d) \<and> hex_digit_to_int (hex_digit d) = d"
proof -
  assume d: "d < 16"
  have "\<forall>d \<in> set [0..<16]. is_hex_digit (hex_digit d) \<and> hex_digit_to_int (hex_digit d) = d" by code_simp
  then show ?thesis using d by simp
qed

lemma in_quotes_hex:
  "is_hex_digit h1 \<Longrightarrow> is_hex_digit h2 \<Longrightarrow>
    in_quotes (0x5C # 0x78 # h1 # h2 # p) cur = in_quotes p (cur @ [of_nat (hex_digit_to_int h1 * 16 + hex_digit_to_int h2)])"
  by (subst in_quotes.simps) (simp add: eval_nat_numeral)

lemma in_quotes_repr_char: "in_quotes (repr_char c @ p) cur = in_quotes p (cur @ [c])"
proof (cases "c \<in> {0x5C, 0x22, 0x0A, 0x0D, 0x09, 0x07, 0x08} \<or> isprint c")
  case True
  then consider "c = 0x5C" | "c = 0x22" | "c = 0x0A" | "c = 0x0D" | "c = 0x09" | "c = 0x07" | "c = 0x08"
    | "c \<noteq> 0x5C" "c \<noteq> 0x22" "repr_char c = [c]"
    by (cases "c \<in> {0x5C, 0x22, 0x0A, 0x0D, 0x09, 0x07, 0x08}") (auto simp: repr_char_def)
  then show ?thesis by cases (simp_all add: repr_char_def escaped_def)
next
  case False
  define h1 where "h1 = hex_digit (unat c div 16)"
  define h2 where "h2 = hex_digit (unat c mod 16)"
  have "unat c < 256" using unsigned_less[of c, where ?'a = nat] by simp
  then have h: "is_hex_digit h1" "hex_digit_to_int h1 = unat c div 16" "is_hex_digit h2" "hex_digit_to_int h2 = unat c mod 16"
    using hex_round[of "unat c div 16"] hex_round[of "unat c mod 16"] by (simp_all add: h1_def h2_def)
  have "repr_char c = [0x5C, 0x78, h1, h2]" using False by (simp add: repr_char_def h1_def h2_def)
  then show ?thesis using in_quotes_hex[OF h(1,3), of p cur] unfolding h(2,4) div_mult_mod_eq by simp
qed

lemma in_quotes_repr:
  "quote_ends rest \<Longrightarrow> in_quotes (concat (map repr_char p) @ 0x22 # rest) cur = Some (cur @ p, rest)"
  by (induction p arbitrary: cur) (simp_all add: in_quotes_repr_char)

lemma split_line_quoted:
  assumes "quote_ends rest"
  shows "split_line (sdscatrepr [] p @ rest) = map_option ((#) p) (split_line rest)"
  using in_quotes_repr[OF assms, of p "[]"]
  by (subst split_line.simps) (simp add: sdscatrepr_def isspace_def)

lemma split_line_space: "split_line (0x20 # p) = split_line p"
  by (subst (1 2) split_line.simps) (simp add: isspace_def)

text \<open>The arguments, each quoted, with a space after each.\<close>

definition repr_line :: "bytes list \<Rightarrow> bytes" where
  "repr_line args = concat (map (\<lambda>a. sdscatrepr [] a @ [0x20]) args)"

lemma repr_char_nonzero: "x \<in> set (repr_char c) \<Longrightarrow> x \<noteq> 0"
proof -
  assume x: "x \<in> set (repr_char c)"
  have "unat c < 256" using unsigned_less[of c, where ?'a = nat] by simp
  then have "is_hex_digit (hex_digit (unat c div 16))" "is_hex_digit (hex_digit (unat c mod 16))" using hex_round by auto
  then have "hex_digit (unat c div 16) \<noteq> 0" "hex_digit (unat c mod 16) \<noteq> 0" by (auto simp: is_hex_digit_def)
  then show "x \<noteq> 0" using x by (auto simp: repr_char_def isprint_def split: if_splits)
qed

lemma repr_line_cstr: "cstr (repr_line args) = repr_line args"
proof -
  have "\<forall>c \<in> set (repr_line args). c \<noteq> 0" using repr_char_nonzero by (auto simp: repr_line_def sdscatrepr_def)
  then show ?thesis by (simp add: cstr_def takeWhile_eq_all_conv)
qed

text \<open>Property C35. A line of arguments written with \<open>sdscatrepr\<close> is split by \<open>sdssplitargs\<close> into those arguments, for all bytes.\<close>

theorem sdssplitargs_roundtrip: "sdssplitargs (repr_line args) = Some args"
proof -
  have "split_line (repr_line args) = Some args"
  proof (induction args)
    case Nil
    then show ?case by (simp add: repr_line_def split_line.simps)
  next
    case (Cons a args)
    have "split_line (repr_line (a # args)) = split_line (sdscatrepr [] a @ 0x20 # repr_line args)"
      by (simp add: repr_line_def)
    also have "\<dots> = map_option ((#) a) (split_line (0x20 # repr_line args))"
      by (rule split_line_quoted) (simp add: quote_ends_def isspace_def)
    finally show ?case using Cons by (simp add: split_line_space)
  qed
  then show ?thesis by (simp add: sdssplitargs_def repr_line_cstr)
qed

end
