(* ===== verification/NodesConf.thy ===== *)
theory NodesConf
  imports ClusterFail Sds
begin

text \<open>
  The file nodes.conf (cluster.c): \<open>clusterGenNodesDescription\<close> writes a line for every node, \<open>clusterSaveConfig\<close> adds the
  epochs, and \<open>clusterLoadConfig\<close> reads the file at start. A text is the list of its bytes. Leaving the process for a corrupt
  file, a panic, and reading or writing outside a buffer are \<open>None\<close>.
\<close>

subsection \<open>Writing\<close>

text \<open>\<open>%.40s\<close>.\<close>

definition print_name :: "clusterNode \<Rightarrow> bytes" where
  "print_name n = take REDIS_CLUSTER_NAMELEN (cstr (n_name n))"

text \<open>Lines 4808 to 4815.\<close>

definition flag_names :: "(u32 \<times> bytes) list" where
  "flag_names = [(REDIS_NODE_MYSELF, str ''myself,''), (REDIS_NODE_MASTER, str ''master,''), (REDIS_NODE_SLAVE, str ''slave,''),
     (REDIS_NODE_PFAIL, str ''fail?,''), (REDIS_NODE_FAIL, str ''fail,''), (REDIS_NODE_HANDSHAKE, str ''handshake,''),
     (REDIS_NODE_NOADDR, str ''noaddr,'')]"

definition print_flags :: "u32 \<Rightarrow> bytes" where
  "print_flags flags = (if flags = 0 then str ''noflags,'' else []) @
     concat (map (\<lambda>(f, name). if flags AND f \<noteq> 0 then name else []) flag_names)"

text \<open>Line 4816.\<close>

definition comma_to_space :: "bytes \<Rightarrow> bytes" where
  "comma_to_space ci = (if last ci = 0x2C then butlast ci @ [0x20] else ci)"

text \<open>Lines 4833 to 4850: \<open>start\<close> is \<open>None\<close> for -1, and the loop goes on after the slot at which a range ended.\<close>

function print_slots :: "(nat \<Rightarrow> bool) \<Rightarrow> nat \<Rightarrow> nat option \<Rightarrow> bytes" where
  "print_slots slots j start =
     (if j \<ge> REDIS_CLUSTER_SLOTS then []
      else let start = (if slots j \<and> start = None then Some j else start)
           in case start of
                None \<Rightarrow> print_slots slots (j + 1) None
              | Some st \<Rightarrow>
                  if \<not> slots j \<or> j = REDIS_CLUSTER_SLOTS - 1 then
                    let j = (if slots j \<and> j = REDIS_CLUSTER_SLOTS - 1 then j + 1 else j)
                    in (if int st = int j - 1 then 0x20 # print_nat st
                        else 0x20 # print_nat st @ [0x2D] @ print_int (int j - 1)) @ print_slots slots (j + 1) None
                  else print_slots slots (j + 1) (Some st))"
  by auto
termination by (relation "measure (\<lambda>(slots, j, start). REDIS_CLUSTER_SLOTS - j)") auto

declare print_slots.simps [simp del]

text \<open>Lines 4856 to 4864, for one slot.\<close>

definition print_moving :: "server \<Rightarrow> nat \<Rightarrow> bytes \<Rightarrow> bytes option" where
  "print_moving s j ci =
     (if c_migrating_slots_to s j \<noteq> NULL then do {
        node \<leftarrow> deref (heap s) (c_migrating_slots_to s j);
        Some (ci @ str '' ['' @ print_nat j @ str ''->-'' @ print_name node @ str '']'')
      }
      else if c_importing_slots_from s j \<noteq> NULL then do {
        node \<leftarrow> deref (heap s) (c_importing_slots_from s j);
        Some (ci @ str '' ['' @ print_nat j @ str ''-<-'' @ print_name node @ str '']'')
      }
      else Some ci)"

definition clusterGenNodeDescription :: "ptr \<Rightarrow> server \<Rightarrow> bytes option" where
  "clusterGenNodeDescription p s = do {
     node \<leftarrow> deref (heap s) p;
     let ci = print_name node @ [0x20] @ cstr (n_ip node) @ [0x3A] @ print_int (n_port node) @ [0x20];
     let ci = comma_to_space (ci @ print_flags (n_flags node));
     ci \<leftarrow> (if n_slaveof node \<noteq> NULL then do {
              master \<leftarrow> deref (heap s) (n_slaveof node);
              Some (ci @ str ''slave of '' @ print_name master @ [0x20])
            }
            else Some (ci @ str ''- ''));
     let ci = ci @ print_int (n_ping_sent node) @ [0x20] @ print_int (n_pong_received node) @ [0x20] @
                print_nat (unat (n_configEpoch node)) @ [0x20] @
                (if n_link node \<noteq> NULL \<or> n_flags node AND REDIS_NODE_MYSELF \<noteq> 0 then str ''connected'' else str ''disconnected'');
     let ci = ci @ print_slots (clusterNodeGetSlotBit node) 0 None;
     if n_flags node AND REDIS_NODE_MYSELF \<noteq> 0 then foldM (print_moving s) [0..<REDIS_CLUSTER_SLOTS] ci
     else Some ci
   }"

definition clusterGenNodesDescription :: "u32 \<Rightarrow> server \<Rightarrow> bytes option" where
  "clusterGenNodesDescription flt s = foldM (\<lambda>(_, p) ci. do {
     node \<leftarrow> deref (heap s) p;
     if n_flags node AND flt \<noteq> 0 then Some ci
     else do { ni \<leftarrow> clusterGenNodeDescription p s; Some (ci @ ni @ [0x0A]) }
   }) (c_nodes s) []"

text \<open>The text that \<open>clusterSaveConfig\<close> writes (lines 443 to 446).\<close>

definition clusterSaveConfig_text :: "server \<Rightarrow> bytes option" where
  "clusterSaveConfig_text s = do {
     ci \<leftarrow> clusterGenNodesDescription REDIS_NODE_HANDSHAKE s;
     Some (ci @ str ''vars currentEpoch '' @ print_nat (unat (c_currentEpoch s)) @ str '' lastVoteEpoch '' @
       print_nat (unat (c_lastVoteEpoch s)) @ [0x0A])
   }"

text \<open>The file after the write of line 459 over an old file of the given size, before it is truncated: a crash in between leaves this.\<close>

definition clusterSaveConfig_padded :: "bytes \<Rightarrow> nat \<Rightarrow> bytes" where
  "clusterSaveConfig_padded ci old_size = ci @ replicate (old_size - length ci) 0x0A"

subsection \<open>Reading\<close>

text \<open>The pieces between occurrences of a character, as \<open>strchr\<close> finds them.\<close>

fun pieces :: "u8 \<Rightarrow> bytes \<Rightarrow> bytes list" where
  "pieces d [] = [[]]"
| "pieces d (c # cs) = (if c = d then [] # pieces d cs else (c # hd (pieces d cs)) # tl (pieces d cs))"

text \<open>The 40 bytes at the start of an argument; an argument has a zero byte after its end and nothing beyond that.\<close>

definition arg_name :: "bytes \<Rightarrow> bytes option" where
  "arg_name a = (if length a + 1 < REDIS_CLUSTER_NAMELEN then None else Some (take REDIS_CLUSTER_NAMELEN (a @ [0])))"

text \<open>Lines 262 to 267, 318 to 323 and 360 to 365: the node of a name, created if it is not known.\<close>

definition load_node :: "bytes \<Rightarrow> server \<Rightarrow> (ptr \<times> server) option" where
  "load_node a s = do {
     name \<leftarrow> arg_name a;
     let n = clusterLookupNode name s;
     if n \<noteq> NULL then Some (n, s)
     else do {
       let (n, s1) = createClusterNode (Some name) 0 s;
       (_, s2) \<leftarrow> clusterAddNode n s1;
       Some (n, s2)
     }
   }"

fun load_vars :: "bytes list \<Rightarrow> server \<Rightarrow> server option" where
  "load_vars [] s = Some s"
| "load_vars [v] s = (if strcaseeq v (str ''currentEpoch'') \<or> strcaseeq v (str ''lastVoteEpoch'') then None else Some s)"
| "load_vars (v # x # rest) s =
     load_vars rest
       (if strcaseeq v (str ''currentEpoch'') then s\<lparr>c_currentEpoch := strtoull x\<rparr>
        else if strcaseeq v (str ''lastVoteEpoch'') then s\<lparr>c_lastVoteEpoch := strtoull x\<rparr>
        else s)"

text \<open>Lines 282 to 310.\<close>

definition load_flag :: "ptr \<Rightarrow> bytes \<Rightarrow> server \<Rightarrow> server option" where
  "load_flag n f s =
     (if strcaseeq f (str ''myself'') then do {
        redisAssert (c_myself s = NULL);
        node_upd n (\<lambda>nd. nd\<lparr>n_flags := n_flags nd OR REDIS_NODE_MYSELF\<rparr>) (s\<lparr>c_myself := n\<rparr>)
      }
      else if strcaseeq f (str ''master'') then node_upd n (\<lambda>nd. nd\<lparr>n_flags := n_flags nd OR REDIS_NODE_MASTER\<rparr>) s
      else if strcaseeq f (str ''slave'') then node_upd n (\<lambda>nd. nd\<lparr>n_flags := n_flags nd OR REDIS_NODE_SLAVE\<rparr>) s
      else if strcaseeq f (str ''fail?'') then node_upd n (\<lambda>nd. nd\<lparr>n_flags := n_flags nd OR REDIS_NODE_PFAIL\<rparr>) s
      else if strcaseeq f (str ''fail'')
        then node_upd n (\<lambda>nd. nd\<lparr>n_flags := n_flags nd OR REDIS_NODE_FAIL, n_fail_time := mstime s\<rparr>) s
      else if strcaseeq f (str ''handshake'') then node_upd n (\<lambda>nd. nd\<lparr>n_flags := n_flags nd OR REDIS_NODE_HANDSHAKE\<rparr>) s
      else if strcaseeq f (str ''noaddr'') then node_upd n (\<lambda>nd. nd\<lparr>n_flags := n_flags nd OR REDIS_NODE_NOADDR\<rparr>) s
      else if strcaseeq f (str ''noflags'') then Some s
      else None)"

text \<open>Lines 270 to 273. The address is an array of 46 bytes.\<close>

definition load_address :: "ptr \<Rightarrow> bytes \<Rightarrow> server \<Rightarrow> server option" where
  "load_address n a s =
     (if 0x3A \<notin> set a then None
      else let ip = takeWhile (\<lambda>c. c \<noteq> 0x3A) a
           in if length ip + 1 > 46 then None
              else node_upd n (\<lambda>nd. nd\<lparr>n_ip := ip, n_port := atoi (tl (dropWhile (\<lambda>c. c \<noteq> 0x3A) a))\<rparr>) s)"

text \<open>Lines 317 to 328.\<close>

definition load_master :: "ptr \<Rightarrow> bytes \<Rightarrow> server \<Rightarrow> server option" where
  "load_master n a s =
     (if a \<noteq> [] \<and> hd a = 0x2D then Some s
      else do {
        (master, s1) \<leftarrow> load_node a s;
        s2 \<leftarrow> node_upd n (\<lambda>nd. nd\<lparr>n_slaveof := master\<rparr>) s1;
        map_option snd (clusterNodeAddSlave master n s2)
      })"

text \<open>Line 386.\<close>

definition load_range :: "ptr \<Rightarrow> int \<Rightarrow> int \<Rightarrow> server \<Rightarrow> server option" where
  "load_range n start stop s =
     (if start > stop then Some s
      else if start < 0 \<or> stop \<ge> int REDIS_CLUSTER_SLOTS then None
      else foldM (\<lambda>j s. map_option snd (clusterAddSlot n j s)) [nat start..<Suc (nat stop)] s)"

text \<open>Lines 345 to 386.\<close>

definition load_slot :: "ptr \<Rightarrow> bytes \<Rightarrow> server \<Rightarrow> server option" where
  "load_slot n a s =
     (let before = takeWhile (\<lambda>c. c \<noteq> 0x2D) a; p = dropWhile (\<lambda>c. c \<noteq> 0x2D) a
      in if a \<noteq> [] \<and> hd a = 0x5B then do {
           redisAssert (p \<noteq> []);
           redisAssert (length p \<ge> 3);
           let slot = atoi (tl before);
           (cn, s1) \<leftarrow> load_node (drop 3 p) s;
           redisAssert (0 \<le> slot \<and> slot < int REDIS_CLUSTER_SLOTS);
           Some (if p ! 1 = 0x3E then s1\<lparr>c_migrating_slots_to := (c_migrating_slots_to s1)(nat slot := cn)\<rparr>
                 else s1\<lparr>c_importing_slots_from := (c_importing_slots_from s1)(nat slot := cn)\<rparr>)
         }
         else if p \<noteq> [] then load_range n (atoi before) (atoi (tl p)) s
         else load_range n (atoi a) (atoi a) s)"

text \<open>One line, split into arguments.\<close>

definition load_line :: "bytes list \<Rightarrow> server \<Rightarrow> server option" where
  "load_line argv s =
     (if argv = [] then None
      else if strcaseeq (argv ! 0) (str ''vars'') then load_vars (tl argv) s
      else do {
        (n, s1) \<leftarrow> load_node (argv ! 0) s;
        redisAssert (length argv \<ge> 7);
        s2 \<leftarrow> load_address n (argv ! 1) s1;
        s3 \<leftarrow> foldM (load_flag n) (pieces 0x2C (argv ! 2)) s2;
        s4 \<leftarrow> load_master n (argv ! 3) s3;
        s5 \<leftarrow> (if atoi (argv ! 4) \<noteq> 0 then node_upd n (\<lambda>nd. nd\<lparr>n_ping_sent := mstime s4\<rparr>) s4 else Some s4);
        s6 \<leftarrow> (if atoi (argv ! 5) \<noteq> 0 then node_upd n (\<lambda>nd. nd\<lparr>n_pong_received := mstime s5\<rparr>) s5 else Some s5);
        s7 \<leftarrow> node_upd n (\<lambda>nd. nd\<lparr>n_configEpoch := strtoull (argv ! 6)\<rparr>) s6;
        foldM (load_slot n) (drop 8 argv) s7
      })"

definition load_text_line :: "bytes \<Rightarrow> server \<Rightarrow> server option" where
  "load_text_line line s =
     (if line = [] then Some s
      else do { argv \<leftarrow> sdssplitargs line; load_line argv s })"

text \<open>The result is \<open>REDIS_ERR\<close> when there is no file or it is empty.\<close>

definition clusterLoadConfig :: "bytes option \<Rightarrow> server \<Rightarrow> (retval \<times> server) option" where
  "clusterLoadConfig content s =
     (case content of
        None \<Rightarrow> Some (REDIS_ERR, s)
      | Some text \<Rightarrow>
          if text = [] then Some (REDIS_ERR, s)
          else do {
            s1 \<leftarrow> foldM load_text_line (pieces 0x0A text) s;
            redisAssert (c_myself s1 \<noteq> NULL);
            e \<leftarrow> clusterGetMaxEpoch s1;
            Some (REDIS_OK, if e > c_currentEpoch s1 then s1\<lparr>c_currentEpoch := e\<rparr> else s1)
          })"

subsection \<open>Splitting a line of words\<close>

text \<open>The bytes that neither separate nor quote arguments.\<close>

definition plain :: "bytes \<Rightarrow> bool" where
  "plain a \<longleftrightarrow> (\<forall>c \<in> set a. \<not> isspace c \<and> c \<noteq> 0x22 \<and> c \<noteq> 0x27 \<and> c \<noteq> 0)"

lemma plain_append [simp]: "plain (a @ b) \<longleftrightarrow> plain a \<and> plain b"
  by (auto simp: plain_def)

lemma plain_cstr: "plain a \<Longrightarrow> cstr a = a"
  by (simp add: plain_def cstr_def takeWhile_eq_all_conv)

lemma digit_plain: "isdigit c \<Longrightarrow> \<not> isspace c \<and> c \<noteq> 0x22 \<and> c \<noteq> 0x27 \<and> c \<noteq> 0"
  by (auto simp: isdigit_def isspace_def word_le_nat_alt)

lemma plain_print_nat [simp]: "plain (print_nat n)"
  using digit_plain[OF print_nat_digits] unfolding plain_def by blast

lemma plain_print_int [simp]: "plain (print_int i)"
  using plain_print_nat by (auto simp: print_int_def plain_def isspace_def)

lemma unquoted_plain:
  assumes "plain a" and "rest = [] \<or> hd rest = 0x20"
  shows "unquoted (a @ rest) cur = Some (cur @ a, tl rest)"
  using assms
proof (induction a arbitrary: cur)
  case Nil
  then show ?case by (cases rest) auto
next
  case (Cons c a)
  then show ?case by (auto simp: plain_def isspace_def)
qed

definition spaced :: "bytes list \<Rightarrow> bytes" where
  "spaced ws = concat (map ((#) 0x20) ws)"

lemma split_spaced:
  assumes "\<forall>w \<in> set ws. plain w \<and> w \<noteq> []"
  shows "split_line (spaced ws) = Some ws"
  using assms
proof (induction ws)
  case Nil
  then show ?case by (simp add: spaced_def split_line.simps)
next
  case (Cons w ws)
  have w: "plain w" "w \<noteq> []" using Cons.prems by auto
  have hd: "spaced ws = [] \<or> hd (spaced ws) = 0x20" by (cases ws) (simp_all add: spaced_def)
  have "\<not> isspace (hd w)" using w by (cases w) (simp_all add: plain_def)
  then have drop: "dropWhile isspace (w @ spaced ws) = w @ spaced ws" using w(2) by (cases w) simp_all
  have "split_line (spaced (w # ws)) = split_line (w @ spaced ws)" by (simp add: spaced_def split_line_space)
  also have "\<dots> = map_option ((#) w) (split_line (tl (spaced ws)))"
    using unquoted_plain[OF w(1) hd, of "[]"] w(2) by (subst split_line.simps) (simp add: drop)
  also have "split_line (tl (spaced ws)) = split_line (spaced ws)"
    using split_line_space[of "tl (spaced ws)"] hd by (cases "spaced ws") simp_all
  finally show ?case using Cons by simp
qed

lemma sdssplitargs_spaced:
  assumes "\<forall>w \<in> set ws. plain w \<and> w \<noteq> []"
  shows "sdssplitargs (tl (spaced ws)) = Some ws"
proof -
  have "\<forall>c \<in> set (spaced ws). c \<noteq> 0" using assms by (auto simp: spaced_def plain_def)
  then have "\<forall>c \<in> set (tl (spaced ws)). c \<noteq> 0" by (cases "spaced ws") auto
  then have c: "cstr (tl (spaced ws)) = tl (spaced ws)" by (simp add: cstr_def takeWhile_eq_all_conv)
  have "split_line (tl (spaced ws)) = split_line (spaced ws)"
    using split_line_space[of "tl (spaced ws)"] by (cases ws) (simp_all add: spaced_def)
  then show ?thesis using split_spaced[OF assms] by (simp add: sdssplitargs_def c)
qed

lemma pieces_append: "d \<notin> set w \<Longrightarrow> pieces d (w @ d # y) = w # pieces d y"
  by (induction w) auto

lemma pieces_one: "d \<notin> set w \<Longrightarrow> pieces d w = [w]"
  by (induction w) auto

lemma pieces_terminated: "\<forall>w \<in> set ws. d \<notin> set w \<Longrightarrow> pieces d (concat (map (\<lambda>w. w @ [d]) ws)) = ws @ [[]]"
  by (induction ws) (simp_all add: pieces_append)

lemma pieces_joined:
  assumes "ws \<noteq> []" and "\<forall>w \<in> set ws. d \<notin> set w"
  shows "pieces d (butlast (concat (map (\<lambda>w. w @ [d]) ws))) = ws"
  using assms
proof (induction ws)
  case Nil
  then show ?case by simp
next
  case (Cons w ws)
  show ?case
  proof (cases "ws = []")
    case True
    then show ?thesis using Cons.prems by (simp add: pieces_one)
  next
    case False
    then have "concat (map (\<lambda>w. w @ [d]) ws) \<noteq> []" by (cases ws) simp_all
    then show ?thesis using Cons False by (simp add: butlast_append pieces_append)
  qed
qed

subsection \<open>The flags of a node\<close>

definition flag_words :: "u32 \<Rightarrow> bytes list" where
  "flag_words f = (if f = 0 then [str ''noflags''] else []) @
     map (butlast \<circ> snd) (filter (\<lambda>(b, _). f AND b \<noteq> 0) flag_names)"

lemma flag_name_shape:
  "(b, name) \<in> set flag_names \<Longrightarrow>
    name = butlast name @ [0x2C] \<and> 0x2C \<notin> set (butlast name) \<and> butlast name \<noteq> [] \<and> plain (butlast name)"
proof -
  assume a: "(b, name) \<in> set flag_names"
  have "\<forall>(b, name) \<in> set flag_names.
      name = butlast name @ [0x2C] \<and> 0x2C \<notin> set (butlast name) \<and> butlast name \<noteq> [] \<and> plain (butlast name)"
    by code_simp
  then show ?thesis using a by fast
qed

lemma flag_words_shape: "w \<in> set (flag_words f) \<Longrightarrow> 0x2C \<notin> set w \<and> w \<noteq> [] \<and> plain w"
proof -
  assume w: "w \<in> set (flag_words f)"
  have "0x2C \<notin> set (str ''noflags'') \<and> str ''noflags'' \<noteq> [] \<and> plain (str ''noflags'')" by code_simp
  then show ?thesis using w by (auto simp: flag_words_def split: if_splits dest!: flag_name_shape)
qed

lemma print_flags_words: "print_flags f = concat (map (\<lambda>w. w @ [0x2C]) (flag_words f))"
proof -
  have "concat (map (\<lambda>(b, name). if f AND b \<noteq> 0 then name else []) xs) =
      concat (map (\<lambda>w. w @ [0x2C]) (map (butlast \<circ> snd) (filter (\<lambda>(b, _). f AND b \<noteq> 0) xs)))"
    if "\<forall>x \<in> set xs. snd x = butlast (snd x) @ [0x2C]" for xs :: "(u32 \<times> bytes) list"
    using that by (induction xs) auto
  moreover have "\<forall>x \<in> set flag_names. snd x = butlast (snd x) @ [0x2C]" using flag_name_shape by fastforce
  moreover have "str ''noflags,'' = str ''noflags'' @ [0x2C]" by code_simp
  ultimately show ?thesis by (simp add: print_flags_def flag_words_def)
qed

lemma single_bit: "(if (f :: 'a::len word) AND push_bit k 1 \<noteq> 0 then push_bit k 1 else 0) = f AND (push_bit k 1 :: 'a::len word)"
proof (rule bit_word_eqI)
  fix i assume "i < LENGTH('a)"
  then show "bit (if f AND push_bit k 1 \<noteq> 0 then push_bit k 1 else (0 :: 'a word)) i = bit (f AND (push_bit k 1 :: 'a word)) i"
    using mask_test_pow[of f k] by (cases "i = k") (simp_all add: bit_simps)
qed

lemma flag_bit: "b \<in> fst ` set flag_names \<Longrightarrow> (if f AND b \<noteq> 0 then b else 0) = f AND b"
proof -
  assume "b \<in> fst ` set flag_names"
  then have "\<exists>k. b = push_bit k 1"
    by (auto simp: flag_names_def push_bit_of_1 intro: exI[of _ "0::nat"] exI[of _ "1::nat"] exI[of _ "2::nat"]
        exI[of _ "3::nat"] exI[of _ "4::nat"] exI[of _ "5::nat"] exI[of _ "6::nat"])
  then show ?thesis using single_bit by blast
qed

lemma flags_collected:
  "fold (\<lambda>(b, _) g. g OR b) (filter (\<lambda>(b, _). f AND b \<noteq> 0) flag_names) 0 = f AND 127"
proof -
  have "fold (\<lambda>(b, _) g. g OR b) (filter (\<lambda>(b, _). f AND b \<noteq> 0) xs) g = fold (\<lambda>(b, _) g. g OR f AND b) xs g"
    if "\<forall>x \<in> set xs. (if f AND fst x \<noteq> 0 then fst x else 0) = f AND fst x" for xs :: "(u32 \<times> bytes) list" and g
    using that by (induction xs arbitrary: g) (auto split: if_splits)
  then have "fold (\<lambda>(b, _) g. g OR b) (filter (\<lambda>(b, _). f AND b \<noteq> 0) flag_names) 0 =
      fold (\<lambda>(b, _) g. g OR f AND b) flag_names 0"
    using flag_bit by force
  also have "\<dots> = f AND 127"
    by (simp add: flag_names_def bit.conj_disj_distrib[symmetric])
  finally show ?thesis .
qed

text \<open>What the keyword of a flag does to the node and to \<open>myself\<close>.\<close>

definition flagged :: "u32 \<Rightarrow> int \<Rightarrow> clusterNode \<Rightarrow> clusterNode" where
  "flagged b now nd = nd\<lparr>n_flags := n_flags nd OR b, n_fail_time := (if b = REDIS_NODE_FAIL then now else n_fail_time nd)\<rparr>"

lemma flag_keywords:
  assumes "(b, name) \<in> set flag_names" "(b', name') \<in> set flag_names"
  shows "strcaseeq (butlast name) (butlast name') \<longleftrightarrow> b = b'"
proof -
  have "\<forall>x \<in> set flag_names. \<forall>y \<in> set flag_names. strcaseeq (butlast (snd x)) (butlast (snd y)) \<longleftrightarrow> fst x = fst y"
    by code_simp
  from bspec[OF bspec[OF this assms(1)] assms(2)] show ?thesis by simp
qed

lemma noflags_keyword: "\<forall>(b, name) \<in> set flag_names. \<not> strcaseeq (str ''noflags'') (butlast name)"
  "strcaseeq (str ''noflags'') (str ''noflags'')"
  by code_simp+

lemma flag_keyword_names:
  "(REDIS_NODE_MYSELF, str ''myself,'') \<in> set flag_names \<and> butlast (str ''myself,'') = str ''myself''"
  "(REDIS_NODE_MASTER, str ''master,'') \<in> set flag_names \<and> butlast (str ''master,'') = str ''master''"
  "(REDIS_NODE_SLAVE, str ''slave,'') \<in> set flag_names \<and> butlast (str ''slave,'') = str ''slave''"
  "(REDIS_NODE_PFAIL, str ''fail?,'') \<in> set flag_names \<and> butlast (str ''fail?,'') = str ''fail?''"
  "(REDIS_NODE_FAIL, str ''fail,'') \<in> set flag_names \<and> butlast (str ''fail,'') = str ''fail''"
  "(REDIS_NODE_HANDSHAKE, str ''handshake,'') \<in> set flag_names \<and> butlast (str ''handshake,'') = str ''handshake''"
  "(REDIS_NODE_NOADDR, str ''noaddr,'') \<in> set flag_names \<and> butlast (str ''noaddr,'') = str ''noaddr''"
  by code_simp+

lemma load_flag_name:
  assumes name: "(b, name) \<in> set flag_names" and nd: "heap t p = Some nd" and my: "b = REDIS_NODE_MYSELF \<Longrightarrow> c_myself t = NULL"
  shows "load_flag p (butlast name) t =
    Some (t\<lparr>c_myself := (if b = REDIS_NODE_MYSELF then p else c_myself t), heap := (heap t)(p \<mapsto> flagged b (mstime t) nd)\<rparr>)"
proof -
  note k = flag_keyword_names[THEN conjunct1, THEN flag_keywords[OF name], unfolded flag_keyword_names[THEN conjunct2]]
  have "b = REDIS_NODE_MYSELF \<or> b = REDIS_NODE_MASTER \<or> b = REDIS_NODE_SLAVE \<or> b = REDIS_NODE_PFAIL \<or> b = REDIS_NODE_FAIL \<or>
      b = REDIS_NODE_HANDSHAKE \<or> b = REDIS_NODE_NOADDR"
    using name by (auto simp: flag_names_def)
  then show ?thesis using nd my by (elim disjE) (simp_all add: load_flag_def k flagged_def node_upd_def redisAssert_def)
qed

lemma load_flag_none: "load_flag p (str ''noflags'') t = Some t"
  using noflags_keyword by (simp add: load_flag_def flag_names_def str_def)

lemma load_flag_list:
  assumes "set bs \<subseteq> set flag_names" "distinct (map fst bs)" "heap t p = Some nd"
    "REDIS_NODE_MYSELF \<in> fst ` set bs \<Longrightarrow> c_myself t = NULL"
  shows "\<exists>ft. foldM (load_flag p) (map (butlast \<circ> snd) bs) t =
    Some (t\<lparr>c_myself := (if REDIS_NODE_MYSELF \<in> fst ` set bs then p else c_myself t),
      heap := (heap t)(p \<mapsto> nd\<lparr>n_flags := fold (\<lambda>(b, _) g. g OR b) bs (n_flags nd), n_fail_time := ft\<rparr>)\<rparr>)"
  using assms
proof (induction bs arbitrary: t nd)
  case Nil
  have "nd\<lparr>n_flags := n_flags nd, n_fail_time := n_fail_time nd\<rparr> = nd" by (cases nd) simp
  moreover have "(heap t)(p \<mapsto> nd) = heap t" by (rule fun_upd_idem) (rule Nil.prems(3))
  ultimately show ?case by (intro exI[of _ "n_fail_time nd"]) simp
next
  case (Cons x bs)
  obtain b name where x: "x = (b, name)" by (cases x)
  define t1 where "t1 = t\<lparr>c_myself := (if b = REDIS_NODE_MYSELF then p else c_myself t), heap := (heap t)(p \<mapsto> flagged b (mstime t) nd)\<rparr>"
  have step: "load_flag p (butlast name) t = Some t1"
    unfolding t1_def by (rule load_flag_name) (use Cons.prems x in auto)
  have my: "REDIS_NODE_MYSELF \<in> fst ` set bs \<Longrightarrow> c_myself t1 = NULL" using Cons.prems x by (auto simp: t1_def)
  have "heap t1 p = Some (flagged b (mstime t) nd)" by (simp add: t1_def)
  note heap1 = this
  have fl: "(flagged b (mstime t) nd)\<lparr>n_flags := g, n_fail_time := ft\<rparr> = nd\<lparr>n_flags := g, n_fail_time := ft\<rparr>"
    "n_flags (flagged b (mstime t) nd) = n_flags nd OR b" for g ft
    by (simp_all add: flagged_def)
  have "set bs \<subseteq> set flag_names" "distinct (map fst bs)" using Cons.prems by simp_all
  from Cons.IH[OF this heap1 my, unfolded fl]
  obtain ft where "foldM (load_flag p) (map (butlast \<circ> snd) bs) t1 =
      Some (t1\<lparr>c_myself := (if REDIS_NODE_MYSELF \<in> fst ` set bs then p else c_myself t1),
        heap := (heap t1)(p \<mapsto> nd\<lparr>n_flags := fold (\<lambda>(b, _) g. g OR b) bs (n_flags nd OR b), n_fail_time := ft\<rparr>)\<rparr>)"
    by blast
  moreover have "foldM (load_flag p) (map (butlast \<circ> snd) (x # bs)) t = foldM (load_flag p) (map (butlast \<circ> snd) bs) t1"
    by (simp add: x step)
  moreover have "(if REDIS_NODE_MYSELF \<in> fst ` set bs then p else c_myself t1) =
      (if REDIS_NODE_MYSELF \<in> fst ` set (x # bs) then p else c_myself t)"
    by (simp add: t1_def x)
  moreover have "t1\<lparr>c_myself := m, heap := (heap t1)(p \<mapsto> n')\<rparr> = t\<lparr>c_myself := m, heap := (heap t)(p \<mapsto> n')\<rparr>" for m n'
    by (simp add: t1_def)
  moreover have "fold (\<lambda>(b, _) g. g OR b) (x # bs) (n_flags nd) = fold (\<lambda>(b, _) g. g OR b) bs (n_flags nd OR b)"
    by (simp add: x)
  ultimately show ?case by (intro exI[of _ ft]) (simp only:)
qed

lemma load_flags:
  assumes nd: "heap t p = Some nd" "n_flags nd = 0" and f: "f AND NOT 127 = 0"
    and my: "f AND REDIS_NODE_MYSELF \<noteq> 0 \<Longrightarrow> c_myself t = NULL"
  shows "\<exists>ft. foldM (load_flag p) (flag_words f) t =
    Some (t\<lparr>c_myself := (if f AND REDIS_NODE_MYSELF \<noteq> 0 then p else c_myself t),
      heap := (heap t)(p \<mapsto> nd\<lparr>n_flags := f, n_fail_time := ft\<rparr>)\<rparr>)"
proof -
  define bs where "bs = filter (\<lambda>(b, _). f AND b \<noteq> 0) flag_names"
  have in_bs: "REDIS_NODE_MYSELF \<in> fst ` set bs \<longleftrightarrow> f AND REDIS_NODE_MYSELF \<noteq> 0"
    by (auto simp: bs_def flag_names_def)
  have "distinct (map fst flag_names)" by code_simp
  then have d: "distinct (map fst bs)" unfolding bs_def by (rule distinct_map_filter)
  have "(f AND m) OR (f AND NOT m) = f" for m by (simp add: bit.conj_disj_distrib[symmetric] del: word_bitwise_1_simps)
  from this[of 127] have "f = f AND 127" using f by simp
  then have fold: "fold (\<lambda>(b, _) g. g OR b) bs 0 = f" using flags_collected[of f] by (simp add: bs_def)
  have "foldM (load_flag p) (flag_words f) t = foldM (load_flag p) (map (butlast \<circ> snd) bs) t"
    by (simp add: flag_words_def load_flag_none bs_def)
  moreover have "set bs \<subseteq> set flag_names" by (auto simp: bs_def)
  ultimately show ?thesis using load_flag_list[OF _ d nd(1)] my nd(2) fold unfolding in_bs by fastforce
qed

subsection \<open>The slots of a node\<close>

definition range_word :: "nat \<times> nat \<Rightarrow> bytes" where
  "range_word r = (if fst r = snd r then print_nat (fst r) else print_nat (fst r) @ [0x2D] @ print_nat (snd r))"

definition range_slots :: "nat \<times> nat \<Rightarrow> nat list" where
  "range_slots r = [fst r..<Suc (snd r)]"

definition range_ok :: "nat \<times> nat \<Rightarrow> bool" where
  "range_ok r \<longleftrightarrow> fst r \<le> snd r \<and> snd r < REDIS_CLUSTER_SLOTS"

lemma print_slots_ranges:
  assumes "\<forall>st. start = Some st \<longrightarrow> st < j \<and> j < REDIS_CLUSTER_SLOTS \<and> (\<forall>k. st \<le> k \<and> k < j \<longrightarrow> slots k)"
  shows "\<exists>rs. print_slots slots j start = spaced (map range_word rs) \<and> (\<forall>r \<in> set rs. range_ok r) \<and>
    set (concat (map range_slots rs)) = {k. (case start of None \<Rightarrow> j | Some st \<Rightarrow> st) \<le> k \<and> k < REDIS_CLUSTER_SLOTS \<and> slots k}"
  using assms
proof (induction slots j start rule: print_slots.induct)
  case (1 slots j start)
  define start' where "start' = (if slots j \<and> start = None then Some j else start)"
  show ?case
  proof (cases "j < REDIS_CLUSTER_SLOTS")
    case False
    then have "start = None" using "1.prems" by (cases start) auto
    then show ?thesis using False by (intro exI[of _ "[]"]) (subst print_slots.simps, auto simp: spaced_def)
  next
    case j: True
    have eq: "print_slots slots j start = (case start' of
        None \<Rightarrow> print_slots slots (j + 1) None
      | Some st \<Rightarrow> if \<not> slots j \<or> j = REDIS_CLUSTER_SLOTS - 1
          then let j = (if slots j \<and> j = REDIS_CLUSTER_SLOTS - 1 then j + 1 else j)
               in (if int st = int j - 1 then 0x20 # print_nat st
                   else 0x20 # print_nat st @ [0x2D] @ print_int (int j - 1)) @ print_slots slots (j + 1) None
          else print_slots slots (j + 1) (Some st))"
      using j unfolding start'_def by (subst print_slots.simps) (simp only: Let_def not_le if_not_P[OF j[folded not_le]] if_False)
    show ?thesis
    proof (cases start')
      case None
      then have s: "start = None" "\<not> slots j" by (auto simp: start'_def split: if_splits)
      have "print_slots slots j start = print_slots slots (j + 1) None"
        using None by (simp add: eq)
      moreover have "\<exists>rs. print_slots slots (j + 1) None = spaced (map range_word rs) \<and> (\<forall>r \<in> set rs. range_ok r) \<and>
          set (concat (map range_slots rs)) = {k. j + 1 \<le> k \<and> k < REDIS_CLUSTER_SLOTS \<and> slots k}"
        using "1.IH"(1)[OF _ start'_def None] j by simp
      moreover have "{k. j + 1 \<le> k \<and> k < REDIS_CLUSTER_SLOTS \<and> slots k} = {k. j \<le> k \<and> k < REDIS_CLUSTER_SLOTS \<and> slots k}"
        using s(2) by (auto simp: Suc_le_eq) (metis le_neq_implies_less)
      ultimately show ?thesis using s by simp
    next
      case (Some st)
      have st: "st \<le> j" "\<forall>k. st \<le> k \<and> k < j \<longrightarrow> slots k" "(case start of None \<Rightarrow> j | Some st \<Rightarrow> st) = st"
        using Some "1.prems" by (auto simp: start'_def split: if_splits)
      have lt: "\<not> slots j \<Longrightarrow> st < j" using Some "1.prems" by (auto simp: start'_def split: if_splits)
      show ?thesis
      proof (cases "\<not> slots j \<or> j = REDIS_CLUSTER_SLOTS - 1")
        case False
        have "print_slots slots j start = print_slots slots (j + 1) (Some st)"
          using Some False by (simp add: eq)
        moreover have "\<forall>k. st \<le> k \<and> k < j + 1 \<longrightarrow> slots k" using st(2) False by (metis less_antisym Suc_eq_plus1)
        moreover have "j + 1 < REDIS_CLUSTER_SLOTS" using j False by auto
        ultimately show ?thesis using "1.IH"(3)[OF _ start'_def, of st] j Some st False
          by (simp add: start'_def[symmetric])
      next
        case True
        define j' where "j' = (if slots j \<and> j = REDIS_CLUSTER_SLOTS - 1 then j + 1 else j)"
        have j': "j' = j \<and> \<not> slots j \<or> j' = REDIS_CLUSTER_SLOTS \<and> j' = j + 1 \<and> slots j"
          using True j by (auto simp: j'_def)
        have pos: "st < j'" using j' st(1) lt by auto
        define r where "r = (st, j' - 1)"
        have pr: "print_slots slots j start = 0x20 # range_word r @ print_slots slots (j' + 1) None"
        proof -
          have "print_int (int j' - 1) = print_nat (j' - 1)" using pos by (simp add: print_int_def nat_diff_distrib')
          moreover have "int st = int j' - 1 \<longleftrightarrow> st = j' - 1" using pos by auto
          ultimately show ?thesis
            using Some True unfolding eq j'_def[symmetric] by (simp add: r_def range_word_def)
        qed
        obtain rs where rs: "print_slots slots (j' + 1) None = spaced (map range_word rs)" "\<forall>r \<in> set rs. range_ok r"
          "set (concat (map range_slots rs)) = {k. j' + 1 \<le> k \<and> k < REDIS_CLUSTER_SLOTS \<and> slots k}"
          using "1.IH"(2)[OF j[folded not_le] start'_def Some True j'_def] by auto
        have "print_slots slots j start = spaced (map range_word (r # rs))" using pr rs(1) by (simp add: spaced_def)
        moreover have "range_ok r" using pos j' j by (auto simp: r_def range_ok_def)
        moreover have "set (concat (map range_slots (r # rs))) = {k. st \<le> k \<and> k < REDIS_CLUSTER_SLOTS \<and> slots k}"
          using rs(3) pos j' st(2) j by (auto simp: r_def range_slots_def less_Suc_eq Suc_le_eq) (metis le_neq_implies_less not_less_eq less_antisym)+
        ultimately show ?thesis using rs(2) st(3) by (intro exI[of _ "r # rs"]) simp
      qed
    qed
  qed
qed

lemma atoi_print_nat: "k < 2 ^ 31 \<Longrightarrow> atoi (print_nat k) = int k"
  using atoi_print_int[of "int k"] by (simp add: print_int_def)

lemma print_nat_no_dash: "c \<in> set (print_nat n) \<Longrightarrow> c \<noteq> 0x2D"
  using isdigit_facts[OF print_nat_digits] by blast

lemma load_slot_range:
  assumes "range_ok r"
  shows "load_slot p (range_word r) s = foldM (\<lambda>j s. map_option snd (clusterAddSlot p j s)) (range_slots r) s"
proof -
  obtain a b where r: "r = (a, b)" by (cases r)
  have ab: "a \<le> b" "b < REDIS_CLUSTER_SLOTS" using assms r by (simp_all add: range_ok_def)
  then have n: "atoi (print_nat a) = int a" "atoi (print_nat b) = int b"
    by (auto intro!: atoi_print_nat simp: REDIS_CLUSTER_SLOTS_def)
  have hd: "hd (print_nat a @ x) \<noteq> 0x5B" for x
    using isdigit_facts[OF hd_print_nat[of a]] by (simp add: hd_append)
  have tw: "takeWhile (\<lambda>c. c \<noteq> 0x2D) (print_nat a @ x) = print_nat a @ takeWhile (\<lambda>c. c \<noteq> 0x2D) x"
    "dropWhile (\<lambda>c. c \<noteq> 0x2D) (print_nat a @ x) = dropWhile (\<lambda>c. c \<noteq> 0x2D) x" for x
    using print_nat_no_dash by (auto intro: takeWhile_append2 dropWhile_append2)
  have range: "load_range p (int a) (int b) s = foldM (\<lambda>j s. map_option snd (clusterAddSlot p j s)) [a..<Suc b] s"
    using ab by (simp add: load_range_def del: upt_Suc)
  show ?thesis
  proof (cases "a = b")
    case True
    then show ?thesis using hd[of "[]"] tw[of "[]"] n range
      by (simp add: load_slot_def r range_word_def range_slots_def del: upt_Suc)
  next
    case False
    then show ?thesis using hd[of "0x2D # print_nat b"] tw[of "0x2D # print_nat b"] n range
      by (simp add: load_slot_def r range_word_def range_slots_def Let_def del: upt_Suc)
  qed
qed

lemma load_slot_ranges:
  assumes "\<forall>r \<in> set rs. range_ok r"
  shows "foldM (load_slot p) (map range_word rs) s =
    foldM (\<lambda>j s. map_option snd (clusterAddSlot p j s)) (concat (map range_slots rs)) s"
  using assms
proof (induction rs arbitrary: s)
  case (Cons r rs)
  then show ?case
    by (cases "foldM (\<lambda>j s. map_option snd (clusterAddSlot p j s)) (range_slots r) s")
      (simp_all add: load_slot_range foldM_append)
qed simp

text \<open>Claiming slots that are free, or taken already by the same node.\<close>

lemma claim_slots:
  assumes "slots_inv s" and "heap s p \<noteq> None" and "\<forall>j \<in> set js. j < REDIS_CLUSTER_SLOTS \<and> (c_slots s j = NULL \<or> c_slots s j = p)"
  shows "returns (foldM (\<lambda>j s. map_option snd (clusterAddSlot p j s)) js s) (\<lambda>s'. slots_inv s' \<and> but_slots s' = but_slots s \<and>
    c_slots s' = (\<lambda>j. if j \<in> set js then p else c_slots s j))"
  using assms
proof (induction js arbitrary: s)
  case Nil
  then show ?case by (simp add: wp)
next
  case (Cons j js)
  have j: "j < REDIS_CLUSTER_SLOTS" using Cons.prems(3) by simp
  obtain r s1 where a: "clusterAddSlot p j s = Some (r, s1)" and i: "slots_inv s1" and fr: "but_slots s1 = but_slots s"
    and c: "if c_slots s j \<noteq> NULL then s1 = s else c_slots s1 = (c_slots s)(j := p)"
    using returnsD[OF clusterAddSlot_spec[OF Cons.prems(1) j Cons.prems(2)]] by (auto split: if_splits)
  have c1: "c_slots s1 = (c_slots s)(j := p)" using c Cons.prems(3) by (cases "c_slots s j = 0") (auto simp: fun_upd_idem)
  have "heap s1 p \<noteq> None" using Cons.prems(2) but_slots_alloc[OF fr, of p] by simp
  from Cons.IH[OF i this] Cons.prems(3) c1
  have "returns (foldM (\<lambda>j s. map_option snd (clusterAddSlot p j s)) js s1) (\<lambda>s'. slots_inv s' \<and> but_slots s' = but_slots s1 \<and>
    c_slots s' = (\<lambda>j. if j \<in> set js then p else c_slots s1 j))" by simp
  then show ?case using fr by (simp add: a wp) (erule returns_mono, auto simp: c1)
qed

subsection \<open>One line\<close>

text \<open>A node whose words can be read back: the name is complete, the address has no colon and fits, no other flags are set.\<close>

definition printable :: "clusterNode \<Rightarrow> bool" where
  "printable nd \<longleftrightarrow> length (n_name nd) = REDIS_CLUSTER_NAMELEN \<and> plain (n_name nd) \<and> plain (n_ip nd) \<and>
     0x3A \<notin> set (n_ip nd) \<and> length (n_ip nd) \<le> 45 \<and> - (2 ^ 31) \<le> n_port nd \<and> n_port nd < 2 ^ 31 \<and>
     n_flags nd AND NOT 127 = 0"

text \<open>The words of a line; the fourth and following words name the master, or are a dash.\<close>

definition line_words :: "clusterNode \<Rightarrow> bytes list \<Rightarrow> bytes list" where
  "line_words nd master = [n_name nd, n_ip nd @ 0x3A # print_int (n_port nd), butlast (print_flags (n_flags nd))] @ master @
    [print_int (n_ping_sent nd), print_int (n_pong_received nd), print_nat (unat (n_configEpoch nd)),
     (if n_link nd \<noteq> NULL \<or> n_flags nd AND REDIS_NODE_MYSELF \<noteq> 0 then str ''connected'' else str ''disconnected'')]"

definition node_words :: "clusterNode \<Rightarrow> bytes list" where
  "node_words nd = line_words nd [[0x2D]]"

definition nothing_moves :: "server \<Rightarrow> bool" where
  "nothing_moves s \<longleftrightarrow> (\<forall>j<REDIS_CLUSTER_SLOTS. c_migrating_slots_to s j = NULL \<and> c_importing_slots_from s j = NULL)"

lemma print_moving_nothing:
  assumes "nothing_moves s"
  shows "foldM (print_moving s) [0..<REDIS_CLUSTER_SLOTS] ci = Some ci"
proof -
  have "foldM (print_moving s) js ci = Some ci" if "set js \<subseteq> {0..<REDIS_CLUSTER_SLOTS}" for js
    using that assms by (induction js) (auto simp: print_moving_def nothing_moves_def)
  then show ?thesis by simp
qed

lemma flag_words_nonempty:
  assumes "f AND NOT 127 = 0"
  shows "flag_words f \<noteq> []"
proof
  assume e: "flag_words f = []"
  have "(f AND m) OR (f AND NOT m) = f" for m by (simp add: bit.conj_disj_distrib[symmetric] del: word_bitwise_1_simps)
  from this[of 127] have "f = f AND 127" using assms by simp
  then have "f = 0" using flags_collected[of f] e by (simp add: flag_words_def)
  then show False using e by (simp add: flag_words_def)
qed

lemma print_flags_shape:
  assumes "f AND NOT 127 = 0"
  shows "print_flags f \<noteq> []" "last (print_flags f) = 0x2C" "pieces 0x2C (butlast (print_flags f)) = flag_words f"
    "plain (butlast (print_flags f))" "butlast (print_flags f) \<noteq> []"
proof -
  obtain ws w where w: "flag_words f = ws @ [w]" using flag_words_nonempty[OF assms] by (cases "flag_words f" rule: rev_cases) auto
  have p: "print_flags f = concat (map (\<lambda>w. w @ [0x2C]) ws) @ w @ [0x2C]" by (simp add: print_flags_words w)
  show "print_flags f \<noteq> []" "last (print_flags f) = 0x2C" by (simp_all add: p)
  show "pieces 0x2C (butlast (print_flags f)) = flag_words f"
    unfolding print_flags_words using flag_words_nonempty[OF assms] flag_words_shape by (intro pieces_joined) auto
  have b: "butlast (print_flags f) = concat (map (\<lambda>w. w @ [0x2C]) ws) @ w" by (simp add: p butlast_append)
  have "plain x \<and> x \<noteq> []" if "x \<in> set (ws @ [w])" for x using flag_words_shape that w by metis
  then show "plain (butlast (print_flags f))" "butlast (print_flags f) \<noteq> []"
    unfolding b by (auto simp: plain_def isspace_def)
qed

lemma line_words_plain:
  assumes "printable nd" and "\<forall>w \<in> set master. plain w \<and> w \<noteq> []"
  shows "\<forall>w \<in> set (line_words nd master). plain w \<and> w \<noteq> []"
proof -
  have s: "plain (str ''connected'') \<and> plain (str ''disconnected'') \<and> str ''connected'' \<noteq> [] \<and> str ''disconnected'' \<noteq> [] \<and>
      plain [0x3A]"
    by code_simp
  moreover have "plain (0x3A # print_int (n_port nd))" using plain_append[of "[0x3A]" "print_int (n_port nd)"] s by simp
  moreover have "print_int i \<noteq> []" for i by (simp add: print_int_def)
  moreover have "n_name nd \<noteq> []" using assms by (auto simp: printable_def)
  ultimately show ?thesis using assms print_flags_shape[of "n_flags nd"] by (simp add: line_words_def printable_def ball_Un)
qed

lemma node_words_plain:
  assumes "printable nd"
  shows "\<forall>w \<in> set (node_words nd). plain w \<and> w \<noteq> []"
proof -
  have "plain [0x2D]" by code_simp
  then have "\<forall>w \<in> set [[0x2D]]. plain w \<and> w \<noteq> []" by simp
  from line_words_plain[OF assms this] show ?thesis by (simp only: node_words_def)
qed

lemma range_word_plain: "plain (range_word r) \<and> range_word r \<noteq> []"
proof -
  have "plain [0x2D]" by code_simp
  then show ?thesis using plain_append[of "[0x2D]" "print_nat (snd r)"] by (simp add: range_word_def del: plain_append) (simp add: plain_append)
qed

lemma describe_words:
  assumes nd: "heap s p = Some nd" and pr: "printable nd" and mv: "nothing_moves s"
    and ms: "if n_slaveof nd = NULL then master = [[0x2D]]
      else \<exists>m. heap s (n_slaveof nd) = Some m \<and> master = [str ''slave'', str ''of'', print_name m]"
  shows "\<exists>rs. clusterGenNodeDescription p s = Some (tl (spaced (line_words nd master @ map range_word rs))) \<and> (\<forall>r \<in> set rs. range_ok r) \<and>
    set (concat (map range_slots rs)) = {j. j < REDIS_CLUSTER_SLOTS \<and> clusterNodeGetSlotBit nd j}"
proof -
  obtain rs where rs: "print_slots (clusterNodeGetSlotBit nd) 0 None = spaced (map range_word rs)" "\<forall>r \<in> set rs. range_ok r"
    "set (concat (map range_slots rs)) = {j. j < REDIS_CLUSTER_SLOTS \<and> clusterNodeGetSlotBit nd j}"
    using print_slots_ranges[of None 0 "clusterNodeGetSlotBit nd"] by auto
  have f: "n_flags nd AND NOT 127 = 0" using pr by (simp add: printable_def)
  have nm: "print_name nd = n_name nd" "cstr (n_ip nd) = n_ip nd" using pr by (simp_all add: print_name_def printable_def plain_cstr)
  have comma: "comma_to_space (ci @ print_flags (n_flags nd)) = ci @ butlast (print_flags (n_flags nd)) @ [0x20]" for ci
    using print_flags_shape[OF f] by (simp add: comma_to_space_def butlast_append)
  have words: "str ''- '' = [0x2D, 0x20]" "str ''slave of '' = str ''slave'' @ 0x20 # str ''of'' @ [0x20]" by code_simp+
  have "clusterGenNodeDescription p s = Some (tl (spaced (line_words nd master @ map range_word rs)))"
    using nd ms print_moving_nothing[OF mv] rs(1)
      comma[of "n_name nd @ 0x20 # n_ip nd @ 0x3A # print_int (n_port nd) @ [0x20]"]
    by (cases "n_slaveof nd = 0")
      (auto simp: clusterGenNodeDescription_def deref_def nm words line_words_def spaced_def Let_def)
  then show ?thesis using rs(2,3) by blast
qed

text \<open>What is read back of a node: its name, address, role, flags and epoch. It has no link yet.\<close>

definition read_back :: "clusterNode \<Rightarrow> clusterNode \<Rightarrow> bool" where
  "read_back nd nd' \<longleftrightarrow> n_name nd' = n_name nd \<and> n_ip nd' = n_ip nd \<and> n_port nd' = n_port nd \<and> n_flags nd' = n_flags nd \<and>
     n_configEpoch nd' = n_configEpoch nd \<and> n_slaveof nd' = NULL \<and> n_slaves nd' = [] \<and> n_link nd' = NULL"

definition line_loaded :: "clusterNode \<Rightarrow> (nat \<Rightarrow> bool) \<Rightarrow> server \<Rightarrow> server \<Rightarrow> bool" where
  "line_loaded nd mine t t' \<longleftrightarrow> inv t' \<and> (\<exists>p nd'. heap t p = None \<and> c_nodes t' = c_nodes t @ [(n_name nd, p)] \<and>
     heap t' p = Some nd' \<and> read_back nd nd' \<and>
     (\<forall>q. q \<noteq> p \<longrightarrow> map_option node_but_slots (heap t' q) = map_option node_but_slots (heap t q)) \<and>
     (\<forall>j<REDIS_CLUSTER_SLOTS. c_slots t' j = (if mine j then p else c_slots t j)) \<and>
     c_myself t' = (if n_flags nd AND REDIS_NODE_MYSELF \<noteq> 0 then p else c_myself t) \<and>
     c_currentEpoch t' = c_currentEpoch t \<and> c_lastVoteEpoch t' = c_lastVoteEpoch t)"

lemma inv_myself: "inv (t\<lparr>c_myself := m\<rparr>) = inv t"
  by (simp add: inv_def slots_inv_def nodes_inv_def alloc_inv_def)

lemma load_node_new:
  assumes inv: "inv t" and len: "length name = REDIS_CLUSTER_NAMELEN" and new: "name \<notin> fst ` set (c_nodes t)"
  shows "\<exists>t1. load_node name t = Some (brk t, t1) \<and> inv t1 \<and>
    t1 = t\<lparr>brk := Suc (brk t), heap := (heap t)(brk t \<mapsto> newClusterNode name 0 (mstime t)), c_nodes := c_nodes t @ [(name, brk t)]\<rparr>"
proof -
  define t0 where "t0 = t\<lparr>brk := Suc (brk t), heap := (heap t)(brk t \<mapsto> newClusterNode name 0 (mstime t))\<rparr>"
  define t1 where "t1 = t0\<lparr>c_nodes := c_nodes t @ [(name, brk t)]\<rparr>"
  have m: "map_of (c_nodes t) name = None" using new by (simp add: map_of_eq_None_iff)
  have c: "createClusterNode (Some name) 0 t = (brk t, t0)" using len by (simp add: createClusterNode_def t0_def Let_def)
  have a: "clusterAddNode (brk t) t0 = Some (REDIS_OK, t1)"
    using m by (simp add: clusterAddNode_def t0_def t1_def deref_def newClusterNode_def dictAdd_def)
  have "inv t1" using createClusterNode_quiet[OF c] clusterAddNode_quiet[OF a] inv by (simp add: quiet_inv)
  moreover have "load_node name t = Some (brk t, t1)"
    using len c a m by (simp add: load_node_def arg_name_def clusterLookupNode_def dictFind_def)
  ultimately show ?thesis by (simp add: t1_def t0_def)
qed

lemma load_address_words:
  assumes "printable nd" and "heap t p = Some n"
  shows "load_address p (n_ip nd @ 0x3A # print_int (n_port nd)) t =
    Some (t\<lparr>heap := (heap t)(p \<mapsto> n\<lparr>n_ip := n_ip nd, n_port := n_port nd\<rparr>)\<rparr>)"
proof -
  have no: "\<And>c. c \<in> set (n_ip nd) \<Longrightarrow> c \<noteq> 0x3A" using assms(1) by (auto simp: printable_def)
  have "takeWhile (\<lambda>c. c \<noteq> 0x3A) (n_ip nd @ 0x3A # print_int (n_port nd)) = n_ip nd"
    "dropWhile (\<lambda>c. c \<noteq> 0x3A) (n_ip nd @ 0x3A # print_int (n_port nd)) = 0x3A # print_int (n_port nd)"
    using no by (subst takeWhile_append2 dropWhile_append2; simp)+
  then show ?thesis using assms atoi_print_int[of "n_port nd"]
    by (simp add: load_address_def printable_def node_upd_def Let_def)
qed

lemma name_not_vars: "printable nd \<Longrightarrow> \<not> strcaseeq (n_name nd) (str ''vars'')"
proof
  assume pr: "printable nd" and "strcaseeq (n_name nd) (str ''vars'')"
  then have "map tolower8 (n_name nd) = map tolower8 (cstr (str ''vars''))"
    by (simp add: strcaseeq_def printable_def plain_cstr)
  then have "length (n_name nd) = length (cstr (str ''vars''))" by (metis length_map)
  moreover have "length (cstr (str ''vars'')) = 4" by code_simp
  ultimately show False using pr by (simp add: printable_def)
qed

lemma load_line_words:
  assumes inv: "inv t" and pr: "printable nd" and new: "n_name nd \<notin> fst ` set (c_nodes t)"
    and my: "n_flags nd AND REDIS_NODE_MYSELF \<noteq> 0 \<Longrightarrow> c_myself t = NULL"
    and rs: "\<forall>r \<in> set rs. range_ok r" "set (concat (map range_slots rs)) = {j. j < REDIS_CLUSTER_SLOTS \<and> mine j}"
    and free: "\<forall>j<REDIS_CLUSTER_SLOTS. mine j \<longrightarrow> c_slots t j = NULL"
  shows "returns (load_line (node_words nd @ map range_word rs) t) (line_loaded nd mine t)"
proof -
  define p where "p = brk t"
  define m where "m = (if n_flags nd AND REDIS_NODE_MYSELF \<noteq> 0 then p else c_myself t)"
  have len: "length (n_name nd) = REDIS_CLUSTER_NAMELEN" using pr by (simp add: printable_def)
  obtain t1 where t1: "load_node (n_name nd) t = Some (p, t1)" "inv t1"
    "t1 = t\<lparr>brk := Suc p, heap := (heap t)(p \<mapsto> newClusterNode (n_name nd) 0 (mstime t)), c_nodes := c_nodes t @ [(n_name nd, p)]\<rparr>"
    using load_node_new[OF inv len new] unfolding p_def by blast
  have fresh: "heap t p = None" using inv by (simp add: p_def inv_def alloc_inv_def)
  define n1 where "n1 = newClusterNode (n_name nd) 0 (mstime t)"
  have h1: "heap t1 p = Some n1" by (simp add: t1(3) n1_def)
  define t2 where "t2 = t1\<lparr>heap := (heap t1)(p \<mapsto> n1\<lparr>n_ip := n_ip nd, n_port := n_port nd\<rparr>)\<rparr>"
  have s2: "load_address p (n_ip nd @ 0x3A # print_int (n_port nd)) t1 = Some t2"
    unfolding t2_def by (rule load_address_words[OF pr h1])
  have f: "n_flags nd AND NOT 127 = 0" using pr by (simp add: printable_def)
  have h2: "heap t2 p = Some (n1\<lparr>n_ip := n_ip nd, n_port := n_port nd\<rparr>)" and my2: "c_myself t2 = c_myself t"
    by (simp_all add: t2_def t1(3))
  have "n_flags (n1\<lparr>n_ip := n_ip nd, n_port := n_port nd\<rparr>) = 0" by (simp add: n1_def newClusterNode_def)
  from load_flags[OF h2 this f, unfolded my2, OF my, folded m_def] obtain ft where
    s3: "foldM (load_flag p) (flag_words (n_flags nd)) t2 = Some (t2\<lparr>c_myself := m,
      heap := (heap t2)(p \<mapsto> n1\<lparr>n_ip := n_ip nd, n_port := n_port nd, n_flags := n_flags nd, n_fail_time := ft\<rparr>)\<rparr>)"
    by blast
  define g where "g = (\<lambda>ps pg. n1\<lparr>n_ip := n_ip nd, n_port := n_port nd, n_flags := n_flags nd, n_fail_time := ft,
      n_ping_sent := ps, n_pong_received := pg, n_configEpoch := n_configEpoch nd\<rparr>)"
  have "\<exists>ps pg. load_line (node_words nd @ map range_word rs) t =
      foldM (load_slot p) (map range_word rs) (t1\<lparr>c_myself := m, heap := (heap t1)(p \<mapsto> g ps pg)\<rparr>)"
  proof -
    have "\<not> strcaseeq (n_name nd) (str ''vars'')" using pr by (rule name_not_vars)
    then show ?thesis
      using t1(1) s2 s3 print_flags_shape(3)[OF f] strtoull_print_nat[of "n_configEpoch nd"]
      by (cases "atoi (print_int (n_ping_sent nd)) = 0"; cases "atoi (print_int (n_pong_received nd)) = 0")
        (auto simp: load_line_def node_words_def line_words_def redisAssert_def load_master_def node_upd_def g_def t2_def n1_def newClusterNode_def
          intro!: exI)
  qed
  then obtain ps pg where run: "load_line (node_words nd @ map range_word rs) t =
      foldM (load_slot p) (map range_word rs) (t1\<lparr>c_myself := m, heap := (heap t1)(p \<mapsto> g ps pg)\<rparr>)" by blast
  define t7 where "t7 = t1\<lparr>c_myself := m, heap := (heap t1)(p \<mapsto> g ps pg)\<rparr>"
  have "inv_view (t1\<lparr>heap := (heap t1)(p \<mapsto> g ps pg)\<rparr>) = inv_view t1"
    using inv_view_upd[OF h1, of "g ps pg"] by (simp add: g_def node_view_def)
  then have "inv (t1\<lparr>heap := (heap t1)(p \<mapsto> g ps pg)\<rparr>)" using quiet_view t1(2) quiet_inv by blast
  moreover have "t7 = (t1\<lparr>heap := (heap t1)(p \<mapsto> g ps pg)\<rparr>)\<lparr>c_myself := m\<rparr>" by (simp add: t7_def)
  ultimately have "inv t7" by (simp add: inv_myself)
  then have i7: "slots_inv t7" by (simp add: inv_def)
  have "\<forall>j \<in> set (concat (map range_slots rs)). j < REDIS_CLUSTER_SLOTS \<and> (c_slots t7 j = NULL \<or> c_slots t7 j = p)"
    using rs(2) free by (simp add: t7_def t1(3))
  from returnsD[OF claim_slots[OF i7 _ this]] obtain t8 where
    t8: "foldM (load_slot p) (map range_word rs) t7 = Some t8" "slots_inv t8" "but_slots t8 = but_slots t7"
    "c_slots t8 = (\<lambda>j. if j \<in> set (concat (map range_slots rs)) then p else c_slots t7 j)"
    using load_slot_ranges[OF rs(1)] by (auto simp: t7_def)
  have "inv t8" using but_slots_quiet[OF t8(3)] t8(2) \<open>inv t7\<close> by (simp add: quiet_def)
  moreover have "c_nodes t8 = c_nodes t @ [(n_name nd, p)]" "c_myself t8 = m" "c_currentEpoch t8 = c_currentEpoch t"
    "c_lastVoteEpoch t8 = c_lastVoteEpoch t"
    using but_slots_ids[OF t8(3)] by (simp_all add: t7_def t1(3) ids_def)
  moreover have "\<exists>nd'. heap t8 p = Some nd' \<and> read_back nd nd'"
  proof -
    have "heap t7 p = Some (g ps pg)" by (simp add: t7_def)
    from but_slots_node[OF t8(3)[symmetric] this] obtain nd' where "heap t8 p = Some nd'" "node_but_slots (g ps pg) = node_but_slots nd'" by blast
    then show ?thesis using node_but_slots_simps[of "g ps pg" nd']
      by (simp add: read_back_def g_def n1_def newClusterNode_def)
  qed
  moreover have "map_option node_but_slots (heap t8 q) = map_option node_but_slots (heap t q)" if "q \<noteq> p" for q
    using but_slots_heap[OF t8(3), of q] that by (simp add: t7_def t1(3))
  moreover have "\<forall>j<REDIS_CLUSTER_SLOTS. c_slots t8 j = (if mine j then p else c_slots t j)"
    using t8(4) unfolding rs(2) by (simp add: t7_def t1(3))
  ultimately have "line_loaded nd mine t t8" unfolding line_loaded_def m_def using fresh by blast
  then show ?thesis using run t8(1) by (simp add: t7_def[symmetric] wp)
qed

subsection \<open>The whole file\<close>

text \<open>The name of the node at an address.\<close>

definition name_at :: "server \<Rightarrow> ptr \<Rightarrow> bytes option" where
  "name_at s p = (if p = NULL then None else map_option n_name (heap s p))"

text \<open>A cluster of masters that can be saved: this node is flagged, and no other; slots belong to nodes of the table; no slot moves.\<close>

definition savable :: "server \<Rightarrow> bool" where
  "savable s \<longleftrightarrow> inv s \<and> nothing_moves s \<and> c_myself s \<in> snd ` set (c_nodes s) \<and>
     (\<forall>(k, p) \<in> set (c_nodes s). \<exists>nd. heap s p = Some nd \<and> printable nd \<and> n_slaveof nd = NULL \<and> n_flags nd AND REDIS_NODE_HANDSHAKE = 0 \<and>
        (n_flags nd AND REDIS_NODE_MYSELF \<noteq> 0 \<longleftrightarrow> p = c_myself s)) \<and>
     (\<forall>j<REDIS_CLUSTER_SLOTS. c_slots s j \<noteq> NULL \<longrightarrow> c_slots s j \<in> snd ` set (c_nodes s))"

definition fresh_server :: "server \<Rightarrow> bool" where
  "fresh_server t \<longleftrightarrow> inv t \<and> c_nodes t = [] \<and> (\<forall>j<REDIS_CLUSTER_SLOTS. c_slots t j = NULL) \<and> c_myself t = NULL"

definition node_line :: "server \<Rightarrow> bytes \<times> ptr \<Rightarrow> bytes \<Rightarrow> bool" where
  "node_line s e l \<longleftrightarrow> (\<exists>nd rs. heap s (snd e) = Some nd \<and> l = tl (spaced (node_words nd @ map range_word rs)) \<and>
     (\<forall>r \<in> set rs. range_ok r) \<and> set (concat (map range_slots rs)) = {j. j < REDIS_CLUSTER_SLOTS \<and> clusterNodeGetSlotBit nd j})"

lemma savable_node:
  assumes "savable s" and "(k, p) \<in> set (c_nodes s)"
  shows "\<exists>nd. heap s p = Some nd \<and> n_name nd = k \<and> printable nd \<and> n_slaveof nd = NULL \<and> n_flags nd AND REDIS_NODE_HANDSHAKE = 0 \<and>
    (n_flags nd AND REDIS_NODE_MYSELF \<noteq> 0 \<longleftrightarrow> p = c_myself s)"
  using assms by (fastforce simp: savable_def inv_def nodes_inv_def)

lemma nodes_description:
  assumes "savable s" and "set ns \<subseteq> set (c_nodes s)"
  shows "\<exists>ls. foldM (\<lambda>(_, p) ci. do {
     node \<leftarrow> deref (heap s) p;
     if n_flags node AND REDIS_NODE_HANDSHAKE \<noteq> 0 then Some ci
     else do { ni \<leftarrow> clusterGenNodeDescription p s; Some (ci @ ni @ [0x0A]) }
   }) ns ci = Some (ci @ concat (map (\<lambda>l. l @ [0x0A]) ls)) \<and> list_all2 (node_line s) ns ls"
  using assms(2)
proof (induction ns arbitrary: ci)
  case Nil
  then show ?case by simp
next
  case (Cons e ns)
  obtain k p where e: "e = (k, p)" by (cases e)
  have "(k, p) \<in> set (c_nodes s)" using Cons.prems e by simp
  from savable_node[OF assms(1) this] obtain nd where
    nd: "heap s p = Some nd" "printable nd" "n_flags nd AND REDIS_NODE_HANDSHAKE = 0" and ns: "n_slaveof nd = NULL" by blast
  have "nothing_moves s" using assms(1) by (simp add: savable_def)
  from describe_words[OF nd(1,2) this, of "[[0x2D]]"] ns
  obtain l where l: "clusterGenNodeDescription p s = Some l" "node_line s e l"
    unfolding node_line_def node_words_def using nd(1) e by auto
  obtain ls where "foldM (\<lambda>(_, p) ci. do {
     node \<leftarrow> deref (heap s) p;
     if n_flags node AND REDIS_NODE_HANDSHAKE \<noteq> 0 then Some ci
     else do { ni \<leftarrow> clusterGenNodeDescription p s; Some (ci @ ni @ [0x0A]) }
   }) ns (ci @ l @ [0x0A]) = Some ((ci @ l @ [0x0A]) @ concat (map (\<lambda>l. l @ [0x0A]) ls))" "list_all2 (node_line s) ns ls"
    using Cons.IH[of "ci @ l @ [0x0A]"] Cons.prems by auto
  then show ?case using nd l e by (intro exI[of _ "l # ls"]) (simp add: deref_def)
qed

definition vars_words :: "server \<Rightarrow> bytes list" where
  "vars_words s = [str ''vars'', str ''currentEpoch'', print_nat (unat (c_currentEpoch s)), str ''lastVoteEpoch'',
     print_nat (unat (c_lastVoteEpoch s))]"

lemma words_one_line:
  assumes "\<forall>w \<in> set ws. plain w \<and> w \<noteq> []"
  shows "0x0A \<notin> set (tl (spaced ws))"
proof -
  have "isspace 0x0A" by (simp add: isspace_def)
  then have "0x0A \<notin> set w" if "plain w" for w using that unfolding plain_def by blast
  then have "0x0A \<notin> set (spaced ws)" using assms by (auto simp: spaced_def)
  then show ?thesis by (cases "spaced ws") auto
qed

lemma vars_words_plain: "\<forall>w \<in> set (vars_words s). plain w \<and> w \<noteq> []"
proof -
  have "plain (str ''vars'') \<and> plain (str ''currentEpoch'') \<and> plain (str ''lastVoteEpoch'') \<and>
    str ''vars'' \<noteq> [] \<and> str ''currentEpoch'' \<noteq> [] \<and> str ''lastVoteEpoch'' \<noteq> []" by code_simp
  then show ?thesis by (simp add: vars_words_def)
qed

lemma node_line_words:
  assumes "savable s" "e \<in> set (c_nodes s)" "node_line s e l"
  shows "\<exists>nd rs. heap s (snd e) = Some nd \<and> l = tl (spaced (node_words nd @ map range_word rs)) \<and>
    (\<forall>w \<in> set (node_words nd @ map range_word rs). plain w \<and> w \<noteq> []) \<and> (\<forall>r \<in> set rs. range_ok r) \<and>
    set (concat (map range_slots rs)) = {j. j < REDIS_CLUSTER_SLOTS \<and> clusterNodeGetSlotBit nd j}"
proof -
  obtain nd rs where nd: "heap s (snd e) = Some nd" "l = tl (spaced (node_words nd @ map range_word rs))"
    "\<forall>r \<in> set rs. range_ok r" "set (concat (map range_slots rs)) = {j. j < REDIS_CLUSTER_SLOTS \<and> clusterNodeGetSlotBit nd j}"
    using assms(3) unfolding node_line_def by blast
  have "printable nd" using savable_node[OF assms(1), of "fst e" "snd e"] assms(2) nd(1) by auto
  then have "\<forall>w \<in> set (node_words nd @ map range_word rs). plain w \<and> w \<noteq> []"
    using node_words_plain range_word_plain by auto
  then show ?thesis using nd by blast
qed

lemma save_text:
  assumes s: "savable s"
  shows "\<exists>ls. clusterSaveConfig_text s = Some (concat (map (\<lambda>l. l @ [0x0A]) (ls @ [tl (spaced (vars_words s))]))) \<and>
    list_all2 (node_line s) (c_nodes s) ls"
proof -
  have v: "str ''vars currentEpoch '' = str ''vars'' @ 0x20 # str ''currentEpoch'' @ [0x20]"
    "str '' lastVoteEpoch '' = 0x20 # str ''lastVoteEpoch'' @ [0x20]"
    by code_simp+
  show ?thesis
    using nodes_description[OF s subset_refl, of "[]"]
    by (auto simp: clusterSaveConfig_text_def clusterGenNodesDescription_def vars_words_def spaced_def v)
qed

text \<open>The state after the lines of the nodes in \<open>ds\<close>.\<close>

definition loaded :: "server \<Rightarrow> (bytes \<times> ptr) list \<Rightarrow> server \<Rightarrow> bool" where
  "loaded s ds t \<longleftrightarrow> inv t \<and>
     list_all2 (\<lambda>(k, p) (k', p'). k' = k \<and> (\<exists>nd nd'. heap s p = Some nd \<and> heap t p' = Some nd' \<and> read_back nd nd')) ds (c_nodes t) \<and>
     (\<forall>j<REDIS_CLUSTER_SLOTS. name_at t (c_slots t j) = (if c_slots s j \<in> snd ` set ds then name_at s (c_slots s j) else None)) \<and>
     name_at t (c_myself t) = (if c_myself s \<in> snd ` set ds then name_at s (c_myself s) else None) \<and>
     (c_myself t \<noteq> NULL \<longrightarrow> heap t (c_myself t) \<noteq> None)"

lemma loaded_step:
  assumes s: "savable s" and e: "(k, p) \<in> set (c_nodes s)" and p: "p \<notin> snd ` set ds" and k: "k \<notin> fst ` set ds"
    and ld: "loaded s ds t" and l: "node_line s (k, p) l"
  shows "returns (load_text_line l t) (\<lambda>t'. loaded s (ds @ [(k, p)]) t' \<and>
    c_currentEpoch t' = c_currentEpoch t \<and> c_lastVoteEpoch t' = c_lastVoteEpoch t)"
proof -
  obtain nd rs where nd: "heap s p = Some nd" and lw: "l = tl (spaced (node_words nd @ map range_word rs))"
    and pl: "\<forall>w \<in> set (node_words nd @ map range_word rs). plain w \<and> w \<noteq> []" and rs: "\<forall>r \<in> set rs. range_ok r"
    "set (concat (map range_slots rs)) = {j. j < REDIS_CLUSTER_SLOTS \<and> clusterNodeGetSlotBit nd j}"
    using node_line_words[OF s e l] by auto
  have n: "n_name nd = k" "printable nd" "n_flags nd AND REDIS_NODE_MYSELF \<noteq> 0 \<longleftrightarrow> p = c_myself s"
    using savable_node[OF s e] nd by auto
  have inv: "inv s" "inv t" using s ld by (simp_all add: savable_def loaded_def)
  have p0: "p \<noteq> 0" using inv(1) nd slots_agree_nonnull by (auto simp: inv_def slots_inv_def)
  have mine: "clusterNodeGetSlotBit nd j \<longleftrightarrow> c_slots s j = p" if "j < REDIS_CLUSTER_SLOTS" for j
    using slots_agree_node[of "c_slots s" "heap s" p nd] inv(1) nd that
    by (simp add: inv_def slots_inv_def node_agrees_def clusterNodeGetSlotBit_def)
  have rel: "list_all2 (\<lambda>(k, p) (k', p'). k' = k \<and> (\<exists>nd nd'. heap s p = Some nd \<and> heap t p' = Some nd' \<and> read_back nd nd')) ds (c_nodes t)"
    using ld by (simp add: loaded_def)
  have "map fst (c_nodes t) = map fst ds"
    using rel by (induction rule: list_all2_induct) auto
  then have new: "n_name nd \<notin> fst ` set (c_nodes t)" using k n(1) by (metis list.set_map)
  have live: "c_slots t j \<noteq> 0 \<Longrightarrow> heap t (c_slots t j) \<noteq> None" if "j < REDIS_CLUSTER_SLOTS" for j
    using slots_agree_alloc inv(2) that by (auto simp: inv_def slots_inv_def)
  have free: "\<forall>j<REDIS_CLUSTER_SLOTS. clusterNodeGetSlotBit nd j \<longrightarrow> c_slots t j = NULL"
  proof (intro allI impI)
    fix j assume j: "j < REDIS_CLUSTER_SLOTS" "clusterNodeGetSlotBit nd j"
    then have "name_at t (c_slots t j) = None" using ld mine p by (simp add: loaded_def)
    then show "c_slots t j = NULL" using live[OF j(1)] by (auto simp: name_at_def split: if_splits)
  qed
  have my: "c_myself t = NULL" if "n_flags nd AND REDIS_NODE_MYSELF \<noteq> 0"
  proof -
    have "name_at t (c_myself t) = None" using ld n(3) p that by (simp add: loaded_def)
    then show ?thesis using ld by (auto simp: name_at_def loaded_def split: if_splits)
  qed
  from returnsD[OF load_line_words[OF inv(2) n(2) new my rs free]] obtain t' where
    run: "load_line (node_words nd @ map range_word rs) t = Some t'" and ll: "line_loaded nd (clusterNodeGetSlotBit nd) t t'"
    by blast
  from ll obtain q nd' where q: "heap t q = None" "c_nodes t' = c_nodes t @ [(n_name nd, q)]" "heap t' q = Some nd'" "read_back nd nd'"
    and other: "\<And>x. x \<noteq> q \<Longrightarrow> map_option node_but_slots (heap t' x) = map_option node_but_slots (heap t x)"
    and sl: "\<And>j. j < REDIS_CLUSTER_SLOTS \<Longrightarrow> c_slots t' j = (if clusterNodeGetSlotBit nd j then q else c_slots t j)"
    and m: "c_myself t' = (if n_flags nd AND REDIS_NODE_MYSELF \<noteq> 0 then q else c_myself t)"
    and ep: "c_currentEpoch t' = c_currentEpoch t" "c_lastVoteEpoch t' = c_lastVoteEpoch t" and inv': "inv t'"
    unfolding line_loaded_def by auto
  have q0: "q \<noteq> 0" using inv' q(3) slots_agree_nonnull by (auto simp: inv_def slots_inv_def)
  have keep: "\<exists>n'. heap t' x = Some n' \<and> node_but_slots n' = node_but_slots n" if "heap t x = Some n" for x n
    using other[of x] that q(1) by (cases "x = q"; cases "heap t' x") auto
  have name: "name_at t' x = name_at t x" if "x = 0 \<or> heap t x \<noteq> None" for x
  proof (cases "x = 0")
    case False
    with that have "heap t x \<noteq> None" by blast
    then obtain n where n: "heap t x = Some n" by blast
    from keep[OF n] obtain n' where "heap t' x = Some n'" "node_but_slots n' = node_but_slots n" by blast
    then show ?thesis using n node_but_slots_simps(2)[of n' n] by (simp add: name_at_def)
  qed (simp add: name_at_def)
  have name_q: "name_at t' q = name_at s p" using q nd p0 q0 n(1) by (simp add: name_at_def read_back_def)
  have "list_all2 (\<lambda>(k, p) (k', p'). k' = k \<and> (\<exists>nd nd'. heap s p = Some nd \<and> heap t' p' = Some nd' \<and> read_back nd nd')) ds (c_nodes t)"
    using rel
  proof (rule list_all2_mono, clarsimp)
    fix pa pb nda ndb assume "heap s pa = Some nda" "heap t pb = Some ndb" "read_back nda ndb"
    moreover from this(2) obtain n' where "heap t' pb = Some n'" "node_but_slots n' = node_but_slots ndb" using keep by blast
    ultimately show "\<exists>ndb'. heap t' pb = Some ndb' \<and> read_back nda ndb'"
      using node_but_slots_simps[of n' ndb] by (auto simp: read_back_def)
  qed
  then have "list_all2 (\<lambda>(k, p) (k', p'). k' = k \<and> (\<exists>nd nd'. heap s p = Some nd \<and> heap t' p' = Some nd' \<and> read_back nd nd'))
      (ds @ [(k, p)]) (c_nodes t')"
    using q nd n(1) by (simp add: list_all2_appendI)
  moreover have "name_at t' (c_slots t' j) = (if c_slots s j \<in> snd ` set (ds @ [(k, p)]) then name_at s (c_slots s j) else None)"
    if j: "j < REDIS_CLUSTER_SLOTS" for j
  proof (cases "c_slots s j = p")
    case True
    then show ?thesis using sl[OF j] mine[OF j] name_q by simp
  next
    case False
    moreover have "name_at t (c_slots t j) = (if c_slots s j \<in> snd ` set ds then name_at s (c_slots s j) else None)"
      using ld j unfolding loaded_def by blast
    moreover have "name_at t' (c_slots t j) = name_at t (c_slots t j)" by (rule name) (use live[OF j] in blast)
    ultimately show ?thesis using sl[OF j] mine[OF j] by simp
  qed
  moreover have "name_at t' (c_myself t') = (if c_myself s \<in> snd ` set (ds @ [(k, p)]) then name_at s (c_myself s) else None)"
  proof (cases "c_myself s = p")
    case True
    then show ?thesis using m n(3) name_q by simp
  next
    case False
    moreover have "name_at t (c_myself t) = (if c_myself s \<in> snd ` set ds then name_at s (c_myself s) else None)"
      and "c_myself t \<noteq> NULL \<longrightarrow> heap t (c_myself t) \<noteq> None" using ld unfolding loaded_def by blast+
    moreover have "name_at t' (c_myself t) = name_at t (c_myself t)" by (rule name) (use calculation in blast)
    ultimately show ?thesis using m n(3) by simp
  qed
  moreover have "c_myself t' \<noteq> NULL \<longrightarrow> heap t' (c_myself t') \<noteq> None"
    using m q(3) keep[of "c_myself t"] ld by (auto simp: loaded_def)
  ultimately have "loaded s (ds @ [(k, p)]) t'" using inv' by (simp add: loaded_def)
  moreover have "load_text_line l t = Some t'"
  proof -
    have "l \<noteq> []" using n(2) lw by (auto simp: node_words_def line_words_def spaced_def printable_def)
    then show ?thesis using run by (simp add: load_text_line_def lw sdssplitargs_spaced[OF pl])
  qed
  ultimately show ?thesis using ep by (simp add: wp)
qed

lemma load_lines:
  assumes s: "savable s" and es: "list_all2 (node_line s) es ls" and ds: "c_nodes s = ds @ es" and ld: "loaded s ds t"
  shows "returns (foldM load_text_line ls t) (\<lambda>t'. loaded s (c_nodes s) t' \<and>
    c_currentEpoch t' = c_currentEpoch t \<and> c_lastVoteEpoch t' = c_lastVoteEpoch t)"
  using es ds ld
proof (induction es ls arbitrary: ds t rule: list_all2_induct)
  case Nil
  then show ?case by (simp add: wp)
next
  case (Cons e es l ls)
  obtain k p where e: "e = (k, p)" by (cases e)
  have mem: "(k, p) \<in> set (c_nodes s)" using Cons.prems(1) e by simp
  have "distinct (map fst (c_nodes s))" using s by (simp add: savable_def inv_def nodes_inv_def dictWf_def)
  then have k: "k \<notin> fst ` set ds" using Cons.prems(1) e by auto
  have p: "p \<notin> snd ` set ds"
  proof
    assume "p \<in> snd ` set ds"
    then obtain k' where k': "(k', p) \<in> set ds" by force
    then have "(k', p) \<in> set (c_nodes s)" using Cons.prems(1) by simp
    then have "k' = k" using savable_node[OF s mem] savable_node[OF s, of k' p] by auto
    then show False using k k' by force
  qed
  have "node_line s (k, p) l" using Cons.hyps(1) e by simp
  from returnsD[OF loaded_step[OF s mem p k Cons.prems(2) this]] obtain t1 where
    t1: "load_text_line l t = Some t1" "loaded s (ds @ [(k, p)]) t1" "c_currentEpoch t1 = c_currentEpoch t"
    "c_lastVoteEpoch t1 = c_lastVoteEpoch t"
    by blast
  have "c_nodes s = (ds @ [(k, p)]) @ es" using Cons.prems(1) e by simp
  from Cons.IH[OF this t1(2)] show ?case using t1 by (simp add: wp)
qed

lemma load_vars_words:
  "load_text_line (tl (spaced (vars_words s))) t = Some (t\<lparr>c_currentEpoch := c_currentEpoch s, c_lastVoteEpoch := c_lastVoteEpoch s\<rparr>)"
proof -
  have k: "strcaseeq (str ''vars'') (str ''vars'')" "strcaseeq (str ''currentEpoch'') (str ''currentEpoch'')"
    "strcaseeq (str ''lastVoteEpoch'') (str ''lastVoteEpoch'')" "\<not> strcaseeq (str ''lastVoteEpoch'') (str ''currentEpoch'')"
    by code_simp+
  have "tl (spaced (vars_words s)) \<noteq> []" by (simp add: spaced_def vars_words_def str_def)
  then show ?thesis
    using k by (simp add: load_text_line_def sdssplitargs_spaced[OF vars_words_plain] load_line_def)
      (simp add: vars_words_def strtoull_print_nat)
qed

lemma loaded_fresh: "fresh_server t \<Longrightarrow> loaded s [] t"
  by (simp add: fresh_server_def loaded_def name_at_def)

lemma max_epoch_read_back:
  assumes r: "list_all2 (\<lambda>(k, p) (k', p'). k' = k \<and> (\<exists>nd nd'. heap s p = Some nd \<and> heap t p' = Some nd' \<and> read_back nd nd'))
      (c_nodes s) (c_nodes t)" and c: "c_currentEpoch t = c_currentEpoch s"
  shows "clusterGetMaxEpoch t = clusterGetMaxEpoch s \<and> clusterGetMaxEpoch s \<noteq> None"
proof -
  let ?f = "\<lambda>s (_, p) max. do { node \<leftarrow> deref (heap s) p; Some (if n_configEpoch node > max then n_configEpoch node else max) }"
  have "foldM (?f t) (c_nodes t) m = foldM (?f s) (c_nodes s) m \<and> foldM (?f s) (c_nodes s) m \<noteq> None" for m
    using r by (induction arbitrary: m rule: list_all2_induct) (auto simp: deref_def read_back_def)
  then obtain e where "foldM (?f t) (c_nodes t) 0 = Some e" "foldM (?f s) (c_nodes s) 0 = Some e" by fastforce
  then show ?thesis using c by (simp add: clusterGetMaxEpoch_def)
qed

lemma epochs_inv: "inv t \<Longrightarrow> b \<le> a \<Longrightarrow> inv (t\<lparr>c_currentEpoch := a, c_lastVoteEpoch := b\<rparr>)"
  by (simp add: inv_def slots_inv_def nodes_inv_def alloc_inv_def)

lemma load_saved:
  assumes s: "savable s" and t: "fresh_server t"
  shows "\<exists>content. clusterSaveConfig_text s = Some content \<and> (\<forall>old_size.
    returns (clusterLoadConfig (Some (clusterSaveConfig_padded content old_size)) t) (\<lambda>(r, t'). r = REDIS_OK \<and> inv t' \<and>
      list_all2 (\<lambda>(k, p) (k', p'). k' = k \<and> (\<exists>nd nd'. heap s p = Some nd \<and> heap t' p' = Some nd' \<and> read_back nd nd'))
        (c_nodes s) (c_nodes t') \<and>
      (\<forall>j<REDIS_CLUSTER_SLOTS. name_at t' (c_slots t' j) = name_at s (c_slots s j)) \<and>
      name_at t' (c_myself t') = name_at s (c_myself s) \<and> c_lastVoteEpoch t' = c_lastVoteEpoch s \<and>
      clusterGetMaxEpoch s = Some (c_currentEpoch t')))"
proof -
  obtain ls where content: "clusterSaveConfig_text s = Some (concat (map (\<lambda>l. l @ [0x0A]) (ls @ [tl (spaced (vars_words s))])))"
    and ls: "list_all2 (node_line s) (c_nodes s) ls" using save_text[OF s] by blast
  obtain t1 where t1: "foldM load_text_line ls t = Some t1" "loaded s (c_nodes s) t1"
    using returnsD[OF load_lines[OF s ls _ loaded_fresh[OF t]]] by auto
  define t2 where "t2 = t1\<lparr>c_currentEpoch := c_currentEpoch s, c_lastVoteEpoch := c_lastVoteEpoch s\<rparr>"
  have one: "0x0A \<notin> set l" if "l \<in> set ls" for l
  proof -
    obtain i where i: "i < length ls" "l = ls ! i" using \<open>l \<in> set ls\<close> by (metis in_set_conv_nth)
    then have "c_nodes s ! i \<in> set (c_nodes s)" "node_line s (c_nodes s ! i) l"
      using ls by (simp_all add: list_all2_conv_all_nth)
    from node_line_words[OF s this] show ?thesis using words_one_line by blast
  qed
  have inv2: "inv t2" unfolding t2_def
    by (rule epochs_inv) (use t1(2) s in \<open>simp_all add: loaded_def savable_def inv_def\<close>)
  have nm: "name_at t2 p = name_at t1 p" for p by (simp add: name_at_def t2_def)
  have r2: "list_all2 (\<lambda>(k, p) (k', p'). k' = k \<and> (\<exists>nd nd'. heap s p = Some nd \<and> heap t2 p' = Some nd' \<and> read_back nd nd'))
        (c_nodes s) (c_nodes t2)" using t1(2) by (simp add: loaded_def t2_def)
  have c2: "c_currentEpoch t2 = c_currentEpoch s" "c_lastVoteEpoch t2 = c_lastVoteEpoch s" by (simp_all add: t2_def)
  obtain e where e: "clusterGetMaxEpoch t2 = Some e" "clusterGetMaxEpoch s = Some e" using max_epoch_read_back[OF r2 c2(1)] by auto
  have ge: "c_currentEpoch s \<le> e" using e(2) by (auto simp: clusterGetMaxEpoch_def opt_bind split: if_splits)
  define t3 where "t3 = (if e > c_currentEpoch t2 then t2\<lparr>c_currentEpoch := e\<rparr> else t2)"
  have e3: "c_currentEpoch t3 = e" using ge c2 by (auto simp: t3_def)
  have slots2: "\<forall>j<REDIS_CLUSTER_SLOTS. name_at t2 (c_slots t2 j) = name_at s (c_slots s j)"
  proof (intro allI impI)
    fix j assume j: "j < REDIS_CLUSTER_SLOTS"
    have "c_slots s j \<notin> snd ` set (c_nodes s) \<Longrightarrow> c_slots s j = NULL" using s j by (auto simp: savable_def)
    moreover have "name_at t1 (c_slots t1 j) = (if c_slots s j \<in> snd ` set (c_nodes s) then name_at s (c_slots s j) else None)"
      using t1(2) j by (simp add: loaded_def)
    ultimately show "name_at t2 (c_slots t2 j) = name_at s (c_slots s j)" unfolding nm by (auto simp: t2_def name_at_def)
  qed
  have my2: "name_at t2 (c_myself t2) = name_at s (c_myself s)" and live: "c_myself t2 \<noteq> NULL"
  proof -
    have m: "c_myself s \<in> snd ` set (c_nodes s)" using s by (simp add: savable_def)
    then have eq: "name_at t1 (c_myself t1) = name_at s (c_myself s)" using t1(2) by (simp add: loaded_def)
    then show "name_at t2 (c_myself t2) = name_at s (c_myself s)" unfolding nm by (simp add: t2_def)
    obtain k where "(k, c_myself s) \<in> set (c_nodes s)" using m by force
    then obtain nd where nd: "heap s (c_myself s) = Some nd" using savable_node[OF s] by blast
    moreover have "c_myself s \<noteq> 0" using nd s slots_agree_nonnull by (auto simp: savable_def inv_def slots_inv_def)
    ultimately show "c_myself t2 \<noteq> NULL" using eq by (auto simp: name_at_def t2_def split: if_splits)
  qed
  have inv3: "inv t3" using inv2 ge c2 by (auto simp: t3_def inv_def slots_inv_def nodes_inv_def alloc_inv_def)
  have run: "clusterLoadConfig (Some (clusterSaveConfig_padded (concat (map (\<lambda>l. l @ [0x0A]) (ls @ [tl (spaced (vars_words s))]))) old_size)) t =
      Some (REDIS_OK, t3)" for old_size
  proof -
    define content where "content = concat (map (\<lambda>l. l @ [0x0A]) (ls @ [tl (spaced (vars_words s))]))"
    define pad where "pad = replicate (old_size - length content) ([] :: bytes)"
    have rep: "replicate n (0x0A :: u8) = concat (map (\<lambda>l. l @ [0x0A]) (replicate n []))" for n
      by (induction n) simp_all
    have "clusterSaveConfig_padded content old_size = concat (map (\<lambda>l. l @ [0x0A]) ((ls @ [tl (spaced (vars_words s))]) @ pad))"
      unfolding clusterSaveConfig_padded_def rep pad_def content_def by simp
    moreover have "\<forall>l \<in> set ((ls @ [tl (spaced (vars_words s))]) @ pad). 0x0A \<notin> set l"
      using one words_one_line[OF vars_words_plain] by (auto simp: pad_def)
    ultimately have "pieces 0x0A (clusterSaveConfig_padded content old_size) = ((ls @ [tl (spaced (vars_words s))]) @ pad) @ [[]]"
      by (simp only: pieces_terminated)
    moreover have "foldM load_text_line (pad @ [[]]) x = Some x" for x
    proof -
      have "foldM load_text_line (replicate n []) x = Some x" for n by (induction n) (simp_all add: load_text_line_def)
      then show ?thesis by (simp add: foldM_append pad_def load_text_line_def)
    qed
    ultimately have "foldM load_text_line (pieces 0x0A (clusterSaveConfig_padded content old_size)) t = Some t2"
      using t1(1) by (simp add: foldM_append load_vars_words t2_def)
    moreover have "clusterSaveConfig_padded content old_size \<noteq> []" by (simp add: clusterSaveConfig_padded_def content_def)
    ultimately show ?thesis using live e(1)
      by (simp add: clusterLoadConfig_def content_def redisAssert_def t3_def)
  qed
  have t3: "c_nodes t3 = c_nodes t2" "heap t3 = heap t2" "c_slots t3 = c_slots t2" "c_myself t3 = c_myself t2"
    "c_lastVoteEpoch t3 = c_lastVoteEpoch t2" "name_at t3 = name_at t2"
    by (auto simp: t3_def name_at_def fun_eq_iff)
  show ?thesis using content run inv3 r2 slots2 my2 c2(2) e(2) e3 by (simp add: wp t3)
qed

text \<open>Property C12. The configuration of a cluster of masters survives a restart: what \<open>clusterSaveConfig\<close> writes,
  \<open>clusterLoadConfig\<close> reads without failing, also when a crash left newlines of padding behind it, and in the state read every node has
  its name, address, flags and configuration epoch, every slot its owner, this node its name and its last vote, the current epoch
  is the largest epoch of the state saved, and the invariant holds.\<close>

theorem nodes_conf_roundtrip:
  assumes "savable s" and "fresh_server t"
  shows "\<exists>content. clusterSaveConfig_text s = Some content \<and> (\<forall>old_size.
    returns (clusterLoadConfig (Some (clusterSaveConfig_padded content old_size)) t) (\<lambda>(r, t'). r = REDIS_OK \<and> inv t' \<and>
      list_all2 (\<lambda>(k, p) (k', p'). k' = k \<and> (\<exists>nd nd'. heap s p = Some nd \<and> heap t' p' = Some nd' \<and> read_back nd nd'))
        (c_nodes s) (c_nodes t') \<and>
      (\<forall>j<REDIS_CLUSTER_SLOTS. name_at t' (c_slots t' j) = name_at s (c_slots s j)) \<and>
      name_at t' (c_myself t') = name_at s (c_myself s) \<and> c_lastVoteEpoch t' = c_lastVoteEpoch s \<and>
      clusterGetMaxEpoch s = Some (c_currentEpoch t')))"
  using load_saved[OF assms] .

lemma one_node_savable:
  shows "\<exists>s. clusterAddSlot 1 5 one_node_server = Some (REDIS_OK, s) \<and> savable s \<and> c_slots s 5 = 1 \<and>
    name_at s 1 = Some (replicate 40 0x61)"
proof -
  have inv: "inv one_node_server"
    using one_node_server_slots_inv
    by (simp add: inv_def nodes_inv_def alloc_inv_def one_node_server_def zero_server_def dictWf_def newClusterNode_def)
  define n where "n = newClusterNode (replicate 40 0x61) (REDIS_NODE_MYSELF OR REDIS_NODE_MASTER) 0"
  have h: "heap one_node_server = [1 \<mapsto> n]" by (simp add: one_node_server_def n_def)
  define s where "s = one_node_server\<lparr>heap := [1 \<mapsto> snd (clusterNodeSetSlotBit n 5)], c_slots := (\<lambda>_. NULL)(5 := 1)\<rparr>"
  have a: "clusterAddSlot 1 5 one_node_server = Some (REDIS_OK, s)"
    using h by (simp add: clusterAddSlot_def node_upd_def s_def) (simp add: one_node_server_def zero_server_def)
  have "inv s"
    using clusterAddSlot_quiet[OF a _ one_node_server_slots_inv] inv by (simp add: quiet_inv REDIS_CLUSTER_SLOTS_def)
  moreover have "plain (replicate 40 0x61)" by code_simp
  ultimately have "savable s"
    by (auto simp: savable_def nothing_moves_def s_def one_node_server_def zero_server_def printable_def n_def
        newClusterNode_def clusterNodeSetSlotBit_def Let_def plain_def)
  then show ?thesis using a by (simp add: s_def name_at_def n_def newClusterNode_def clusterNodeSetSlotBit_def Let_def)
qed

theorem nodes_conf_roundtrip_witness:
  "\<exists>s content. c_slots s 5 = 1 \<and> clusterSaveConfig_text s = Some content \<and>
    returns (clusterLoadConfig (Some (clusterSaveConfig_padded content 4096)) zero_server)
      (\<lambda>(r, t'). r = REDIS_OK \<and> name_at t' (c_slots t' 5) = Some (replicate 40 0x61))"
proof -
  obtain s where s: "savable s" "c_slots s 5 = 1" "name_at s 1 = Some (replicate 40 0x61)" using one_node_savable by blast
  have "fresh_server zero_server"
    by (simp add: fresh_server_def inv_def slots_inv_def slots_agree_def nodes_inv_def dictWf_def alloc_inv_def zero_server_def)
  from nodes_conf_roundtrip[OF s(1) this] obtain content where "clusterSaveConfig_text s = Some content"
    "returns (clusterLoadConfig (Some (clusterSaveConfig_padded content 4096)) zero_server)
      (\<lambda>(r, t'). r = REDIS_OK \<and> (\<forall>j<REDIS_CLUSTER_SLOTS. name_at t' (c_slots t' j) = name_at s (c_slots s j)))"
    by (blast intro: returns_mono)
  then show ?thesis using s(2,3) by (intro exI[of _ s] exI[of _ content]) (auto simp: returns_def REDIS_CLUSTER_SLOTS_def)
qed

subsection \<open>What is not read back\<close>

lemma pieces_split: "pieces d (a @ d # b) = pieces d a @ pieces d b"
proof (induction a)
  case (Cons c a)
  have "pieces d a \<noteq> []" by (cases a) auto
  then show ?case using Cons by (cases "c = d") (auto simp: hd_append)
qed simp

lemma foldM_fails: "x \<in> set xs \<Longrightarrow> (\<And>s. f x s = None) \<Longrightarrow> foldM f xs s = None"
proof (induction xs arbitrary: s)
  case (Cons y xs)
  then show ?case by (cases "x = y"; cases "f y s") auto
qed simp

lemma nodes_description_appends:
  assumes "foldM (\<lambda>(_, p) ci. do {
     node \<leftarrow> deref (heap s) p;
     if n_flags node AND flt \<noteq> 0 then Some ci
     else do { ni \<leftarrow> clusterGenNodeDescription p s; Some (ci @ ni @ [0x0A]) }
   }) ns ci = Some ci'"
  shows "\<exists>r. ci' = ci @ r \<and> (r = [] \<or> last r = 0x0A)"
  using assms
proof (induction ns arbitrary: ci)
  case (Cons e ns)
  obtain k p where e: "e = (k, p)" by (cases e)
  obtain c1 where c1: "c1 = ci \<or> (\<exists>ni. c1 = ci @ ni @ [0x0A])" and run: "foldM (\<lambda>(_, p) ci. do {
     node \<leftarrow> deref (heap s) p;
     if n_flags node AND flt \<noteq> 0 then Some ci
     else do { ni \<leftarrow> clusterGenNodeDescription p s; Some (ci @ ni @ [0x0A]) }
   }) ns c1 = Some ci'"
    using Cons.prems e by (auto simp: opt_bind split: if_splits)
  from Cons.IH[OF run] obtain r where r: "ci' = c1 @ r" "r = [] \<or> last r = 0x0A" by blast
  from c1 show ?case
  proof
    assume "\<exists>ni. c1 = ci @ ni @ [0x0A]"
    then obtain ni where "c1 = ci @ ni @ [0x0A]" by blast
    then show ?thesis using r by (intro exI[of _ "ni @ [0x0A] @ r"]) auto
  qed (use r in auto)
qed simp

lemma description_has_line:
  assumes run: "clusterGenNodesDescription flt s = Some ci" and e: "(k, p) \<in> set (c_nodes s)"
    and nd: "heap s p = Some nd" "n_flags nd AND flt = 0" and l: "clusterGenNodeDescription p s = Some l" "0x0A \<notin> set l"
  shows "l \<in> set (pieces 0x0A (ci @ rest))"
proof -
  obtain xs ys where ns: "c_nodes s = xs @ (k, p) # ys" using split_list[OF e] by blast
  let ?f = "\<lambda>(_, p) ci. do {
     node \<leftarrow> deref (heap s) p;
     if n_flags node AND flt \<noteq> 0 then Some ci
     else do { ni \<leftarrow> clusterGenNodeDescription p s; Some (ci @ ni @ [0x0A]) }
   }"
  obtain c1 where c1: "foldM ?f xs [] = Some c1" "foldM ?f ys (c1 @ l @ [0x0A]) = Some ci"
    using run nd l(1) unfolding clusterGenNodesDescription_def ns foldM_append
    by (auto simp: opt_bind deref_def)
  obtain r where r: "ci = (c1 @ l @ [0x0A]) @ r" using nodes_description_appends[OF c1(2)] by blast
  have "c1 = [] \<or> (\<exists>c. c1 = c @ [0x0A])"
    using nodes_description_appends[OF c1(1)] by (metis append_Nil append_butlast_last_id)
  then show ?thesis
  proof
    assume "\<exists>c. c1 = c @ [0x0A]"
    then obtain c where "ci @ rest = c @ 0x0A # (l @ 0x0A # (r @ rest))" using r by auto
    then show ?thesis using l(2) by (simp add: pieces_split pieces_append pieces_one)
  qed (use r l(2) in \<open>simp add: pieces_append\<close>)
qed

lemma replica_line_fails:
  assumes pr: "printable nd" and m: "plain m" "m \<noteq> []"
  shows "load_text_line (tl (spaced (line_words nd [str ''slave'', str ''of'', m] @ map range_word rs))) t = None"
proof -
  let ?ws = "line_words nd [str ''slave'', str ''of'', m] @ map range_word rs"
  have w: "plain (str ''slave'') \<and> plain (str ''of'') \<and> str ''slave'' \<noteq> [] \<and> str ''of'' \<noteq> []" by code_simp
  then have "\<forall>w \<in> set [str ''slave'', str ''of'', m]. plain w \<and> w \<noteq> []" using m by simp
  from line_words_plain[OF pr this] have pl: "\<forall>w \<in> set ?ws. plain w \<and> w \<noteq> []" using range_word_plain by auto
  note vars = name_not_vars[OF pr]
  have master: "load_master n (str ''slave'') x = None" for n x
    by (simp add: load_master_def load_node_def arg_name_def str_def)
  have "load_line ?ws t = None"
  proof (rule ccontr)
    assume "load_line ?ws t \<noteq> None"
    then show False
      using vars master by (auto simp: load_line_def line_words_def opt_bind)
  qed
  moreover have "tl (spaced ?ws) \<noteq> []" using pr by (auto simp: line_words_def spaced_def printable_def)
  ultimately show ?thesis by (simp add: load_text_line_def sdssplitargs_spaced[OF pl])
qed

text \<open>Property C14. A configuration with a replica is not read back: the line of a replica says \<open>slave of <name>\<close> where the name of its
  master is read from the fourth word alone, so \<open>slave\<close> is taken for a name of 40 bytes and read past its end, whatever the state of
  the node that starts.\<close>

theorem saved_replica_unreadable:
  assumes "clusterSaveConfig_text s = Some content" and "(k, p) \<in> set (c_nodes s)"
    and "heap s p = Some nd" and "printable nd" and "n_flags nd AND REDIS_NODE_HANDSHAKE = 0"
    and "n_slaveof nd \<noteq> NULL" and "heap s (n_slaveof nd) = Some m" and "plain (n_name m)" and "n_name m \<noteq> []"
    and "nothing_moves s"
  shows "clusterLoadConfig (Some content) t = None"
proof -
  obtain ci where ci: "clusterGenNodesDescription REDIS_NODE_HANDSHAKE s = Some ci" and "\<exists>rest. content = ci @ rest"
    using assms(1) by (auto simp: clusterSaveConfig_text_def opt_bind)
  then obtain rest where content: "content = ci @ rest" by blast
  have pm: "plain (print_name m)" "print_name m \<noteq> []"
    using assms(8,9) by (auto simp: print_name_def plain_cstr plain_def dest: in_set_takeD)
  obtain rs where l: "clusterGenNodeDescription p s =
      Some (tl (spaced (line_words nd [str ''slave'', str ''of'', print_name m] @ map range_word rs)))"
    using describe_words[OF assms(3,4,10), of "[str ''slave'', str ''of'', print_name m]"] assms(6,7) by auto
  have "\<forall>w \<in> set [str ''slave'', str ''of'', print_name m]. plain w \<and> w \<noteq> []"
  proof -
    have "plain (str ''slave'') \<and> plain (str ''of'') \<and> str ''slave'' \<noteq> [] \<and> str ''of'' \<noteq> []" by code_simp
    then show ?thesis using pm by simp
  qed
  from line_words_plain[OF assms(4) this] range_word_plain
  have "0x0A \<notin> set (tl (spaced (line_words nd [str ''slave'', str ''of'', print_name m] @ map range_word rs)))"
    by (intro words_one_line) auto
  from description_has_line[OF ci assms(2,3,5) l this, of rest]
  have "foldM load_text_line (pieces 0x0A content) t = None"
    unfolding content by (rule foldM_fails) (rule replica_line_fails[OF assms(4) pm])
  moreover have "content \<noteq> []" using assms(1) by (auto simp: clusterSaveConfig_text_def opt_bind)
  ultimately show ?thesis by (simp add: clusterLoadConfig_def)
qed

theorem saved_replica_unreadable_witness:
  "\<exists>content. clusterSaveConfig_text master_and_replica = Some content \<and> clusterLoadConfig (Some content) zero_server = None"
proof -
  let ?s = master_and_replica
  define n where "n = newClusterNode (replicate 40 0x61) (REDIS_NODE_MYSELF OR REDIS_NODE_MASTER) 0"
  define r where "r = (newClusterNode (replicate 40 0x62) REDIS_NODE_SLAVE 0)\<lparr>n_slaveof := 1\<rparr>"
  have h: "heap ?s 1 = Some n" "heap ?s 2 = Some r" "c_nodes ?s = [(replicate 40 0x61, 1), (replicate 40 0x62, 2)]"
    by (simp_all add: master_and_replica_def one_node_server_def n_def r_def)
  have "plain (replicate 40 0x61) \<and> plain (replicate 40 0x62) \<and> plain []" by code_simp
  then have pr: "printable n" "printable r" "plain (n_name n)"
    by (simp_all add: n_def r_def printable_def newClusterNode_def)
  have mv: "nothing_moves ?s"
    by (simp add: nothing_moves_def master_and_replica_def one_node_server_def zero_server_def)
  have sl: "n_slaveof n = 0" "n_slaveof r = 1" "n_flags n AND 32 = 0" "n_flags r AND 32 = 0" "n_name n \<noteq> []"
    by (simp_all add: n_def r_def newClusterNode_def)
  obtain l1 l2 where "clusterGenNodeDescription 1 ?s = Some l1" "clusterGenNodeDescription 2 ?s = Some l2"
    using describe_words[OF h(1) pr(1) mv, of "[[0x2D]]"] describe_words[OF h(2) pr(2) mv, of "[str ''slave'', str ''of'', print_name n]"]
      sl h by auto
  then obtain content where c: "clusterSaveConfig_text ?s = Some content"
    using h sl by (simp add: clusterSaveConfig_text_def clusterGenNodesDescription_def deref_def)
  have mem: "(replicate 40 0x62, 2) \<in> set (c_nodes ?s)" using h by simp
  have m: "heap ?s (n_slaveof r) = Some n" "n_slaveof r \<noteq> NULL" using h sl by simp_all
  from saved_replica_unreadable[OF c mem h(2) pr(2) sl(4) m(2,1) pr(3) sl(5) mv] c show ?thesis by blast
qed

text \<open>An IPv6 address is cut at its first colon.\<close>

lemma ipv6_address_cut:
  assumes "heap t p = Some n"
  shows "load_address p (str ''::1:7000'') t = Some (t\<lparr>heap := (heap t)(p \<mapsto> n\<lparr>n_ip := [], n_port := 0\<rparr>)\<rparr>)"
proof -
  have "takeWhile (\<lambda>c. c \<noteq> 0x3A) (str ''::1:7000'') = [] \<and> atoi (tl (dropWhile (\<lambda>c. c \<noteq> 0x3A) (str ''::1:7000''))) = 0 \<and>
    0x3A \<in> set (str ''::1:7000'')" by code_simp
  then show ?thesis using assms by (simp add: load_address_def node_upd_def)
qed

end
