(* ===== verification/ClusterCron.thy ===== *)
theory ClusterCron
  imports ClusterPacket NodesConf
begin

text \<open>
  The timer and event loop hooks of the cluster (cluster.c): \<open>clusterCron\<close>, \<open>clusterBeforeSleep\<close>, accepting
  connections of the bus, and \<open>clusterInit\<close> and \<open>clusterReset\<close>.
  What the network answers is a parameter: the record \<open>net\<close> gives the descriptor a connection attempt returns, if any, and the
  address at the other end of a descriptor. The text of the configuration file, if there is one, is a parameter of \<open>clusterInit\<close>.
\<close>

record net =
  net_connect :: "bytes \<Rightarrow> int \<Rightarrow> int option" \<comment> \<open>\<open>anetTcpNonBlockBindConnect\<close>\<close>
  net_peer :: "int \<Rightarrow> bytes" \<comment> \<open>\<open>anetPeerToString\<close>\<close>

subsection \<open>Connections\<close>

text \<open>Lines 4145 to 4174: the first packet on a new link; the time of a ping still unanswered is kept.\<close>

definition cron_greet :: "ptr \<Rightarrow> ptr \<Rightarrow> server \<Rightarrow> server option" where
  "cron_greet p link s = do {
     nd \<leftarrow> deref (heap s) p;
     let old_ping_sent = n_ping_sent nd;
     s1 \<leftarrow> clusterSendPing link (if n_flags nd AND REDIS_NODE_MEET \<noteq> 0 then CLUSTERMSG_TYPE_MEET
                                else CLUSTERMSG_TYPE_PING) s;
     s2 \<leftarrow> (if old_ping_sent \<noteq> 0 then node_upd p (\<lambda>n. n\<lparr>n_ping_sent := old_ping_sent\<rparr>) s1 else Some s1);
     node_upd p (\<lambda>n. n\<lparr>n_flags := n_flags n AND NOT REDIS_NODE_MEET\<rparr>) s2
   }"

text \<open>Lines 4107 to 4178.\<close>

definition cron_connect :: "net \<Rightarrow> ptr \<Rightarrow> server \<Rightarrow> server option" where
  "cron_connect net p s = do {
     node \<leftarrow> deref (heap s) p;
     if n_link node \<noteq> NULL then Some s
     else (case net_connect net (n_ip node) (n_port node + REDIS_CLUSTER_PORT_INCR) of
        None \<Rightarrow> Some s
      | Some fd \<Rightarrow> do {
          let (link, s1) = createClusterLink p s;
          l \<leftarrow> deref (links s1) link;
          s2 \<leftarrow> node_upd p (\<lambda>n. n\<lparr>n_link := link\<rparr>)
                 (s1\<lparr>links := (links s1)(link \<mapsto> l\<lparr>l_fd := fd, l_peer_ip := net_peer net fd\<rparr>)\<rparr>);
          cron_greet p link s2
        })
   }"

text \<open>Lines 4075 to 4178: one node of the first loop.\<close>

definition cron_node :: "net \<Rightarrow> int \<Rightarrow> bytes \<times> ptr \<Rightarrow> server \<Rightarrow> server option" where
  "cron_node net handshake_timeout e s = do {
     node \<leftarrow> deref (heap s) (snd e);
     if n_flags node AND (REDIS_NODE_MYSELF OR REDIS_NODE_NOADDR) \<noteq> 0 then Some s
     else if nodeInHandshake node \<and> mstime s - n_ctime node > handshake_timeout then freeClusterNode (snd e) s
     else cron_connect net (snd e) s
   }"

subsection \<open>Pinging a random node\<close>

text \<open>Lines 4197 to 4218: of five random nodes, the one whose pong is oldest.\<close>

definition cron_random_pick :: "nat \<Rightarrow> (ptr \<times> int) \<times> server \<Rightarrow> ((ptr \<times> int) \<times> server) option" where
  "cron_random_pick j st = (case st of ((min_pong_node, min_pong), s) \<Rightarrow> do {
     p \<leftarrow> random_node s (rng s 0);
     let s1 = s\<lparr>rng := (\<lambda>i. rng s (Suc i))\<rparr>;
     this \<leftarrow> deref (heap s1) p;
     Some (if n_link this = NULL \<or> n_ping_sent this \<noteq> 0 then ((min_pong_node, min_pong), s1)
           else if n_flags this AND (REDIS_NODE_MYSELF OR REDIS_NODE_HANDSHAKE) \<noteq> 0 then ((min_pong_node, min_pong), s1)
           else if min_pong_node = NULL \<or> min_pong > n_pong_received this then ((p, n_pong_received this), s1)
           else ((min_pong_node, min_pong), s1))
   })"

definition cron_random_ping :: "server \<Rightarrow> server option" where
  "cron_random_ping s = do {
     ((min_pong_node, _), s1) \<leftarrow> foldM cron_random_pick [0..<5] ((NULL, 0), s);
     if min_pong_node = NULL then Some s1
     else do {
       node \<leftarrow> deref (heap s1) min_pong_node;
       clusterSendPing (n_link node) CLUSTERMSG_TYPE_PING s1
     }
   }"

subsection \<open>Looking after the nodes\<close>

record cron_vars =
  orphaned_masters :: int
  max_slaves :: int
  this_slaves :: int
  update_state :: bool

text \<open>Lines 4252 to 4262.\<close>

definition cron_count_slaves :: "ptr \<Rightarrow> cron_vars \<Rightarrow> server \<Rightarrow> cron_vars option" where
  "cron_count_slaves p v s = do {
     node \<leftarrow> deref (heap s) p;
     me \<leftarrow> deref (heap s) (myself s);
     if nodeIsSlave me \<and> nodeIsMaster node \<and> \<not> nodeFailed node then do {
       okslaves \<leftarrow> clusterCountNonFailingSlaves p s;
       let v1 = (if okslaves = 0 \<and> n_numslots node > 0 then v\<lparr>orphaned_masters := orphaned_masters v + 1\<rparr> else v);
       let v2 = (if okslaves > max_slaves v1 then v1\<lparr>max_slaves := okslaves\<rparr> else v1);
       Some (if n_slaveof me = p then v2\<lparr>this_slaves := okslaves\<rparr> else v2)
     }
     else Some v
   }"

text \<open>Lines 4269 to 4280: a link on which no pong came for half the timeout is dropped, to be reconnected.\<close>

definition cron_drop_link :: "ptr \<Rightarrow> server \<Rightarrow> server option" where
  "cron_drop_link p s = do {
     node \<leftarrow> deref (heap s) p;
     if n_link node = NULL then Some s
     else do {
       l \<leftarrow> deref (links s) (n_link node);
       if mstime s - l_ctime l > cluster_node_timeout s \<and> n_ping_sent node \<noteq> 0 \<and>
          n_pong_received node < n_ping_sent node \<and> mstime s - n_ping_sent node > cluster_node_timeout s div 2
       then freeClusterLink (n_link node) s else Some s
     }
   }"

text \<open>Lines 4290 to 4339: ping the node, or suspect it.\<close>

definition cron_ping_or_suspect :: "ptr \<Rightarrow> cron_vars \<Rightarrow> server \<Rightarrow> (cron_vars \<times> server) option" where
  "cron_ping_or_suspect p v s = do {
     node \<leftarrow> deref (heap s) p;
     me \<leftarrow> deref (heap s) (myself s);
     if n_link node \<noteq> NULL \<and> n_ping_sent node = 0 \<and> mstime s - n_pong_received node > cluster_node_timeout s div 2
     then map_option (Pair v) (clusterSendPing (n_link node) CLUSTERMSG_TYPE_PING s)
     else if c_mf_end s \<noteq> 0 \<and> nodeIsMaster me \<and> c_mf_slave s = p \<and> n_link node \<noteq> NULL
     then map_option (Pair v) (clusterSendPing (n_link node) CLUSTERMSG_TYPE_PING s)
     else if n_ping_sent node = 0 then Some (v, s)
     else if mstime s - n_ping_sent node > cluster_node_timeout s \<and>
             n_flags node AND (REDIS_NODE_PFAIL OR REDIS_NODE_FAIL) = 0
     then map_option (Pair (v\<lparr>update_state := True\<rparr>))
            (node_upd p (\<lambda>n. n\<lparr>n_flags := n_flags n OR REDIS_NODE_PFAIL\<rparr>) s)
     else Some (v, s)
   }"

definition cron_check :: "bytes \<times> ptr \<Rightarrow> cron_vars \<times> server \<Rightarrow> (cron_vars \<times> server) option" where
  "cron_check e st = (case st of (v, s) \<Rightarrow> do {
     node \<leftarrow> deref (heap s) (snd e);
     if n_flags node AND (REDIS_NODE_MYSELF OR REDIS_NODE_NOADDR OR REDIS_NODE_HANDSHAKE) \<noteq> 0 then Some (v, s)
     else do {
       v1 \<leftarrow> cron_count_slaves (snd e) v s;
       s1 \<leftarrow> cron_drop_link (snd e) s;
       cron_ping_or_suspect (snd e) v1 s1
     }
   })"

text \<open>Lines 4347 to 4353.\<close>

definition cron_replicate :: "server \<Rightarrow> server option" where
  "cron_replicate s = do {
     me \<leftarrow> deref (heap s) (myself s);
     if nodeIsSlave me \<and> masterhost s = None \<and> n_slaveof me \<noteq> NULL then do {
       m \<leftarrow> deref (heap s) (n_slaveof me);
       Some (if nodeHasAddr m then replicationSetMaster (n_ip m) (n_port m) s else s)
     }
     else Some s
   }"

text \<open>Lines 4358 to 4373.\<close>

definition cron_slave :: "cron_vars \<Rightarrow> server \<Rightarrow> server option" where
  "cron_slave v s = do {
     me \<leftarrow> deref (heap s) (myself s);
     if nodeIsSlave me then do {
       s1 \<leftarrow> clusterHandleSlaveFailover (clusterHandleManualFailover s);
       if orphaned_masters v \<noteq> 0 \<and> max_slaves v \<ge> 2 \<and> this_slaves v = max_slaves v
       then clusterHandleSlaveMigration (max_slaves v) s1 else Some s1
     }
     else Some s
   }"

definition clusterCron :: "net \<Rightarrow> server \<Rightarrow> server option" where
  "clusterCron net s0 = do {
     let s1 = s0\<lparr>cron_iteration := cron_iteration s0 + 1\<rparr>;
     let handshake_timeout = (if cluster_node_timeout s1 < 1000 then 1000 else cluster_node_timeout s1);
     s2 \<leftarrow> foldM (cron_node net handshake_timeout) (c_nodes s1) s1;
     s3 \<leftarrow> (if cron_iteration s2 mod 10 = 0 then cron_random_ping s2 else Some s2);
     (v, s4) \<leftarrow> foldM cron_check (c_nodes s3)
                 (\<lparr>orphaned_masters = 0, max_slaves = 0, this_slaves = 0, update_state = False\<rparr>, s3);
     s5 \<leftarrow> cron_replicate s4;
     s6 \<leftarrow> cron_slave v (manualFailoverCheckTimeout s5);
     if update_state v \<or> c_state s6 = CLUSTER_FAIL then clusterUpdateState s6 else Some s6
   }"

subsection \<open>Before the event loop sleeps\<close>

definition clusterBeforeSleep :: "server \<Rightarrow> server option" where
  "clusterBeforeSleep s = do {
     s1 \<leftarrow> (if c_todo_before_sleep s AND CLUSTER_TODO_HANDLE_FAILOVER \<noteq> 0 then clusterHandleSlaveFailover s else Some s);
     s2 \<leftarrow> (if c_todo_before_sleep s1 AND CLUSTER_TODO_UPDATE_STATE \<noteq> 0 then clusterUpdateState s1 else Some s1);
     let s3 = (if c_todo_before_sleep s2 AND CLUSTER_TODO_SAVE_CONFIG \<noteq> 0
               then clusterSaveConfigOrDie (c_todo_before_sleep s2 AND CLUSTER_TODO_FSYNC_CONFIG \<noteq> 0) s2 else s2);
     Some (s3\<lparr>c_todo_before_sleep := 0\<rparr>)
   }"

subsection \<open>Accepting connections\<close>

text \<open>The descriptors accepted in one call, at most 1000, with the addresses of the other ends.\<close>

definition clusterAcceptHandler :: "bool \<Rightarrow> (int \<times> bytes) list \<Rightarrow> server \<Rightarrow> server option" where
  "clusterAcceptHandler loading accepted s =
     (if masterhost s = None \<and> loading then Some s
      else foldM (\<lambda>(cfd, ip) s. do {
             let (link, s1) = createClusterLink NULL s;
             l \<leftarrow> deref (links s1) link;
             Some (s1\<lparr>links := (links s1)(link \<mapsto> l\<lparr>l_fd := cfd, l_peer_ip := ip\<rparr>)\<rparr>)
           }) (take 1000 accepted) s)"

subsection \<open>Starting and resetting\<close>

text \<open>Lines 533 to 551; fields that are not assigned keep what the memory held.\<close>

definition clusterInit_fields :: "server \<Rightarrow> server" where
  "clusterInit_fields s = clusterCloseAllSlots
     (s\<lparr>c_myself := NULL, c_currentEpoch := 0, c_state := CLUSTER_FAIL, c_size := 1, c_todo_before_sleep := 0,
        c_nodes := [], c_nodes_black_list := [], c_failover_auth_time := 0, c_failover_auth_count := 0,
        c_failover_auth_rank := 0, c_failover_auth_epoch := 0, c_lastVoteEpoch := 0, c_stats_bus_messages_sent := 0,
        c_stats_bus_messages_received := 0, c_cant_failover_reason := CANT_FAILOVER_NONE, c_slots := (\<lambda>_. NULL)\<rparr>)"

text \<open>\<open>config\<close> is the text of the configuration file, \<open>lock\<close> and \<open>listen\<close> tell
  whether the file could be locked and the ports opened.\<close>

definition clusterInit :: "bytes option \<Rightarrow> bool \<Rightarrow> bool \<Rightarrow> server \<Rightarrow> server option" where
  "clusterInit config lock listen s0 = do {
     let s1 = clusterInit_fields s0;
     redisAssert lock;
     (r, s) \<leftarrow> clusterLoadConfig config s1;
     s2 \<leftarrow> (if r = REDIS_ERR then do {
              let (p, s) = createClusterNode None (REDIS_NODE_MYSELF OR REDIS_NODE_MASTER) s;
              (_, s) \<leftarrow> clusterAddNode p (s\<lparr>c_myself := p\<rparr>);
              Some (clusterSaveConfigOrDie True s)
            }
            else Some s);
     redisAssert (\<not> uint (srv_port s2) > 65535 - REDIS_CLUSTER_PORT_INCR);
     redisAssert listen;
     Some (resetManualFailover (s2\<lparr>c_slots_to_keys := []\<rparr>))
   }"

text \<open>Lines 650 to 664.\<close>

definition clusterReset_hard :: "server \<Rightarrow> server option" where
  "clusterReset_hard s = do {
     let s1 = s\<lparr>c_currentEpoch := 0, c_lastVoteEpoch := 0\<rparr>;
     s2 \<leftarrow> node_upd (myself s1) (\<lambda>n. n\<lparr>n_configEpoch := 0\<rparr>) s1;
     me \<leftarrow> deref (heap s2) (myself s2);
     let s3 = (case dictDelete (c_nodes s2) (n_name me) of Some d \<Rightarrow> s2\<lparr>c_nodes := d\<rparr> | None \<Rightarrow> s2);
     let (name, s4) = getRandomHexChars REDIS_CLUSTER_NAMELEN s3;
     s5 \<leftarrow> node_upd (myself s4) (\<lambda>n. n\<lparr>n_name := name\<rparr>) s4;
     map_option snd (clusterAddNode (myself s5) s5)
   }"

definition clusterReset :: "bool \<Rightarrow> server \<Rightarrow> server option" where
  "clusterReset hard s0 = do {
     me \<leftarrow> deref (heap s0) (myself s0);
     s1 \<leftarrow> (if nodeIsSlave me then map_option replicationUnsetMaster (clusterSetNodeAsMaster (myself s0) s0) else Some s0);
     let s2 = resetManualFailover (clusterCloseAllSlots s1);
     s3 \<leftarrow> foldM (\<lambda>j s. map_option snd (clusterDelSlot j s)) [0..<REDIS_CLUSTER_SLOTS] s2;
     s4 \<leftarrow> foldM (\<lambda>(_, p) s. if p = myself s then Some s else clusterDelNode p s) (c_nodes s3) s3;
     s5 \<leftarrow> (if hard then clusterReset_hard s4 else Some s4);
     Some (clusterDoBeforeSleep (CLUSTER_TODO_SAVE_CONFIG OR CLUSTER_TODO_UPDATE_STATE OR CLUSTER_TODO_FSYNC_CONFIG) s5)
   }"

subsection \<open>The state after a start\<close>

lemma resetManualFailover_sound:
  "sound (resetManualFailover (s\<lparr>c_slots_to_keys := k\<rparr>)) = sound s"
  by (auto simp: resetManualFailover_def clientsArePaused_def Let_def sound_def inv_def owners_known_def slots_inv_def
      nodes_inv_def alloc_inv_def split: prod.splits)

lemma resetManualFailover_fields:
  "heap (resetManualFailover (s\<lparr>c_slots_to_keys := k\<rparr>)) = heap s" "c_nodes (resetManualFailover (s\<lparr>c_slots_to_keys := k\<rparr>)) = c_nodes s"
  "c_slots (resetManualFailover (s\<lparr>c_slots_to_keys := k\<rparr>)) = c_slots s" "c_myself (resetManualFailover (s\<lparr>c_slots_to_keys := k\<rparr>)) = c_myself s"
  "c_currentEpoch (resetManualFailover (s\<lparr>c_slots_to_keys := k\<rparr>)) = c_currentEpoch s"
  "c_lastVoteEpoch (resetManualFailover (s\<lparr>c_slots_to_keys := k\<rparr>)) = c_lastVoteEpoch s"
  "c_state (resetManualFailover (s\<lparr>c_slots_to_keys := k\<rparr>)) = c_state s"
  "effects (resetManualFailover (s\<lparr>c_slots_to_keys := k\<rparr>)) = effects s"
  by (auto simp: resetManualFailover_def clientsArePaused_def Let_def split: prod.splits)

lemma init_fields_fresh:
  assumes "heap s0 = Map.empty" and "brk s0 \<noteq> NULL"
  shows "fresh_server (clusterInit_fields s0)"
  using assms by (simp add: fresh_server_def clusterInit_fields_def clusterCloseAllSlots_def inv_def slots_inv_def slots_agree_def
      nodes_inv_def dictWf_def alloc_inv_def)

lemma first_start:
  assumes h: "heap s0 = Map.empty" and b: "brk s0 \<noteq> NULL" and port: "uint (srv_port s0) \<le> 65535 - REDIS_CLUSTER_PORT_INCR"
  shows "returns (clusterInit None True True s0) (\<lambda>s'. sound s' \<and>
    (\<exists>me. heap s' (c_myself s') = Some me \<and> n_flags me = REDIS_NODE_MYSELF OR REDIS_NODE_MASTER \<and>
       c_nodes s' = [(n_name me, c_myself s')] \<and> length (n_name me) = REDIS_CLUSTER_NAMELEN) \<and>
    (\<forall>j<REDIS_CLUSTER_SLOTS. c_slots s' j = NULL) \<and> c_currentEpoch s' = 0 \<and> c_lastVoteEpoch s' = 0 \<and>
    c_state s' = CLUSTER_FAIL \<and> effects s' = effects s0 @ [SaveConfig True 0 0])"
proof -
  define s1 where "s1 = clusterInit_fields s0"
  have f1: "heap s1 = Map.empty" "brk s1 = brk s0" "c_nodes s1 = []" "c_slots s1 = (\<lambda>_. NULL)" "c_currentEpoch s1 = 0"
    "c_lastVoteEpoch s1 = 0" "c_state s1 = CLUSTER_FAIL" "effects s1 = effects s0" "srv_port s1 = srv_port s0"
    using h by (simp_all add: s1_def clusterInit_fields_def clusterCloseAllSlots_def)
  define name where "name = fst (getRandomHexChars REDIS_CLUSTER_NAMELEN s1)"
  define me where "me = newClusterNode name (REDIS_NODE_MYSELF OR REDIS_NODE_MASTER) (mstime s1)"
  obtain s2 where c: "createClusterNode None (REDIS_NODE_MYSELF OR REDIS_NODE_MASTER) s1 = (brk s0, s2)"
    and s2: "heap s2 = [brk s0 \<mapsto> me]" "brk s2 = Suc (brk s0)" "c_nodes s2 = []" "c_slots s2 = (\<lambda>_. NULL)"
      "c_currentEpoch s2 = 0" "c_lastVoteEpoch s2 = 0" "c_state s2 = CLUSTER_FAIL" "effects s2 = effects s0" "srv_port s2 = srv_port s0"
    using f1 by (auto simp: createClusterNode_def getRandomHexChars_def Let_def me_def name_def)
  define s3 where "s3 = s2\<lparr>c_myself := brk s0, c_nodes := [(name, brk s0)]\<rparr>"
  have a: "clusterAddNode (brk s0) (s2\<lparr>c_myself := brk s0\<rparr>) = Some (REDIS_OK, s3)"
    using s2 by (simp add: clusterAddNode_def deref_def dictAdd_def s3_def me_def newClusterNode_def)
  have "fresh_server s1" unfolding s1_def by (rule init_fields_fresh[OF h b])
  then have "inv s2" using createClusterNode_quiet[OF c] by (simp add: fresh_server_def quiet_inv)
  then have "inv (s2\<lparr>c_myself := brk s0\<rparr>)" by (simp add: inv_myself)
  then have "inv s3" using clusterAddNode_quiet[OF a] by (simp add: quiet_inv)
  moreover have "owners_known s3" using s2 by (simp add: owners_known_def s3_def)
  ultimately have "sound (clusterSaveConfigOrDie True s3)"
    by (auto simp: sound_def clusterSaveConfigOrDie_def do_log_def inv_def owners_known_def slots_inv_def nodes_inv_def alloc_inv_def Let_def)
  moreover have "clusterInit None True True s0 = Some (resetManualFailover ((clusterSaveConfigOrDie True s3)\<lparr>c_slots_to_keys := []\<rparr>))"
    using c a port s2(9) by (simp add: clusterInit_def clusterLoadConfig_def redisAssert_def s1_def[symmetric] Let_def)
      (simp add: clusterSaveConfigOrDie_def do_log_def s3_def Let_def)
  moreover have "length name = REDIS_CLUSTER_NAMELEN" by (simp add: name_def getRandomHexChars_def)
  ultimately show ?thesis
    using s2 by (simp add: wp resetManualFailover_sound resetManualFailover_fields)
      (simp add: clusterSaveConfigOrDie_def do_log_def s3_def me_def newClusterNode_def Let_def)
qed

text \<open>Loading does not change the port.\<close>

lemma node_upd_port: "node_upd p f s = Some s' \<Longrightarrow> srv_port s' = srv_port s"
  by (auto simp: node_upd_def split: option.splits)

lemma clusterAddSlot_port: "clusterAddSlot n j s = Some (r, s') \<Longrightarrow> srv_port s' = srv_port s"
  by (auto simp: clusterAddSlot_def opt_bind dest!: node_upd_port split: if_splits)

lemma load_node_port: "load_node a s = Some (n, s') \<Longrightarrow> srv_port s' = srv_port s"
  by (auto simp: load_node_def createClusterNode_def clusterAddNode_def opt_bind Let_def split: if_splits option.splits prod.splits)

lemma load_flag_port: "load_flag n f s = Some s' \<Longrightarrow> srv_port s' = srv_port s"
  by (auto simp: load_flag_def opt_bind dest!: node_upd_port split: if_splits)

lemma load_master_port: "load_master n a s = Some s' \<Longrightarrow> srv_port s' = srv_port s"
  by (auto simp: load_master_def clusterNodeAddSlave_def opt_bind dest!: node_upd_port load_node_port split: if_splits)

lemma foldM_port: "foldM f xs s = Some s' \<Longrightarrow> (\<And>x s s'. f x s = Some s' \<Longrightarrow> srv_port s' = srv_port s) \<Longrightarrow> srv_port s' = srv_port s"
proof (induction xs arbitrary: s)
  case (Cons x xs)
  then obtain s1 where "f x s = Some s1" "foldM f xs s1 = Some s'" by (auto simp: opt_bind)
  then show ?case using Cons by metis
qed simp

lemma load_range_port: "load_range n a b s = Some s' \<Longrightarrow> srv_port s' = srv_port s"
  by (auto simp: load_range_def dest!: clusterAddSlot_port elim!: foldM_port split: if_splits)

lemma load_slot_port: "load_slot n a s = Some s' \<Longrightarrow> srv_port s' = srv_port s"
  by (auto simp: load_slot_def Let_def opt_bind dest!: load_node_port load_range_port split: if_splits)

lemma load_vars_port: "load_vars a s = Some s' \<Longrightarrow> srv_port s' = srv_port s"
  by (induction a s rule: load_vars.induct) (auto split: if_splits)

lemma load_line_port: "load_line argv s = Some s' \<Longrightarrow> srv_port s' = srv_port s"
  by (auto simp: load_line_def load_address_def Let_def opt_bind load_vars_port load_node_port load_master_port split: if_splits
      dest!: node_upd_port load_node_port load_master_port
        foldM_port[of "load_flag n" for n, OF _ load_flag_port] foldM_port[of "load_slot n" for n, OF _ load_slot_port])

lemma clusterLoadConfig_port: "clusterLoadConfig c s = Some (r, s') \<Longrightarrow> srv_port s' = srv_port s"
proof -
  have "srv_port s1 = srv_port s" if "foldM load_text_line ls s = Some s1" for ls s1
    using that by (rule foldM_port) (auto simp: load_text_line_def opt_bind dest: load_line_port split: if_splits)
  then show "clusterLoadConfig c s = Some (r, s') \<Longrightarrow> srv_port s' = srv_port s"
    by (auto simp: clusterLoadConfig_def opt_bind split: option.splits if_splits)
qed

lemma restart:
  assumes s: "savable s" and h: "heap s0 = Map.empty" and b: "brk s0 \<noteq> NULL"
    and port: "uint (srv_port s0) \<le> 65535 - REDIS_CLUSTER_PORT_INCR"
  shows "\<exists>content. clusterSaveConfig_text s = Some content \<and>
    returns (clusterInit (Some content) True True s0) (\<lambda>s'. inv s' \<and> map fst (c_nodes s') = map fst (c_nodes s) \<and>
      (\<forall>j<REDIS_CLUSTER_SLOTS. name_at s' (c_slots s' j) = name_at s (c_slots s j)) \<and>
      name_at s' (c_myself s') = name_at s (c_myself s) \<and> c_lastVoteEpoch s' = c_lastVoteEpoch s \<and>
      clusterGetMaxEpoch s = Some (c_currentEpoch s'))"
proof -
  define s1 where "s1 = clusterInit_fields s0"
  have "fresh_server s1" unfolding s1_def by (rule init_fields_fresh[OF h b])
  from load_saved[OF s this] obtain content where c: "clusterSaveConfig_text s = Some content"
    and "returns (clusterLoadConfig (Some (clusterSaveConfig_padded content 0)) s1) (\<lambda>(r, t'). r = REDIS_OK \<and> inv t' \<and>
      list_all2 (\<lambda>(k, p) (k', p'). k' = k \<and> (\<exists>nd nd'. heap s p = Some nd \<and> heap t' p' = Some nd' \<and> read_back nd nd'))
        (c_nodes s) (c_nodes t') \<and>
      (\<forall>j<REDIS_CLUSTER_SLOTS. name_at t' (c_slots t' j) = name_at s (c_slots s j)) \<and>
      name_at t' (c_myself t') = name_at s (c_myself s) \<and> c_lastVoteEpoch t' = c_lastVoteEpoch s \<and>
      clusterGetMaxEpoch s = Some (c_currentEpoch t'))" by blast
  then obtain t where t: "clusterLoadConfig (Some content) s1 = Some (REDIS_OK, t)" "inv t"
    and r: "list_all2 (\<lambda>(k, p) (k', p'). k' = k \<and> (\<exists>nd nd'. heap s p = Some nd \<and> heap t p' = Some nd' \<and> read_back nd nd'))
        (c_nodes s) (c_nodes t)"
    and rest: "\<forall>j<REDIS_CLUSTER_SLOTS. name_at t (c_slots t j) = name_at s (c_slots s j)"
      "name_at t (c_myself t) = name_at s (c_myself s)" "c_lastVoteEpoch t = c_lastVoteEpoch s"
      "clusterGetMaxEpoch s = Some (c_currentEpoch t)"
    by (auto simp: returns_def clusterSaveConfig_padded_def)
  have "map fst (c_nodes t) = map fst (c_nodes s)" using r by (induction rule: list_all2_induct) auto
  moreover have "srv_port t = srv_port s0" using clusterLoadConfig_port[OF t(1)] by (simp add: s1_def clusterInit_fields_def clusterCloseAllSlots_def)
  then have "clusterInit (Some content) True True s0 = Some (resetManualFailover (t\<lparr>c_slots_to_keys := []\<rparr>))"
    using t(1) port by (simp add: clusterInit_def redisAssert_def s1_def)
  moreover have "name_at (resetManualFailover (t\<lparr>c_slots_to_keys := []\<rparr>)) = name_at t"
    by (simp add: name_at_def resetManualFailover_fields fun_eq_iff)
  moreover have "inv (resetManualFailover (t\<lparr>c_slots_to_keys := []\<rparr>)) = inv t"
    by (auto simp: resetManualFailover_def clientsArePaused_def Let_def inv_def slots_inv_def nodes_inv_def alloc_inv_def split: prod.splits)
  ultimately show ?thesis using c t(2) rest by (simp add: wp resetManualFailover_fields)
qed



end
