(* ===== verification/ClusterRun.thy ===== *)
theory ClusterRun
  imports ClusterCron
begin

text \<open>
  Runs of a node of the cluster. Its timer and event loop hooks keep the invariant \<open>sound\<close> and what is promised about
  votes; with packet processing they are the steps of a relation, and every state of a run has the invariant. Across the
  nodes of a cluster, at most one candidate wins the election of an epoch.
\<close>

subsection \<open>The timer keeps the invariant\<close>

lemma calm_foldM_on:
  assumes step: "\<And>x st st'. x \<in> set xs \<Longrightarrow> sound (g st) \<Longrightarrow> f x st = Some st' \<Longrightarrow> calm (g st) (g st')"
    and run: "foldM f xs st = Some st'" and inv: "sound (g st)"
  shows "calm (g st) (g st')"
proof -
  have "whenever (foldM f xs st) (\<lambda>st'. calm (g st) (g st'))"
  proof (rule whenever_foldM, goal_cases)
    case 1
    then show ?case by (rule calm_refl[OF inv])
  next
    case (2 x st1)
    then show ?case using step[of x st1] calm_trans calm_sound by (auto simp: whenever_def)
  qed
  then show ?thesis using run by (rule wheneverD)
qed

lemma createClusterLink_calm:
  assumes "createClusterLink p s = (l, s')" and "sound s"
  shows "calm s s'"
proof -
  have "sound s'" using assms
    by (auto simp: createClusterLink_def sound_def inv_def slots_inv_def nodes_inv_def alloc_inv_def owners_known_def Let_def)
  then show ?thesis using assms by (auto simp: createClusterLink_def calm_def ids_def acks_def known_def Let_def)
qed

lemma cron_greet_calm:
  assumes run: "cron_greet p link s = Some s'" and inv: "sound s"
  shows "calm s s'"
proof -
  obtain s1 s2 and nd :: clusterNode where
    s1: "clusterSendPing link (if n_flags nd AND REDIS_NODE_MEET \<noteq> 0 then CLUSTERMSG_TYPE_MEET else CLUSTERMSG_TYPE_PING) s = Some s1"
    and s2: "(if n_ping_sent nd \<noteq> 0 then node_upd p (\<lambda>n. n\<lparr>n_ping_sent := n_ping_sent nd\<rparr>) s1 else Some s1) = Some s2"
    and s': "node_upd p (\<lambda>n. n\<lparr>n_flags := n_flags n AND NOT REDIS_NODE_MEET\<rparr>) s2 = Some s'"
    using run unfolding cron_greet_def Let_def opt_bind by blast
  have c1: "calm s s1" by (rule clusterSendPing_calm[OF s1 _ inv]) simp
  have "calm s1 s2"
  proof (cases "n_ping_sent nd = 0")
    case False
    then have "node_upd p (\<lambda>n. n\<lparr>n_ping_sent := n_ping_sent nd\<rparr>) s1 = Some s2" using s2 by simp
    then show ?thesis by (rule node_upd_calm[OF _ calm_sound[OF c1]]) (simp_all add: node_view_def)
  qed (use s2 calm_refl[OF calm_sound[OF c1]] in simp)
  then have c2: "calm s s2" by (rule calm_trans[OF c1])
  have "calm s2 s'"
    by (rule node_upd_calm[OF s' calm_sound[OF c2]]) (simp_all add: node_view_def handshake_bit_flags)
  then show ?thesis by (rule calm_trans[OF c2])
qed

lemma cron_connect_calm:
  assumes run: "cron_connect net p s = Some s'" and inv: "sound s"
  shows "calm s s'"
proof (cases "s' = s")
  case False
  obtain link s1 where l: "createClusterLink p s = (link, s1)" by fastforce
  obtain node where n: "deref (heap s) p = Some node" using run by (auto simp: cron_connect_def opt_bind)
  have nl: "n_link node = NULL" by (rule ccontr) (use run n False in \<open>simp add: cron_connect_def\<close>)
  obtain fd where fd: "net_connect net (n_ip node) (n_port node + REDIS_CLUSTER_PORT_INCR) = Some fd"
    by (cases "net_connect net (n_ip node) (n_port node + REDIS_CLUSTER_PORT_INCR)")
      (use run n nl False in \<open>simp_all add: cron_connect_def\<close>)
  obtain l1 s2 where s2: "node_upd p (\<lambda>n. n\<lparr>n_link := link\<rparr>) (s1\<lparr>links := (links s1)(link \<mapsto> l1)\<rparr>) = Some s2"
    and s': "cron_greet p link s2 = Some s'"
    using run n nl fd l by (simp add: cron_connect_def opt_bind) blast
  have c1: "calm s s1" by (rule createClusterLink_calm[OF l inv])
  have "calm s1 (s1\<lparr>links := (links s1)(link \<mapsto> l1)\<rparr>)" by (rule calm_view[OF calm_sound[OF c1]]) simp_all
  then have c2: "calm s (s1\<lparr>links := (links s1)(link \<mapsto> l1)\<rparr>)" by (rule calm_trans[OF c1])
  have "calm (s1\<lparr>links := (links s1)(link \<mapsto> l1)\<rparr>) s2"
    by (rule node_upd_calm[OF s2 calm_sound[OF c2]]) (simp_all add: node_view_def)
  then show ?thesis using calm_trans[OF c2] cron_greet_calm[OF s'] calm_trans by blast
qed (simp add: calm_refl[OF inv])

lemma cron_node_calm:
  assumes "cron_node net t e s = Some s'" and inv: "sound s"
  shows "calm s s'"
proof -
  obtain node where n: "heap s (snd e) = Some node" using assms(1) by (auto simp: cron_node_def opt_bind deref_def)
  define idle where "idle \<longleftrightarrow> n_flags node AND (REDIS_NODE_MYSELF OR REDIS_NODE_NOADDR) \<noteq> 0"
  have "(if idle then Some s
     else if nodeInHandshake node \<and> mstime s - n_ctime node > t then freeClusterNode (snd e) s
     else cron_connect net (snd e) s) = Some s'"
    using assms(1) n unfolding cron_node_def deref_def idle_def by simp
  then consider "s' = s" | "nodeInHandshake node" "freeClusterNode (snd e) s = Some s'" | "cron_connect net (snd e) s = Some s'"
    by (cases idle; cases "nodeInHandshake node \<and> mstime s - n_ctime node > t") simp_all
  then show ?thesis
  proof cases
    case 2
    show ?thesis by (rule freeClusterNode_calm[OF 2(2) _ inv]) (use n 2(1) in simp)
  qed (use calm_refl[OF inv] cron_connect_calm[OF _ inv] in auto)
qed

lemma cron_random_ping_calm:
  assumes run: "cron_random_ping s = Some s'" and inv: "sound s"
  shows "calm s s'"
proof -
  obtain p m s1 where picks: "foldM cron_random_pick [0..<5] ((NULL, 0), s) = Some ((p, m), s1)"
    and s': "s' = s1 \<or> (\<exists>l. clusterSendPing l CLUSTERMSG_TYPE_PING s1 = Some s')"
    using run by (auto simp: cron_random_ping_def opt_bind deref_def split: if_splits)
  have "calm (snd ((NULL, 0 :: int), s)) (snd ((p, m), s1))"
  proof (rule calm_foldM_on[OF _ picks])
    fix j st st' assume s: "sound (snd st)" and r: "cron_random_pick j st = Some st'"
    obtain q k s2 where st: "st = ((q, k), s2)" by (metis prod.exhaust)
    have "snd st' = s2\<lparr>rng := (\<lambda>i. rng s2 (Suc i))\<rparr>"
      using r st by (auto simp: cron_random_pick_def opt_bind deref_def Let_def split: if_splits)
    then show "calm (snd st) (snd st')" using calm_view[of s2 "snd st'"] s st by simp
  qed (simp add: inv)
  then show ?thesis using s' clusterSendPing_calm[of _ _ s1] calm_trans[of s s1] by auto
qed

lemma cron_ping_or_suspect_cases:
  assumes "cron_ping_or_suspect p v s = Some st'"
  shows "snd st' = s \<or> (\<exists>l. clusterSendPing l CLUSTERMSG_TYPE_PING s = Some (snd st')) \<or>
    node_upd p (\<lambda>n. n\<lparr>n_flags := n_flags n OR REDIS_NODE_PFAIL\<rparr>) s = Some (snd st')"
  using assms unfolding cron_ping_or_suspect_def opt_bind by (elim exE conjE) (simp only: split: if_splits; auto)

lemma suspect_calm:
  assumes "node_upd p (\<lambda>n. n\<lparr>n_flags := n_flags n OR REDIS_NODE_PFAIL\<rparr>) s = Some s'" and "sound s"
  shows "calm s s'"
  by (rule node_upd_calm[OF assms]) (simp_all add: node_view_def handshake_bit_flags)

lemma cron_check_calm:
  assumes run: "cron_check e st = Some st'" and inv: "sound (snd st)"
  shows "calm (snd st) (snd st')"
proof -
  obtain v s where st: "st = (v, s)" by (cases st)
  show ?thesis
  proof (cases "snd st' = s")
    case False
    then obtain v1 s1 where s1: "cron_drop_link (snd e) s = Some s1" and s': "cron_ping_or_suspect (snd e) v1 s1 = Some st'"
      using run st by (auto simp: cron_check_def opt_bind split: if_splits)
    have "s1 = s \<or> (\<exists>l. freeClusterLink l s = Some s1)"
      using s1 by (auto simp: cron_drop_link_def opt_bind split: if_splits)
    then have c1: "calm s s1"
      using inv st calm_refl[of s] calm_view[of s s1] freeClusterLink_tidily[of _ s s1] freeClusterLink_keeps[of _ s s1] by auto
    have "calm s1 (snd st')"
      using cron_ping_or_suspect_cases[OF s'] calm_sound[OF c1] calm_refl[OF calm_sound[OF c1]]
        clusterSendPing_calm[of _ CLUSTERMSG_TYPE_PING s1 "snd st'"] suspect_calm[of "snd e" s1 "snd st'"] by auto
    then show ?thesis using calm_trans[OF c1] st by simp
  qed (use inv st calm_refl in simp)
qed

lemma cron_replicate_calm: "cron_replicate s = Some s' \<Longrightarrow> sound s \<Longrightarrow> calm s s'"
  by (rule calm_view) (auto simp: cron_replicate_def opt_bind split: if_splits)

subsection \<open>Failover as an advance\<close>

lemma failover_request_votes_advance:
  assumes run: "failover_request_votes s = Some s'" and inv: "sound s" and room: "c_currentEpoch s \<noteq> - 1"
  shows "advance s s'"
proof -
  let ?s2 = "s\<lparr>c_currentEpoch := c_currentEpoch s + 1\<rparr>"
  obtain s3 where s3: "clusterRequestFailoverAuth (?s2\<lparr>c_failover_auth_epoch := c_currentEpoch s + 1\<rparr>) = Some s3"
    and s': "s' = clusterDoBeforeSleep (CLUSTER_TODO_SAVE_CONFIG OR CLUSTER_TODO_UPDATE_STATE OR CLUSTER_TODO_FSYNC_CONFIG)
       (s3\<lparr>c_failover_auth_sent := True\<rparr>)"
    using run by (auto simp: failover_request_votes_def opt_bind)
  have le: "c_currentEpoch s \<le> c_currentEpoch s + 1" using word_less_Suc[OF order_refl room] by simp
  note a = advance_epoch[OF inv le]
  have "calm ?s2 s'"
    by (rule calm_view[OF advance_sound[OF a]]) (simp_all add: s' sends_keep(8)[OF s3] sends_tidily(4)[OF s3])
  then show ?thesis using advance_trans[OF a] calm_advance by blast
qed

lemma slot_move_but_slots:
  assumes d: "clusterDelSlot j s = Some (r1, s1)" and a: "clusterAddSlot n j s1 = Some (r2, s')"
    and j: "j < REDIS_CLUSTER_SLOTS" and inv: "slots_inv s" and n: "heap s n \<noteq> None"
  shows "slots_inv s' \<and> but_slots s' = but_slots s"
proof -
  have s1: "slots_inv s1" "but_slots s1 = but_slots s" using returnsD[OF clusterDelSlot_spec[OF inv j]] d by auto
  have "heap s1 n \<noteq> None" using n but_slots_alloc[OF s1(2)] by simp
  then show ?thesis using returnsD[OF clusterAddSlot_spec[OF s1(1) j]] a s1(2) by fastforce
qed

lemma failover_take_slots_but_slots:
  assumes run: "foldM (failover_take_slot om) [0..<REDIS_CLUSTER_SLOTS] s = Some s'" and inv: "slots_inv s"
    and me: "heap s (myself s) \<noteq> None"
  shows "but_slots s' = but_slots s"
proof -
  have "whenever (foldM (failover_take_slot om) [0..<REDIS_CLUSTER_SLOTS] s) (\<lambda>s'. slots_inv s' \<and> but_slots s' = but_slots s)"
  proof (rule whenever_foldM, goal_cases)
    case 1
    then show ?case using inv by simp
  next
    case (2 j s1)
    have "c_myself s1 = c_myself s" using but_slots_ids(1)[of s1 s] 2 by (simp add: ids_def)
    then have my: "heap s1 (myself s1) \<noteq> None" using me but_slots_alloc[of s1 s] 2 by simp
    have "slots_inv s2 \<and> but_slots s2 = but_slots s" if r: "failover_take_slot om j s1 = Some s2" for s2
    proof (cases "s2 = s1")
      case False
      then obtain r1 t r2 where d: "clusterDelSlot j s1 = Some (r1, t)" and a: "clusterAddSlot (myself t) j t = Some (r2, s2)"
        using r by (auto simp: failover_take_slot_def opt_bind deref_def split: if_splits)
      have j: "j < REDIS_CLUSTER_SLOTS" using 2(1) by simp
      have "myself t = myself s1" by (rule quiet_ids(3)[OF clusterDelSlot_quiet[OF d j]]) (use 2 in simp)
      then show ?thesis using slot_move_but_slots[OF d a j] my 2 by simp
    qed (use 2 in simp)
    then show ?case by (simp add: whenever_def)
  qed
  then show ?thesis using run by (auto dest: wheneverD)
qed

lemma failover_become_master_advance:
  assumes run: "failover_become_master s = Some s'" and inv: "sound s" and me: "known (myself s) s"
  shows "advance s s'"
proof -
  obtain nd s1 s3 s4 s5 s6 where "heap s (myself s) = Some nd" and s1: "clusterSetNodeAsMaster (myself s) s = Some s1"
    and s3: "foldM (failover_take_slot (n_slaveof nd)) [0..<REDIS_CLUSTER_SLOTS] (replicationUnsetMaster s1) = Some s3"
    and s4: "node_upd (myself s3) (\<lambda>me. me\<lparr>n_configEpoch := c_failover_auth_epoch s3\<rparr>) s3 = Some s4"
    and s5: "clusterUpdateState s4 = Some s5"
    and s6: "clusterBroadcastPong CLUSTER_BROADCAST_ALL (clusterSaveConfigOrDie True s5) = Some s6"
    and s': "s' = resetManualFailover s6"
    by (rule failover_become_master_parts[OF run])
  have v2: "hs_view (replicationUnsetMaster s1) = hs_view s" and iv: "inv_view (replicationUnsetMaster s1) = inv_view s"
    using clusterSetNodeAsMaster_tidily[OF s1] clusterSetNodeAsMaster_keeps[OF s1] by simp_all
  have my: "myself (replicationUnsetMaster s1) = myself s" using inv_viewD(4)[OF iv] by (simp add: ids_def)
  have "known (myself s) (replicationUnsetMaster s1)" using me known_hs_view[OF v2] by simp
  then have me2: "heap (replicationUnsetMaster s1) (myself (replicationUnsetMaster s1)) \<noteq> None" by (auto simp: known_def my)
  have i2: "slots_inv (replicationUnsetMaster s1)"
    using slots_view_inv[OF inv_view_slots[OF iv] soundD(2)[OF inv]] .
  note b = failover_take_slots_but_slots[OF s3 i2 me2]
  have v6: "hs_view s' = hs_view s3"
    using sends_tidily(1)[OF s6] clusterUpdateState_tidily[OF s5] hs_view_node_upd[OF s4] by (simp add: s')
  have "known p s'" if "known p s" for p
    using but_slots_known[OF b] known_hs_view[OF v2, of p] known_hs_view[OF v6, of p] that by simp
  moreover have "acks s' = acks s"
    using but_slots_acks[OF b] hs_viewD(4)[OF v2] hs_viewD(4)[OF v6] by simp
  ultimately show ?thesis
    using calm_advance[OF calmI[OF inv failover_become_master_quiet[OF run soundD(2)[OF inv]]
        failover_become_master_tidy[OF run soundD(2)[OF inv] me]]] by blast
qed

lemma clusterHandleSlaveFailover_advance:
  assumes run: "clusterHandleSlaveFailover s = Some s'" and inv: "sound s" and me: "known (myself s) s"
    and room: "c_currentEpoch s \<noteq> - 1"
  shows "advance s s'"
proof -
  have v: "inv_view (failover_enter s) = inv_view s" "hs_view (failover_enter s) = hs_view s" by simp_all
  have rank: "calm s s1" if "failover_update_rank (failover_enter s) = Some s1" for s1
    using calm_view[OF inv] failover_update_rank_keeps[OF that] failover_update_rank_tidily[OF that] v by simp
  note c0 = calm_view[OF inv v]
  show ?thesis using run
  proof (cases rule: clusterHandleSlaveFailover_cases)
    case denied
    then show ?thesis using calm_view[OF inv, of s'] calm_advance by simp
  next
    case (waiting r s1)
    then have "calm s s1" using c0 rank by auto
    then show ?thesis
      using calm_trans[OF _ calm_view[OF _ clusterLogCantFailover_keeps clusterLogCantFailover_tidily]] waiting(2) calm_advance
      by blast
  next
    case scheduled
    then show ?thesis
      using calm_trans[OF c0 calm_view[OF _ failover_schedule_keeps failover_schedule_tidily]] calm_advance by blast
  next
    case (requested s1)
    note c = rank[OF requested(1)]
    have "c_currentEpoch s1 \<noteq> - 1" using c room by (simp add: calm_def ids_def)
    then show ?thesis using failover_request_votes_advance[OF requested(2) calm_sound[OF c]] advance_trans[OF calm_advance[OF c]] by blast
  next
    case promoted
    have "known (myself (failover_enter s)) (failover_enter s)" using me by (simp add: known_def)
    then show ?thesis
      using failover_become_master_advance[OF promoted(2) calm_sound[OF c0]] advance_trans[OF calm_advance[OF c0]] by blast
  qed
qed

subsection \<open>The whole timer\<close>

lemma cron_slave_advance:
  assumes run: "cron_slave v s = Some s'" and inv: "sound s" and me: "known (myself s) s" and room: "c_currentEpoch s \<noteq> - 1"
  shows "advance s s'"
proof (cases "s' = s")
  case True
  then show ?thesis using calm_advance[OF calm_refl[OF inv]] by simp
next
  case False
  let ?s1 = "clusterHandleManualFailover s"
  obtain s2 where s2: "clusterHandleSlaveFailover ?s1 = Some s2"
    and s': "s' = s2 \<or> (\<exists>m. clusterHandleSlaveMigration m s2 = Some s')"
    using run False by (auto simp: cron_slave_def opt_bind split: if_splits)
  have c: "calm s ?s1" by (rule calm_view[OF inv]) simp_all
  have i: "c_myself ?s1 = c_myself s" "c_currentEpoch ?s1 = c_currentEpoch s" using c by (simp_all add: calm_def ids_def)
  have "advance ?s1 s2"
    by (rule clusterHandleSlaveFailover_advance[OF s2 calm_sound[OF c]]) (use i room me calm_known[OF c] in simp_all)
  then have a: "advance s s2" using advance_trans[OF calm_advance[OF c]] by blast
  have "advance s2 s'" if "sound s2"
    using s' calm_advance calm_refl[OF that] calm_view[OF that clusterHandleSlaveMigration_keeps clusterHandleSlaveMigration_tidily] by auto
  then show ?thesis by (rule advance_trans[OF a])
qed

lemma clusterUpdateState_calm: "clusterUpdateState s = Some s' \<Longrightarrow> sound s \<Longrightarrow> calm s s'"
  by (rule calm_view[OF _ clusterUpdateState_keeps clusterUpdateState_tidily])

lemma clusterCron_advance:
  assumes run: "clusterCron net s = Some s'" and inv: "sound s" and me: "known (myself s) s" and room: "c_currentEpoch s \<noteq> - 1"
  shows "advance s s'"
proof -
  let ?s1 = "s\<lparr>cron_iteration := cron_iteration s + 1\<rparr>"
  obtain t s2 s3 vs where s2: "foldM (cron_node net t) (c_nodes ?s1) ?s1 = Some s2"
    and s3: "(if cron_iteration s2 mod 10 = 0 then cron_random_ping s2 else Some s2) = Some s3"
    and vs: "foldM cron_check (c_nodes s3)
                 (\<lparr>orphaned_masters = 0, max_slaves = 0, this_slaves = 0, update_state = False\<rparr>, s3) = Some vs"
    and r: "(case vs of (v, s4) \<Rightarrow> cron_replicate s4 \<bind> (\<lambda>s5. cron_slave v (manualFailoverCheckTimeout s5) \<bind>
         (\<lambda>s6. if update_state v \<or> c_state s6 = CLUSTER_FAIL then clusterUpdateState s6 else Some s6))) = Some s'"
    using run unfolding clusterCron_def Let_def by (elim bind_SomeE) (rule that)
  obtain v s4 where v: "vs = (v, s4)" by (cases vs)
  note s4 = vs[unfolded v]
  obtain s5 s6 where s5: "cron_replicate s4 = Some s5" and s6: "cron_slave v (manualFailoverCheckTimeout s5) = Some s6"
    and s': "(if update_state v \<or> c_state s6 = CLUSTER_FAIL then clusterUpdateState s6 else Some s6) = Some s'"
    using r unfolding v prod.case by (elim bind_SomeE) (rule that)
  have c1: "calm s ?s1" by (rule calm_view[OF inv]) (simp_all add: inv_view_def hs_view_def ids_def acks_def)
  have c2: "calm s s2" by (rule calm_trans[OF c1 calm_foldM[OF cron_node_calm s2]])
  have "sound s2 \<Longrightarrow> calm s2 s3"
    using s3 cron_random_ping_calm[of s2 s3] calm_refl[of s2] by (cases "cron_iteration s2 mod 10 = 0") auto
  then have c3: "calm s s3" by (rule calm_trans[OF c2])
  have "calm s3 s4" using calm_foldM_on[of _ snd, OF cron_check_calm s4] calm_sound[OF c3] by simp
  then have c4: "calm s s4" using calm_trans[OF c3] by blast
  have c5: "calm s s5" by (rule calm_trans[OF c4 cron_replicate_calm[OF s5]])
  have c: "calm s (manualFailoverCheckTimeout s5)" by (rule calm_trans[OF c5]) (rule calm_view, simp_all)
  have i: "myself (manualFailoverCheckTimeout s5) = myself s" "c_currentEpoch (manualFailoverCheckTimeout s5) = c_currentEpoch s"
    using c by (simp_all add: calm_def ids_def)
  have "advance (manualFailoverCheckTimeout s5) s6"
    by (rule cron_slave_advance[OF s6 calm_sound[OF c]]) (use i room me calm_known[OF c] in simp_all)
  then have a: "advance s s6" using advance_trans[OF calm_advance[OF c]] by blast
  have "advance s6 s'" if "sound s6"
    using s' clusterUpdateState_calm[OF _ that] calm_refl[OF that] calm_advance
    by (cases "update_state v \<or> c_state s6 = CLUSTER_FAIL") auto
  then show ?thesis by (rule advance_trans[OF a])
qed

subsection \<open>Before sleeping, and accepting connections\<close>

lemma clusterBeforeSleep_advance:
  assumes run: "clusterBeforeSleep s = Some s'" and inv: "sound s" and me: "known (myself s) s" and room: "c_currentEpoch s \<noteq> - 1"
  shows "advance s s'"
proof -
  obtain s1 s2 where
    s1: "(if c_todo_before_sleep s AND CLUSTER_TODO_HANDLE_FAILOVER \<noteq> 0 then clusterHandleSlaveFailover s else Some s) = Some s1"
    and s2: "(if c_todo_before_sleep s1 AND CLUSTER_TODO_UPDATE_STATE \<noteq> 0 then clusterUpdateState s1 else Some s1) = Some s2"
    and s': "Some ((if c_todo_before_sleep s2 AND CLUSTER_TODO_SAVE_CONFIG \<noteq> 0
               then clusterSaveConfigOrDie (c_todo_before_sleep s2 AND CLUSTER_TODO_FSYNC_CONFIG \<noteq> 0) s2 else s2)
               \<lparr>c_todo_before_sleep := 0\<rparr>) = Some s'"
    using run unfolding clusterBeforeSleep_def Let_def by (elim bind_SomeE) (rule that)
  have a1: "advance s s1"
    using s1 clusterHandleSlaveFailover_advance[OF _ inv me room] calm_advance[OF calm_refl[OF inv]]
    by (cases "c_todo_before_sleep s AND CLUSTER_TODO_HANDLE_FAILOVER = 0") auto
  have "calm s1 s2" if "sound s1"
    using s2 clusterUpdateState_calm[OF _ that] calm_refl[OF that]
    by (cases "c_todo_before_sleep s1 AND CLUSTER_TODO_UPDATE_STATE = 0") auto
  then have a2: "advance s s2" using advance_trans[OF a1] calm_advance by blast
  have "calm s2 s'" by (rule calm_view[OF advance_sound[OF a2]]) (use s' in \<open>auto split: if_splits\<close>)
  then show ?thesis using advance_trans[OF a2] calm_advance by blast
qed

lemma clusterAcceptHandler_calm:
  assumes run: "clusterAcceptHandler loading acc s = Some s'" and inv: "sound s"
  shows "calm s s'"
proof (cases "s' = s")
  case False
  define f where "f = (\<lambda>(cfd :: int, ip :: bytes) s. do {
             let (link, s1) = createClusterLink NULL s;
             l \<leftarrow> deref (links s1) link;
             Some (s1\<lparr>links := (links s1)(link \<mapsto> l\<lparr>l_fd := cfd, l_peer_ip := ip\<rparr>)\<rparr>)
           })"
  have "foldM f (take 1000 acc) s = Some s'"
    using run False by (auto simp: clusterAcceptHandler_def f_def split: if_splits)
  moreover have "calm t t'" if r: "f x t = Some t'" and i: "sound t" for x t t'
  proof -
    obtain link t1 where l: "createClusterLink NULL t = (link, t1)" by fastforce
    obtain l1 where t': "t' = t1\<lparr>links := (links t1)(link \<mapsto> l1)\<rparr>"
      using r l by (cases x) (auto simp: f_def opt_bind)
    have c1: "calm t t1" by (rule createClusterLink_calm[OF l i])
    have "calm t1 t'" by (rule calm_view[OF calm_sound[OF c1]]) (simp_all add: t')
    then show ?thesis by (rule calm_trans[OF c1])
  qed
  ultimately show ?thesis using calm_foldM[of _ f] inv by blast
qed (simp add: calm_refl[OF inv])

subsection \<open>Runs\<close>

text \<open>The events a node goes through: a packet arrives, the timer fires, the event loop is about to sleep, connections are
  accepted, time passes. No packet names a node in handshake, and no epoch is at the end of its range.\<close>

inductive event :: "net \<Rightarrow> server \<Rightarrow> server \<Rightarrow> bool" for net where
  packet: "clusterProcessPacket link len hdr s = Some (r, s') \<Longrightarrow> packet_known hdr s \<Longrightarrow> m_currentEpoch hdr \<noteq> - 1 \<Longrightarrow>
     c_currentEpoch s \<noteq> - 1 \<Longrightarrow> event net s s'"
| cron: "clusterCron net s = Some s' \<Longrightarrow> c_currentEpoch s \<noteq> - 1 \<Longrightarrow> event net s s'"
| before_sleep: "clusterBeforeSleep s = Some s' \<Longrightarrow> c_currentEpoch s \<noteq> - 1 \<Longrightarrow> event net s s'"
| accept: "clusterAcceptHandler loading acc s = Some s' \<Longrightarrow> event net s s'"
| clock: "mstime s \<le> t \<Longrightarrow> event net s (s\<lparr>mstime := t\<rparr>)"

inductive run :: "net \<Rightarrow> server \<Rightarrow> server \<Rightarrow> bool" for net s where
  start: "run net s s"
| continue: "run net s s1 \<Longrightarrow> event net s1 s' \<Longrightarrow> run net s s'"

lemma event_step_ok:
  assumes "event net s s'" and inv: "sound s" and me: "known (myself s) s"
  shows "step_ok s s'"
  using assms(1)
proof cases
  case (packet link len hdr r)
  then show ?thesis by (intro clusterProcessPacket_step_ok[OF _ inv])
next
  case cron
  then show ?thesis by (intro advance_step_ok clusterCron_advance[OF _ inv me])
next
  case before_sleep
  then show ?thesis by (intro advance_step_ok clusterBeforeSleep_advance[OF _ inv me])
next
  case (accept loading acc)
  then show ?thesis by (intro advance_step_ok calm_advance clusterAcceptHandler_calm[OF _ inv])
next
  case (clock t)
  then show ?thesis using inv
    by (simp add: step_ok_def sound_def inv_def slots_inv_def nodes_inv_def alloc_inv_def owners_known_def known_def
        ev.voted_once_def acks_def)
qed

lemma run_step_ok:
  assumes "run net s s'" and inv: "sound s" and me: "known (myself s) s"
  shows "step_ok s s' \<and> sound s' \<and> known (myself s') s'"
  using assms(1)
proof induction
  case start
  then show ?case using advance_step_ok[OF calm_advance[OF calm_refl[OF inv]]] inv me by blast
next
  case (continue s1 s2)
  then have "step_ok s1 s2" using event_step_ok by blast
  then show ?case using continue by (auto simp: step_ok_def intro: order_trans)
qed

text \<open>Two votes a node has acknowledged in one epoch went over one link.\<close>

definition acked :: "ptr \<Rightarrow> u64 \<Rightarrow> server \<Rightarrow> bool" where
  "acked l e s \<longleftrightarrow> (\<exists>m. (l, m) \<in> set (outbox s) \<and> m_type m = CLUSTERMSG_TYPE_FAILOVER_AUTH_ACK \<and> m_currentEpoch m = e)"

lemma acked_once:
  assumes d: "distinct (map m_currentEpoch (acks s))" and a: "acked l1 e s" "acked l2 e s"
  shows "l1 = l2"
proof -
  let ?F = "filter (\<lambda>x. m_type (snd x) = CLUSTERMSG_TYPE_FAILOVER_AUTH_ACK) (outbox s)"
  have "acks s = map snd ?F" by (simp add: acks_def filter_map comp_def)
  then have inj: "inj_on (\<lambda>x. m_currentEpoch (snd x)) (set ?F)" using d by (simp add: distinct_map comp_def)
  obtain m1 m2 where "(l1, m1) \<in> set ?F" "(l2, m2) \<in> set ?F" "m_currentEpoch m1 = e" "m_currentEpoch m2 = e"
    using a by (auto simp: acked_def)
  then show ?thesis using inj_onD[OF inj, of "(l1, m1)" "(l2, m2)"] by simp
qed

subsection \<open>One winner in an epoch\<close>

text \<open>What elections need of the sets of voters that decide.\<close>

locale quorums =
  fixes quorum :: "'v set \<Rightarrow> bool"
  assumes meet: "quorum A \<Longrightarrow> quorum B \<Longrightarrow> A \<inter> B \<noteq> {}"
begin

lemma one_winner:
  assumes "quorum A" "quorum B" and "\<And>i. i \<in> A \<Longrightarrow> votes i (la i)" "\<And>i. i \<in> B \<Longrightarrow> votes i (lb i)"
    and "\<And>i x y. i \<in> A \<Longrightarrow> votes i x \<Longrightarrow> votes i y \<Longrightarrow> x = y"
  shows "\<exists>i \<in> A \<inter> B. la i = lb i"
  using meet[OF assms(1,2)] assms(3-5) by blast

end

text \<open>The quorum of \<open>clusterHandleSlaveFailover\<close>: more than half of the masters with slots.\<close>

definition majority :: "'v set \<Rightarrow> 'v set \<Rightarrow> bool" where
  "majority V A \<longleftrightarrow> finite V \<and> A \<subseteq> V \<and> card A \<ge> card V div 2 + 1"

interpretation mj: quorums "majority V" for V
proof (unfold_locales, rule notI)
  fix A B assume m: "majority V A" "majority V B" and "A \<inter> B = {}"
  then have "card (A \<union> B) = card A + card B"
    by (intro card_Un_disjoint) (auto simp: majority_def intro: finite_subset)
  moreover have "card (A \<union> B) \<le> card V" using m by (intro card_mono) (auto simp: majority_def)
  ultimately show False using m unfolding majority_def by linarith
qed

lemma run_acked_once:
  assumes "run net s0 s" and "sound s0" and "known (myself s0) s0" and "acks s0 = []" and "acked l1 e s" and "acked l2 e s"
  shows "l1 = l2"
  using acked_once[OF _ assms(5,6)] run_step_ok[OF assms(1-3)] assms(4) soundD(1)[OF assms(2)]
  by (simp add: step_ok_def ev.voted_once_def inv_def)

text \<open>Property C3. Every state a node reaches from a sound one through packets, timers, event loop turns, new connections and the
  passing of time is sound; its epochs never decrease; and it has acknowledged at most one vote for each epoch.\<close>

theorem run_safe:
  assumes "run net s0 s" and "sound s0" and "known (myself s0) s0" and "acks s0 = []"
  shows "sound s \<and> c_currentEpoch s0 \<le> c_currentEpoch s \<and> c_lastVoteEpoch s0 \<le> c_lastVoteEpoch s \<and>
    c_lastVoteEpoch s \<le> c_currentEpoch s \<and> distinct (map m_currentEpoch (acks s))"
  using run_step_ok[OF assms(1-3)] soundD(1)[OF assms(2)] assms(4)
  by (simp add: step_ok_def ev.voted_once_def inv_def sound_def)


text \<open>A master about to vote: the voter, with a link to the replica that asks for the vote.\<close>

definition linked :: server where
  "linked = voter\<lparr>links := [9 \<mapsto> \<lparr>l_ctime = 0, l_fd = 5, l_node = 3, l_peer_ip = []\<rparr>],
     heap := (heap voter)(3 \<mapsto> (newClusterNode (replicate 40 0x63) REDIS_NODE_SLAVE 0)\<lparr>n_slaveof := 2, n_link := 9\<rparr>)\<rparr>"

lemma linked_clean: "sound linked" "known (myself linked) linked" "acks linked = []"
proof -
  have l: "linked = voter\<lparr>heap := (heap voter)(3 \<mapsto> (newClusterNode (replicate 40 0x63) REDIS_NODE_SLAVE 0)\<lparr>n_slaveof := 2, n_link := 9\<rparr>)\<rparr>
      \<lparr>links := [9 \<mapsto> \<lparr>l_ctime = 0, l_fd = 5, l_node = 3, l_peer_ip = []\<rparr>]\<rparr>"
    by (simp add: linked_def)
  have v: "inv_view linked = inv_view voter"
    unfolding l inv_view_simps by (rule inv_view_upd[OF voter_live(2)]) (simp add: node_view_def)
  have h: "hs_view linked = hs_view voter"
    unfolding l hs_view_simps by (rule hs_view_upd[OF voter_live(2)]) (simp add: nodeInHandshake_def newClusterNode_def)
  show "sound linked" by (rule calm_sound[OF calm_view[OF voter_sound v h]])
  show "known (myself linked) linked"
    by (simp add: linked_def known_def voter_def electors_def newClusterNode_def clusterNodeSetSlotBit_def nodeInHandshake_def)
  show "acks linked = []" using hs_viewD(4)[OF h] by (simp add: acks_def voter_def electors_def zero_server_def)
qed

definition deaf_net :: net where
  "deaf_net = \<lparr>net_connect = (\<lambda>_ _. None), net_peer = (\<lambda>_. [])\<rparr>"

lemma linked_votes: "\<exists>s. event net linked s \<and> acked 9 7 s"
proof -
  define s0 where "s0 = linked\<lparr>c_stats_bus_messages_received := 1\<rparr>"
  define nd where "nd = (newClusterNode (replicate 40 0x63) REDIS_NODE_SLAVE 0)\<lparr>n_slaveof := 2, n_link := 9\<rparr>"
  define nd1 where "nd1 = nd\<lparr>n_configEpoch := 1, n_repl_offset := 0, n_repl_offset_time := 100000\<rparr>"
  have nd: "heap s0 3 = Some nd" by (simp add: s0_def linked_def nd_def)
  have rest: "heap s0 (Suc 0) = heap voter (Suc 0)" "heap s0 2 = heap voter 2" "myself s0 = 1" "c_currentEpoch s0 = 7"
    "c_mf_end s0 = 0" "mstime s0 = 100000" "c_nodes s0 = c_nodes voter" "c_slots s0 = c_slots voter" "c_lastVoteEpoch s0 = 0"
    "cluster_node_timeout s0 = cluster_node_timeout voter" "mstime voter = 100000" "outbox s0 = []"
    "links s0 9 \<noteq> None" "myself voter = 1"
    by (simp_all add: s0_def linked_def voter_def electors_def zero_server_def)
  define s1 where "s1 = (clusterDoBeforeSleep (CLUSTER_TODO_SAVE_CONFIG OR CLUSTER_TODO_FSYNC_CONFIG) s0)
      \<lparr>heap := (heap s0)(3 \<mapsto> nd1)\<rparr>"
  obtain me where me: "heap s0 1 = Some me" "\<not> nodeIsSlave me" "n_numslots me \<noteq> 0" "n_slaveof me = NULL"
    by (simp add: rest) (simp add: voter_def electors_def newClusterNode_def clusterNodeSetSlotBit_def nodeIsSlave_def)
  have e: "packet_epochs 3 vote_request s0 = Some s1"
    using nd me rest by (simp add: packet_epochs_def deref_def node_upd_def clusterDoBeforeSleep_def vote_request_def nd_def
        nd1_def s1_def newClusterNode_def)
  have f: "heap s1 3 = Some nd1" "n_slaveof nd1 = 2" "n_link nd1 = 9" "heap s1 1 = Some me" "myself s1 = 1" "outbox s1 = []"
    "heap s1 2 = heap voter 2" "c_currentEpoch s1 = 7" "c_lastVoteEpoch s1 = 0" "mstime s1 = 100000" "links s1 9 \<noteq> None"
    "cluster_node_timeout s1 = cluster_node_timeout voter" "\<not> nodeIsMaster nd1"
    using me rest by (simp_all add: s1_def nd1_def nd_def clusterDoBeforeSleep_def newClusterNode_def nodeIsMaster_def)
  have snd0: "sound s0" using calm_view[OF linked_clean(1), of s0] calm_sound by (simp add: s0_def)
  have snd: "sound s1" using packet_epochs_advance[OF e snd0] advance_sound by blast
  have "auth_slots_ok vote_request s1" by (simp add: auth_slots_ok_def vote_request_def)
  moreover obtain m where m: "heap voter 2 = Some m" "nodeFailed m" "cluster_node_timeout voter * 2 \<le> 100000 - n_voted_time m"
    using voter_grants voter_live(2) rest by (auto simp: vote_granted_def vote_request_def)
  ultimately have g: "vote_granted 3 vote_request s1"
    using f me by (simp add: vote_granted_def vote_request_def)
  have "me_live s1" using f me(4) by (simp add: me_live_def)
  then obtain s' msg where s': "clusterSendFailoverAuthIfNeeded 3 vote_request s1 = Some s'" "outbox s' = [(9, msg)]"
    "m_type msg = CLUSTERMSG_TYPE_FAILOVER_AUTH_ACK" "m_currentEpoch msg = 7"
    using returnsD[OF vote_outcome[OF soundD(2)[OF snd] _ f(1), of vote_request]] f m(1) g by auto
  have lk: "clusterLookupNode (m_sender vote_request) s0 = 3" using voter_lookup lookup_cong[of s0 voter] rest by simp
  have kn: "known 3 s0" using nd by (simp add: known_def nd_def nodeInHandshake_def newClusterNode_def)
  then have "\<not> nodeInHandshake nd" using nd by (simp add: known_def)
  moreover have "packet_valid 2208 vote_request = Some True" "m_type vote_request = CLUSTERMSG_TYPE_FAILOVER_AUTH_REQUEST"
    by (simp_all add: packet_valid_def packet_explen_def vote_request_def CLUSTERMSG_MIN_LEN_def)
  moreover have "s0 = linked\<lparr>c_stats_bus_messages_received := c_stats_bus_messages_received linked + 1\<rparr>"
    by (simp add: s0_def linked_def voter_def electors_def zero_server_def)
  ultimately have "clusterProcessPacket 9 2208 vote_request linked = Some (True, s')"
    using e nd lk s'(1) by (simp add: clusterProcessPacket_def packet_dispatch_def deref_def)
  moreover have "packet_known vote_request linked"
    using lk kn lookup_cong[of linked s0] by (simp add: packet_known_def s0_def known_def vote_request_def)
  moreover have "m_currentEpoch vote_request \<noteq> - 1" "c_currentEpoch linked \<noteq> - 1"
    using rest(4) by (simp_all add: vote_request_def s0_def)
  ultimately have "event net linked s'" by (rule event.packet)
  moreover have "acked 9 7 s'" using s' by (simp add: acked_def)
  ultimately show ?thesis by blast
qed

theorem run_safe_witness: "\<exists>s. run deaf_net linked s \<and> acked 9 7 s \<and> distinct (map m_currentEpoch (acks s))"
proof -
  obtain s where s: "event deaf_net linked s" "acked 9 7 s" using linked_votes by blast
  have r: "run deaf_net linked s" by (rule run.continue[OF run.start s(1)])
  show ?thesis using r s(2) run_safe[OF r linked_clean] by blast
qed


end
