(* ===== verification/ClusterCommand.thy ===== *)
theory ClusterCommand
  imports ClusterQuery ClusterRun
begin

text \<open>
  The CLUSTER command (cluster.c), with one definition per subcommand, and ASKING, READONLY and READWRITE. A command gives a reply and the state after it;
  a reply is what a client reads, an error its text. The arguments are those of the client, the name of the command first.
  An argument that is shorter than a node name is read past its end by \<open>clusterLookupNode\<close>: what lies there is a parameter.
\<close>

subsection \<open>Replies\<close>

datatype cluster_error =
    ClusterDisabled
  | InvalidPort bytes
  | InvalidAddress bytes bytes
  | DbNotEmpty
  | InvalidSlotNumber
  | SlotUnassigned nat
  | SlotBusy nat
  | SlotMultiple nat
  | NotOwner nat
  | AlreadyOwner nat
  | DontKnowNode bytes
  | UnknownNode bytes
  | KeysLeft nat
  | InvalidSetslot
  | SaveFailed bytes
  | NotAnInteger
  | InvalidSlot
  | InvalidSlotOrCount
  | ForgetMyself
  | ForgetMyMaster
  | ReplicateMyself
  | ReplicateSlave
  | MustBeEmpty
  | NotAMaster
  | SendToSlave
  | MasterDown
  | InvalidEpoch int
  | KnowsOthers
  | EpochNotZero
  | ResetWithKeys
  | WrongSubcommand

datatype reply =
    ReplyOk
  | ReplyError cluster_error
  | ReplySyntaxErr
  | ReplyInt int
  | ReplyBulk bytes
  | ReplyMulti "bytes list"

definition one_line :: "bytes \<Rightarrow> bytes" where
  "one_line s = map (\<lambda>c. if c = 0x0D \<or> c = 0x0A then 0x20 else c) s"

text \<open>The text of an error, without the \<open>-ERR\<close> that \<open>addReplyErrorLength\<close> puts before it.\<close>

fun error_text :: "cluster_error \<Rightarrow> bytes" where
  "error_text ClusterDisabled = str ''This instance has cluster support disabled''"
| "error_text (InvalidPort a) = one_line (str ''Invalid TCP port specified: '' @ cstr a)"
| "error_text (InvalidAddress a b) = one_line (str ''Invalid node address specified: '' @ cstr a @ [0x3A] @ cstr b)"
| "error_text DbNotEmpty = str ''DB must be empty to perform CLUSTER FLUSHSLOTS.''"
| "error_text InvalidSlotNumber = str ''Invalid or out of range slot''"
| "error_text (SlotUnassigned j) = str ''Slot '' @ print_nat j @ str '' is already unassigned''"
| "error_text (SlotBusy j) = str ''Slot '' @ print_nat j @ str '' is already busy''"
| "error_text (SlotMultiple j) = str ''Slot '' @ print_nat j @ str '' specified multiple times''"
| "error_text (NotOwner j) = str ''I'' @ [0x27] @ str ''m not the owner of hash slot '' @ print_nat j"
| "error_text (AlreadyOwner j) = str ''I'' @ [0x27] @ str ''m already the owner of hash slot '' @ print_nat j"
| "error_text (DontKnowNode a) = one_line (str ''I don'' @ [0x27] @ str ''t know about node '' @ cstr a)"
| "error_text (UnknownNode a) = one_line (str ''Unknown node '' @ cstr a)"
| "error_text (KeysLeft j) = str ''Can'' @ [0x27] @ str ''t assign hashslot '' @ print_nat j @
     str '' to a different node while I still hold keys for this hash slot.''"
| "error_text InvalidSetslot = str ''Invalid CLUSTER SETSLOT action or number of arguments''"
| "error_text (SaveFailed e) = one_line (str ''error saving the cluster node config: '' @ e)"
| "error_text NotAnInteger = str ''value is not an integer or out of range''"
| "error_text InvalidSlot = str ''Invalid slot''"
| "error_text InvalidSlotOrCount = str ''Invalid slot or number of keys''"
| "error_text ForgetMyself = str ''I tried hard but I can'' @ [0x27] @ str ''t forget myself...''"
| "error_text ForgetMyMaster = str ''Can'' @ [0x27] @ str ''t forget my master!''"
| "error_text ReplicateMyself = str ''Can'' @ [0x27] @ str ''t replicate myself''"
| "error_text ReplicateSlave = str ''I can only replicate a master, not a slave.''"
| "error_text MustBeEmpty = str ''To set a master the node must be empty and without assigned slots.''"
| "error_text NotAMaster = str ''The specified node is not a master''"
| "error_text SendToSlave = str ''You should send CLUSTER FAILOVER to a slave''"
| "error_text MasterDown = str ''Master is down or failed, please use CLUSTER FAILOVER FORCE''"
| "error_text (InvalidEpoch e) = str ''Invalid config epoch specified: '' @ print_int e"
| "error_text KnowsOthers = str ''The user can assign a config epoch only when the node does not know any other node.''"
| "error_text EpochNotZero = str ''Node config epoch is already non-zero''"
| "error_text ResetWithKeys = str ''CLUSTER RESET can'' @ [0x27] @ str ''t be called with master nodes containing keys''"
| "error_text WrongSubcommand = str ''Wrong CLUSTER subcommand or number of arguments''"

subsection \<open>Arguments\<close>

text \<open>What a command depends on besides the state: whether the cluster is enabled, the memory after an argument, whether saving the
  configuration fails, and which allocations succeed.\<close>

record command_env =
  cluster_enabled :: bool
  beyond :: "bytes \<Rightarrow> bytes"
  save_error :: "bytes option"
  alloc_ok :: "nat \<Rightarrow> bool"

definition getLongLongFromObject :: "bytes \<Rightarrow> int option" where
  "getLongLongFromObject a =
     (let (value, range, rest) = strtoll a
      in if (a \<noteq> [] \<and> isspace (hd a)) \<or> rest \<noteq> [] \<or> range then None else Some value)"

definition getSlotOrReply :: "bytes \<Rightarrow> nat option" where
  "getSlotOrReply a = (case getLongLongFromObject a of None \<Rightarrow> None
     | Some slot \<Rightarrow> if slot < 0 \<or> slot \<ge> int REDIS_CLUSTER_SLOTS then None else Some (nat slot))"

text \<open>\<open>clusterLookupNode\<close> on an argument.\<close>

definition lookup_arg :: "command_env \<Rightarrow> bytes \<Rightarrow> server \<Rightarrow> ptr" where
  "lookup_arg env a s = clusterLookupNode (take REDIS_CLUSTER_NAMELEN (a @ [0] @ beyond env a)) s"

text \<open>The conversion of a \<open>long long\<close> to \<open>int\<close>.\<close>

definition to_int :: "int \<Rightarrow> int" where
  "to_int i = sint (word_of_int i :: 32 word)"

subsection \<open>Slots\<close>

definition cluster_flushslots :: "server \<Rightarrow> (reply \<times> server) option" where
  "cluster_flushslots s =
     (if db0 s \<noteq> Map.empty then Some (ReplyError DbNotEmpty, s)
      else do {
        (_, s1) \<leftarrow> clusterDelNodeSlots (myself s) s;
        Some (ReplyOk, clusterDoBeforeSleep (CLUSTER_TODO_UPDATE_STATE OR CLUSTER_TODO_SAVE_CONFIG) s1)
      })"

text \<open>Lines 5078 to 5105: the array \<open>slots\<close> of the slots named, or an error.\<close>

fun addslots_check :: "bool \<Rightarrow> server \<Rightarrow> bytes list \<Rightarrow> (nat \<Rightarrow> nat) \<Rightarrow> cluster_error + (nat \<Rightarrow> nat)" where
  "addslots_check del s [] slots = Inr slots"
| "addslots_check del s (a # as) slots =
     (case getSlotOrReply a of
        None \<Rightarrow> Inl InvalidSlotNumber
      | Some slot \<Rightarrow>
          if del \<and> c_slots s slot = NULL then Inl (SlotUnassigned slot)
          else if \<not> del \<and> c_slots s slot \<noteq> NULL then Inl (SlotBusy slot)
          else if slots slot = 1 then Inl (SlotMultiple slot)
          else addslots_check del s as (slots(slot := slots slot + 1)))"

text \<open>Lines 5108 to 5124.\<close>

definition addslots_slot :: "bool \<Rightarrow> (nat \<Rightarrow> nat) \<Rightarrow> nat \<Rightarrow> server \<Rightarrow> server option" where
  "addslots_slot del slots j s =
     (if slots j = 0 then Some s
      else do {
        let s1 = (if c_importing_slots_from s j \<noteq> NULL
                  then s\<lparr>c_importing_slots_from := (c_importing_slots_from s)(j := NULL)\<rparr> else s);
        (retval, s2) \<leftarrow> (if del then clusterDelSlot j s1 else clusterAddSlot (myself s1) j s1);
        redisAssert (retval = REDIS_OK);
        Some s2
      })"

definition cluster_addslots :: "bool \<Rightarrow> bytes list \<Rightarrow> server \<Rightarrow> (reply \<times> server) option" where
  "cluster_addslots del args s =
     (case addslots_check del s args (\<lambda>_. 0) of
        Inl e \<Rightarrow> Some (ReplyError e, s)
      | Inr slots \<Rightarrow> do {
          s1 \<leftarrow> foldM (addslots_slot del slots) [0..<REDIS_CLUSTER_SLOTS] s;
          Some (ReplyOk, clusterDoBeforeSleep (CLUSTER_TODO_UPDATE_STATE OR CLUSTER_TODO_SAVE_CONFIG) s1)
        })"

text \<open>Lines 5232 to 5261: taking a slot that was being imported.\<close>

definition setslot_import_done :: "ptr \<Rightarrow> nat \<Rightarrow> server \<Rightarrow> server option" where
  "setslot_import_done n slot s =
     (if n = myself s \<and> c_importing_slots_from s slot \<noteq> NULL then do {
        maxEpoch \<leftarrow> clusterGetMaxEpoch s;
        me \<leftarrow> deref (heap s) (myself s);
        s1 \<leftarrow> (if n_configEpoch me = 0 \<or> n_configEpoch me \<noteq> maxEpoch then do {
                let s = s\<lparr>c_currentEpoch := c_currentEpoch s + 1\<rparr>;
                s \<leftarrow> node_upd (myself s) (\<lambda>me. me\<lparr>n_configEpoch := c_currentEpoch s\<rparr>) s;
                Some (clusterDoBeforeSleep CLUSTER_TODO_FSYNC_CONFIG s)
              }
              else Some s);
        Some (s1\<lparr>c_importing_slots_from := (c_importing_slots_from s1)(slot := NULL)\<rparr>)
      }
      else Some s)"

text \<open>Lines 5199 to 5267.\<close>

definition setslot_node :: "command_env \<Rightarrow> nat \<Rightarrow> bytes \<Rightarrow> server \<Rightarrow> (cluster_error option \<times> server) option" where
  "setslot_node env slot name s =
     (let n = lookup_arg env name s
      in if n = NULL then Some (Some (UnknownNode name), s)
         else if c_slots s slot = myself s \<and> n \<noteq> myself s \<and> countKeysInSlot slot s \<noteq> 0 then Some (Some (KeysLeft slot), s)
         else do {
           let s1 = (if countKeysInSlot slot s = 0 \<and> c_migrating_slots_to s slot \<noteq> NULL
                     then s\<lparr>c_migrating_slots_to := (c_migrating_slots_to s)(slot := NULL)\<rparr> else s);
           s2 \<leftarrow> setslot_import_done n slot s1;
           (_, s3) \<leftarrow> clusterDelSlot slot s2;
           (_, s4) \<leftarrow> clusterAddSlot n slot s3;
           Some (None, s4)
         })"

definition setslot_migrating :: "command_env \<Rightarrow> nat \<Rightarrow> bytes \<Rightarrow> server \<Rightarrow> cluster_error option \<times> server" where
  "setslot_migrating env slot name s =
     (let n = lookup_arg env name s
      in if c_slots s slot \<noteq> myself s then (Some (NotOwner slot), s)
         else if n = NULL then (Some (DontKnowNode name), s)
         else (None, s\<lparr>c_migrating_slots_to := (c_migrating_slots_to s)(slot := n)\<rparr>))"

text \<open>The error names the word \<open>importing\<close>, the argument before the name.\<close>

definition setslot_importing :: "command_env \<Rightarrow> nat \<Rightarrow> bytes \<Rightarrow> bytes \<Rightarrow> server \<Rightarrow> cluster_error option \<times> server" where
  "setslot_importing env slot action name s =
     (let n = lookup_arg env name s
      in if c_slots s slot = myself s then (Some (AlreadyOwner slot), s)
         else if n = NULL then (Some (DontKnowNode action), s)
         else (None, s\<lparr>c_importing_slots_from := (c_importing_slots_from s)(slot := n)\<rparr>))"

definition setslot_stable :: "nat \<Rightarrow> server \<Rightarrow> server" where
  "setslot_stable slot s =
     s\<lparr>c_importing_slots_from := (c_importing_slots_from s)(slot := NULL),
       c_migrating_slots_to := (c_migrating_slots_to s)(slot := NULL)\<rparr>"

text \<open>Lines 5145 to 5275; the arguments start with the slot.\<close>

definition cluster_setslot :: "command_env \<Rightarrow> bytes list \<Rightarrow> server \<Rightarrow> (reply \<times> server) option" where
  "cluster_setslot env args s =
     (case getSlotOrReply (args ! 0) of
        None \<Rightarrow> Some (ReplyError InvalidSlotNumber, s)
      | Some slot \<Rightarrow> do {
          (e, s1) \<leftarrow>
            (if strcaseeq (args ! 1) (str ''migrating'') \<and> length args = 3 then Some (setslot_migrating env slot (args ! 2) s)
             else if strcaseeq (args ! 1) (str ''importing'') \<and> length args = 3
               then Some (setslot_importing env slot (args ! 1) (args ! 2) s)
             else if strcaseeq (args ! 1) (str ''stable'') \<and> length args = 2 then Some (None, setslot_stable slot s)
             else if strcaseeq (args ! 1) (str ''node'') \<and> length args = 3 then setslot_node env slot (args ! 2) s
             else Some (Some InvalidSetslot, s));
          (case e of
             Some e \<Rightarrow> Some (ReplyError e, s1)
           | None \<Rightarrow> Some (ReplyOk, clusterDoBeforeSleep (CLUSTER_TODO_SAVE_CONFIG OR CLUSTER_TODO_UPDATE_STATE) s1))
        })"

subsection \<open>Nodes\<close>

definition cluster_meet :: "bytes \<Rightarrow> bytes \<Rightarrow> server \<Rightarrow> (reply \<times> server) option" where
  "cluster_meet ip port s =
     (case getLongLongFromObject port of
        None \<Rightarrow> Some (ReplyError (InvalidPort port), s)
      | Some p \<Rightarrow> do {
          (e, s1) \<leftarrow> clusterStartHandshake (cstr ip) (to_int p) s;
          Some (if e = Some EINVAL then ReplyError (InvalidAddress ip port) else ReplyOk, s1)
        })"

definition cluster_forget :: "command_env \<Rightarrow> bytes \<Rightarrow> server \<Rightarrow> (reply \<times> server) option" where
  "cluster_forget env name s =
     (let n = lookup_arg env name s
      in if n = NULL then Some (ReplyError (UnknownNode name), s)
         else if n = myself s then Some (ReplyError ForgetMyself, s)
         else do {
           me \<leftarrow> deref (heap s) (myself s);
           if nodeIsSlave me \<and> n_slaveof me = n then Some (ReplyError ForgetMyMaster, s)
           else do {
             s1 \<leftarrow> clusterBlacklistAddNode n s;
             s2 \<leftarrow> clusterDelNode n s1;
             Some (ReplyOk, clusterDoBeforeSleep (CLUSTER_TODO_UPDATE_STATE OR CLUSTER_TODO_SAVE_CONFIG) s2)
           }
         })"

definition cluster_replicate :: "command_env \<Rightarrow> bytes \<Rightarrow> server \<Rightarrow> (reply \<times> server) option" where
  "cluster_replicate env name s =
     (let n = lookup_arg env name s
      in if n = NULL then Some (ReplyError (UnknownNode name), s)
         else if n = myself s then Some (ReplyError ReplicateMyself, s)
         else do {
           nd \<leftarrow> deref (heap s) n;
           me \<leftarrow> deref (heap s) (myself s);
           if n_slaveof nd \<noteq> NULL then Some (ReplyError ReplicateSlave, s)
           else if nodeIsMaster me \<and> (n_numslots me \<noteq> 0 \<or> db0 s \<noteq> Map.empty) then Some (ReplyError MustBeEmpty, s)
           else do {
             s1 \<leftarrow> clusterSetMaster n s;
             Some (ReplyOk, clusterDoBeforeSleep (CLUSTER_TODO_UPDATE_STATE OR CLUSTER_TODO_SAVE_CONFIG) s1)
           }
         })"

definition cluster_slaves :: "command_env \<Rightarrow> bytes \<Rightarrow> server \<Rightarrow> (reply \<times> server) option" where
  "cluster_slaves env name s =
     (let n = lookup_arg env name s
      in if n = NULL then Some (ReplyError (UnknownNode name), s)
         else do {
           nd \<leftarrow> deref (heap s) n;
           if nodeIsSlave nd then Some (ReplyError NotAMaster, s)
           else do {
             lines \<leftarrow> foldM (\<lambda>p ls. do { ni \<leftarrow> clusterGenNodeDescription p s; Some (ls @ [cstr ni]) }) (n_slaves nd) [];
             Some (ReplyMulti lines, s)
           }
         })"

subsection \<open>Failover, epochs, reset\<close>

definition REDIS_CLUSTER_MF_TIMEOUT :: int where "REDIS_CLUSTER_MF_TIMEOUT = 5000"

definition cluster_failover :: "bool \<Rightarrow> server \<Rightarrow> (reply \<times> server) option" where
  "cluster_failover force s = do {
     me \<leftarrow> deref (heap s) (myself s);
     if nodeIsMaster me then Some (ReplyError SendToSlave, s)
     else do {
       down \<leftarrow> (if force then Some False
                else if n_slaveof me = NULL then Some True
                else do { master \<leftarrow> deref (heap s) (n_slaveof me); Some (nodeFailed master \<or> n_link master = NULL) });
       if down then Some (ReplyError MasterDown, s)
       else do {
         let s1 = (resetManualFailover s)\<lparr>c_mf_end := mstime s + REDIS_CLUSTER_MF_TIMEOUT\<rparr>;
         s2 \<leftarrow> (if force then Some (s1\<lparr>c_mf_can_start := True\<rparr>) else clusterSendMFStart (n_slaveof me) s1);
         Some (ReplyOk, s2)
       }
     }
   }"

definition cluster_set_config_epoch :: "bytes \<Rightarrow> server \<Rightarrow> (reply \<times> server) option" where
  "cluster_set_config_epoch a s =
     (case getLongLongFromObject a of
        None \<Rightarrow> Some (ReplyError NotAnInteger, s)
      | Some epoch \<Rightarrow>
          if epoch < 0 then Some (ReplyError (InvalidEpoch epoch), s)
          else if length (c_nodes s) > 1 then Some (ReplyError KnowsOthers, s)
          else do {
            me \<leftarrow> deref (heap s) (myself s);
            if n_configEpoch me \<noteq> 0 then Some (ReplyError EpochNotZero, s)
            else do {
              s1 \<leftarrow> node_upd (myself s) (\<lambda>me. me\<lparr>n_configEpoch := word_of_int epoch\<rparr>) s;
              Some (ReplyOk, clusterDoBeforeSleep (CLUSTER_TODO_UPDATE_STATE OR CLUSTER_TODO_SAVE_CONFIG) s1)
            }
          })"

definition cluster_reset :: "bytes list \<Rightarrow> server \<Rightarrow> (reply \<times> server) option" where
  "cluster_reset args s =
     (if args \<noteq> [] \<and> \<not> strcaseeq (hd args) (str ''hard'') \<and> \<not> strcaseeq (hd args) (str ''soft'') then Some (ReplySyntaxErr, s)
      else do {
        me \<leftarrow> deref (heap s) (myself s);
        if nodeIsMaster me \<and> db0 s \<noteq> Map.empty then Some (ReplyError ResetWithKeys, s)
        else map_option (Pair ReplyOk) (clusterReset (args \<noteq> [] \<and> strcaseeq (hd args) (str ''hard'')) s)
      })"

subsection \<open>Information\<close>

text \<open>Lines 5286 to 5302: slots assigned, ok, in \<open>PFAIL\<close> and in \<open>FAIL\<close>.\<close>

definition info_slots :: "server \<Rightarrow> (nat \<times> nat \<times> nat \<times> nat) option" where
  "info_slots s = foldM (\<lambda>j (assigned, ok, pfail, fail).
     if c_slots s j = NULL then Some (assigned, ok, pfail, fail)
     else do {
       n \<leftarrow> deref (heap s) (c_slots s j);
       Some (if nodeFailed n then (assigned + 1, ok, pfail, fail + 1)
             else if nodeTimedOut n then (assigned + 1, ok, pfail + 1, fail)
             else (assigned + 1, ok + 1, pfail, fail))
     }) [0..<REDIS_CLUSTER_SLOTS] (0, 0, 0, 0)"

definition info_line :: "string \<Rightarrow> bytes \<Rightarrow> bytes" where
  "info_line name value = str name @ [0x3A] @ value @ [0x0D, 0x0A]"

definition cluster_info :: "server \<Rightarrow> (reply \<times> server) option" where
  "cluster_info s = do {
     (assigned, ok, pfail, fail) \<leftarrow> info_slots s;
     Some (ReplyBulk
       (info_line ''cluster_state'' (case c_state s of CLUSTER_OK \<Rightarrow> str ''ok'' | CLUSTER_FAIL \<Rightarrow> str ''fail'') @
        info_line ''cluster_slots_assigned'' (print_nat assigned) @
        info_line ''cluster_slots_ok'' (print_nat ok) @
        info_line ''cluster_slots_pfail'' (print_nat pfail) @
        info_line ''cluster_slots_fail'' (print_nat fail) @
        info_line ''cluster_known_nodes'' (print_nat (length (c_nodes s))) @
        info_line ''cluster_size'' (print_int (c_size s)) @
        info_line ''cluster_current_epoch'' (print_nat (unat (c_currentEpoch s))) @
        info_line ''cluster_stats_messages_sent'' (print_int (c_stats_bus_messages_sent s)) @
        info_line ''cluster_stats_messages_received'' (print_int (c_stats_bus_messages_received s))), s)
   }"

definition cluster_saveconfig :: "command_env \<Rightarrow> server \<Rightarrow> reply \<times> server" where
  "cluster_saveconfig env s =
     (case save_error env of
        None \<Rightarrow> (ReplyOk, clusterSaveConfigOrDie True s)
      | Some e \<Rightarrow> (ReplyError (SaveFailed e), s\<lparr>c_todo_before_sleep := c_todo_before_sleep s AND NOT CLUSTER_TODO_SAVE_CONFIG\<rparr>))"

definition cluster_countkeysinslot :: "bytes \<Rightarrow> server \<Rightarrow> reply" where
  "cluster_countkeysinslot a s =
     (case getLongLongFromObject a of
        None \<Rightarrow> ReplyError NotAnInteger
      | Some slot \<Rightarrow>
          if slot < 0 \<or> slot \<ge> int REDIS_CLUSTER_SLOTS then ReplyError InvalidSlot
          else ReplyInt (countKeysInSlot (nat slot) s))"

text \<open>The size of the allocation is computed in 64 bits, the number of keys asked for in 32.\<close>

definition cluster_getkeysinslot :: "command_env \<Rightarrow> bytes \<Rightarrow> bytes \<Rightarrow> server \<Rightarrow> reply option" where
  "cluster_getkeysinslot env a b s =
     (case (getLongLongFromObject a, getLongLongFromObject b) of
        (Some slot, Some maxkeys) \<Rightarrow>
          if slot < 0 \<or> slot \<ge> int REDIS_CLUSTER_SLOTS \<or> maxkeys < 0 then Some (ReplyError InvalidSlotOrCount)
          else do {
            redisAssert (alloc_ok env (8 * nat maxkeys mod 2 ^ 64));
            Some (ReplyMulti (getKeysInSlot (nat slot) (nat maxkeys mod 2 ^ 32) s))
          }
      | _ \<Rightarrow> Some (ReplyError NotAnInteger))"

subsection \<open>The command\<close>

definition is_sub :: "bytes list \<Rightarrow> string \<Rightarrow> bool" where
  "is_sub argv name \<longleftrightarrow> strcaseeq (argv ! 1) (str name)"

definition clusterCommand :: "command_env \<Rightarrow> bytes list \<Rightarrow> server \<Rightarrow> (reply \<times> server) option" where
  "clusterCommand env argv s =
     (let argc = length argv
      in if \<not> cluster_enabled env then Some (ReplyError ClusterDisabled, s)
         else if is_sub argv ''meet'' \<and> argc = 4 then cluster_meet (argv ! 2) (argv ! 3) s
         else if is_sub argv ''nodes'' \<and> argc = 2 then do { ci \<leftarrow> clusterGenNodesDescription 0 s; Some (ReplyBulk ci, s) }
         else if is_sub argv ''flushslots'' \<and> argc = 2 then cluster_flushslots s
         else if (is_sub argv ''addslots'' \<or> is_sub argv ''delslots'') \<and> argc \<ge> 3
           then cluster_addslots (is_sub argv ''delslots'') (drop 2 argv) s
         else if is_sub argv ''setslot'' \<and> argc \<ge> 4 then cluster_setslot env (drop 2 argv) s
         else if is_sub argv ''info'' \<and> argc = 2 then cluster_info s
         else if is_sub argv ''saveconfig'' \<and> argc = 2 then Some (cluster_saveconfig env s)
         else if is_sub argv ''keyslot'' \<and> argc = 3 then Some (ReplyInt (int (keyHashSlot (argv ! 2))), s)
         else if is_sub argv ''countkeysinslot'' \<and> argc = 3 then Some (cluster_countkeysinslot (argv ! 2) s, s)
         else if is_sub argv ''getkeysinslot'' \<and> argc = 4
           then do { r \<leftarrow> cluster_getkeysinslot env (argv ! 2) (argv ! 3) s; Some (r, s) }
         else if is_sub argv ''forget'' \<and> argc = 3 then cluster_forget env (argv ! 2) s
         else if is_sub argv ''replicate'' \<and> argc = 3 then cluster_replicate env (argv ! 2) s
         else if is_sub argv ''slaves'' \<and> argc = 3 then cluster_slaves env (argv ! 2) s
         else if is_sub argv ''failover'' \<and> (argc = 2 \<or> argc = 3) then
           (if argc = 3 \<and> \<not> strcaseeq (argv ! 2) (str ''force'') then Some (ReplySyntaxErr, s) else cluster_failover (argc = 3) s)
         else if is_sub argv ''set-config-epoch'' \<and> argc = 3 then cluster_set_config_epoch (argv ! 2) s
         else if is_sub argv ''reset'' \<and> (argc = 2 \<or> argc = 3) then cluster_reset (drop 2 argv) s
         else Some (ReplyError WrongSubcommand, s))"

definition askingCommand :: "command_env \<Rightarrow> redisClient \<Rightarrow> reply \<times> redisClient" where
  "askingCommand env c =
     (if \<not> cluster_enabled env then (ReplyError ClusterDisabled, c)
      else (ReplyOk, c\<lparr>cl_flags := cl_flags c OR REDIS_ASKING\<rparr>))"

definition readonlyCommand :: "command_env \<Rightarrow> redisClient \<Rightarrow> reply \<times> redisClient" where
  "readonlyCommand env c =
     (if \<not> cluster_enabled env then (ReplyError ClusterDisabled, c)
      else (ReplyOk, c\<lparr>cl_flags := cl_flags c OR REDIS_READONLY\<rparr>))"

definition readwriteCommand :: "redisClient \<Rightarrow> reply \<times> redisClient" where
  "readwriteCommand c = (ReplyOk, c\<lparr>cl_flags := cl_flags c AND NOT REDIS_READONLY\<rparr>)"

subsection \<open>ADDSLOTS and DELSLOTS\<close>

definition slots_named :: "bytes list \<Rightarrow> nat list" where
  "slots_named args = map (\<lambda>a. the (getSlotOrReply a)) args"

text \<open>A request that can be granted: slot numbers, each named once, all assigned or all unassigned.\<close>

definition slots_request_ok :: "bool \<Rightarrow> bytes list \<Rightarrow> server \<Rightarrow> bool" where
  "slots_request_ok del args s \<longleftrightarrow> (\<forall>a \<in> set args. getSlotOrReply a \<noteq> None) \<and> distinct (slots_named args) \<and>
     (\<forall>j \<in> set (slots_named args). (c_slots s j \<noteq> NULL) = del)"

lemma getSlotOrReply_bound: "getSlotOrReply a = Some j \<Longrightarrow> j < REDIS_CLUSTER_SLOTS"
  by (auto simp: getSlotOrReply_def split: option.splits if_splits)

lemma getSlotOrReply_print: "k < REDIS_CLUSTER_SLOTS \<Longrightarrow> getSlotOrReply (print_nat k) = Some k"
proof -
  assume k: "k < REDIS_CLUSTER_SLOTS"
  then have "strtoll (print_nat k) = (int k, False, [])"
    using strtoll_print_int[of "int k"] by (simp add: print_int_def LLONG_MIN_def LLONG_MAX_def REDIS_CLUSTER_SLOTS_def)
  moreover have "\<not> isspace (hd (print_nat k))" using isdigit_facts[OF hd_print_nat] by blast
  ultimately show ?thesis using k by (simp add: getSlotOrReply_def getLongLongFromObject_def)
qed

lemma addslots_check_spec:
  assumes "\<forall>j. slots j \<le> 1"
  shows "(slots_request_ok del args s \<and> (\<forall>j \<in> set (slots_named args). slots j = 0) \<longrightarrow>
      addslots_check del s args slots = Inr (\<lambda>j. if j \<in> set (slots_named args) then 1 else slots j)) \<and>
    (\<not> (slots_request_ok del args s \<and> (\<forall>j \<in> set (slots_named args). slots j = 0)) \<longrightarrow>
      (\<exists>e. addslots_check del s args slots = Inl e))"
  using assms
proof (induction args arbitrary: slots)
  case Nil
  then show ?case by (simp add: slots_request_ok_def slots_named_def)
next
  case (Cons a args)
  show ?case
  proof (cases "getSlotOrReply a")
    case None
    then show ?thesis by (simp add: slots_request_ok_def)
  next
    case (Some j)
    define slots' where "slots' = slots(j := slots j + 1)"
    have named: "slots_named (a # args) = j # slots_named args" by (simp add: slots_named_def Some)
    consider (state) "(c_slots s j \<noteq> NULL) \<noteq> del" | (again) "(c_slots s j \<noteq> NULL) = del" "slots j = 1"
      | (fine) "(c_slots s j \<noteq> NULL) = del" "slots j = 0"
      using spec[OF Cons.prems, of j] by linarith
    then show ?thesis
    proof cases
      case state
      then show ?thesis using Some by (auto simp: slots_request_ok_def named)
    next
      case again
      then show ?thesis using Some by (auto simp: named)
    next
      case fine
      have le: "\<forall>k. slots' k \<le> 1" using Cons.prems fine by (simp add: slots'_def)
      have step: "addslots_check del s (a # args) slots = addslots_check del s args slots'"
        using Some fine by (auto simp: slots'_def)
      have iff: "(slots_request_ok del (a # args) s \<and> (\<forall>k \<in> set (slots_named (a # args)). slots k = 0)) =
          (slots_request_ok del args s \<and> (\<forall>k \<in> set (slots_named args). slots' k = 0))"
        using Some fine by (auto simp: slots_request_ok_def named slots'_def)
      have eq: "(\<lambda>k. if k \<in> set (slots_named (a # args)) then 1 else slots k) = (\<lambda>k. if k \<in> set (slots_named args) then 1 else slots' k)"
        using fine by (auto simp: named slots'_def)
      show ?thesis unfolding step iff eq by (rule Cons.IH[OF le])
    qed
  qed
qed

definition without_imports :: "server \<Rightarrow> server" where
  "without_imports s = s\<lparr>c_importing_slots_from := (\<lambda>_. NULL)\<rparr>"

lemma without_imports_but_slots: "but_slots (without_imports s) = without_imports (but_slots s)"
  by (rule server.equality) (simp_all add: but_slots_def without_imports_def)

definition slots_done :: "server \<Rightarrow> (nat \<Rightarrow> bool) \<Rightarrow> ptr \<Rightarrow> server \<Rightarrow> bool" where
  "slots_done s named owner s' \<longleftrightarrow> slots_inv s' \<and> but_slots (without_imports s') = but_slots (without_imports s) \<and>
     c_slots s' = (\<lambda>j. if named j then owner else c_slots s j) \<and>
     c_importing_slots_from s' = (\<lambda>j. if named j then NULL else c_importing_slots_from s j)"

lemma but_slots_myself: "but_slots s' = but_slots s \<Longrightarrow> myself s' = myself s"
  using but_slots_ids(1)[of s' s] by (simp add: ids_def)

lemma addslots_slot_step:
  assumes d: "slots_done s named owner t" and j: "j < REDIS_CLUSTER_SLOTS" "\<not> named j" "(c_slots s j \<noteq> NULL) = del"
    and me: "heap s (myself s) \<noteq> None" and own: "owner = (if del then NULL else myself s)" and sl: "slots j \<noteq> 0"
  shows "returns (addslots_slot del slots j t) (slots_done s (named(j := True)) owner)"
proof -
  define t1 where "t1 = (if c_importing_slots_from t j \<noteq> NULL
    then t\<lparr>c_importing_slots_from := (c_importing_slots_from t)(j := NULL)\<rparr> else t)"
  have t1: "c_importing_slots_from t1 = (c_importing_slots_from t)(j := NULL)" "c_slots t1 = c_slots t" "heap t1 = heap t"
    "without_imports t1 = without_imports t" "myself t1 = myself t"
    by (auto simp: t1_def without_imports_def fun_upd_idem)
  have "slots_inv t" using d by (simp add: slots_done_def)
  then have i1: "slots_inv t1" using t1(2,3) by (simp add: slots_inv_def)
  have bs: "but_slots (without_imports t) = but_slots (without_imports s)" using d by (simp add: slots_done_def)
  have my: "myself t1 = myself s" using but_slots_myself[OF bs] t1(5) by (simp add: without_imports_def)
  have al: "heap t1 (myself t1) \<noteq> None"
    using but_slots_alloc[OF bs, of "myself s"] me my t1(3) by (simp add: without_imports_def)
  have cj: "c_slots t1 j = c_slots s j" using d j(2) t1(2) by (simp add: slots_done_def)
  have res: "slots_done s (named(j := True)) owner t2"
    if "slots_inv t2" "but_slots t2 = but_slots t1" "c_slots t2 = (c_slots t1)(j := owner)" for t2
  proof -
    have "but_slots (without_imports t2) = but_slots (without_imports t1)"
      using arg_cong[OF that(2), of without_imports] by (simp add: without_imports_but_slots)
    moreover have "c_importing_slots_from t2 = c_importing_slots_from t1"
      using arg_cong[OF that(2), of c_importing_slots_from] by (simp add: but_slots_def)
    ultimately show ?thesis using that d t1 by (auto simp: slots_done_def fun_eq_iff)
  qed
  have run: "addslots_slot del slots j t = do {
      (retval, s2) \<leftarrow> (if del then clusterDelSlot j t1 else clusterAddSlot (myself t1) j t1);
      redisAssert (retval = REDIS_OK);
      Some s2
    }"
    using sl unfolding t1_def by (simp only: addslots_slot_def Let_def if_False)
  show ?thesis
  proof (cases del)
    case True
    have "returns (clusterDelSlot j t1) (\<lambda>(r, t2). r = REDIS_OK \<and> slots_done s (named(j := True)) owner t2)"
      by (rule returns_mono[OF clusterDelSlot_spec[OF i1 j(1)]]) (use True j(3) cj own res in auto)
    then show ?thesis using True unfolding run by (auto simp: returns_def redisAssert_def)
  next
    case False
    have "returns (clusterAddSlot (myself t1) j t1) (\<lambda>(r, t2). r = REDIS_OK \<and> slots_done s (named(j := True)) owner t2)"
      by (rule returns_mono[OF clusterAddSlot_spec[OF i1 j(1) al]]) (use False j(3) cj own my res in auto)
    then show ?thesis using False unfolding run by (auto simp: returns_def redisAssert_def)
  qed
qed

lemma addslots_loop:
  assumes ok: "slots_request_ok del args s" and inv: "slots_inv s" and me: "heap s (myself s) \<noteq> None"
  defines "slots \<equiv> \<lambda>j. if j \<in> set (slots_named args) then 1 else 0 :: nat"
  shows "returns (foldM (addslots_slot del slots) [0..<REDIS_CLUSTER_SLOTS] s)
    (slots_done s (\<lambda>j. j \<in> set (slots_named args)) (if del then NULL else myself s))"
proof -
  let ?own = "if del then NULL else myself s"
  let ?I = "\<lambda>k. slots_done s (\<lambda>j. j < k \<and> j \<in> set (slots_named args)) ?own"
  have "returns (foldM (addslots_slot del slots) [0..<REDIS_CLUSTER_SLOTS] s) (?I REDIS_CLUSTER_SLOTS)"
  proof (rule returns_foldM_upt)
    show "?I 0 s" using inv by (simp add: slots_done_def)
  next
    fix j t assume j: "j < REDIS_CLUSTER_SLOTS" and d: "?I j t"
    show "returns (addslots_slot del slots j t) (?I (Suc j))"
    proof (cases "j \<in> set (slots_named args)")
      case True
      then have "(c_slots s j \<noteq> NULL) = del" using ok by (simp add: slots_request_ok_def)
      from addslots_slot_step[OF d j _ this me refl, of slots] True
      have "returns (addslots_slot del slots j t) (slots_done s ((\<lambda>k. k < j \<and> k \<in> set (slots_named args))(j := True)) ?own)"
        by (simp add: slots_def)
      moreover have "(\<lambda>k. k < j \<and> k \<in> set (slots_named args))(j := True) = (\<lambda>k. k < Suc j \<and> k \<in> set (slots_named args))"
        using True by (intro ext) (auto simp: less_Suc_eq)
      ultimately show ?thesis by simp
    next
      case False
      then have "(\<lambda>k. k < Suc j \<and> k \<in> set (slots_named args)) = (\<lambda>k. k < j \<and> k \<in> set (slots_named args))"
        by (auto simp: less_Suc_eq)
      then show ?thesis using d False by (simp add: addslots_slot_def slots_def wp)
    qed
  qed
  moreover have "j \<in> set (slots_named args) \<Longrightarrow> j < REDIS_CLUSTER_SLOTS" for j
    using ok getSlotOrReply_bound by (fastforce simp: slots_named_def slots_request_ok_def)
  then have "(\<lambda>j. j < REDIS_CLUSTER_SLOTS \<and> j \<in> set (slots_named args)) = (\<lambda>j. j \<in> set (slots_named args))" by auto
  ultimately show ?thesis by simp
qed

lemma cluster_addslots_spec:
  assumes inv: "slots_inv s" and me: "heap s (myself s) \<noteq> None"
  shows "if slots_request_ok del args s
    then returns (cluster_addslots del args s) (\<lambda>(r, s'). r = ReplyOk \<and> (\<exists>s1. s' = clusterDoBeforeSleep
      (CLUSTER_TODO_UPDATE_STATE OR CLUSTER_TODO_SAVE_CONFIG) s1 \<and>
      slots_done s (\<lambda>j. j \<in> set (slots_named args)) (if del then NULL else myself s) s1))
    else \<exists>e. cluster_addslots del args s = Some (ReplyError e, s)"
proof (cases "slots_request_ok del args s")
  case True
  have "addslots_check del s args (\<lambda>_. 0) = Inr (\<lambda>j. if j \<in> set (slots_named args) then 1 else 0)"
    using addslots_check_spec[of "\<lambda>_. 0" del args s] True by simp
  moreover obtain s1 where "foldM (addslots_slot del (\<lambda>j. if j \<in> set (slots_named args) then 1 else 0)) [0..<REDIS_CLUSTER_SLOTS] s = Some s1"
    "slots_done s (\<lambda>j. j \<in> set (slots_named args)) (if del then NULL else myself s) s1"
    using returnsD[OF addslots_loop[OF True inv me]] by blast
  ultimately show ?thesis using True by (auto simp: cluster_addslots_def returns_def)
next
  case False
  then obtain e where "addslots_check del s args (\<lambda>_. 0) = Inl e"
    using addslots_check_spec[of "\<lambda>_. 0" del args s] by auto
  then show ?thesis using False by (simp add: cluster_addslots_def)
qed

lemma without_imports_inv: "inv (without_imports s) = inv s"
proof -
  have "inv_view (without_imports s) = inv_view s" by (simp add: without_imports_def)
  then show ?thesis using quiet_view[of "without_imports s" s] quiet_view[of s "without_imports s"] by (auto simp: quiet_def)
qed

lemma slots_done_sound:
  assumes d: "slots_done s named owner t" and inv: "sound s" and own: "owner = NULL \<or> known owner s"
  shows "sound t" "ids t = ids s" "known p s \<Longrightarrow> known p t"
proof -
  have bs: "but_slots (without_imports t) = but_slots (without_imports s)" using d by (simp add: slots_done_def)
  have "slots_inv t" using d by (simp add: slots_done_def)
  then have "slots_inv (without_imports t)" by (simp add: slots_inv_def without_imports_def)
  then have q: "quiet (without_imports s) (without_imports t)" by (intro but_slots_quiet[OF bs])
  have k: "known p (without_imports x) = known p x" for p x by (simp add: known_def without_imports_def)
  show kn: "known p s \<Longrightarrow> known p t" for p using but_slots_known[OF bs, of p] by (simp add: k)
  show "ids t = ids s" using q by (simp add: quiet_def ids_def without_imports_def)
  have "inv t" using q inv by (simp add: quiet_def without_imports_inv sound_def)
  moreover have "owners_known t"
    unfolding owners_known_def known_def[symmetric]
  proof (intro allI impI)
    fix j assume j: "j < REDIS_CLUSTER_SLOTS" "c_slots t j \<noteq> NULL"
    show "known (c_slots t j) t"
    proof (cases "named j")
      case True
      then have "c_slots t j = owner" using d by (simp add: slots_done_def)
      then show ?thesis using own j(2) kn by simp
    next
      case False
      then have "c_slots t j = c_slots s j" using d by (simp add: slots_done_def)
      then show ?thesis using inv j kn by (simp add: sound_def owners_known_def known_def)
    qed
  qed
  ultimately show "sound t" by (simp add: sound_def)
qed

lemma but_slots_state: "but_slots s' = but_slots s \<Longrightarrow> c_state s' = c_state s"
  by (drule arg_cong[of _ _ c_state]) (simp add: but_slots_def)

lemma clusterDoBeforeSleep_sound: "sound (clusterDoBeforeSleep f s) = sound s"
  by (simp add: clusterDoBeforeSleep_def sound_def inv_def owners_known_def slots_inv_def nodes_inv_def alloc_inv_def)

lemma clusterDoBeforeSleep_fields [simp]:
  "c_slots (clusterDoBeforeSleep f s) = c_slots s" "c_importing_slots_from (clusterDoBeforeSleep f s) = c_importing_slots_from s"
  "heap (clusterDoBeforeSleep f s) = heap s" "ids (clusterDoBeforeSleep f s) = ids s" "c_state (clusterDoBeforeSleep f s) = c_state s"
  "c_currentEpoch (clusterDoBeforeSleep f s) = c_currentEpoch s" "c_nodes (clusterDoBeforeSleep f s) = c_nodes s"
  "myself (clusterDoBeforeSleep f s) = myself s" "c_migrating_slots_to (clusterDoBeforeSleep f s) = c_migrating_slots_to s"
  "c_lastVoteEpoch (clusterDoBeforeSleep f s) = c_lastVoteEpoch s"
  by (simp_all add: clusterDoBeforeSleep_def ids_def)

lemma clusterDoBeforeSleep_todo:
  "c_todo_before_sleep (clusterDoBeforeSleep (CLUSTER_TODO_UPDATE_STATE OR CLUSTER_TODO_SAVE_CONFIG) s) AND CLUSTER_TODO_SAVE_CONFIG \<noteq> 0"
  by (simp add: clusterDoBeforeSleep_def flag_simps bit_or_iff)

lemma cluster_addslots_correct:
  assumes inv: "sound s" and me: "known (myself s) s"
  shows "if slots_request_ok del args s
    then returns (cluster_addslots del args s) (\<lambda>(r, s'). r = ReplyOk \<and> sound s' \<and> ids s' = ids s \<and> c_state s' = c_state s \<and>
      c_slots s' = (\<lambda>j. if j \<in> set (slots_named args) then (if del then NULL else myself s) else c_slots s j) \<and>
      c_importing_slots_from s' = (\<lambda>j. if j \<in> set (slots_named args) then NULL else c_importing_slots_from s j) \<and>
      c_todo_before_sleep s' AND CLUSTER_TODO_SAVE_CONFIG \<noteq> 0 \<and> (\<forall>p. known p s \<longrightarrow> known p s'))
    else \<exists>e. cluster_addslots del args s = Some (ReplyError e, s)"
proof -
  have al: "heap s (myself s) \<noteq> None" using me by (auto simp: known_def)
  note spec = cluster_addslots_spec[OF soundD(2)[OF inv] al, of del args]
  show ?thesis
  proof (cases "slots_request_ok del args s")
    case True
    then obtain s1 where run: "cluster_addslots del args s =
        Some (ReplyOk, clusterDoBeforeSleep (CLUSTER_TODO_UPDATE_STATE OR CLUSTER_TODO_SAVE_CONFIG) s1)"
      and d: "slots_done s (\<lambda>j. j \<in> set (slots_named args)) (if del then NULL else myself s) s1"
      using spec by (auto simp: returns_def)
    have "(if del then NULL else myself s) = NULL \<or> known (if del then NULL else myself s) s" using me by simp
    note so = slots_done_sound[OF d inv this]
    have "c_state s1 = c_state s"
      using but_slots_state[of "without_imports s1" "without_imports s"] d
      by (simp add: slots_done_def) (simp add: without_imports_def)
    moreover have "known p (clusterDoBeforeSleep f s1) = known p s1" for p f by (simp add: known_def)
    ultimately show ?thesis
      using True run so d clusterDoBeforeSleep_todo[of s1]
      by (simp add: wp clusterDoBeforeSleep_sound slots_done_def)
  qed (use spec in simp)
qed

text \<open>The names of the two subcommands tell them from all others.\<close>

lemma slots_subcommands:
  "is_sub (c # str ''addslots'' # args) ''addslots''" "\<not> is_sub (c # str ''addslots'' # args) ''delslots''"
  "\<not> is_sub (c # str ''addslots'' # args) ''meet''" "\<not> is_sub (c # str ''addslots'' # args) ''nodes''"
  "\<not> is_sub (c # str ''addslots'' # args) ''flushslots''"
  "is_sub (c # str ''delslots'' # args) ''delslots''" "\<not> is_sub (c # str ''delslots'' # args) ''meet''"
  "\<not> is_sub (c # str ''delslots'' # args) ''nodes''" "\<not> is_sub (c # str ''delslots'' # args) ''flushslots''"
proof -
  have "map (\<lambda>n. strcaseeq (str ''addslots'') (str n)) [''addslots'', ''delslots'', ''meet'', ''nodes'', ''flushslots''] =
      [True, False, False, False, False] \<and>
    map (\<lambda>n. strcaseeq (str ''delslots'') (str n)) [''delslots'', ''meet'', ''nodes'', ''flushslots''] = [True, False, False, False]"
    by code_simp
  then show "is_sub (c # str ''addslots'' # args) ''addslots''" "\<not> is_sub (c # str ''addslots'' # args) ''delslots''"
    "\<not> is_sub (c # str ''addslots'' # args) ''meet''" "\<not> is_sub (c # str ''addslots'' # args) ''nodes''"
    "\<not> is_sub (c # str ''addslots'' # args) ''flushslots''"
    "is_sub (c # str ''delslots'' # args) ''delslots''" "\<not> is_sub (c # str ''delslots'' # args) ''meet''"
    "\<not> is_sub (c # str ''delslots'' # args) ''nodes''" "\<not> is_sub (c # str ''delslots'' # args) ''flushslots''"
    by (simp_all add: is_sub_def)
qed

lemma clusterCommand_slots:
  assumes "cluster_enabled env" and "args \<noteq> []"
  shows "clusterCommand env (c # str ''addslots'' # args) s = cluster_addslots False args s"
    and "clusterCommand env (c # str ''delslots'' # args) s = cluster_addslots True args s"
  using assms slots_subcommands by (cases args; simp add: clusterCommand_def Let_def)+

text \<open>Property C9. CLUSTER ADDSLOTS and DELSLOTS take all the slots they name or none: if every argument is the number of a slot, no slot
  is named twice, and all are unassigned (assigned), they all become this node's (unassigned), are no longer imported, and the
  configuration will be saved; otherwise the reply is an error and nothing changes. The node never aborts and stays sound.\<close>

theorem slots_command_correct:
  assumes "sound s" and "known (myself s) s" and "cluster_enabled env" and "args \<noteq> []"
  shows "if slots_request_ok del args s
    then returns (clusterCommand env (c # (if del then str ''delslots'' else str ''addslots'') # args) s) (\<lambda>(r, s').
      r = ReplyOk \<and> sound s' \<and> ids s' = ids s \<and> c_state s' = c_state s \<and>
      c_slots s' = (\<lambda>j. if j \<in> set (slots_named args) then (if del then NULL else myself s) else c_slots s j) \<and>
      c_importing_slots_from s' = (\<lambda>j. if j \<in> set (slots_named args) then NULL else c_importing_slots_from s j) \<and>
      c_todo_before_sleep s' AND CLUSTER_TODO_SAVE_CONFIG \<noteq> 0 \<and> (\<forall>p. known p s \<longrightarrow> known p s'))
    else \<exists>e. clusterCommand env (c # (if del then str ''delslots'' else str ''addslots'') # args) s = Some (ReplyError e, s)"
proof -
  have "clusterCommand env (c # (if del then str ''delslots'' else str ''addslots'') # args) s = cluster_addslots del args s"
    using clusterCommand_slots[OF assms(3,4)] by (cases del) simp_all
  then show ?thesis using cluster_addslots_correct[OF assms(1,2), of del args] by (simp only:)
qed

lemma one_node_sound: "sound one_node_server" "known (myself one_node_server) one_node_server"
proof -
  have "inv one_node_server"
    using one_node_server_slots_inv
    by (simp add: inv_def nodes_inv_def alloc_inv_def one_node_server_def zero_server_def dictWf_def newClusterNode_def)
  moreover have "owners_known one_node_server" by (simp add: owners_known_def one_node_server_def zero_server_def)
  ultimately show "sound one_node_server" by (simp add: sound_def)
  show "known (myself one_node_server) one_node_server"
    by (simp add: known_def one_node_server_def nodeInHandshake_def newClusterNode_def)
qed

definition any_env :: command_env where
  "any_env = \<lparr>cluster_enabled = True, beyond = (\<lambda>_. []), save_error = None, alloc_ok = (\<lambda>_. True)\<rparr>"

theorem slots_command_correct_witness:
  "returns (clusterCommand any_env [str ''cluster'', str ''addslots'', print_nat 12182, print_nat 7] one_node_server)
      (\<lambda>(r, s'). r = ReplyOk \<and> c_slots s' 12182 = 1 \<and> c_slots s' 7 = 1) \<and>
    (\<exists>e. clusterCommand any_env [str ''cluster'', str ''addslots'', print_nat 7, print_nat 7] one_node_server =
      Some (ReplyError e, one_node_server))"
proof -
  have p: "getSlotOrReply (print_nat 12182) = Some 12182" "getSlotOrReply (print_nat 7) = Some 7"
    by (rule getSlotOrReply_print; simp add: REDIS_CLUSTER_SLOTS_def)+
  then have n: "slots_named [print_nat 12182, print_nat 7] = [12182, 7]" "slots_named [print_nat 7, print_nat 7] = [7, 7]"
    by (simp_all add: slots_named_def)
  have f: "c_slots one_node_server = (\<lambda>_. 0)" "myself one_node_server = 1" "cluster_enabled any_env"
    by (simp_all add: one_node_server_def zero_server_def any_env_def)
  have ok: "slots_request_ok False [print_nat 12182, print_nat 7] one_node_server"
    "\<not> slots_request_ok False [print_nat 7, print_nat 7] one_node_server"
    by (simp_all add: slots_request_ok_def n p f)
  have "returns (clusterCommand any_env [str ''cluster'', str ''addslots'', print_nat 12182, print_nat 7] one_node_server)
      (\<lambda>(r, s'). r = ReplyOk \<and> c_slots s' 12182 = 1 \<and> c_slots s' 7 = 1)"
    using slots_command_correct[OF one_node_sound f(3), of "[print_nat 12182, print_nat 7]" False "str ''cluster''"] ok(1)
    by (simp add: n f) (erule returns_mono, auto simp: f)
  moreover have "\<exists>e. clusterCommand any_env [str ''cluster'', str ''addslots'', print_nat 7, print_nat 7] one_node_server =
      Some (ReplyError e, one_node_server)"
    using slots_command_correct[OF one_node_sound f(3), of "[print_nat 7, print_nat 7]" False "str ''cluster''"] ok(2) by simp
  ultimately show ?thesis by blast
qed

text \<open>Property C31. DELSLOTS leaves a window in which a query makes the node abort: the state of the cluster is computed again only before the
  event loop sleeps, so a query for a key of the slot that arrives in the same iteration still finds the cluster up, and the
  assertion that every slot then has an owner fails.\<close>

theorem delslots_query_aborts:
  assumes "sound s" and "known (myself s) s" and "cluster_enabled env" and "c_state s = CLUSTER_OK"
    and "getSlotOrReply a = Some (keyHashSlot key)" and "c_slots s (keyHashSlot key) \<noteq> NULL"
    and "cl_flags c AND REDIS_MASTER = 0" and "\<not> (getkeys_proc cmd = None \<and> firstkey cmd = 0)" and "\<not> cmd_exec cmd"
    and "getKeysFromCommand cmd argv = Some idx" and "keys_at argv idx = Some (key # keys)"
  shows "\<exists>s'. clusterCommand env [str ''cluster'', str ''delslots'', a] s = Some (ReplyOk, s') \<and>
    processCommand_cluster e c cmd argv s' = None"
proof -
  have named: "slots_named [a] = [keyHashSlot key]" by (simp add: slots_named_def assms(5))
  have "slots_request_ok True [a] s" by (simp add: slots_request_ok_def named assms(5,6))
  then obtain s' where s': "clusterCommand env [str ''cluster'', str ''delslots'', a] s = Some (ReplyOk, s')"
    "c_slots s' (keyHashSlot key) = NULL" "c_state s' = CLUSTER_OK"
    using cluster_addslots_correct[OF assms(1,2), of True "[a]"] clusterCommand_slots(2)[OF assms(3), of "[a]" "str ''cluster''" s] assms(4)
    by (auto simp: returns_def named)
  have "query_slot key s' query0 = None"
    using s'(2) by (simp add: query_slot_def query0_def redisAssert_def)
  then have "processCommand_cluster e c cmd argv s' = None"
    using assms(7-11) s'(3) by (auto simp: processCommand_cluster_def getNodeByQuery_def)
  then show ?thesis using s'(1) by blast
qed

theorem delslots_query_aborts_witness:
  "\<exists>s s'. clusterCommand any_env [str ''cluster'', str ''delslots'', print_nat 12182] s = Some (ReplyOk, s') \<and>
    processCommand_cluster \<lparr>loading = False, lua_time_start = None\<rparr> plain_client get_command [str ''get'', [0x66, 0x6F, 0x6F]] s' = None"
proof -
  have p: "getSlotOrReply (print_nat 12182) = Some 12182" by (rule getSlotOrReply_print) (simp add: REDIS_CLUSTER_SLOTS_def)
  then have n: "slots_named [print_nat 12182] = [12182]" by (simp add: slots_named_def)
  have f: "c_slots one_node_server = (\<lambda>_. 0)" "myself one_node_server = 1" "c_state one_node_server = CLUSTER_OK"
    by (simp_all add: one_node_server_def zero_server_def)
  have "slots_request_ok False [print_nat 12182] one_node_server" by (simp add: slots_request_ok_def n p f)
  then obtain s where s: "sound s" "ids s = ids one_node_server" "c_state s = CLUSTER_OK" "c_slots s 12182 = 1" "known 1 s"
    using cluster_addslots_correct[OF one_node_sound, of False "[print_nat 12182]"] one_node_sound(2)
    by (auto simp: returns_def n f)
  then have my: "myself s = 1" by (simp add: ids_def f)
  have kn: "known (myself s) s" unfolding my by (rule s(5))
  have k: "getKeysFromCommand get_command [str ''get'', [0x66, 0x6F, 0x6F]] = Some [1]"
    "keys_at [str ''get'', [0x66, 0x6F, 0x6F]] [1] = Some [[0x66, 0x6F, 0x6F]]"
    by (simp_all add: get_command_def getKeysFromCommand_def getKeysUsingCommandTable_def table_keys.simps keys_at_def)
  have "\<exists>s'. clusterCommand any_env [str ''cluster'', str ''delslots'', print_nat 12182] s = Some (ReplyOk, s') \<and>
    processCommand_cluster \<lparr>loading = False, lua_time_start = None\<rparr> plain_client get_command [str ''get'', [0x66, 0x6F, 0x6F]] s' = None"
    by (rule delslots_query_aborts[OF s(1) kn _ s(3) _ _ _ _ _ k])
      (simp_all add: s foo_slot p any_env_def plain_client_def get_command_def)
  then show ?thesis by blast
qed

end
