(* ===== verification/ClusterCommandInv.thy ===== *)
theory ClusterCommandInv
  imports ClusterCommand
begin

text \<open>
  The CLUSTER command keeps the invariants: whatever a client sends, the state after the command is sound, this node is the one it
  was and is not in handshake, and a reply that is an error has changed nothing. Epochs and votes only move forward, but for a
  hard reset. The exception the code allows is a slot that is given by hand to a node in handshake.
\<close>

subsection \<open>Slots\<close>

lemma hs_view_moves [simp]:
  "hs_view (s\<lparr>c_importing_slots_from := a\<rparr>) = hs_view s"
  "hs_view (s\<lparr>c_migrating_slots_to := a\<rparr>) = hs_view s"
  by (simp_all add: hs_view_def acks_def)

lemma clusterDelSlot_calm:
  assumes run: "clusterDelSlot j s = Some (r, s')" and j: "j < REDIS_CLUSTER_SLOTS" and inv: "sound s"
  shows "calm s s'"
proof -
  have fr: "but_slots s' = but_slots s" and c: "c_slots s' = (c_slots s)(j := NULL)"
    using returnsD[OF clusterDelSlot_spec[OF soundD(2)[OF inv] j]] run by auto
  have "tidy s s'" by (rule but_slots_tidy[OF fr]) (simp add: c)
  then show ?thesis
    by (rule calmI[OF inv clusterDelSlot_quiet[OF run j soundD(2)[OF inv]] _ but_slots_acks[OF fr] but_slots_known[OF fr]])
qed

lemma slot_move_calm:
  assumes d: "clusterDelSlot j s = Some (r1, s1)" and a: "clusterAddSlot p j s1 = Some (r2, s2)"
    and j: "j < REDIS_CLUSTER_SLOTS" and inv: "sound s" and p: "known p s"
  shows "calm s s2"
proof -
  have s1: "slots_inv s1" "but_slots s1 = but_slots s" using returnsD[OF clusterDelSlot_spec[OF soundD(2)[OF inv] j]] d by auto
  have al: "heap s1 p \<noteq> None" using p but_slots_alloc[OF s1(2), of p] by (auto simp: known_def)
  have fr: "but_slots s2 = but_slots s" using returnsD[OF clusterAddSlot_spec[OF s1(1) j al]] a s1(2) by auto
  show ?thesis
    using calmI[OF inv conjunct1[OF slot_move_quiet[OF d a j soundD(2)[OF inv]]]
        conjunct1[OF slot_move_tidy[OF d a j soundD(2)[OF inv] p]] but_slots_acks[OF fr] but_slots_known[OF fr]] by blast
qed

subsection \<open>Forgetting a node\<close>

text \<open>Everybody but one node stays.\<close>

definition parting :: "ptr \<Rightarrow> server \<Rightarrow> server \<Rightarrow> bool" where
  "parting p s s' \<longleftrightarrow> sound s' \<and> ids s' = ids s \<and> acks s' = acks s \<and> (\<forall>q. q \<noteq> p \<longrightarrow> known q s \<longrightarrow> known q s')"

lemma calm_parting: "calm s s' \<Longrightarrow> parting p s s'"
  by (simp add: calm_def parting_def)

lemma parting_trans: "parting p s s1 \<Longrightarrow> parting p s1 s2 \<Longrightarrow> parting p s s2"
  by (simp add: parting_def)

lemma freeClusterNode_parting:
  assumes run: "freeClusterNode p s = Some s'" and inv: "sound s" and no: "\<forall>j<REDIS_CLUSTER_SLOTS. c_slots s j \<noteq> p"
  shows "parting p s s'"
proof -
  obtain n d s2 s3 where n: "heap s p = Some n" and d: "dictDelete (c_nodes s) (n_name n) = Some d"
    and s2: "(if n_slaveof n \<noteq> 0 then map_option snd (clusterNodeRemoveSlave (n_slaveof n) p (s\<lparr>c_nodes := d\<rparr>))
            else Some (s\<lparr>c_nodes := d\<rparr>)) = Some s2"
    and s3: "(if n_link n \<noteq> 0 then freeClusterLink (n_link n) s2 else Some s2) = Some s3"
    and s': "s' = s3\<lparr>heap := (heap s3)(p := None)\<rparr>"
    using run by (auto simp: freeClusterNode_def opt_bind deref_def Let_def)
  have v: "hs_view s3 = hs_view s"
    using s2 s3 by (auto split: if_splits dest!: clusterNodeRemoveSlave_tidily freeClusterLink_tidily)
  have "n_numslots n = 0"
    using slots_agree_numslots_zero[OF soundD(2)[OF inv, unfolded slots_inv_def] n] no by simp
  then have q: "quiet s s'" using freeClusterNode_quiet[OF run] n by simp
  have k: "known q s'" if "q \<noteq> p" "known q s" for q
    using that known_hs_view[OF v, of q] by (simp add: known_def s')
  have "owners_known s'"
    unfolding owners_known_def known_def[symmetric]
  proof (intro allI impI)
    fix j assume j: "j < REDIS_CLUSTER_SLOTS" "c_slots s' j \<noteq> NULL"
    have "c_slots s' j = c_slots s j" using hs_viewD(1)[OF v] by (simp add: s')
    then show "known (c_slots s' j) s'"
      using owners_knownD[OF soundD(4)[OF inv] j(1)] j no k by (simp add: known_def)
  qed
  moreover have "acks s' = acks s" using hs_viewD(4)[OF v] by (simp add: s' acks_def)
  ultimately show ?thesis using q inv k by (simp add: parting_def sound_def quiet_def)
qed

lemma clusterDelNode_slot_calm:
  assumes "clusterDelNode_slot p j s = Some s'" and "j < REDIS_CLUSTER_SLOTS" and inv: "sound s"
  shows "calm s s'"
proof -
  define s2 where "s2 = (let s1 = (if c_importing_slots_from s j = p
                then s\<lparr>c_importing_slots_from := (c_importing_slots_from s)(j := NULL)\<rparr> else s)
     in if c_migrating_slots_to s1 j = p
                then s1\<lparr>c_migrating_slots_to := (c_migrating_slots_to s1)(j := NULL)\<rparr> else s1)"
  have c2: "calm s s2" by (rule calm_view[OF inv]) (auto simp: s2_def Let_def)
  have "s' = s2 \<or> (\<exists>r. clusterDelSlot j s2 = Some (r, s'))"
    using assms(1) by (auto simp: clusterDelNode_slot_def s2_def Let_def split: if_splits)
  then show ?thesis using c2 clusterDelSlot_calm[OF _ assms(2)] calm_trans[OF c2] by blast
qed

lemma clusterDelNode_parting:
  assumes run: "clusterDelNode p s = Some s'" and inv: "sound s" and p: "p \<noteq> NULL"
  shows "parting p s s'"
proof -
  obtain s1 s2 nd s3 where s1: "foldM (clusterDelNode_slot p) [0..<REDIS_CLUSTER_SLOTS] s = Some s1"
    and s2: "foldM (\<lambda>(_, node) s. if node = p then Some s else map_option snd (clusterNodeDelFailureReport node p s)) (c_nodes s1) s1 = Some s2"
    and s3: "(if nodeIsSlave nd \<and> n_slaveof nd \<noteq> NULL then map_option snd (clusterNodeRemoveSlave (n_slaveof nd) p s2) else Some s2) = Some s3"
    and s': "freeClusterNode p s3 = Some s'"
    using run by (auto simp: clusterDelNode_def opt_bind)
  have c1: "calm s s1" by (rule calm_foldM[OF clusterDelNode_slot_calm s1 inv]) simp_all
  have clear: "c_slots s1 j \<noteq> p" if "j < REDIS_CLUSTER_SLOTS" for j
    using returnsD[OF clusterDelNode_loop1[OF soundD(2)[OF inv] p]] s1 that by (auto simp: slot_clear_def)
  have report: "inv_view t' = inv_view t \<and> hs_view t' = hs_view t"
    if "clusterNodeDelFailureReport node p t = Some (r, t')" for node t r t'
    using clusterNodeDelFailureReport_keeps[OF that] clusterNodeDelFailureReport_tidily[OF that] by simp
  have step: "inv_view t' = inv_view t \<and> hs_view t' = hs_view t"
    if "(\<lambda>(_, node) s. if node = p then Some s else map_option snd (clusterNodeDelFailureReport node p s)) e t = Some t'" for e t t'
  proof (cases e)
    case (Pair k node)
    then show ?thesis using that report[of node t] by (cases "node = p") auto
  qed
  have c2: "calm s1 s2"
  proof (rule calm_foldM[OF _ s2 calm_sound[OF c1]])
    fix e t t' assume "sound t" and r: "(\<lambda>(_, node) s. if node = p then Some s else map_option snd (clusterNodeDelFailureReport node p s)) e t = Some t'"
    show "calm t t'" by (rule calm_view[OF \<open>sound t\<close> conjunct1[OF step[OF r]] conjunct2[OF step[OF r]]])
  qed
  have "c_slots t' = c_slots t"
    if "foldM (\<lambda>(_, node) s. if node = p then Some s else map_option snd (clusterNodeDelFailureReport node p s)) xs t = Some t'" for xs t t'
    using that
  proof (induction xs arbitrary: t)
    case (Cons x xs)
    from Cons.prems obtain t1 where t1: "(\<lambda>(_, node) s. if node = p then Some s else map_option snd (clusterNodeDelFailureReport node p s)) x t = Some t1"
      and r: "foldM (\<lambda>(_, node) s. if node = p then Some s else map_option snd (clusterNodeDelFailureReport node p s)) xs t1 = Some t'"
      unfolding foldM.simps opt_bind by blast
    show ?case unfolding Cons.IH[OF r] by (rule hs_viewD(1)[OF conjunct2[OF step[OF t1]]])
  qed simp
  then have sl2: "c_slots s2 = c_slots s1" using s2 by blast
  have v3: "inv_view s3 = inv_view s2 \<and> hs_view s3 = hs_view s2"
  proof -
    have "s3 = s2 \<or> (\<exists>r. clusterNodeRemoveSlave (n_slaveof nd) p s2 = Some (r, s3))" using s3 by (auto split: if_splits)
    then show ?thesis using clusterNodeRemoveSlave_keeps clusterNodeRemoveSlave_tidily by blast
  qed
  have c3: "calm s2 s3" using calm_view[OF calm_sound[OF c2]] v3 by blast
  have "c_slots s3 = c_slots s1" using hs_viewD(1) v3 sl2 by metis
  then have "parting p s3 s'" using freeClusterNode_parting[OF s' calm_sound[OF c3]] clear by simp
  from parting_trans[OF parting_trans[OF parting_trans[OF calm_parting[OF c1] calm_parting[OF c2]] calm_parting[OF c3]] this]
  show ?thesis .
qed

subsection \<open>What a command leaves\<close>

text \<open>The last argument tells that the node was reset.\<close>

definition command_ok :: "server \<Rightarrow> reply \<Rightarrow> server \<Rightarrow> bool \<Rightarrow> bool" where
  "command_ok s r s' reset \<longleftrightarrow> sound s' \<and> myself s' = myself s \<and> known (myself s) s' \<and>
     (\<forall>e. r = ReplyError e \<and> (\<forall>x. e \<noteq> SaveFailed x) \<longrightarrow> s' = s) \<and>
     (reset \<or> c_lastVoteEpoch s' = c_lastVoteEpoch s \<and> c_currentEpoch s \<le> c_currentEpoch s')"

lemma command_ok_same: "sound s \<Longrightarrow> known (myself s) s \<Longrightarrow> command_ok s r s b"
  by (simp add: command_ok_def)

lemma command_ok_advance:
  "advance s s' \<Longrightarrow> known (myself s) s \<Longrightarrow> (\<And>e. r = ReplyError e \<Longrightarrow> s' = s \<or> (\<exists>x. e = SaveFailed x)) \<Longrightarrow> command_ok s r s' b"
  by (auto simp: command_ok_def advance_def)

lemma command_ok_calm:
  "calm s s' \<Longrightarrow> known (myself s) s \<Longrightarrow> (\<And>e. r = ReplyError e \<Longrightarrow> s' = s \<or> (\<exists>x. e = SaveFailed x)) \<Longrightarrow> command_ok s r s' b"
  by (rule command_ok_advance[OF calm_advance])

lemma command_ok_parting:
  "parting p s s' \<Longrightarrow> p \<noteq> myself s \<Longrightarrow> known (myself s) s \<Longrightarrow> command_ok s ReplyOk s' b"
  by (auto simp: command_ok_def parting_def ids_def)

lemma calm_todo: "calm s s' \<Longrightarrow> calm s (clusterDoBeforeSleep f s')"
  using calm_trans clusterDoBeforeSleep_calm by blast

lemma cluster_meet_ok:
  assumes "cluster_meet ip port s = Some (r, s')" and inv: "sound s" and me: "known (myself s) s"
  shows "command_ok s r s' b"
proof (cases "getLongLongFromObject port")
  case None
  then show ?thesis using assms command_ok_same by (auto simp: cluster_meet_def)
next
  case (Some p)
  then obtain e where e: "clusterStartHandshake (cstr ip) (to_int p) s = Some (e, s')"
    and r: "r = (if e = Some EINVAL then ReplyError (InvalidAddress ip port) else ReplyOk)"
    using assms(1) by (auto simp: cluster_meet_def opt_bind)
  have "e = Some EINVAL \<Longrightarrow> s' = s"
    using e by (auto simp: clusterStartHandshake_def opt_bind split: option.splits if_splits prod.splits)
  then show ?thesis using command_ok_calm[OF clusterStartHandshake_calm[OF e inv] me] r by (auto split: if_splits)
qed

lemma cluster_flushslots_ok:
  assumes "cluster_flushslots s = Some (r, s')" and inv: "sound s" and me: "known (myself s) s"
  shows "command_ok s r s' b"
proof (cases "db0 s = Map.empty")
  case True
  then obtain d s1 f where d: "clusterDelNodeSlots (myself s) s = Some (d, s1)" and s': "r = ReplyOk" "s' = clusterDoBeforeSleep f s1"
    using assms(1) by (auto simp: cluster_flushslots_def opt_bind)
  show ?thesis unfolding s'
    by (rule command_ok_calm[OF calm_todo[OF clusterDelNodeSlots_calm[OF d inv me]] me]) simp
qed (use assms command_ok_same in \<open>auto simp: cluster_flushslots_def\<close>)

lemma cluster_addslots_ok:
  assumes "cluster_addslots del args s = Some (r, s')" and inv: "sound s" and me: "known (myself s) s"
  shows "command_ok s r s' b"
proof (cases "slots_request_ok del args s")
  case True
  then show ?thesis
    using cluster_addslots_correct[OF inv me, of del args] assms(1) me by (auto simp: returns_def command_ok_def ids_def)
next
  case False
  then obtain e where "cluster_addslots del args s = Some (ReplyError e, s)" using cluster_addslots_correct[OF inv me, of del args] by auto
  then show ?thesis using assms(1) command_ok_same[OF inv me] by simp
qed

lemma setslot_import_done_advance:
  assumes run: "setslot_import_done n slot s = Some s'" and inv: "sound s" and room: "c_currentEpoch s \<noteq> - 1"
  shows "advance s s'"
proof (cases "n = myself s \<and> c_importing_slots_from s slot \<noteq> NULL")
  case True
  then obtain e s1 and me :: clusterNode where
    s1: "(if n_configEpoch me = 0 \<or> n_configEpoch me \<noteq> e then do {
                let s = s\<lparr>c_currentEpoch := c_currentEpoch s + 1\<rparr>;
                s \<leftarrow> node_upd (myself s) (\<lambda>me. me\<lparr>n_configEpoch := c_currentEpoch s\<rparr>) s;
                Some (clusterDoBeforeSleep CLUSTER_TODO_FSYNC_CONFIG s)
              }
              else Some s) = Some s1"
    and s': "s' = s1\<lparr>c_importing_slots_from := (c_importing_slots_from s1)(slot := NULL)\<rparr>"
    using run unfolding setslot_import_done_def if_P[OF True] by (elim bind_SomeE) (rule that, assumption, simp)
  have a1: "advance s s1"
  proof (cases "n_configEpoch me = 0 \<or> n_configEpoch me \<noteq> e")
    case True
    define s2 where "s2 = s\<lparr>c_currentEpoch := c_currentEpoch s + 1\<rparr>"
    obtain s3 where u: "node_upd (myself s2) (\<lambda>me. me\<lparr>n_configEpoch := c_currentEpoch s2\<rparr>) s2 = Some s3"
      and s1': "s1 = clusterDoBeforeSleep CLUSTER_TODO_FSYNC_CONFIG s3"
      using s1 True by (auto simp: opt_bind s2_def Let_def)
    have "c_currentEpoch s \<le> c_currentEpoch s + 1" using word_less_Suc[OF order_refl room] by simp
    then have a2: "advance s s2" unfolding s2_def by (rule advance_epoch[OF inv])
    have "calm s2 s3" by (rule node_upd_calm[OF u advance_sound[OF a2]]) (simp_all add: node_view_def)
    then show ?thesis unfolding s1' using a2 advance_trans calm_advance[OF calm_todo] by blast
  next
    case False
    then have "s1 = s" using s1 unfolding if_not_P[OF False] by simp
    then show ?thesis using inv by (simp add: calm_advance calm_refl)
  qed
  have "calm s1 s'" by (rule calm_view[OF advance_sound[OF a1]]) (simp_all add: s')
  then show ?thesis using a1 advance_trans calm_advance by blast
qed (use run inv in \<open>auto simp: setslot_import_done_def calm_advance calm_refl\<close>)

lemma setslot_node_ok:
  assumes run: "setslot_node env slot name s = Some (e, s')" and inv: "sound s" and room: "c_currentEpoch s \<noteq> - 1"
    and slot: "slot < REDIS_CLUSTER_SLOTS" and n: "lookup_arg env name s = NULL \<or> known (lookup_arg env name s) s"
  shows "advance s s' \<and> (e \<noteq> None \<longrightarrow> s' = s)"
proof (cases "e = None")
  case False
  then have "s' = s" using run by (auto simp: setslot_node_def opt_bind Let_def split: if_splits)
  then show ?thesis using inv by (simp add: calm_advance calm_refl)
next
  case True
  let ?n = "lookup_arg env name s"
  define s1 where "s1 = (if countKeysInSlot slot s = 0 \<and> c_migrating_slots_to s slot \<noteq> NULL
                     then s\<lparr>c_migrating_slots_to := (c_migrating_slots_to s)(slot := NULL)\<rparr> else s)"
  have nz: "?n \<noteq> NULL" using run True by (simp add: setslot_node_def Let_def split: if_splits)
  have keys: "\<not> (c_slots s slot = myself s \<and> ?n \<noteq> myself s \<and> countKeysInSlot slot s \<noteq> 0)"
    using run True nz by (auto simp: setslot_node_def Let_def split: if_splits)
  obtain s2 r1 s3 r2 where s2: "setslot_import_done ?n slot s1 = Some s2" and d: "clusterDelSlot slot s2 = Some (r1, s3)"
    and a: "clusterAddSlot ?n slot s3 = Some (r2, s')"
    using run unfolding setslot_node_def Let_def if_not_P[OF nz] if_not_P[OF keys] s1_def[symmetric]
    by (auto simp: opt_bind)
  have c1: "calm s s1" by (rule calm_view[OF inv]) (simp_all add: s1_def)
  have "c_currentEpoch s1 \<noteq> - 1" using room by (simp add: s1_def)
  from setslot_import_done_advance[OF s2 calm_sound[OF c1] this] have a2: "advance s s2"
    using advance_trans[OF calm_advance[OF c1]] by blast
  have "calm s2 s'" by (rule slot_move_calm[OF d a slot advance_sound[OF a2]]) (use n nz advance_known[OF a2] in blast)
  then show ?thesis using True advance_trans[OF a2] calm_advance by blast
qed

lemma cluster_setslot_ok:
  assumes run: "cluster_setslot env args s = Some (r, s')" and inv: "sound s" and me: "known (myself s) s"
    and room: "c_currentEpoch s \<noteq> - 1" and len: "length args \<ge> 2"
    and n: "\<forall>a \<in> set args. lookup_arg env a s = NULL \<or> known (lookup_arg env a s) s"
  shows "command_ok s r s' b"
proof (cases "getSlotOrReply (args ! 0)")
  case None
  then show ?thesis using run command_ok_same[OF inv me] by (simp add: cluster_setslot_def)
next
  case (Some slot)
  have slot: "slot < REDIS_CLUSTER_SLOTS" by (rule getSlotOrReply_bound[OF Some])
  obtain e s1 where e: "(if strcaseeq (args ! 1) (str ''migrating'') \<and> length args = 3 then Some (setslot_migrating env slot (args ! 2) s)
             else if strcaseeq (args ! 1) (str ''importing'') \<and> length args = 3
               then Some (setslot_importing env slot (args ! 1) (args ! 2) s)
             else if strcaseeq (args ! 1) (str ''stable'') \<and> length args = 2 then Some (None, setslot_stable slot s)
             else if strcaseeq (args ! 1) (str ''node'') \<and> length args = 3 then setslot_node env slot (args ! 2) s
             else Some (Some InvalidSetslot, s)) = Some (e, s1)"
    and r: "(case e of Some e \<Rightarrow> Some (ReplyError e, s1)
           | None \<Rightarrow> Some (ReplyOk, clusterDoBeforeSleep (CLUSTER_TODO_SAVE_CONFIG OR CLUSTER_TODO_UPDATE_STATE) s1)) = Some (r, s')"
    using run Some by (auto simp: cluster_setslot_def opt_bind simp del: if_split)
  have "advance s s1 \<and> (e \<noteq> None \<longrightarrow> s1 = s)"
  proof -
    consider (mig) "setslot_migrating env slot (args ! 2) s = (e, s1)" | (imp) "setslot_importing env slot (args ! 1) (args ! 2) s = (e, s1)"
      | (st) "e = None" "s1 = setslot_stable slot s" | (node) "length args = 3" "setslot_node env slot (args ! 2) s = Some (e, s1)"
      | (bad) "s1 = s"
      using e by (auto split: if_splits)
    then show ?thesis
    proof cases
      case mig
      then have "calm s s1 \<and> (e \<noteq> None \<longrightarrow> s1 = s)"
        using calm_view[OF inv] calm_refl[OF inv] by (auto simp: setslot_migrating_def Let_def split: if_splits)
      then show ?thesis using calm_advance by blast
    next
      case imp
      then have "calm s s1 \<and> (e \<noteq> None \<longrightarrow> s1 = s)"
        using calm_view[OF inv] calm_refl[OF inv] by (auto simp: setslot_importing_def Let_def split: if_splits)
      then show ?thesis using calm_advance by blast
    next
      case st
      then have "calm s s1" using calm_view[OF inv, of s1] by (simp add: setslot_stable_def)
      then show ?thesis using st calm_advance by blast
    next
      case node
      then have "args ! 2 \<in> set args" by simp
      then show ?thesis using setslot_node_ok[OF node(2) inv room slot] n by blast
    next
      case bad
      then show ?thesis using calm_advance[OF calm_refl[OF inv]] by simp
    qed
  qed
  then show ?thesis
    using r command_ok_same[OF inv me] command_ok_advance[OF _ me, of _ ReplyOk] advance_trans[OF _ calm_advance[OF clusterDoBeforeSleep_calm]]
    by (cases e) auto
qed

subsection \<open>Nodes, epochs and failover\<close>

lemma clusterBlacklistAddNode_calm: "clusterBlacklistAddNode p s = Some s' \<Longrightarrow> sound s \<Longrightarrow> calm s s'"
  by (rule calm_view) (auto simp: clusterBlacklistAddNode_def opt_bind Let_def)

lemma cluster_forget_ok:
  assumes run: "cluster_forget env name s = Some (r, s')" and inv: "sound s" and me: "known (myself s) s"
  shows "command_ok s r s' b"
proof (cases "s' = s")
  case True
  then show ?thesis using command_ok_same[OF inv me] by simp
next
  case False
  let ?n = "lookup_arg env name s"
  obtain s1 s2 f where n: "?n \<noteq> NULL" "?n \<noteq> myself s" and s1: "clusterBlacklistAddNode ?n s = Some s1"
    and s2: "clusterDelNode ?n s1 = Some s2" and r: "r = ReplyOk" "s' = clusterDoBeforeSleep f s2"
    using run False by (auto simp: cluster_forget_def opt_bind Let_def split: if_splits)
  have c1: "calm s s1" by (rule clusterBlacklistAddNode_calm[OF s1 inv])
  have p2: "parting ?n s1 s2" by (rule clusterDelNode_parting[OF s2 calm_sound[OF c1] n(1)])
  have "sound s2" using p2 by (simp add: parting_def)
  from parting_trans[OF parting_trans[OF calm_parting[OF c1] p2] calm_parting[OF clusterDoBeforeSleep_calm[OF this]]]
  show ?thesis unfolding r by (rule command_ok_parting[OF _ n(2) me])
qed

lemma clusterSetMaster_calm: "clusterSetMaster n s = Some s' \<Longrightarrow> sound s \<Longrightarrow> calm s s'"
  using calm_view clusterSetMaster_keeps clusterSetMaster_tidily by blast

lemma cluster_replicate_ok:
  assumes run: "cluster_replicate env name s = Some (r, s')" and inv: "sound s" and me: "known (myself s) s"
  shows "command_ok s r s' b"
proof (cases "s' = s")
  case True
  then show ?thesis using command_ok_same[OF inv me] by simp
next
  case False
  obtain s1 f where s1: "clusterSetMaster (lookup_arg env name s) s = Some s1" and r: "r = ReplyOk" "s' = clusterDoBeforeSleep f s1"
    using run False by (auto simp: cluster_replicate_def opt_bind Let_def split: if_splits)
  show ?thesis unfolding r
    by (rule command_ok_calm[OF calm_todo[OF clusterSetMaster_calm[OF s1 inv]] me]) simp
qed

lemma cluster_slaves_ok:
  assumes run: "cluster_slaves env name s = Some (r, s')" and inv: "sound s" and me: "known (myself s) s"
  shows "command_ok s r s' b"
proof -
  have "s' = s" using run by (auto simp: cluster_slaves_def opt_bind Let_def split: if_splits)
  then show ?thesis using command_ok_same[OF inv me] by simp
qed

lemma hs_view_mf [simp]: "hs_view (s\<lparr>c_mf_can_start := b0\<rparr>) = hs_view s"
  by (simp add: hs_view_def acks_def)

lemma cluster_failover_ok:
  assumes run: "cluster_failover force s = Some (r, s')" and inv: "sound s" and me: "known (myself s) s"
  shows "command_ok s r s' b"
proof (cases "s' = s")
  case True
  then show ?thesis using command_ok_same[OF inv me] by simp
next
  case False
  define s1 where "s1 = (resetManualFailover s)\<lparr>c_mf_end := mstime s + REDIS_CLUSTER_MF_TIMEOUT\<rparr>"
  obtain m where s2: "s' = s1\<lparr>c_mf_can_start := True\<rparr> \<or> clusterSendMFStart m s1 = Some s'" and r: "r = ReplyOk"
    using run False by (auto simp: cluster_failover_def opt_bind s1_def Let_def split: if_splits)
  have c1: "calm s s1" by (rule calm_view[OF inv]) (simp_all add: s1_def)
  have "inv_view s' = inv_view s1 \<and> hs_view s' = hs_view s1"
    using s2 sends_keep(10) sends_tidily(5) by (elim disjE) (simp, blast)
  then have "calm s1 s'" using calm_view[OF calm_sound[OF c1]] by blast
  then have "calm s s'" using calm_trans[OF c1] by blast
  then show ?thesis unfolding r by (rule command_ok_calm[OF _ me]) simp
qed

lemma cluster_set_config_epoch_ok:
  assumes run: "cluster_set_config_epoch a s = Some (r, s')" and inv: "sound s" and me: "known (myself s) s"
  shows "command_ok s r s' b"
proof (cases "s' = s")
  case True
  then show ?thesis using command_ok_same[OF inv me] by simp
next
  case False
  obtain e s1 f where u: "node_upd (myself s) (\<lambda>me. me\<lparr>n_configEpoch := e\<rparr>) s = Some s1" and r: "r = ReplyOk" "s' = clusterDoBeforeSleep f s1"
    using run False by (auto simp: cluster_set_config_epoch_def opt_bind Let_def split: if_splits option.splits)
  have "calm s s1" by (rule node_upd_calm[OF u inv]) (simp_all add: node_view_def)
  then show ?thesis unfolding r by (rule command_ok_calm[OF calm_todo me]) simp
qed

lemma cluster_info_ok:
  "cluster_info s = Some (r, s') \<Longrightarrow> sound s \<Longrightarrow> known (myself s) s \<Longrightarrow> command_ok s r s' b"
proof -
  assume run: "cluster_info s = Some (r, s')" and "sound s" "known (myself s) s"
  have "s' = s" using run by (auto simp: cluster_info_def opt_bind)
  then show ?thesis using command_ok_same \<open>sound s\<close> \<open>known (myself s) s\<close> by simp
qed

lemma cluster_saveconfig_ok:
  assumes run: "cluster_saveconfig env s = (r, s')" and inv: "sound s" and me: "known (myself s) s"
  shows "command_ok s r s' b"
proof -
  have "inv_view (clusterSaveConfigOrDie True s) = inv_view s" by (simp add: clusterSaveConfigOrDie_def Let_def)
  then have "calm s s'" using run calm_view[OF inv] by (auto simp: cluster_saveconfig_def split: option.splits)
  then show ?thesis
    by (rule command_ok_calm[OF _ me]) (use run in \<open>auto simp: cluster_saveconfig_def split: option.splits\<close>)
qed

subsection \<open>Resetting\<close>

lemma inv_epochs_zero: "inv s \<Longrightarrow> inv (s\<lparr>c_currentEpoch := 0, c_lastVoteEpoch := 0\<rparr>)"
  by (simp add: inv_def slots_inv_def nodes_inv_def alloc_inv_def)

text \<open>Renaming a node the table does not hold.\<close>

lemma rename_absent_calm:
  assumes u: "node_upd p (\<lambda>n. n\<lparr>n_name := nm\<rparr>) s = Some s'" and inv: "sound s" and no: "p \<notin> snd ` set (c_nodes s)"
  shows "calm s s'"
proof -
  obtain n where n: "heap s p = Some n" "s' = s\<lparr>heap := (heap s)(p \<mapsto> n\<lparr>n_name := nm\<rparr>)\<rparr>"
    using u by (auto simp: node_upd_def split: option.splits)
  have v: "hs_view s' = hs_view s" by (rule hs_view_node_upd[OF u]) simp
  have "slots_inv s'" using soundD(2)[OF inv] n slots_agree_upd[of "c_slots s" "heap s" p n] by (simp add: slots_inv_def)
  moreover have "nodes_inv s'" using inv no by (force simp: sound_def inv_def nodes_inv_def n(2))
  ultimately have "inv s'" using inv n by (auto simp: sound_def inv_def alloc_inv_def)
  then have "quiet s s'" by (simp add: quiet_def ids_def n(2))
  then show ?thesis by (rule hs_view_calm[OF v _ inv])
qed

lemma clusterReset_hard_sound:
  assumes run: "clusterReset_hard s = Some s'" and inv: "sound s" and me: "known (myself s) s"
  shows "sound s' \<and> myself s' = myself s \<and> known (myself s) s'"
proof -
  define s1 where "s1 = s\<lparr>c_currentEpoch := 0, c_lastVoteEpoch := 0\<rparr>"
  obtain s2 nd s4 s5 r name s3 where s2: "node_upd (myself s1) (\<lambda>n. n\<lparr>n_configEpoch := 0\<rparr>) s1 = Some s2"
    and nd: "heap s2 (myself s2) = Some nd"
    and s3: "s3 = (case dictDelete (c_nodes s2) (n_name nd) of Some d \<Rightarrow> s2\<lparr>c_nodes := d\<rparr> | None \<Rightarrow> s2)"
    and s4: "getRandomHexChars REDIS_CLUSTER_NAMELEN s3 = (name, s4)"
    and s5: "node_upd (myself s4) (\<lambda>n. n\<lparr>n_name := name\<rparr>) s4 = Some s5" and s': "clusterAddNode (myself s5) s5 = Some (r, s')"
  proof -
    obtain s2 where s2: "node_upd (myself s1) (\<lambda>n. n\<lparr>n_configEpoch := 0\<rparr>) s1 = Some s2"
      using run unfolding clusterReset_hard_def Let_def s1_def[symmetric] by (elim bind_SomeE)
    obtain nd where nd: "heap s2 (myself s2) = Some nd"
      using run s2 unfolding clusterReset_hard_def Let_def s1_def[symmetric] by (auto simp: opt_bind deref_def)
    define s3 where "s3 = (case dictDelete (c_nodes s2) (n_name nd) of Some d \<Rightarrow> s2\<lparr>c_nodes := d\<rparr> | None \<Rightarrow> s2)"
    obtain name s4 where s4: "getRandomHexChars REDIS_CLUSTER_NAMELEN s3 = (name, s4)" by fastforce
    have "(node_upd (myself s4) (\<lambda>n. n\<lparr>n_name := name\<rparr>) s4 \<bind> (\<lambda>s5. map_option snd (clusterAddNode (myself s5) s5))) = Some s'"
      using run s2 nd s4 unfolding clusterReset_hard_def Let_def s1_def[symmetric] by (simp add: s3_def deref_def)
    then show thesis using that[OF s2 nd s3_def s4] by (auto simp: opt_bind)
  qed
  have "owners_known s1" using soundD(4)[OF inv] by (simp add: owners_known_def s1_def)
  then have snd1: "sound s1" using inv_epochs_zero inv by (simp add: sound_def s1_def)
  have c2: "calm s1 s2" by (rule node_upd_calm[OF s2 snd1]) (simp_all add: node_view_def)
  have wf: "dictWf (c_nodes s2)" using calm_sound[OF c2] by (simp add: sound_def inv_def nodes_inv_def)
  have ent: "k = n_name nd" if "(k, myself s2) \<in> set (c_nodes s2)" for k
    using that nd calm_sound[OF c2] by (auto simp: sound_def inv_def nodes_inv_def)
  have "inv s3 \<and> myself s2 \<notin> snd ` set (c_nodes s3) \<and> hs_view s3 = hs_view s2 \<and> ids s3 = ids s2"
  proof (cases "dictDelete (c_nodes s2) (n_name nd)")
    case None
    then have "myself s2 \<notin> snd ` set (c_nodes s2)"
      using ent nd.del_None[of "c_nodes s2" "n_name nd"] nd.find_entries[OF wf, of "n_name nd" "myself s2"] by force
    then show ?thesis using None s3 calm_sound[OF c2] by (simp add: sound_def)
  next
    case (Some d)
    have "inv s3" using calm_sound[OF c2] nd.entries_del[OF wf Some] nd.del_wf[OF wf Some]
      by (auto simp: s3 Some sound_def inv_def nodes_inv_def slots_inv_def alloc_inv_def)
    moreover have "myself s2 \<notin> snd ` set d" using ent nd.entries_del[OF wf Some] by force
    ultimately show ?thesis by (simp add: s3 Some ids_def)
  qed
  then have i3: "inv s3" "myself s2 \<notin> snd ` set (c_nodes s3)" "hs_view s3 = hs_view s2" "ids s3 = ids s2" by auto
  have c3: "calm s2 s3" by (rule hs_view_calm[OF i3(3) _ calm_sound[OF c2]]) (simp add: quiet_def i3)
  have s4v: "s4 = s3\<lparr>rng := rng s4\<rparr>" using s4 by (auto simp: getRandomHexChars_def)
  then have "inv_view s4 = inv_view s3" by (metis inv_view_simps(4))
  moreover have "hs_view s4 = hs_view s3" using s4v by (metis hs_view_simps(4))
  ultimately have c4: "calm s3 s4" using calm_view[OF calm_sound[OF c3]] by blast
  have my4: "myself s4 = myself s2" "c_nodes s4 = c_nodes s3" using i3(4) s4 by (auto simp: getRandomHexChars_def ids_def)
  have c5: "calm s4 s5" by (rule rename_absent_calm[OF s5 calm_sound[OF c4]]) (simp add: my4 i3(2))
  have c6: "calm s5 s'" by (rule clusterAddNode_calm[OF s' calm_sound[OF c5]])
  have c: "calm s1 s'" using calm_trans[OF calm_trans[OF calm_trans[OF calm_trans[OF c2 c3] c4] c5] c6] .
  have "known (myself s) s1" using me by (simp add: known_def s1_def)
  then show ?thesis using c calm_known[OF c] by (simp add: calm_def ids_def s1_def)
qed

lemma clusterReset_sound:
  assumes run: "clusterReset hard s = Some s'" and inv: "sound s" and me: "known (myself s) s"
  shows "sound s' \<and> myself s' = myself s \<and> known (myself s) s'"
proof -
  obtain nd s1 s2 s3 s4 s5 f where
    s1: "(if nodeIsSlave nd then map_option replicationUnsetMaster (clusterSetNodeAsMaster (myself s) s) else Some s) = Some s1"
    and s2: "s2 = resetManualFailover (clusterCloseAllSlots s1)"
    and s3: "foldM (\<lambda>j s. map_option snd (clusterDelSlot j s)) [0..<REDIS_CLUSTER_SLOTS] s2 = Some s3"
    and s4: "foldM (\<lambda>(_, p) s. if p = myself s then Some s else clusterDelNode p s) (c_nodes s3) s3 = Some s4"
    and s5: "(if hard then clusterReset_hard s4 else Some s4) = Some s5" and s': "s' = clusterDoBeforeSleep f s5"
    using run by (auto simp: clusterReset_def opt_bind Let_def)
  have c1: "calm s s1"
  proof (cases "nodeIsSlave nd")
    case True
    then obtain t where t: "clusterSetNodeAsMaster (myself s) s = Some t" "s1 = replicationUnsetMaster t" using s1 by auto
    have c: "calm s t" by (rule clusterSetNodeAsMaster_calm[OF t(1) inv])
    show ?thesis unfolding t(2) by (rule calm_trans[OF c], rule calm_view) simp_all
  next
    case False
    then show ?thesis using s1 calm_refl[OF inv] by simp
  qed
  have c2: "calm s1 s2" by (rule calm_view[OF calm_sound[OF c1]]) (simp_all add: s2)
  have c3: "calm s2 s3"
  proof (rule calm_foldM[OF _ s3 calm_sound[OF c2]])
    fix j t t' assume "j \<in> set [0..<REDIS_CLUSTER_SLOTS]" "sound t" "map_option snd (clusterDelSlot j t) = Some t'"
    then show "calm t t'" using clusterDelSlot_calm[of j t _ t'] by auto
  qed
  have c: "calm s s3" using calm_trans[OF calm_trans[OF c1 c2] c3] .
  have me3: "known (myself s) s3" "myself s3 = myself s" using calm_known[OF c me] c by (simp_all add: calm_def ids_def)
  have nz: "snd e \<noteq> NULL" if mem: "e \<in> set (c_nodes s3)" for e
  proof -
    have "heap s3 NULL = None" "nodes_inv s3"
      using calm_sound[OF c] slots_agree_null[of "c_slots s3" "heap s3"] by (simp_all add: sound_def inv_def slots_inv_def)
    moreover obtain nd where "heap s3 (snd e) = Some nd" using \<open>nodes_inv s3\<close> mem by (cases e) (auto simp: nodes_inv_def)
    ultimately show ?thesis by (metis option.distinct(1))
  qed
  have "whenever (foldM (\<lambda>(_, p) s. if p = myself s then Some s else clusterDelNode p s) (c_nodes s3) s3)
      (\<lambda>t. sound t \<and> myself t = myself s \<and> known (myself s) t)"
  proof (rule whenever_foldM)
    show "sound s3 \<and> myself s3 = myself s \<and> known (myself s) s3" using calm_sound[OF c] me3 by simp
  next
    fix e t assume e: "e \<in> set (c_nodes s3)" and t: "sound t \<and> myself t = myself s \<and> known (myself s) t"
    obtain k p where p: "e = (k, p)" by (cases e)
    have step: "sound t' \<and> myself t' = myself s \<and> known (myself s) t'" if "clusterDelNode p t = Some t'" "p \<noteq> myself t" for t'
    proof -
      have "parting p t t'" using clusterDelNode_parting[OF that(1)] t nz[OF e] p by simp
      then have "sound t'" "ids t' = ids t" "\<forall>q. q \<noteq> p \<longrightarrow> known q t \<longrightarrow> known q t'" by (simp_all add: parting_def)
      then show ?thesis using t that(2) by (simp add: ids_def)
    qed
    show "whenever ((\<lambda>(_, p) s. if p = myself s then Some s else clusterDelNode p s) e t)
        (\<lambda>t. sound t \<and> myself t = myself s \<and> known (myself s) t)"
    proof (cases "p = myself t")
      case True
      then show ?thesis using t by (simp add: p whenever_def)
    next
      case False
      then have run: "(case e of (x, p) \<Rightarrow> \<lambda>s. if p = myself s then Some s else clusterDelNode p s) t = clusterDelNode p t"
        by (simp add: p)
      show ?thesis unfolding run whenever_def using step[OF _ False] by blast
    qed
  qed
  from wheneverD[OF this s4] have i4: "sound s4" "myself s4 = myself s" "known (myself s) s4" by simp_all
  have "sound s5 \<and> myself s5 = myself s \<and> known (myself s) s5"
  proof (cases hard)
    case True
    then show ?thesis using clusterReset_hard_sound[of s4 s5] s5 i4 by simp
  next
    case False
    then show ?thesis using s5 i4 by simp
  qed
  then show ?thesis by (simp add: s' clusterDoBeforeSleep_sound) (simp add: known_def)
qed

lemma cluster_reset_ok:
  assumes run: "cluster_reset args s = Some (r, s')" and inv: "sound s" and me: "known (myself s) s"
  shows "command_ok s r s' True"
proof (cases "s' = s")
  case True
  then show ?thesis using command_ok_same[OF inv me] by simp
next
  case False
  then obtain hard where "clusterReset hard s = Some s'" "r = ReplyOk"
    using run by (auto simp: cluster_reset_def opt_bind split: if_splits)
  then show ?thesis using clusterReset_sound[OF _ inv me] by (auto simp: command_ok_def)
qed

subsection \<open>The command\<close>

lemma clusterCommand_ok:
  assumes run: "clusterCommand env argv s = Some (r, s')" and inv: "sound s" and me: "known (myself s) s"
    and room: "c_currentEpoch s \<noteq> - 1" and n: "\<forall>a \<in> set argv. lookup_arg env a s = NULL \<or> known (lookup_arg env a s) s"
  shows "command_ok s r s' (is_sub argv ''reset'')"
proof (cases "s' = s")
  case True
  then show ?thesis using command_ok_same[OF inv me] by simp
next
  case False
  have n2: "\<forall>a \<in> set (drop 2 argv). lookup_arg env a s = NULL \<or> known (lookup_arg env a s) s"
    using n by (meson in_set_dropD)
  consider (meet) a b where "cluster_meet a b s = Some (r, s')" | (flush) "cluster_flushslots s = Some (r, s')"
    | (slots) del a where "cluster_addslots del a s = Some (r, s')"
    | (setslot) "length (drop 2 argv) \<ge> 2" "cluster_setslot env (drop 2 argv) s = Some (r, s')"
    | (info) "cluster_info s = Some (r, s')" | (save) "cluster_saveconfig env s = (r, s')"
    | (forget) a where "cluster_forget env a s = Some (r, s')" | (replicate) a where "cluster_replicate env a s = Some (r, s')"
    | (slaves) a where "cluster_slaves env a s = Some (r, s')" | (failover) force where "cluster_failover force s = Some (r, s')"
    | (epoch) a where "cluster_set_config_epoch a s = Some (r, s')"
    | (reset) a where "is_sub argv ''reset''" "cluster_reset a s = Some (r, s')"
    using run False unfolding clusterCommand_def Let_def by (auto simp: opt_bind split: if_splits)
  then show ?thesis
  proof cases
    case setslot
    then show ?thesis using cluster_setslot_ok[OF _ inv me room _ n2] by blast
  next
    case reset
    then show ?thesis using cluster_reset_ok[OF _ inv me] by simp
  next
    case meet then show ?thesis by (rule cluster_meet_ok[OF _ inv me])
  next
    case flush then show ?thesis by (rule cluster_flushslots_ok[OF _ inv me])
  next
    case slots then show ?thesis by (rule cluster_addslots_ok[OF _ inv me])
  next
    case info then show ?thesis by (rule cluster_info_ok[OF _ inv me])
  next
    case save then show ?thesis by (rule cluster_saveconfig_ok[OF _ inv me])
  next
    case forget then show ?thesis by (rule cluster_forget_ok[OF _ inv me])
  next
    case replicate then show ?thesis by (rule cluster_replicate_ok[OF _ inv me])
  next
    case slaves then show ?thesis by (rule cluster_slaves_ok[OF _ inv me])
  next
    case failover then show ?thesis by (rule cluster_failover_ok[OF _ inv me])
  next
    case epoch then show ?thesis by (rule cluster_set_config_epoch_ok[OF _ inv me])
  qed
qed


subsection \<open>What every subcommand keeps\<close>

text \<open>Property C8. Whatever a client sends with CLUSTER, if the command returns then the state is sound, the node is the one it was
  and is not in handshake, a command refused with an error (other than a failed write of nodes.conf) has changed nothing, and
  unless the command is a reset the epochs and the last vote do not go back. The condition on the arguments rules out the one hole the
  code leaves: giving a slot by hand to a node whose handshake has not ended.\<close>

theorem clusterCommand_safe:
  assumes "clusterCommand env argv s = Some (r, s')" and "sound s" and "known (myself s) s" and "c_currentEpoch s \<noteq> - 1"
    and "\<forall>a \<in> set argv. lookup_arg env a s = NULL \<or> known (lookup_arg env a s) s"
  shows "sound s' \<and> myself s' = myself s \<and> known (myself s') s' \<and>
    (\<forall>e. r = ReplyError e \<and> (\<forall>x. e \<noteq> SaveFailed x) \<longrightarrow> s' = s) \<and>
    (is_sub argv ''reset'' \<or> c_lastVoteEpoch s' = c_lastVoteEpoch s \<and> c_currentEpoch s \<le> c_currentEpoch s')"
  using clusterCommand_ok[OF assms] by (simp add: command_ok_def)

lemma one_node_lookup: "lookup_arg env a one_node_server = NULL \<or> lookup_arg env a one_node_server = 1"
  by (auto simp: lookup_arg_def clusterLookupNode_def one_node_server_def dictFind_def Let_def split: option.splits if_splits)

theorem clusterCommand_safe_witness:
  "\<exists>r s'. clusterCommand any_env [str ''cluster'', str ''addslots'', print_nat 7] one_node_server = Some (r, s') \<and>
     c_slots s' 7 = 1 \<and> sound s' \<and> myself s' = 1"
proof -
  have p: "getSlotOrReply (print_nat 7) = Some 7" by (rule getSlotOrReply_print) (simp add: REDIS_CLUSTER_SLOTS_def)
  then have n: "slots_named [print_nat 7] = [7]" by (simp add: slots_named_def)
  have f: "c_slots one_node_server = (\<lambda>_. 0)" "myself one_node_server = 1" "cluster_enabled any_env" "c_currentEpoch one_node_server = 0"
    by (simp_all add: one_node_server_def zero_server_def any_env_def)
  have "slots_request_ok False [print_nat 7] one_node_server" by (simp add: slots_request_ok_def n p f)
  then obtain s' where s': "cluster_addslots False [print_nat 7] one_node_server = Some (ReplyOk, s')" "c_slots s' 7 = 1"
    using cluster_addslots_correct[OF one_node_sound, of False "[print_nat 7]"] by (auto simp: returns_def n f)
  have run: "clusterCommand any_env [str ''cluster'', str ''addslots'', print_nat 7] one_node_server = Some (ReplyOk, s')"
    using clusterCommand_slots(1)[OF f(3), of "[print_nat 7]" "str ''cluster''"] s'(1) by simp
  have "lookup_arg any_env a one_node_server = NULL \<or> known (lookup_arg any_env a one_node_server) one_node_server" for a
    using one_node_lookup[of any_env a] one_node_sound(2) f(2) by metis
  then show ?thesis using clusterCommand_safe[OF run one_node_sound] run s'(2) f by simp
qed

end
