(* ===== verification/Dict.thy ===== *)
theory Dict
  imports ClusterNodes "HOL-Library.Multiset"
begin

text \<open>
  The hash table of dict.c and dict.h, with its incremental rehashing. A dictionary holds two tables; while it rehashes, the
  buckets of the first are moved one by one to the second by the operations themselves.

  The operations take the hash function \<open>hash\<close> of the \<open>dictType\<close>; keys are compared by equality, keys and values are stored
  as they are (no \<open>keyDup\<close>, \<open>valDup\<close> or destructors, which manage memory). A chain of \<open>dictEntry\<close> is the list of its keys and values,
  a table the list of its buckets, and \<open>NULL\<close> the empty list. An access beyond a table and a failed assertion are \<open>None\<close>.
  \<open>can_resize\<close> is the global \<open>dict_can_resize\<close>.

  The abstract specification is a map: \<open>dict_ok\<close> is the invariant of the representation, \<open>dict_map\<close> the map it stands for.
\<close>

subsection \<open>Data\<close>

type_synonym ('k, 'v) entry = "'k \<times> 'v"

record ('k, 'v) dictht =
  ht_table :: "('k, 'v) entry list list"
  ht_size :: nat
  ht_sizemask :: u64
  ht_used :: nat

record ('k, 'v) dict =
  ht0 :: "('k, 'v) dictht"
  ht1 :: "('k, 'v) dictht"
  rehashidx :: int
  iterators :: nat
  can_resize :: bool

definition DICT_OK :: nat where "DICT_OK = 0"
definition DICT_ERR :: nat where "DICT_ERR = 1"
definition DICT_HT_INITIAL_SIZE :: nat where "DICT_HT_INITIAL_SIZE = 4"
definition dict_force_resize_ratio :: nat where "dict_force_resize_ratio = 5"

definition dictReset :: "('k, 'v) dictht" where
  "dictReset = \<lparr>ht_table = [], ht_size = 0, ht_sizemask = 0, ht_used = 0\<rparr>"

definition dictCreate :: "bool \<Rightarrow> ('k, 'v) dict" where
  "dictCreate resize = \<lparr>ht0 = dictReset, ht1 = dictReset, rehashidx = -1, iterators = 0, can_resize = resize\<rparr>"

definition dictIsRehashing :: "('k, 'v) dict \<Rightarrow> bool" where
  "dictIsRehashing d \<longleftrightarrow> rehashidx d \<noteq> -1"

definition dictSize :: "('k, 'v) dict \<Rightarrow> nat" where
  "dictSize d = ht_used (ht0 d) + ht_used (ht1 d)"

text \<open>The bucket of a hash, \<open>h & sizemask\<close>.\<close>

definition bucket :: "u32 \<Rightarrow> ('k, 'v) dictht \<Rightarrow> nat" where
  "bucket h t = unat (ucast h AND ht_sizemask t)"

text \<open>Reading a bucket, and linking an entry at its head.\<close>

definition ht_get :: "('k, 'v) dictht \<Rightarrow> nat \<Rightarrow> ('k, 'v) entry list option" where
  "ht_get t i = (if i < length (ht_table t) then Some (ht_table t ! i) else None)"

definition ht_link :: "nat \<Rightarrow> ('k, 'v) entry \<Rightarrow> ('k, 'v) dictht \<Rightarrow> ('k, 'v) dictht option" where
  "ht_link i e t = do {
     es \<leftarrow> ht_get t i;
     Some (t\<lparr>ht_table := (ht_table t)[i := e # es], ht_used := ht_used t + 1\<rparr>)
   }"

subsection \<open>Sizes\<close>

text \<open>The loop of \<open>_dictNextPower\<close>. It starts at 4, so that \<open>i\<close> is never 0, for which it would not end.\<close>

function next_power :: "nat \<Rightarrow> nat \<Rightarrow> nat" where
  "next_power i sz = (if i \<ge> sz \<or> i = 0 then i else next_power (i * 2) sz)"
  by pat_completeness auto
termination by (relation "measure (\<lambda>(i, sz). sz - i)") auto

declare next_power.simps [simp del]

definition dictNextPower :: "nat \<Rightarrow> nat" where
  "dictNextPower sz = (if sz \<ge> 2 ^ 63 - 1 then 2 ^ 63 - 1 else next_power DICT_HT_INITIAL_SIZE sz)"

definition dictExpand :: "nat \<Rightarrow> ('k, 'v) dict \<Rightarrow> nat \<times> ('k, 'v) dict" where
  "dictExpand sz d =
     (let realsize = dictNextPower sz
      in if dictIsRehashing d \<or> ht_used (ht0 d) > sz then (DICT_ERR, d)
         else let n = \<lparr>ht_table = replicate realsize [], ht_size = realsize, ht_sizemask = word_of_nat realsize - 1, ht_used = 0\<rparr>
              in if ht_table (ht0 d) = [] then (DICT_OK, d\<lparr>ht0 := n\<rparr>)
                 else (DICT_OK, d\<lparr>ht1 := n, rehashidx := 0\<rparr>))"

definition dictResize :: "('k, 'v) dict \<Rightarrow> nat \<times> ('k, 'v) dict" where
  "dictResize d =
     (if \<not> can_resize d \<or> dictIsRehashing d then (DICT_ERR, d)
      else dictExpand (max (ht_used (ht0 d)) DICT_HT_INITIAL_SIZE) d)"

definition dictExpandIfNeeded :: "('k, 'v) dict \<Rightarrow> nat \<times> ('k, 'v) dict" where
  "dictExpandIfNeeded d =
     (if dictIsRehashing d then (DICT_OK, d)
      else if ht_size (ht0 d) = 0 then dictExpand DICT_HT_INITIAL_SIZE d
      else if ht_used (ht0 d) \<ge> ht_size (ht0 d) \<and>
        (can_resize d \<or> ht_used (ht0 d) div ht_size (ht0 d) > dict_force_resize_ratio)
        then dictExpand (ht_used (ht0 d) * 2) d
      else (DICT_OK, d))"

subsection \<open>Rehashing\<close>

text \<open>The first bucket that holds something, from \<open>i\<close> on.\<close>

function next_bucket :: "('k, 'v) entry list list \<Rightarrow> nat \<Rightarrow> nat option" where
  "next_bucket tbl i =
     (if i < length tbl then (if tbl ! i = [] then next_bucket tbl (i + 1) else Some i) else None)"
  by pat_completeness auto
termination by (relation "measure (\<lambda>(tbl, i). length tbl - i)") auto

declare next_bucket.simps [simp del]

text \<open>Lines 403 to 423: the entries of a bucket, each moved to the head of its new bucket.\<close>

primrec rehash_chain :: "('k \<Rightarrow> u32) \<Rightarrow> ('k, 'v) entry list \<Rightarrow> ('k, 'v) dict \<Rightarrow> ('k, 'v) dict option" where
  "rehash_chain hash [] d = Some d"
| "rehash_chain hash (e # es) d = do {
     t1 \<leftarrow> ht_link (bucket (hash (fst e)) (ht1 d)) e (ht1 d);
     rehash_chain hash es (d\<lparr>ht0 := (ht0 d)\<lparr>ht_used := ht_used (ht0 d) - 1\<rparr>, ht1 := t1\<rparr>)
   }"

text \<open>One round of the loop of \<open>dictRehash\<close>: \<open>False\<close> when the first table was empty, and the second has taken its place.\<close>

definition rehash_round :: "('k \<Rightarrow> u32) \<Rightarrow> ('k, 'v) dict \<Rightarrow> (bool \<times> ('k, 'v) dict) option" where
  "rehash_round hash d =
     (if ht_used (ht0 d) = 0 then Some (False, d\<lparr>ht0 := ht1 d, ht1 := dictReset, rehashidx := -1\<rparr>)
      else do {
        redisAssert (int (ht_size (ht0 d)) > rehashidx d);
        i \<leftarrow> next_bucket (ht_table (ht0 d)) (nat (rehashidx d));
        de \<leftarrow> ht_get (ht0 d) i;
        d1 \<leftarrow> rehash_chain hash de d;
        Some (True, d1\<lparr>ht0 := (ht0 d1)\<lparr>ht_table := (ht_table (ht0 d1))[i := []]\<rparr>, rehashidx := int i + 1\<rparr>)
      })"

primrec dictRehash_loop :: "('k \<Rightarrow> u32) \<Rightarrow> nat \<Rightarrow> ('k, 'v) dict \<Rightarrow> (nat \<times> ('k, 'v) dict) option" where
  "dictRehash_loop hash 0 d = Some (1, d)"
| "dictRehash_loop hash (Suc n) d = do {
     (more, d1) \<leftarrow> rehash_round hash d;
     if more then dictRehash_loop hash n d1 else Some (0, d1)
   }"

definition dictRehash :: "('k \<Rightarrow> u32) \<Rightarrow> nat \<Rightarrow> ('k, 'v) dict \<Rightarrow> (nat \<times> ('k, 'v) dict) option" where
  "dictRehash hash n d = (if \<not> dictIsRehashing d then Some (0, d) else dictRehash_loop hash n d)"

definition dictRehashStep :: "('k \<Rightarrow> u32) \<Rightarrow> ('k, 'v) dict \<Rightarrow> ('k, 'v) dict option" where
  "dictRehashStep hash d = (if iterators d = 0 then map_option snd (dictRehash hash 1 d) else Some d)"

text \<open>What every operation does first.\<close>

definition rehash_a_step :: "('k \<Rightarrow> u32) \<Rightarrow> ('k, 'v) dict \<Rightarrow> ('k, 'v) dict option" where
  "rehash_a_step hash d = (if dictIsRehashing d then dictRehashStep hash d else Some d)"

subsection \<open>Operations\<close>

definition dictFind_entry :: "('k \<Rightarrow> u32) \<Rightarrow> 'k \<Rightarrow> ('k, 'v) dict \<Rightarrow> ('k, 'v) entry option option" where
  "dictFind_entry hash key d = do {
     es0 \<leftarrow> ht_get (ht0 d) (bucket (hash key) (ht0 d));
     case List.find (\<lambda>e. fst e = key) es0 of
       Some e \<Rightarrow> Some (Some e)
     | None \<Rightarrow>
         if \<not> dictIsRehashing d then Some None
         else do {
           es1 \<leftarrow> ht_get (ht1 d) (bucket (hash key) (ht1 d));
           Some (List.find (\<lambda>e. fst e = key) es1)
         }
   }"

text \<open>\<open>dictFind\<close>; the name is taken by the dictionary as the cluster uses it.\<close>

definition htFind :: "('k \<Rightarrow> u32) \<Rightarrow> 'k \<Rightarrow> ('k, 'v) dict \<Rightarrow> (('k, 'v) entry option \<times> ('k, 'v) dict) option" where
  "htFind hash key d =
     (if ht_size (ht0 d) = 0 then Some (None, d)
      else do {
        d1 \<leftarrow> rehash_a_step hash d;
        e \<leftarrow> dictFind_entry hash key d1;
        Some (e, d1)
      })"

definition dictFetchValue :: "('k \<Rightarrow> u32) \<Rightarrow> 'k \<Rightarrow> ('k, 'v) dict \<Rightarrow> ('v option \<times> ('k, 'v) dict) option" where
  "dictFetchValue hash key d = do { (he, d1) \<leftarrow> htFind hash key d; Some (map_option snd he, d1) }"

text \<open>\<open>_dictKeyIndex\<close> returns the bucket as a signed 32 bit number, -1 when the key is there already.\<close>

definition dictKeyIndex :: "('k \<Rightarrow> u32) \<Rightarrow> 'k \<Rightarrow> ('k, 'v) dict \<Rightarrow> (int \<times> ('k, 'v) dict) option" where
  "dictKeyIndex hash key d0 =
     (let (r, d) = dictExpandIfNeeded d0
      in if r = DICT_ERR then Some (-1, d)
         else do {
           e \<leftarrow> dictFind_entry hash key d;
           Some (case e of
                   Some _ \<Rightarrow> -1
                 | None \<Rightarrow> sint (word_of_nat (bucket (hash key) (if dictIsRehashing d then ht1 d else ht0 d)) :: 32 word), d)
         })"

text \<open>\<open>dictAddRaw\<close>, with the value its caller stores in the new entry.\<close>

definition dictAddRaw :: "('k \<Rightarrow> u32) \<Rightarrow> 'k \<Rightarrow> 'v \<Rightarrow> ('k, 'v) dict \<Rightarrow> (('k, 'v) entry option \<times> ('k, 'v) dict) option" where
  "dictAddRaw hash key val d0 = do {
     d1 \<leftarrow> rehash_a_step hash d0;
     (index, d) \<leftarrow> dictKeyIndex hash key d1;
     if index = -1 then Some (None, d)
     else do {
       redisAssert (index \<ge> 0);
       (if dictIsRehashing d then do { t \<leftarrow> ht_link (nat index) (key, val) (ht1 d); Some (Some (key, val), d\<lparr>ht1 := t\<rparr>) }
        else do { t \<leftarrow> ht_link (nat index) (key, val) (ht0 d); Some (Some (key, val), d\<lparr>ht0 := t\<rparr>) })
     }
   }"

definition htAdd :: "('k \<Rightarrow> u32) \<Rightarrow> 'k \<Rightarrow> 'v \<Rightarrow> ('k, 'v) dict \<Rightarrow> (nat \<times> ('k, 'v) dict) option" where
  "htAdd hash key val d = do {
     (entry, d1) \<leftarrow> dictAddRaw hash key val d;
     Some (case entry of None \<Rightarrow> DICT_ERR | Some _ \<Rightarrow> DICT_OK, d1)
   }"

text \<open>Storing a value in the entry of a key that was found.\<close>

definition chain_set :: "'k \<Rightarrow> 'v \<Rightarrow> ('k, 'v) entry list \<Rightarrow> ('k, 'v) entry list" where
  "chain_set key val es = map (\<lambda>e. if fst e = key then (key, val) else e) es"

definition dictSetVal :: "'k \<Rightarrow> 'v \<Rightarrow> ('k, 'v) dict \<Rightarrow> ('k, 'v) dict" where
  "dictSetVal key val d = d\<lparr>ht0 := (ht0 d)\<lparr>ht_table := map (chain_set key val) (ht_table (ht0 d))\<rparr>,
     ht1 := (ht1 d)\<lparr>ht_table := map (chain_set key val) (ht_table (ht1 d))\<rparr>\<rparr>"

definition dictReplace :: "('k \<Rightarrow> u32) \<Rightarrow> 'k \<Rightarrow> 'v \<Rightarrow> ('k, 'v) dict \<Rightarrow> (nat \<times> ('k, 'v) dict) option" where
  "dictReplace hash key val d = do {
     (r, d1) \<leftarrow> htAdd hash key val d;
     if r = DICT_OK then Some (1, d1)
     else do {
       (entry, d2) \<leftarrow> htFind hash key d1;
       e \<leftarrow> entry;
       Some (0, dictSetVal (fst e) val d2)
     }
   }"

text \<open>Unlinking the entry of a key from a chain.\<close>

fun chain_del :: "'k \<Rightarrow> ('k, 'v) entry list \<Rightarrow> ('k, 'v) entry list option" where
  "chain_del key [] = None"
| "chain_del key (e # es) = (if key = fst e then Some es else map_option ((#) e) (chain_del key es))"

definition ht_unlink :: "('k \<Rightarrow> u32) \<Rightarrow> 'k \<Rightarrow> ('k, 'v) dictht \<Rightarrow> ('k, 'v) dictht option option" where
  "ht_unlink hash key t = do {
     es \<leftarrow> ht_get t (bucket (hash key) t);
     Some (map_option (\<lambda>es'. t\<lparr>ht_table := (ht_table t)[bucket (hash key) t := es'], ht_used := ht_used t - 1\<rparr>) (chain_del key es))
   }"

text \<open>\<open>dictGenericDelete\<close>, whose flag \<open>nofree\<close> only decides what is freed.\<close>

definition dictGenericDelete :: "('k \<Rightarrow> u32) \<Rightarrow> 'k \<Rightarrow> ('k, 'v) dict \<Rightarrow> (nat \<times> ('k, 'v) dict) option" where
  "dictGenericDelete hash key d =
     (if ht_size (ht0 d) = 0 then Some (DICT_ERR, d)
      else do {
        d1 \<leftarrow> rehash_a_step hash d;
        t0 \<leftarrow> ht_unlink hash key (ht0 d1);
        case t0 of
          Some t \<Rightarrow> Some (DICT_OK, d1\<lparr>ht0 := t\<rparr>)
        | None \<Rightarrow>
            if \<not> dictIsRehashing d1 then Some (DICT_ERR, d1)
            else do {
              t1 \<leftarrow> ht_unlink hash key (ht1 d1);
              case t1 of
                Some t \<Rightarrow> Some (DICT_OK, d1\<lparr>ht1 := t\<rparr>)
              | None \<Rightarrow> Some (DICT_ERR, d1)
            }
      })"

definition dictEmpty :: "('k, 'v) dict \<Rightarrow> ('k, 'v) dict" where
  "dictEmpty d = d\<lparr>ht0 := dictReset, ht1 := dictReset, rehashidx := -1, iterators := 0\<rparr>"

subsection \<open>The invariant and the map\<close>

definition ht_entries :: "('k, 'v) dictht \<Rightarrow> ('k, 'v) entry list" where
  "ht_entries t = concat (ht_table t)"

definition ht_ok :: "('k \<Rightarrow> u32) \<Rightarrow> ('k, 'v) dictht \<Rightarrow> bool" where
  "ht_ok hash t \<longleftrightarrow> (\<exists>k. 2 \<le> k \<and> k \<le> 30 \<and> ht_size t = 2 ^ k \<and> length (ht_table t) = 2 ^ k \<and> ht_sizemask t = mask k) \<and>
     ht_used t = length (ht_entries t) \<and> (\<forall>i<length (ht_table t). \<forall>e\<in>set (ht_table t ! i). bucket (hash (fst e)) t = i)"

definition dict_entries :: "('k, 'v) dict \<Rightarrow> ('k, 'v) entry list" where
  "dict_entries d = ht_entries (ht0 d) @ ht_entries (ht1 d)"

definition dict_map :: "('k, 'v) dict \<Rightarrow> 'k \<rightharpoonup> 'v" where
  "dict_map d = map_of (dict_entries d)"

text \<open>Either nothing has been added yet, or the first table exists; while rehashing the second does too, and the buckets before
  \<open>rehashidx\<close> have been moved.\<close>

definition tables_ok :: "('k \<Rightarrow> u32) \<Rightarrow> ('k, 'v) dict \<Rightarrow> bool" where
  "tables_ok hash d \<longleftrightarrow>
     (if ht_table (ht0 d) = [] then ht0 d = dictReset \<and> ht1 d = dictReset \<and> rehashidx d = -1
      else ht_ok hash (ht0 d) \<and>
        (if rehashidx d = -1 then ht1 d = dictReset
         else ht_ok hash (ht1 d) \<and> 0 \<le> rehashidx d \<and> (\<forall>i<length (ht_table (ht0 d)). int i < rehashidx d \<longrightarrow> ht_table (ht0 d) ! i = [])))"

definition dict_ok :: "('k \<Rightarrow> u32) \<Rightarrow> ('k, 'v) dict \<Rightarrow> bool" where
  "dict_ok hash d \<longleftrightarrow> tables_ok hash d \<and> distinct (map fst (dict_entries d))"

text \<open>Two dictionaries with the same entries.\<close>

definition same_entries :: "('k, 'v) dict \<Rightarrow> ('k, 'v) dict \<Rightarrow> bool" where
  "same_entries d d' \<longleftrightarrow> mset (dict_entries d') = mset (dict_entries d)"

lemma same_entries_refl [simp]: "same_entries d d"
  by (simp add: same_entries_def)

lemma same_entries_trans: "same_entries d d1 \<Longrightarrow> same_entries d1 d2 \<Longrightarrow> same_entries d d2"
  by (simp add: same_entries_def)

lemma mset_map_of:
  assumes "mset ys = mset xs" and "distinct (map fst xs)"
  shows "distinct (map fst ys) \<and> map_of ys = map_of xs"
proof -
  have "mset (map fst ys) = mset (map fst xs)" using assms(1) by simp
  then have d: "distinct (map fst ys)" using assms(2) mset_eq_imp_distinct_iff by blast
  have "set ys = set xs" using assms(1) mset_eq_setD by blast
  then have "map_of ys k = Some v \<longleftrightarrow> map_of xs k = Some v" for k v
    using map_of_eq_Some_iff[OF d] map_of_eq_Some_iff[OF assms(2)] by simp
  then have "map_of ys k = map_of xs k" for k by (metis option.exhaust)
  then show ?thesis using d by auto
qed

lemma same_entries_ok: "same_entries d d' \<Longrightarrow> dict_ok hash d \<Longrightarrow> tables_ok hash d' \<Longrightarrow> dict_ok hash d' \<and> dict_map d' = dict_map d"
  unfolding same_entries_def dict_ok_def dict_map_def using mset_map_of by blast

lemma same_entries_size: "same_entries d d' \<Longrightarrow> length (dict_entries d') = length (dict_entries d)"
  unfolding same_entries_def by (metis size_mset)

subsection \<open>Tables\<close>

lemma concat_update:
  "i < length tbl \<Longrightarrow> mset (concat (tbl[i := xs])) + mset (tbl ! i) = mset (concat tbl) + mset xs"
proof (induction tbl arbitrary: i)
  case (Cons t tbl)
  then show ?case by (cases i) (auto simp: ac_simps)
qed simp

lemma bucket_less: "ht_ok hash t \<Longrightarrow> bucket h t < length (ht_table t)"
  by (auto simp: ht_ok_def bucket_def unsigned_take_bit_eq simp flip: take_bit_eq_mask)

lemma bucket_cong: "ht_sizemask t' = ht_sizemask t \<Longrightarrow> bucket h t' = bucket h t"
  by (simp add: bucket_def)

lemma ht_okD: "ht_ok hash t \<Longrightarrow> ht_used t = length (ht_entries t)"
  "ht_ok hash t \<Longrightarrow> i < length (ht_table t) \<Longrightarrow> e \<in> set (ht_table t ! i) \<Longrightarrow> bucket (hash (fst e)) t = i"
  by (simp_all add: ht_ok_def)

lemma ht_ok_size: "ht_ok hash t \<Longrightarrow> ht_size t = length (ht_table t) \<and> 4 \<le> length (ht_table t) \<and> length (ht_table t) \<le> 2 ^ 30"
proof -
  assume "ht_ok hash t"
  then obtain k :: nat where k: "2 \<le> k" "k \<le> 30" "ht_size t = 2 ^ k" "length (ht_table t) = 2 ^ k" by (auto simp: ht_ok_def)
  then show ?thesis using power_increasing[OF k(1), of "2 :: nat"] power_increasing[OF k(2), of "2 :: nat"] by simp
qed

lemma dictReset_simps [simp]: "ht_table dictReset = []" "ht_size dictReset = 0" "ht_used dictReset = 0" "ht_entries dictReset = []"
  by (simp_all add: dictReset_def ht_entries_def)

text \<open>The bucket of a key holds what the table has for it.\<close>

lemma ht_member:
  assumes "ht_ok hash t"
  shows "e \<in> set (ht_table t ! bucket (hash (fst e)) t) \<longleftrightarrow> e \<in> set (ht_entries t)"
proof
  assume "e \<in> set (ht_table t ! bucket (hash (fst e)) t)"
  then show "e \<in> set (ht_entries t)" using bucket_less[OF assms] nth_mem by (fastforce simp: ht_entries_def)
next
  assume "e \<in> set (ht_entries t)"
  then obtain i where "i < length (ht_table t)" "e \<in> set (ht_table t ! i)"
    by (metis UN_E ht_entries_def in_set_conv_nth set_concat)
  then show "e \<in> set (ht_table t ! bucket (hash (fst e)) t)" using ht_okD(2)[OF assms] by simp
qed

lemma find_entry: "List.find (\<lambda>e. fst e = key) es = map_option (Pair key) (map_of es key)"
  by (induction es) auto

lemma ht_find:
  assumes "ht_ok hash t" and "distinct (map fst (ht_entries t))"
  shows "map_of (ht_table t ! bucket (hash key) t) key = map_of (ht_entries t) key"
proof -
  have b: "bucket (hash key) t < length (ht_table t)" by (rule bucket_less[OF assms(1)])
  then have "distinct (map fst (ht_table t ! bucket (hash key) t))"
    using assms(2) distinct_concat_iff[of "map (map fst) (ht_table t)"] by (auto simp: ht_entries_def map_concat)
  then have "map_of (ht_table t ! bucket (hash key) t) key = Some v \<longleftrightarrow> map_of (ht_entries t) key = Some v" for v
    using ht_member[OF assms(1), of "(key, v)"] assms(2) by simp
  then show ?thesis by (metis option.exhaust)
qed

lemma ht_update_ok:
  assumes "ht_ok hash t" and "i < length (ht_table t)" and "\<forall>e\<in>set es. bucket (hash (fst e)) t = i"
    and "used + length (ht_table t ! i) = ht_used t + length es"
  shows "ht_ok hash (t\<lparr>ht_table := (ht_table t)[i := es], ht_used := used\<rparr>)"
proof -
  have "length (concat ((ht_table t)[i := es])) + length (ht_table t ! i) = length (ht_entries t) + length es"
    using arg_cong[OF concat_update[OF assms(2), of es], of size] by (simp add: ht_entries_def)
  then have u: "used = length (concat ((ht_table t)[i := es]))" using assms(4) ht_okD(1)[OF assms(1)] by simp
  have b: "\<forall>j<length (ht_table t). \<forall>e\<in>set ((ht_table t)[i := es] ! j). bucket (hash (fst e)) t = j"
    using assms(2,3) ht_okD(2)[OF assms(1)] by (simp add: nth_list_update)
  show ?thesis using assms(1) u b bucket_cong[of "t\<lparr>ht_table := (ht_table t)[i := es], ht_used := used\<rparr>" t]
    by (simp add: ht_ok_def ht_entries_def)
qed

lemma ht_link_spec:
  assumes "ht_ok hash t" and "i = bucket (hash (fst e)) t"
  shows "returns (ht_link i e t) (\<lambda>t'. ht_ok hash t' \<and> mset (ht_entries t') = add_mset e (mset (ht_entries t)) \<and>
    ht_sizemask t' = ht_sizemask t \<and> length (ht_table t') = length (ht_table t))"
proof -
  have i: "i < length (ht_table t)" using bucket_less[OF assms(1)] assms(2) by simp
  have "ht_ok hash (t\<lparr>ht_table := (ht_table t)[i := e # ht_table t ! i], ht_used := ht_used t + 1\<rparr>)"
    by (rule ht_update_ok[OF assms(1) i]) (use assms(2) ht_okD(2)[OF assms(1) i] in auto)
  moreover have "mset (concat ((ht_table t)[i := e # ht_table t ! i])) = add_mset e (mset (concat (ht_table t)))"
    using concat_update[OF i, of "e # ht_table t ! i"] by simp
  ultimately show ?thesis using i by (simp add: ht_link_def ht_get_def returns_def ht_entries_def)
qed


subsection \<open>Growing\<close>

lemma next_power_spec: "\<exists>k. next_power (2 ^ j) sz = 2 ^ k \<and> j \<le> k \<and> sz \<le> 2 ^ k \<and> (k = j \<or> 2 ^ k < 2 * sz)"
proof (induction "sz - 2 ^ j" arbitrary: j rule: less_induct)
  case less
  show ?case
  proof (cases "sz \<le> 2 ^ j")
    case True
    then show ?thesis by (auto simp: next_power.simps[of "2 ^ j"])
  next
    case False
    moreover have "(2 :: nat) ^ j < 2 ^ Suc j" by simp
    ultimately have "sz - 2 ^ Suc j < sz - 2 ^ j" by linarith
    from less[OF this] obtain k where k: "next_power (2 ^ Suc j) sz = 2 ^ k" "Suc j \<le> k" "sz \<le> 2 ^ k" "k = Suc j \<or> 2 ^ k < 2 * sz"
      by blast
    have "next_power (2 ^ j) sz = next_power (2 ^ Suc j) sz" using False by (simp add: next_power.simps[of "2 ^ j"] mult.commute)
    moreover have "2 ^ k < 2 * sz" using k(4) False by auto
    ultimately show ?thesis using k by (intro exI[of _ k]) simp
  qed
qed

lemma dictNextPower_spec:
  assumes "sz \<le> 2 ^ 30"
  shows "\<exists>k. dictNextPower sz = 2 ^ k \<and> 2 \<le> k \<and> k \<le> 30 \<and> sz \<le> 2 ^ k"
proof -
  obtain k where k: "next_power (2 ^ 2) sz = 2 ^ k" "2 \<le> k" "sz \<le> 2 ^ k" "k = 2 \<or> 2 ^ k < 2 * sz"
    using next_power_spec[of 2 sz] by blast
  have "k \<le> 30"
  proof (rule ccontr)
    assume "\<not> k \<le> 30"
    then have "k \<noteq> 2" and "31 \<le> k" by auto
    moreover from this have "(2 :: nat) ^ 31 \<le> 2 ^ k" by (intro power_increasing) auto
    ultimately show False using k(4) assms by simp
  qed
  moreover have "dictNextPower sz = next_power (2 ^ 2) sz" using assms by (simp add: dictNextPower_def DICT_HT_INITIAL_SIZE_def)
  ultimately show ?thesis using k by auto
qed

definition new_table :: "nat \<Rightarrow> ('k, 'v) dictht" where
  "new_table n = \<lparr>ht_table = replicate n [], ht_size = n, ht_sizemask = word_of_nat n - 1, ht_used = 0\<rparr>"

lemma new_table_ok: "2 \<le> k \<Longrightarrow> k \<le> 30 \<Longrightarrow> ht_ok hash (new_table (2 ^ k))"
  by (auto simp: ht_ok_def new_table_def ht_entries_def mask_eq_exp_minus_1)

lemma new_table_entries [simp]: "ht_entries (new_table n) = []" "ht_table (new_table n) = replicate n []" "ht_used (new_table n) = 0"
  by (simp_all add: new_table_def ht_entries_def)

lemma dictExpand_spec:
  assumes "tables_ok hash d" and "\<not> dictIsRehashing d" and "ht_used (ht0 d) \<le> sz" and "sz \<le> 2 ^ 30"
  shows "\<exists>d'. dictExpand sz d = (DICT_OK, d') \<and> tables_ok hash d' \<and> same_entries d d' \<and> ht_table (ht0 d') \<noteq> [] \<and>
    can_resize d' = can_resize d \<and> iterators d' = iterators d"
proof -
  obtain k where k: "dictNextPower sz = 2 ^ k" "2 \<le> k" "k \<le> 30" using dictNextPower_spec[OF assms(4)] by blast
  have n: "ht_ok hash (new_table (2 ^ k))" by (rule new_table_ok[OF k(2,3)])
  show ?thesis
  proof (cases "ht_table (ht0 d) = []")
    case True
    then have "ht0 d = dictReset" "ht1 d = dictReset" "rehashidx d = -1" using assms(1) by (auto simp: tables_ok_def)
    then show ?thesis using True n assms(2-)
      by (auto simp: dictExpand_def Let_def k new_table_def[symmetric] tables_ok_def same_entries_def dict_entries_def)
  next
    case False
    then have h: "ht_ok hash (ht0 d)" "ht1 d = dictReset" using assms(1,2) by (auto simp: tables_ok_def dictIsRehashing_def)
    then show ?thesis using False n assms(2-)
      by (auto simp: dictExpand_def Let_def k new_table_def[symmetric] tables_ok_def same_entries_def dict_entries_def)
  qed
qed

lemma dictResize_spec:
  assumes "tables_ok hash d" and "ht_used (ht0 d) \<le> 2 ^ 30"
  shows "tables_ok hash (snd (dictResize d)) \<and> same_entries d (snd (dictResize d)) \<and>
    can_resize (snd (dictResize d)) = can_resize d \<and> iterators (snd (dictResize d)) = iterators d"
proof (cases "can_resize d \<and> \<not> dictIsRehashing d")
  case True
  then show ?thesis using dictExpand_spec[OF assms(1), of "max (ht_used (ht0 d)) DICT_HT_INITIAL_SIZE"] assms(2)
    by (auto simp: dictResize_def DICT_HT_INITIAL_SIZE_def)
next
  case False
  then show ?thesis using assms by (auto simp: dictResize_def)
qed

lemma dictExpandIfNeeded_spec:
  assumes ok: "tables_ok hash d" and u: "ht_used (ht0 d) \<le> 2 ^ 29"
  shows "\<exists>d'. dictExpandIfNeeded d = (DICT_OK, d') \<and> tables_ok hash d' \<and> same_entries d d' \<and> ht_table (ht0 d') \<noteq> [] \<and>
    can_resize d' = can_resize d \<and> iterators d' = iterators d"
proof -
  have z: "ht_table (ht0 d) = [] \<longleftrightarrow> ht_size (ht0 d) = 0"
    using ok ht_ok_size[of hash "ht0 d"] by (auto simp: tables_ok_def split: if_splits)
  show ?thesis
  proof (cases "dictIsRehashing d")
    case True
    then have "ht_table (ht0 d) \<noteq> []" using ok by (auto simp: tables_ok_def dictIsRehashing_def)
    then show ?thesis using True ok by (simp add: dictExpandIfNeeded_def)
  next
    case False
    show ?thesis
    proof (cases "ht_size (ht0 d) = 0")
      case True
      then have "ht_used (ht0 d) = 0" using ok z by (simp add: tables_ok_def)
      then show ?thesis using dictExpand_spec[OF ok False, of DICT_HT_INITIAL_SIZE] False True
        by (simp add: dictExpandIfNeeded_def DICT_HT_INITIAL_SIZE_def)
    next
      case size: False
      show ?thesis using dictExpand_spec[OF ok False, of "ht_used (ht0 d) * 2"] False size u ok z
        by (auto simp: dictExpandIfNeeded_def)
    qed
  qed
qed

subsection \<open>Moving the entries\<close>

lemma next_bucket_spec:
  "j < length tbl \<Longrightarrow> i \<le> j \<Longrightarrow> tbl ! j \<noteq> [] \<Longrightarrow>
    \<exists>b. next_bucket tbl i = Some b \<and> i \<le> b \<and> b < length tbl \<and> tbl ! b \<noteq> [] \<and> (\<forall>k. i \<le> k \<and> k < b \<longrightarrow> tbl ! k = [])"
proof (induction tbl i rule: next_bucket.induct)
  case (1 tbl i)
  have i: "i < length tbl" using 1 by simp
  show ?case
  proof (cases "tbl ! i = []")
    case True
    then have "i + 1 \<le> j" using 1 by (cases "i = j") auto
    from 1(1)[OF i True 1(2) this 1(4)] obtain b where b: "next_bucket tbl (i + 1) = Some b" "i + 1 \<le> b" "b < length tbl"
      "tbl ! b \<noteq> []" "\<forall>k. i + 1 \<le> k \<and> k < b \<longrightarrow> tbl ! k = []" by blast
    have "\<forall>k. i \<le> k \<and> k < b \<longrightarrow> tbl ! k = []"
    proof (intro allI impI)
      fix k assume "i \<le> k \<and> k < b"
      then show "tbl ! k = []" using b(5) True by (cases "k = i") auto
    qed
    then show ?thesis using b i True by (intro exI[of _ b]) (simp add: next_bucket.simps[of tbl i])
  next
    case False
    then show ?thesis using i by (intro exI[of _ i]) (auto simp: next_bucket.simps[of tbl i])
  qed
qed

lemma rehash_chain_spec:
  assumes "ht_ok hash (ht1 d)"
  shows "returns (rehash_chain hash es d) (\<lambda>d'. \<exists>t1. d' = d\<lparr>ht0 := (ht0 d)\<lparr>ht_used := ht_used (ht0 d) - length es\<rparr>, ht1 := t1\<rparr> \<and>
    ht_ok hash t1 \<and> mset (ht_entries t1) = mset es + mset (ht_entries (ht1 d)) \<and> length (ht_table t1) = length (ht_table (ht1 d)))"
  using assms
proof (induction es arbitrary: d)
  case Nil
  then show ?case by (auto simp: wp intro!: exI[of _ "ht1 d"])
next
  case (Cons e es)
  obtain t where t: "ht_link (bucket (hash (fst e)) (ht1 d)) e (ht1 d) = Some t" "ht_ok hash t"
    "mset (ht_entries t) = add_mset e (mset (ht_entries (ht1 d)))" "length (ht_table t) = length (ht_table (ht1 d))"
    using ht_link_spec[OF Cons.prems refl, of e] by (auto simp: returns_def)
  let ?d = "d\<lparr>ht0 := (ht0 d)\<lparr>ht_used := ht_used (ht0 d) - 1\<rparr>, ht1 := t\<rparr>"
  have ih: "returns (rehash_chain hash es ?d) (\<lambda>d'. \<exists>t1. d' = ?d\<lparr>ht0 := (ht0 ?d)\<lparr>ht_used := ht_used (ht0 ?d) - length es\<rparr>, ht1 := t1\<rparr> \<and>
    ht_ok hash t1 \<and> mset (ht_entries t1) = mset es + mset (ht_entries (ht1 ?d)) \<and> length (ht_table t1) = length (ht_table (ht1 ?d)))"
    by (rule Cons.IH) (simp add: t)
  have "rehash_chain hash (e # es) d = rehash_chain hash es ?d" by (simp add: t)
  then show ?case using returns_mono[OF ih] t by (auto simp: returns_def)
qed


text \<open>A round either ends the rehashing or empties one more bucket.\<close>

lemma rehash_round_spec:
  assumes ok: "tables_ok hash d" and re: "dictIsRehashing d"
  shows "returns (rehash_round hash d) (\<lambda>(more, d'). tables_ok hash d' \<and> same_entries d d' \<and> can_resize d' = can_resize d \<and>
    iterators d' = iterators d \<and> ht_table (ht0 d') \<noteq> [] \<and>
    (if more then dictIsRehashing d' \<and> ht_used (ht0 d') < ht_used (ht0 d) else \<not> dictIsRehashing d'))"
proof -
  have h: "ht_ok hash (ht0 d)" "ht_ok hash (ht1 d)" "0 \<le> rehashidx d" "ht_table (ht0 d) \<noteq> []"
    and moved: "\<And>i. i < length (ht_table (ht0 d)) \<Longrightarrow> int i < rehashidx d \<Longrightarrow> ht_table (ht0 d) ! i = []"
    using ok re by (auto simp: tables_ok_def dictIsRehashing_def split: if_splits)
  have n1: "ht_table (ht1 d) \<noteq> []" using ht_ok_size[OF h(2)] by auto
  show ?thesis
  proof (cases "ht_used (ht0 d) = 0")
    case True
    then have "ht_entries (ht0 d) = []" using ht_okD(1)[OF h(1)] by simp
    then show ?thesis using True h(2) n1
      by (simp add: rehash_round_def wp tables_ok_def dictIsRehashing_def same_entries_def dict_entries_def)
  next
    case False
    then obtain es where "es \<in> set (ht_table (ht0 d))" "es \<noteq> []" using ht_okD(1)[OF h(1)] by (auto simp: ht_entries_def)
    then obtain j where j: "j < length (ht_table (ht0 d))" "ht_table (ht0 d) ! j \<noteq> []" by (auto simp: in_set_conv_nth)
    then have rj: "nat (rehashidx d) \<le> j" using moved[of j] by (cases "int j < rehashidx d") auto
    obtain b where b: "next_bucket (ht_table (ht0 d)) (nat (rehashidx d)) = Some b" "nat (rehashidx d) \<le> b"
      "b < length (ht_table (ht0 d))" "ht_table (ht0 d) ! b \<noteq> []"
      "\<forall>k. nat (rehashidx d) \<le> k \<and> k < b \<longrightarrow> ht_table (ht0 d) ! k = []"
      using next_bucket_spec[OF j(1) rj j(2)] by blast
    let ?es = "ht_table (ht0 d) ! b"
    obtain t1 where c: "rehash_chain hash ?es d = Some (d\<lparr>ht0 := (ht0 d)\<lparr>ht_used := ht_used (ht0 d) - length ?es\<rparr>, ht1 := t1\<rparr>)"
      "ht_ok hash t1" "mset (ht_entries t1) = mset ?es + mset (ht_entries (ht1 d))"
      using rehash_chain_spec[OF h(2), of ?es] by (auto simp: returns_def)
    let ?t0 = "(ht0 d)\<lparr>ht_table := (ht_table (ht0 d))[b := []], ht_used := ht_used (ht0 d) - length ?es\<rparr>"
    have u: "mset (concat ((ht_table (ht0 d))[b := []])) + mset ?es = mset (ht_entries (ht0 d))"
      using concat_update[OF b(3), of "[]"] by (simp add: ht_entries_def)
    have le: "length ?es \<le> ht_used (ht0 d)" using arg_cong[OF u, of size] ht_okD(1)[OF h(1)] by simp
    have t0: "ht_ok hash ?t0" by (rule ht_update_ok[OF h(1) b(3)]) (use le in simp_all)
    let ?d = "d\<lparr>ht0 := ?t0, ht1 := t1, rehashidx := int b + 1\<rparr>"
    have clear: "\<forall>i<length (ht_table (ht0 d)). int i < int b + 1 \<longrightarrow> (ht_table (ht0 d))[b := []] ! i = []"
    proof (intro allI impI)
      fix i assume i: "i < length (ht_table (ht0 d))" "int i < int b + 1"
      consider "i = b" | "i < b" "int i < rehashidx d" | "i < b" "nat (rehashidx d) \<le> i" using i by linarith
      then show "(ht_table (ht0 d))[b := []] ! i = []"
        using moved[OF i(1)] b(5) i(1) by cases (auto simp: nth_list_update)
    qed
    have run: "rehash_round hash d = Some (True, ?d)"
      using False ht_ok_size[OF h(1)] b rj j c(1) by (simp add: rehash_round_def redisAssert_def ht_get_def)
    have "tables_ok hash ?d" using t0 c(2) clear h(4) by (simp add: tables_ok_def)
    moreover have "same_entries d ?d"
      unfolding same_entries_def dict_entries_def using u c(3) by (simp add: ht_entries_def[of ?t0] ac_simps)
    moreover have "ht_used ?t0 < ht_used (ht0 d)" using b(4) le by (cases ?es) auto
    ultimately show ?thesis using run h(4) by (simp add: wp dictIsRehashing_def)
  qed
qed

lemma dictRehash_loop_spec:
  assumes "tables_ok hash d" and "dictIsRehashing d"
  shows "returns (dictRehash_loop hash n d) (\<lambda>(r, d'). tables_ok hash d' \<and> same_entries d d' \<and> can_resize d' = can_resize d \<and>
    iterators d' = iterators d \<and> ht_table (ht0 d') \<noteq> [] \<and>
    (if r = 0 then \<not> dictIsRehashing d' else dictIsRehashing d' \<and> ht_used (ht0 d') + n \<le> ht_used (ht0 d)))"
  using assms
proof (induction n arbitrary: d)
  case 0
  then have "ht_table (ht0 d) \<noteq> []" by (auto simp: tables_ok_def dictIsRehashing_def split: if_splits)
  then show ?case using 0 by (simp add: wp)
next
  case (Suc n)
  obtain more d1 where r: "rehash_round hash d = Some (more, d1)" "tables_ok hash d1" "same_entries d d1" "can_resize d1 = can_resize d"
    "iterators d1 = iterators d" "ht_table (ht0 d1) \<noteq> []"
    "if more then dictIsRehashing d1 \<and> ht_used (ht0 d1) < ht_used (ht0 d) else \<not> dictIsRehashing d1"
    using rehash_round_spec[OF Suc.prems] by (auto simp: returns_def)
  show ?case
  proof (cases more)
    case True
    then have d1: "dictIsRehashing d1" "ht_used (ht0 d1) < ht_used (ht0 d)" using r(7) by simp_all
    obtain k d' where k: "dictRehash_loop hash n d1 = Some (k, d')" "tables_ok hash d'" "same_entries d1 d'" "can_resize d' = can_resize d1"
      "iterators d' = iterators d1" "ht_table (ht0 d') \<noteq> []"
      "if k = 0 then \<not> dictIsRehashing d' else dictIsRehashing d' \<and> ht_used (ht0 d') + n \<le> ht_used (ht0 d1)"
      using Suc.IH[OF r(2) d1(1)] by (auto simp: returns_def)
    have "dictRehash_loop hash (Suc n) d = Some (k, d')" using True r(1) k(1) by simp
    moreover have "if k = 0 then \<not> dictIsRehashing d' else dictIsRehashing d' \<and> ht_used (ht0 d') + Suc n \<le> ht_used (ht0 d)"
      using k(7) d1(2) by (cases "k = 0") simp_all
    ultimately show ?thesis using k(2-6) r(4,5) same_entries_trans[OF r(3) k(3)] by (simp add: returns_def)
  next
    case False
    then show ?thesis using r by (simp add: wp)
  qed
qed

text \<open>What a step of rehashing keeps.\<close>

definition dict_keeps :: "('k \<Rightarrow> u32) \<Rightarrow> ('k, 'v) dict \<Rightarrow> ('k, 'v) dict \<Rightarrow> bool" where
  "dict_keeps hash d d' \<longleftrightarrow> tables_ok hash d' \<and> same_entries d d' \<and> can_resize d' = can_resize d \<and> iterators d' = iterators d"

lemma dict_keeps_refl: "tables_ok hash d \<Longrightarrow> dict_keeps hash d d"
  by (simp add: dict_keeps_def)

lemma dict_keeps_trans: "dict_keeps hash d d1 \<Longrightarrow> dict_keeps hash d1 d2 \<Longrightarrow> dict_keeps hash d d2"
  using same_entries_trans by (auto simp: dict_keeps_def)

lemma dict_keeps_ok: "dict_keeps hash d d' \<Longrightarrow> dict_ok hash d \<Longrightarrow> dict_ok hash d' \<and> dict_map d' = dict_map d"
  unfolding dict_keeps_def using same_entries_ok by blast

lemma dictRehash_spec:
  assumes "tables_ok hash d"
  shows "returns (dictRehash hash n d) (\<lambda>(r, d'). dict_keeps hash d d' \<and> (ht_table (ht0 d) \<noteq> [] \<longrightarrow> ht_table (ht0 d') \<noteq> []) \<and>
    (ht_used (ht0 d) < n \<longrightarrow> r = 0 \<and> \<not> dictIsRehashing d'))"
proof (cases "dictIsRehashing d")
  case True
  obtain r d' where r: "dictRehash_loop hash n d = Some (r, d')" "tables_ok hash d'" "same_entries d d'" "can_resize d' = can_resize d"
    "iterators d' = iterators d" "ht_table (ht0 d') \<noteq> []"
    "if r = 0 then \<not> dictIsRehashing d' else dictIsRehashing d' \<and> ht_used (ht0 d') + n \<le> ht_used (ht0 d)"
    using dictRehash_loop_spec[OF assms True, of n] by (auto simp: returns_def)
  have "dictRehash hash n d = Some (r, d')" using True r(1) by (simp add: dictRehash_def)
  then show ?thesis using r(2-) by (cases "r = 0") (simp_all add: returns_def dict_keeps_def)
next
  case False
  then show ?thesis using assms by (simp add: dictRehash_def wp dict_keeps_refl)
qed

lemma rehash_a_step_spec:
  assumes "tables_ok hash d"
  shows "returns (rehash_a_step hash d) (\<lambda>d'. dict_keeps hash d d' \<and> (ht_table (ht0 d) \<noteq> [] \<longrightarrow> ht_table (ht0 d') \<noteq> []))"
proof (cases "dictIsRehashing d \<and> iterators d = 0")
  case True
  obtain r d' where "dictRehash hash 1 d = Some (r, d')" "dict_keeps hash d d'" "ht_table (ht0 d) \<noteq> [] \<longrightarrow> ht_table (ht0 d') \<noteq> []"
    using dictRehash_spec[OF assms, of 1] by (auto simp: returns_def)
  then show ?thesis using True by (simp add: rehash_a_step_def dictRehashStep_def returns_def)
next
  case False
  then show ?thesis using dict_keeps_refl[OF assms] by (auto simp: rehash_a_step_def dictRehashStep_def wp)
qed


subsection \<open>Looking up\<close>

lemma tables_okD:
  assumes "tables_ok hash d" and "ht_table (ht0 d) \<noteq> []"
  shows "ht_ok hash (ht0 d)" and "dictIsRehashing d \<Longrightarrow> ht_ok hash (ht1 d)" and "\<not> dictIsRehashing d \<Longrightarrow> ht1 d = dictReset"
  using assms by (auto simp: tables_ok_def dictIsRehashing_def split: if_splits)

lemma tables_ok_unused:
  "tables_ok hash d \<Longrightarrow> ht_table (ht0 d) = [] \<Longrightarrow> ht_size (ht0 d) = 0 \<and> dict_entries d = [] \<and> \<not> dictIsRehashing d"
  by (simp add: tables_ok_def dict_entries_def dictIsRehashing_def)

lemma tables_ok_size: "tables_ok hash d \<Longrightarrow> ht_size (ht0 d) = 0 \<longleftrightarrow> ht_table (ht0 d) = []"
  using ht_ok_size[of hash "ht0 d"] by (auto simp: tables_ok_def split: if_splits)

lemma ht_used_le: "tables_ok hash d \<Longrightarrow> ht_used (ht0 d) \<le> length (dict_entries d)"
  using tables_okD(1)[of hash d] ht_okD(1)[of hash "ht0 d"] by (cases "ht_table (ht0 d) = []") (auto simp: tables_ok_def dict_entries_def)

lemma dict_map_tables: "dict_map d k = (case map_of (ht_entries (ht0 d)) k of Some v \<Rightarrow> Some v | None \<Rightarrow> map_of (ht_entries (ht1 d)) k)"
  by (auto simp: dict_map_def dict_entries_def map_add_def split: option.splits)

lemma ht_get_bucket: "ht_ok hash t \<Longrightarrow> ht_get t (bucket h t) = Some (ht_table t ! bucket h t)"
  using bucket_less by (simp add: ht_get_def)

lemma dictFind_entry_spec:
  assumes ok: "dict_ok hash d" and t: "ht_table (ht0 d) \<noteq> []"
  shows "dictFind_entry hash key d = Some (map_option (Pair key) (dict_map d key))"
proof -
  have tok: "tables_ok hash d" and dis: "distinct (map fst (ht_entries (ht0 d)))" "distinct (map fst (ht_entries (ht1 d)))"
    using ok by (simp_all add: dict_ok_def dict_entries_def)
  note h0 = tables_okD(1)[OF tok t]
  have f0: "List.find (\<lambda>e. fst e = key) (ht_table (ht0 d) ! bucket (hash key) (ht0 d)) = map_option (Pair key) (map_of (ht_entries (ht0 d)) key)"
    by (simp add: find_entry ht_find[OF h0 dis(1)])
  show ?thesis
  proof (cases "dictIsRehashing d")
    case True
    note h1 = tables_okD(2)[OF tok t True]
    have f1: "List.find (\<lambda>e. fst e = key) (ht_table (ht1 d) ! bucket (hash key) (ht1 d)) = map_option (Pair key) (map_of (ht_entries (ht1 d)) key)"
      by (simp add: find_entry ht_find[OF h1 dis(2)])
    show ?thesis using True f1
      by (simp add: dictFind_entry_def ht_get_bucket[OF h0] ht_get_bucket[OF h1] f0 dict_map_tables split: option.splits)
  next
    case False
    then show ?thesis using tables_okD(3)[OF tok t False]
      by (simp add: dictFind_entry_def ht_get_bucket[OF h0] f0 dict_map_tables split: option.splits)
  qed
qed

lemma dict_okD: "dict_ok hash d \<Longrightarrow> tables_ok hash d" "dict_ok hash d \<Longrightarrow> distinct (map fst (dict_entries d))"
  by (simp_all add: dict_ok_def)

lemma htFind_spec:
  assumes ok: "dict_ok hash d"
  shows "returns (htFind hash key d) (\<lambda>(e, d'). e = map_option (Pair key) (dict_map d key) \<and> dict_keeps hash d d' \<and>
    (ht_table (ht0 d) \<noteq> [] \<longrightarrow> ht_table (ht0 d') \<noteq> []))"
proof (cases "ht_table (ht0 d) = []")
  case True
  then show ?thesis using tables_ok_unused[OF dict_okD(1)[OF ok] True] dict_keeps_refl[OF dict_okD(1)[OF ok]]
    by (simp add: htFind_def wp dict_map_def)
next
  case False
  obtain d1 where d1: "rehash_a_step hash d = Some d1" "dict_keeps hash d d1" "ht_table (ht0 d1) \<noteq> []"
    using rehash_a_step_spec[OF dict_okD(1)[OF ok]] False by (auto simp: returns_def)
  have "dict_ok hash d1" "dict_map d1 = dict_map d" using dict_keeps_ok[OF d1(2) ok] by simp_all
  then have "dictFind_entry hash key d1 = Some (map_option (Pair key) (dict_map d key))" using dictFind_entry_spec d1(3) by metis
  then show ?thesis using False d1 tables_ok_size[OF dict_okD(1)[OF ok]] by (simp add: htFind_def returns_def)
qed

subsection \<open>Adding\<close>

lemma add_entry_ok:
  assumes "dict_ok hash d" and "dict_map d key = None" and "mset (dict_entries d') = add_mset (key, val) (mset (dict_entries d))"
    and "tables_ok hash d'"
  shows "dict_ok hash d' \<and> dict_map d' = (dict_map d)(key \<mapsto> val) \<and> length (dict_entries d') = Suc (length (dict_entries d))"
proof -
  have "key \<notin> fst ` set (dict_entries d)" using assms(2) by (simp add: dict_map_def map_of_eq_None_iff)
  then have "distinct (map fst ((key, val) # dict_entries d))" using dict_okD(2)[OF assms(1)] by simp
  from mset_map_of[OF _ this, of "dict_entries d'"] have "distinct (map fst (dict_entries d'))" "dict_map d' = (dict_map d)(key \<mapsto> val)"
    using assms(3) by (simp_all add: dict_map_def)
  then show ?thesis using assms(4) arg_cong[OF assms(3), of size] by (simp add: dict_ok_def)
qed

lemma dict_link_spec:
  assumes ok: "dict_ok hash d" and t: "ht_table (ht0 d) \<noteq> []" and new: "dict_map d key = None"
  shows "returns (if dictIsRehashing d then do { t \<leftarrow> ht_link (bucket (hash key) (ht1 d)) (key, val) (ht1 d); Some (Some (key, val), d\<lparr>ht1 := t\<rparr>) }
        else do { t \<leftarrow> ht_link (bucket (hash key) (ht0 d)) (key, val) (ht0 d); Some (Some (key, val), d\<lparr>ht0 := t\<rparr>) })
    (\<lambda>(e, d'). e = Some (key, val) \<and> dict_ok hash d' \<and> dict_map d' = (dict_map d)(key \<mapsto> val) \<and>
      length (dict_entries d') = Suc (length (dict_entries d)) \<and> can_resize d' = can_resize d \<and> iterators d' = iterators d)"
proof (cases "dictIsRehashing d")
  case True
  note h = tables_okD(2)[OF dict_okD(1)[OF ok] t True]
  obtain t1 where t1: "ht_link (bucket (hash key) (ht1 d)) (key, val) (ht1 d) = Some t1" "ht_ok hash t1"
    "mset (ht_entries t1) = add_mset (key, val) (mset (ht_entries (ht1 d)))"
    using ht_link_spec[OF h, of _ "(key, val)"] by (auto simp: returns_def)
  have "tables_ok hash (d\<lparr>ht1 := t1\<rparr>)" using dict_okD(1)[OF ok] t t1(2) True by (auto simp: tables_ok_def dictIsRehashing_def)
  moreover have "mset (dict_entries (d\<lparr>ht1 := t1\<rparr>)) = add_mset (key, val) (mset (dict_entries d))"
    using t1(3) by (simp add: dict_entries_def)
  ultimately show ?thesis using add_entry_ok[OF ok new] True t1(1) by (simp add: wp returns_def)
next
  case False
  note h = tables_okD(1)[OF dict_okD(1)[OF ok] t]
  obtain t1 where t1: "ht_link (bucket (hash key) (ht0 d)) (key, val) (ht0 d) = Some t1" "ht_ok hash t1"
    "mset (ht_entries t1) = add_mset (key, val) (mset (ht_entries (ht0 d)))" "length (ht_table t1) = length (ht_table (ht0 d))"
    using ht_link_spec[OF h, of _ "(key, val)"] by (auto simp: returns_def)
  have "tables_ok hash (d\<lparr>ht0 := t1\<rparr>)" using dict_okD(1)[OF ok] t t1(2,4) False by (auto simp: tables_ok_def dictIsRehashing_def)
  moreover have "mset (dict_entries (d\<lparr>ht0 := t1\<rparr>)) = add_mset (key, val) (mset (dict_entries d))"
    using t1(3) by (simp add: dict_entries_def)
  ultimately show ?thesis using add_entry_ok[OF ok new] False t1(1) by (simp add: wp returns_def)
qed

lemma index_of_bucket:
  "ht_ok hash t \<Longrightarrow> sint (word_of_nat (bucket h t) :: 32 word) = int (bucket h t)"
proof -
  assume "ht_ok hash t"
  then have "bucket h t < 2 ^ 30" using bucket_less[of hash t h] ht_ok_size[of hash t] by simp
  then show ?thesis by (simp add: signed_of_nat signed_take_bit_int_eq_self)
qed

lemma htAdd_spec:
  assumes ok: "dict_ok hash d" and room: "length (dict_entries d) \<le> 2 ^ 29"
  shows "returns (htAdd hash key val d) (\<lambda>(r, d'). dict_ok hash d' \<and> can_resize d' = can_resize d \<and> iterators d' = iterators d \<and>
    (if dict_map d key = None
     then r = DICT_OK \<and> dict_map d' = (dict_map d)(key \<mapsto> val) \<and> length (dict_entries d') = Suc (length (dict_entries d))
     else r = DICT_ERR \<and> dict_map d' = dict_map d \<and> length (dict_entries d') = length (dict_entries d) \<and> ht_table (ht0 d') \<noteq> []))"
proof -
  obtain d1 where d1: "rehash_a_step hash d = Some d1" "dict_keeps hash d d1"
    using rehash_a_step_spec[OF dict_okD(1)[OF ok]] by (auto simp: returns_def)
  note k1 = d1(2)[unfolded dict_keeps_def]
  have "ht_used (ht0 d1) \<le> 2 ^ 29" using ht_used_le[of hash d1] k1 same_entries_size[of d d1] room by simp
  then obtain d2 where d2: "dictExpandIfNeeded d1 = (DICT_OK, d2)" "tables_ok hash d2" "same_entries d1 d2" "ht_table (ht0 d2) \<noteq> []"
    "can_resize d2 = can_resize d1" "iterators d2 = iterators d1"
    using dictExpandIfNeeded_spec[of hash d1] k1 by blast
  have "dict_keeps hash d1 d2" using d2 by (simp add: dict_keeps_def)
  note k2 = dict_keeps_trans[OF d1(2) this]
  have ok2: "dict_ok hash d2" "dict_map d2 = dict_map d" using dict_keeps_ok[OF k2 ok] by simp_all
  have len: "length (dict_entries d2) = length (dict_entries d)" using k2 same_entries_size[of d d2] by (simp add: dict_keeps_def)
  have fe: "dictFind_entry hash key d2 = Some (map_option (Pair key) (dict_map d key))" using dictFind_entry_spec[OF ok2(1) d2(4)] ok2(2) by simp
  let ?b = "bucket (hash key) (if dictIsRehashing d2 then ht1 d2 else ht0 d2)"
  have "ht_ok hash (if dictIsRehashing d2 then ht1 d2 else ht0 d2)"
    using tables_okD(1,2)[OF d2(2,4)] by simp
  from index_of_bucket[OF this] have idx: "sint (word_of_nat ?b :: 32 word) = int ?b" .
  have ki: "dictKeyIndex hash key d1 = Some (case dict_map d key of Some _ \<Rightarrow> -1 | None \<Rightarrow> int ?b, d2)"
    using d2(1) fe idx by (cases "dictIsRehashing d2") (simp_all add: dictKeyIndex_def DICT_OK_def DICT_ERR_def split: option.splits)
  show ?thesis
  proof (cases "dict_map d key")
    case None
    have "dict_map d2 key = None" using None ok2(2) by simp
    from dict_link_spec[OF ok2(1) d2(4) this, of val] obtain d3 where
      d3: "(if dictIsRehashing d2 then do { t \<leftarrow> ht_link (bucket (hash key) (ht1 d2)) (key, val) (ht1 d2); Some (Some (key, val), d2\<lparr>ht1 := t\<rparr>) }
        else do { t \<leftarrow> ht_link (bucket (hash key) (ht0 d2)) (key, val) (ht0 d2); Some (Some (key, val), d2\<lparr>ht0 := t\<rparr>) }) = Some (Some (key, val), d3)"
      "dict_ok hash d3" "dict_map d3 = (dict_map d2)(key \<mapsto> val)" "length (dict_entries d3) = Suc (length (dict_entries d2))"
      "can_resize d3 = can_resize d2" "iterators d3 = iterators d2"
      by (auto simp: returns_def)
    have "dictAddRaw hash key val d = Some (Some (key, val), d3)"
      using d1(1) ki None d3(1) by (cases "dictIsRehashing d2") (simp_all add: dictAddRaw_def redisAssert_def)
    then show ?thesis using None d3 ok2(2) len d2(5,6) k1 by (simp add: htAdd_def wp)
  next
    case (Some v)
    then have "dictAddRaw hash key val d = Some (None, d2)" using d1(1) ki by (simp add: dictAddRaw_def)
    then show ?thesis using Some ok2 len d2(4,5,6) k1 by (simp add: htAdd_def wp)
  qed
qed


subsection \<open>Replacing\<close>

lemma map_of_chain_set: "map_of (chain_set key val es) k = (if k = key then map_option (\<lambda>_. val) (map_of es key) else map_of es k)"
  by (induction es) (auto simp: chain_set_def)

lemma chain_set_keys: "map fst (chain_set key val es) = map fst es"
  by (induction es) (auto simp: chain_set_def)

lemma chain_set_concat: "concat (map (chain_set key val) tbl) = chain_set key val (concat tbl)"
  by (induction tbl) (simp_all add: chain_set_def)

lemma dictSetVal_entries: "dict_entries (dictSetVal key val d) = chain_set key val (dict_entries d)"
  by (simp add: dictSetVal_def dict_entries_def ht_entries_def chain_set_concat) (simp add: chain_set_def)

lemma chain_set_bucket:
  "\<forall>e\<in>set es. bucket (hash (fst e)) t = i \<Longrightarrow> e \<in> set (chain_set key val es) \<Longrightarrow> bucket (hash (fst e)) t = i"
  by (auto simp: chain_set_def)

lemma chain_set_ht_ok:
  "ht_ok hash t \<Longrightarrow> ht_ok hash (t\<lparr>ht_table := map (chain_set key val) (ht_table t)\<rparr>)"
proof -
  assume ok: "ht_ok hash t"
  have "length (concat (map (chain_set key val) (ht_table t))) = length (concat (ht_table t))"
    unfolding chain_set_concat by (simp add: chain_set_def)
  moreover have "\<forall>i<length (ht_table t). \<forall>e\<in>set (chain_set key val (ht_table t ! i)). bucket (hash (fst e)) t = i"
  proof (intro allI impI ballI)
    fix i e assume i: "i < length (ht_table t)" and e: "e \<in> set (chain_set key val (ht_table t ! i))"
    show "bucket (hash (fst e)) t = i" by (rule chain_set_bucket[OF _ e]) (use ht_okD(2)[OF ok i] in blast)
  qed
  ultimately show ?thesis using ok bucket_cong[of "t\<lparr>ht_table := map (chain_set key val) (ht_table t)\<rparr>" t]
    by (simp add: ht_ok_def ht_entries_def)
qed

lemma dictSetVal_spec:
  assumes ok: "dict_ok hash d" and old: "dict_map d key = Some v"
  shows "dict_ok hash (dictSetVal key val d) \<and> dict_map (dictSetVal key val d) = (dict_map d)(key \<mapsto> val)"
proof -
  have t: "ht_table (ht0 d) \<noteq> []" using old tables_ok_unused[OF dict_okD(1)[OF ok]] by (auto simp: dict_map_def)
  have "ht_table (ht1 d) = [] \<Longrightarrow> ht1 (dictSetVal key val d) = ht1 d" by (simp add: dictSetVal_def)
  moreover have "rehashidx d = -1 \<Longrightarrow> ht_table (ht1 d) = []" using dict_okD(1)[OF ok] t by (simp add: tables_ok_def)
  moreover have "chain_set key val [] = []" by (simp add: chain_set_def)
  ultimately have "tables_ok hash (dictSetVal key val d)"
    using dict_okD(1)[OF ok] t chain_set_ht_ok[of hash "ht0 d" key val] chain_set_ht_ok[of hash "ht1 d" key val]
    by (auto simp: tables_ok_def dictSetVal_def)
  moreover have "map_of (chain_set key val (dict_entries d)) k = ((dict_map d)(key \<mapsto> val)) k" for k
    using old by (simp add: map_of_chain_set dict_map_def)
  ultimately show ?thesis using dict_okD(2)[OF ok]
    by (auto simp: dict_ok_def dictSetVal_entries chain_set_keys dict_map_def)
qed

lemma dictReplace_spec:
  assumes ok: "dict_ok hash d" and room: "length (dict_entries d) \<le> 2 ^ 29"
  shows "returns (dictReplace hash key val d) (\<lambda>(r, d'). dict_ok hash d' \<and> can_resize d' = can_resize d \<and> iterators d' = iterators d \<and>
    dict_map d' = (dict_map d)(key \<mapsto> val) \<and> r = (if dict_map d key = None then 1 else 0) \<and>
    length (dict_entries d') \<le> Suc (length (dict_entries d)))"
proof -
  obtain r d1 where a: "htAdd hash key val d = Some (r, d1)" "dict_ok hash d1" "can_resize d1 = can_resize d" "iterators d1 = iterators d"
    "if dict_map d key = None
     then r = DICT_OK \<and> dict_map d1 = (dict_map d)(key \<mapsto> val) \<and> length (dict_entries d1) = Suc (length (dict_entries d))
     else r = DICT_ERR \<and> dict_map d1 = dict_map d \<and> length (dict_entries d1) = length (dict_entries d) \<and> ht_table (ht0 d1) \<noteq> []"
    using htAdd_spec[OF ok room, of key val] by (auto simp: returns_def split del: if_split)
  show ?thesis
  proof (cases "dict_map d key")
    case None
    then show ?thesis using a by (simp add: dictReplace_def wp)
  next
    case (Some v)
    obtain d2 where f: "htFind hash key d1 = Some (map_option (Pair key) (dict_map d1 key), d2)" "dict_keeps hash d1 d2"
      using htFind_spec[OF a(2)] by (auto simp: returns_def)
    have d2: "dict_ok hash d2" "dict_map d2 = dict_map d" using dict_keeps_ok[OF f(2) a(2)] a(5) Some by simp_all
    have len: "length (dict_entries d2) = length (dict_entries d)"
      using f(2) same_entries_size[of d1 d2] a(5) Some by (simp add: dict_keeps_def)
    have "dictReplace hash key val d = Some (0, dictSetVal key val d2)"
      using a f(1) Some by (simp add: dictReplace_def DICT_OK_def DICT_ERR_def)
    moreover have "can_resize d2 = can_resize d" "iterators d2 = iterators d" using f(2) a(3,4) by (simp_all add: dict_keeps_def)
    ultimately show ?thesis using dictSetVal_spec[OF d2(1), of key v val] d2(2) Some len
      by (simp add: wp dictSetVal_entries) (simp add: dictSetVal_def chain_set_def)
  qed
qed

subsection \<open>Deleting\<close>

lemma chain_del_spec:
  "case chain_del key es of None \<Rightarrow> map_of es key = None
   | Some es' \<Rightarrow> \<exists>v. map_of es key = Some v \<and> mset es = add_mset (key, v) (mset es')"
  by (induction es) (auto split: option.splits)

lemma ht_unlink_spec:
  assumes ok: "ht_ok hash t" and dis: "distinct (map fst (ht_entries t))"
  shows "returns (ht_unlink hash key t) (\<lambda>r. case r of None \<Rightarrow> map_of (ht_entries t) key = None
    | Some t' \<Rightarrow> ht_ok hash t' \<and> length (ht_table t') = length (ht_table t) \<and>
        (\<forall>i<length (ht_table t). ht_table t ! i = [] \<longrightarrow> ht_table t' ! i = []) \<and>
        (\<exists>v. map_of (ht_entries t) key = Some v \<and> mset (ht_entries t) = add_mset (key, v) (mset (ht_entries t'))))"
proof -
  let ?b = "bucket (hash key) t"
  let ?es = "ht_table t ! ?b"
  have b: "?b < length (ht_table t)" by (rule bucket_less[OF ok])
  show ?thesis
  proof (cases "chain_del key ?es")
    case None
    then show ?thesis using chain_del_spec[where key = key and es = ?es] ht_find[OF ok dis] b by (simp add: ht_unlink_def ht_get_def wp)
  next
    case (Some es')
    then obtain v where v: "map_of ?es key = Some v" "mset ?es = add_mset (key, v) (mset es')" using chain_del_spec[where key = key and es = ?es] by auto
    have len: "length ?es = Suc (length es')" using arg_cong[OF v(2), of size] by simp
    have sub: "set es' \<subseteq> set ?es" using v(2) by (metis mset_subset_eq_add_right set_mset_mset set_mset_mono add_mset_add_single mset_subset_eq_add_left)
    have m: "mset (concat ((ht_table t)[?b := es'])) + mset ?es = mset (concat (ht_table t)) + mset es'" by (rule concat_update[OF b])
    then have e: "mset (ht_entries t) = add_mset (key, v) (mset (concat ((ht_table t)[?b := es'])))" using v(2) by (simp add: ht_entries_def)
    have u: "ht_used t \<ge> 1" using arg_cong[OF e, of size] ht_okD(1)[OF ok] by simp
    have ok': "ht_ok hash (t\<lparr>ht_table := (ht_table t)[?b := es'], ht_used := ht_used t - 1\<rparr>)"
      by (rule ht_update_ok[OF ok b]) (use sub ht_okD(2)[OF ok b] len u in auto)
    have empty: "\<forall>i<length (ht_table t). ht_table t ! i = [] \<longrightarrow> (ht_table t)[?b := es'] ! i = []"
    proof (intro allI impI)
      fix i assume i: "i < length (ht_table t)" "ht_table t ! i = []"
      then have "i \<noteq> ?b" using v(1) by auto
      then show "(ht_table t)[?b := es'] ! i = []" using i by simp
    qed
    have "ht_entries (t\<lparr>ht_table := (ht_table t)[?b := es'], ht_used := ht_used t - 1\<rparr>) = concat ((ht_table t)[?b := es'])"
      by (simp add: ht_entries_def)
    then show ?thesis using ok' empty e Some b ht_find[OF ok dis, of key] v(1) by (simp add: ht_unlink_def ht_get_def wp)
  qed
qed

lemma del_entry_ok:
  assumes "dict_ok hash d" and "mset (dict_entries d) = add_mset (key, v) (mset (dict_entries d'))" and "tables_ok hash d'"
  shows "dict_ok hash d' \<and> dict_map d' = (dict_map d)(key := None) \<and> dict_map d key = Some v \<and>
    length (dict_entries d) = Suc (length (dict_entries d'))"
proof -
  have "mset ((key, v) # dict_entries d') = mset (dict_entries d)" using assms(2) by simp
  from mset_map_of[OF this dict_okD(2)[OF assms(1)]]
  have d: "distinct (map fst ((key, v) # dict_entries d'))" and m: "map_of ((key, v) # dict_entries d') = dict_map d"
    by (simp_all add: dict_map_def)
  have "map_of (dict_entries d') key = None" using d by (simp add: map_of_eq_None_iff)
  then have "dict_map d' = (dict_map d)(key := None)" using m[symmetric] by (auto simp: dict_map_def fun_eq_iff)
  then show ?thesis using d m[symmetric] assms(3) arg_cong[OF assms(2), of size] by (simp add: dict_ok_def)
qed

lemma dictGenericDelete_spec:
  assumes ok: "dict_ok hash d"
  shows "returns (dictGenericDelete hash key d) (\<lambda>(r, d'). dict_ok hash d' \<and> can_resize d' = can_resize d \<and> iterators d' = iterators d \<and>
    dict_map d' = (dict_map d)(key := None) \<and> r = (if dict_map d key = None then DICT_ERR else DICT_OK) \<and>
    length (dict_entries d') \<le> length (dict_entries d))"
proof (cases "ht_table (ht0 d) = []")
  case True
  then show ?thesis using tables_ok_unused[OF dict_okD(1)[OF ok] True] ok by (auto simp: dictGenericDelete_def wp dict_map_def)
next
  case False
  obtain d1 where d1: "rehash_a_step hash d = Some d1" "dict_keeps hash d d1" "ht_table (ht0 d1) \<noteq> []"
    using rehash_a_step_spec[OF dict_okD(1)[OF ok]] False by (auto simp: returns_def)
  note ok1 = dict_keeps_ok[OF d1(2) ok]
  have k1: "can_resize d1 = can_resize d" "iterators d1 = iterators d" "length (dict_entries d1) = length (dict_entries d)"
    using d1(2) same_entries_size[of d d1] by (simp_all add: dict_keeps_def)
  have sz: "ht_size (ht0 d) \<noteq> 0" using tables_ok_size[OF dict_okD(1)[OF ok]] False by simp
  have tok: "tables_ok hash d1" using ok1 by (simp add: dict_ok_def)
  have dis: "distinct (map fst (ht_entries (ht0 d1)))" "distinct (map fst (ht_entries (ht1 d1)))"
    using ok1 by (simp_all add: dict_ok_def dict_entries_def)
  note h0 = tables_okD(1)[OF tok d1(3)]
  obtain u0 where u0: "ht_unlink hash key (ht0 d1) = Some u0" using ht_unlink_spec[OF h0 dis(1), of key] by (auto simp: returns_def)
  note s0 = ht_unlink_spec[OF h0 dis(1), of key, unfolded u0 returns_Some]
  show ?thesis
  proof (cases u0)
    case (Some t)
    then obtain v where t: "ht_ok hash t" "length (ht_table t) = length (ht_table (ht0 d1))"
      "\<forall>i<length (ht_table t). ht_table (ht0 d1) ! i = [] \<longrightarrow> ht_table t ! i = []"
      "mset (ht_entries (ht0 d1)) = add_mset (key, v) (mset (ht_entries t))" using s0 by auto
    have "tables_ok hash (d1\<lparr>ht0 := t\<rparr>)" using tok t(1-3) d1(3) by (auto simp: tables_ok_def)
    moreover have "mset (dict_entries d1) = add_mset (key, v) (mset (dict_entries (d1\<lparr>ht0 := t\<rparr>)))" using t(4) by (simp add: dict_entries_def)
    ultimately have "dict_ok hash (d1\<lparr>ht0 := t\<rparr>) \<and> dict_map (d1\<lparr>ht0 := t\<rparr>) = (dict_map d1)(key := None) \<and> dict_map d1 key = Some v \<and>
      length (dict_entries d1) = Suc (length (dict_entries (d1\<lparr>ht0 := t\<rparr>)))"
      using del_entry_ok[OF conjunct1[OF ok1]] by blast
    then show ?thesis using Some u0 d1(1) sz k1 ok1 by (simp add: dictGenericDelete_def wp)
  next
    case None
    then have no0: "map_of (ht_entries (ht0 d1)) key = None" using s0 by simp
    show ?thesis
    proof (cases "dictIsRehashing d1")
      case False
      then have "dict_map d1 key = None" using no0 tables_okD(3)[OF tok d1(3) False] by (simp add: dict_map_tables)
      then show ?thesis using None u0 d1(1) sz k1 ok1 False by (auto simp: dictGenericDelete_def wp)
    next
      case True
      note h1 = tables_okD(2)[OF tok d1(3) True]
      obtain u1 where u1: "ht_unlink hash key (ht1 d1) = Some u1" using ht_unlink_spec[OF h1 dis(2), of key] by (auto simp: returns_def)
      note s1 = ht_unlink_spec[OF h1 dis(2), of key, unfolded u1 returns_Some]
      show ?thesis
      proof (cases u1)
        case None
        then have "dict_map d1 key = None" using no0 s1 by (simp add: dict_map_tables)
        then show ?thesis using None \<open>u0 = None\<close> u0 u1 d1(1) sz k1 ok1 True by (auto simp: dictGenericDelete_def wp)
      next
        case (Some t)
        then obtain v where t: "ht_ok hash t" "mset (ht_entries (ht1 d1)) = add_mset (key, v) (mset (ht_entries t))" using s1 by auto
        have "tables_ok hash (d1\<lparr>ht1 := t\<rparr>)" using tok t(1) d1(3) True by (auto simp: tables_ok_def dictIsRehashing_def)
        moreover have "mset (dict_entries d1) = add_mset (key, v) (mset (dict_entries (d1\<lparr>ht1 := t\<rparr>)))" using t(2) by (simp add: dict_entries_def)
        ultimately have "dict_ok hash (d1\<lparr>ht1 := t\<rparr>) \<and> dict_map (d1\<lparr>ht1 := t\<rparr>) = (dict_map d1)(key := None) \<and> dict_map d1 key = Some v \<and>
          length (dict_entries d1) = Suc (length (dict_entries (d1\<lparr>ht1 := t\<rparr>)))"
          using del_entry_ok[OF conjunct1[OF ok1]] by blast
        then show ?thesis using Some \<open>u0 = None\<close> u0 u1 d1(1) sz k1 ok1 True by (simp add: dictGenericDelete_def wp)
      qed
    qed
  qed
qed


subsection \<open>Refinement of a map\<close>

datatype ('k, 'v) dict_op = OpFind 'k | OpAdd 'k 'v | OpReplace 'k 'v | OpDelete 'k | OpRehash nat | OpResize | OpAllowResize bool

datatype 'v dict_result = Found "'v option" | Status nat | Quiet

definition dict_step :: "('k \<Rightarrow> u32) \<Rightarrow> ('k, 'v) dict_op \<Rightarrow> ('k, 'v) dict \<Rightarrow> ('v dict_result \<times> ('k, 'v) dict) option" where
  "dict_step hash op d = (case op of
     OpFind k \<Rightarrow> do { (v, d1) \<leftarrow> dictFetchValue hash k d; Some (Found v, d1) }
   | OpAdd k v \<Rightarrow> do { (r, d1) \<leftarrow> htAdd hash k v d; Some (Status r, d1) }
   | OpReplace k v \<Rightarrow> do { (r, d1) \<leftarrow> dictReplace hash k v d; Some (Status r, d1) }
   | OpDelete k \<Rightarrow> do { (r, d1) \<leftarrow> dictGenericDelete hash k d; Some (Status r, d1) }
   | OpRehash n \<Rightarrow> do { (_, d1) \<leftarrow> dictRehash hash n d; Some (Quiet, d1) }
   | OpResize \<Rightarrow> Some (Quiet, snd (dictResize d))
   | OpAllowResize b \<Rightarrow> Some (Quiet, d\<lparr>can_resize := b\<rparr>))"

primrec dict_run :: "('k \<Rightarrow> u32) \<Rightarrow> ('k, 'v) dict_op list \<Rightarrow> ('k, 'v) dict \<Rightarrow> ('v dict_result list \<times> ('k, 'v) dict) option" where
  "dict_run hash [] d = Some ([], d)"
| "dict_run hash (op # ops) d = do {
     (r, d1) \<leftarrow> dict_step hash op d;
     (rs, d2) \<leftarrow> dict_run hash ops d1;
     Some (r # rs, d2)
   }"

text \<open>The same operations on a map.\<close>

definition map_step :: "('k, 'v) dict_op \<Rightarrow> ('k \<rightharpoonup> 'v) \<Rightarrow> 'v dict_result \<times> ('k \<rightharpoonup> 'v)" where
  "map_step op m = (case op of
     OpFind k \<Rightarrow> (Found (m k), m)
   | OpAdd k v \<Rightarrow> (if m k = None then (Status DICT_OK, m(k \<mapsto> v)) else (Status DICT_ERR, m))
   | OpReplace k v \<Rightarrow> (Status (if m k = None then 1 else 0), m(k \<mapsto> v))
   | OpDelete k \<Rightarrow> (Status (if m k = None then DICT_ERR else DICT_OK), m(k := None))
   | OpRehash n \<Rightarrow> (Quiet, m)
   | OpResize \<Rightarrow> (Quiet, m)
   | OpAllowResize b \<Rightarrow> (Quiet, m))"

primrec map_run :: "('k, 'v) dict_op list \<Rightarrow> ('k \<rightharpoonup> 'v) \<Rightarrow> 'v dict_result list \<times> ('k \<rightharpoonup> 'v)" where
  "map_run [] m = ([], m)"
| "map_run (op # ops) m = (let (r, m1) = map_step op m; (rs, m2) = map_run ops m1 in (r # rs, m2))"

lemma dict_keeps_step:
  assumes "dict_ok hash d" and "dict_keeps hash d d'"
  shows "dict_ok hash d' \<and> dict_map d' = dict_map d \<and> length (dict_entries d') = length (dict_entries d)"
  using dict_keeps_ok[OF assms(2,1)] same_entries_size[of d d'] assms(2) by (simp add: dict_keeps_def)

lemma dict_step_refines:
  assumes ok: "dict_ok hash d" and room: "length (dict_entries d) \<le> 2 ^ 29"
  shows "returns (dict_step hash op d) (\<lambda>(r, d'). dict_ok hash d' \<and> (r, dict_map d') = map_step op (dict_map d) \<and>
    length (dict_entries d') \<le> Suc (length (dict_entries d)))"
proof (cases op)
  case (OpFind k)
  obtain e d' where "htFind hash k d = Some (e, d')" "e = map_option (Pair k) (dict_map d k)" "dict_keeps hash d d'"
    using htFind_spec[OF ok, of k] by (auto simp: returns_def)
  then show ?thesis using dict_keeps_step[OF ok, of d'] OpFind
    by (simp add: dict_step_def map_step_def dictFetchValue_def wp option.map_comp comp_def option.map_ident)
next
  case (OpAdd k v)
  obtain r d' where r: "htAdd hash k v d = Some (r, d')" "dict_ok hash d'"
    "if dict_map d k = None
     then r = DICT_OK \<and> dict_map d' = (dict_map d)(k \<mapsto> v) \<and> length (dict_entries d') = Suc (length (dict_entries d))
     else r = DICT_ERR \<and> dict_map d' = dict_map d \<and> length (dict_entries d') = length (dict_entries d) \<and> ht_table (ht0 d') \<noteq> []"
    using htAdd_spec[OF ok room, of k v] by (auto simp: returns_def split del: if_split)
  then show ?thesis using OpAdd by (cases "dict_map d k") (simp_all add: dict_step_def map_step_def wp)
next
  case (OpReplace k v)
  obtain r d' where "dictReplace hash k v d = Some (r, d')" "dict_ok hash d'" "dict_map d' = (dict_map d)(k \<mapsto> v)"
    "r = (if dict_map d k = None then 1 else 0)" "length (dict_entries d') \<le> Suc (length (dict_entries d))"
    using dictReplace_spec[OF ok room, of k v] by (auto simp: returns_def split del: if_split)
  then show ?thesis using OpReplace by (simp add: dict_step_def map_step_def wp)
next
  case (OpDelete k)
  obtain r d' where "dictGenericDelete hash k d = Some (r, d')" "dict_ok hash d'" "dict_map d' = (dict_map d)(k := None)"
    "r = (if dict_map d k = None then DICT_ERR else DICT_OK)" "length (dict_entries d') \<le> length (dict_entries d)"
    using dictGenericDelete_spec[OF ok, of k] by (auto simp: returns_def split del: if_split)
  then show ?thesis using OpDelete by (simp add: dict_step_def map_step_def wp)
next
  case (OpRehash n)
  obtain r d' where "dictRehash hash n d = Some (r, d')" "dict_keeps hash d d'"
    using dictRehash_spec[OF dict_okD(1)[OF ok], of n] by (auto simp: returns_def)
  then show ?thesis using dict_keeps_step[OF ok, of d'] OpRehash by (simp add: dict_step_def map_step_def wp)
next
  case OpResize
  have "ht_used (ht0 d) \<le> 2 ^ 30" using ht_used_le[OF dict_okD(1)[OF ok]] room by simp
  from dictResize_spec[OF dict_okD(1)[OF ok] this] have "dict_keeps hash d (snd (dictResize d))" by (simp add: dict_keeps_def)
  then show ?thesis using dict_keeps_step[OF ok] OpResize by (simp add: dict_step_def map_step_def wp)
next
  case (OpAllowResize b)
  then show ?thesis using ok by (simp add: dict_step_def map_step_def wp dict_ok_def tables_ok_def dict_entries_def dict_map_def)
qed

lemma dict_run_refines:
  assumes "dict_ok hash d" and "length (dict_entries d) + length ops \<le> 2 ^ 29"
  shows "returns (dict_run hash ops d) (\<lambda>(rs, d'). dict_ok hash d' \<and> (rs, dict_map d') = map_run ops (dict_map d))"
  using assms
proof (induction ops arbitrary: d)
  case Nil
  then show ?case by (simp add: wp)
next
  case (Cons op ops)
  obtain r d1 where s: "dict_step hash op d = Some (r, d1)" "dict_ok hash d1" "(r, dict_map d1) = map_step op (dict_map d)"
    "length (dict_entries d1) \<le> Suc (length (dict_entries d))"
    using dict_step_refines[OF Cons.prems(1), of op] Cons.prems(2) by (auto simp: returns_def)
  obtain rs d2 where t: "dict_run hash ops d1 = Some (rs, d2)" "dict_ok hash d2" "(rs, dict_map d2) = map_run ops (dict_map d1)"
    using Cons.IH[OF s(2)] s(4) Cons.prems(2) by (auto simp: returns_def)
  show ?case using s(1-3) t by (auto simp: returns_def split: prod.splits)
qed

lemma dictCreate_ok: "dict_ok hash (dictCreate b)" and dictCreate_map: "dict_map (dictCreate b) = Map.empty"
  and dictCreate_entries: "dict_entries (dictCreate b) = []"
  by (simp_all add: dict_ok_def tables_ok_def dictCreate_def dict_entries_def dict_map_def)

text \<open>Property C18. A dictionary is a map, whatever the hash function: any sequence of searches, insertions, replacements, deletions,
  explicit rehashing, resizing, and changes of the permission to resize, started on a new dictionary, never reads or writes outside
  a table, never fails an assertion, and returns what the same operations return on a map. The bound keeps bucket numbers within the \<open>int\<close> that
  \<open>_dictKeyIndex\<close> returns.\<close>

theorem dict_refines_map:
  assumes "length ops \<le> 2 ^ 29"
  shows "returns (dict_run hash ops (dictCreate b)) (\<lambda>(rs, d). dict_ok hash d \<and> (rs, dict_map d) = map_run ops Map.empty)"
  using dict_run_refines[OF dictCreate_ok, of b ops hash, unfolded dictCreate_map dictCreate_entries] assms by simp

theorem dict_refines_map_witness:
  "\<exists>d. dict_run (\<lambda>k. word_of_nat k) [OpAdd 1 ''a'', OpAdd (5 :: nat) ''b'', OpAdd 1 ''c'', OpDelete 5, OpFind 5, OpReplace 1 ''d'', OpFind 1]
     (dictCreate True) =
     Some ([Status DICT_OK, Status DICT_OK, Status DICT_ERR, Status DICT_OK, Found None, Status 0, Found (Some ''d'')], d)"
  using dict_refines_map[of "[OpAdd 1 ''a'', OpAdd (5 :: nat) ''b'', OpAdd 1 ''c'', OpDelete 5, OpFind 5, OpReplace 1 ''d'', OpFind 1]"
    "\<lambda>k. word_of_nat k" True]
  by (auto simp: returns_def map_step_def)

subsection \<open>Rehashing ends\<close>

lemma rehash_a_step_progress:
  assumes "tables_ok hash d" and "iterators d = 0" and "dictIsRehashing d"
  shows "returns (rehash_a_step hash d) (\<lambda>d'. \<not> dictIsRehashing d' \<or> ht_used (ht0 d') < ht_used (ht0 d))"
proof -
  obtain r d' where "dictRehash_loop hash 1 d = Some (r, d')"
    "if r = 0 then \<not> dictIsRehashing d' else dictIsRehashing d' \<and> ht_used (ht0 d') + 1 \<le> ht_used (ht0 d)"
    using dictRehash_loop_spec[OF assms(1,3), of 1] by (auto simp: returns_def split del: if_split)
  then show ?thesis using assms(2,3)
    by (cases "r = 0") (auto simp: rehash_a_step_def dictRehashStep_def dictRehash_def returns_def)
qed

lemma htFind_rehashes:
  "htFind hash key d = Some (e, d') \<Longrightarrow> ht_table (ht0 d) \<noteq> [] \<Longrightarrow> tables_ok hash d \<Longrightarrow> rehash_a_step hash d = Some d'"
  using tables_ok_size by (auto simp: htFind_def opt_bind split: if_splits)

lemma finds_end_rehashing:
  assumes "dict_ok hash d" and "iterators d = 0" and "length (dict_entries d) + length ks \<le> 2 ^ 29"
    and "dictIsRehashing d \<longrightarrow> ht_used (ht0 d) < length ks"
  shows "returns (dict_run hash (map OpFind ks) d) (\<lambda>(rs, d'). \<not> dictIsRehashing d')"
  using assms
proof (induction ks arbitrary: d)
  case Nil
  then show ?case by (simp add: wp)
next
  case (Cons k ks)
  obtain e d1 where f: "htFind hash k d = Some (e, d1)" "dict_keeps hash d d1" using htFind_spec[OF Cons.prems(1), of k] by (auto simp: returns_def)
  have d1: "dict_ok hash d1" "iterators d1 = 0" "length (dict_entries d1) = length (dict_entries d)"
    using dict_keeps_step[OF Cons.prems(1) f(2)] f(2) Cons.prems(2) by (simp_all add: dict_keeps_def)
  have pr: "dictIsRehashing d1 \<longrightarrow> ht_used (ht0 d1) < length ks"
  proof (cases "dictIsRehashing d")
    case True
    then have t: "ht_table (ht0 d) \<noteq> []" using tables_ok_unused[OF dict_okD(1)[OF Cons.prems(1)]] by auto
    have "rehash_a_step hash d = Some d1" by (rule htFind_rehashes[OF f(1) t dict_okD(1)[OF Cons.prems(1)]])
    then show ?thesis using rehash_a_step_progress[OF dict_okD(1)[OF Cons.prems(1)] Cons.prems(2) True] Cons.prems(4) True
      by (auto simp: returns_def)
  next
    case False
    then have "d1 = d" using f(1) by (auto simp: htFind_def rehash_a_step_def opt_bind split: if_splits)
    then show ?thesis using False by simp
  qed
  show ?case using Cons.IH[OF d1(1,2) _ pr] d1(3) Cons.prems(3) f(1)
    by (auto simp: dict_step_def dictFetchValue_def returns_def)
qed

text \<open>Property C22. Incremental rehashing comes to an end by itself: when no safe iterator is open, a number of searches greater than the
  number of entries still in the old table leaves the dictionary with one table and with the map it had. Every step moves
  a bucket that is not empty, however many empty ones it has to skip.\<close>

theorem rehashing_ends:
  assumes "dict_ok hash d" and "iterators d = 0" and "ht_used (ht0 d) < length ks" and "length (dict_entries d) + length ks \<le> 2 ^ 29"
  shows "returns (dict_run hash (map OpFind ks) d) (\<lambda>(rs, d').
    \<not> dictIsRehashing d' \<and> ht1 d' = dictReset \<and> dict_map d' = dict_map d \<and> rs = map (\<lambda>k. Found (dict_map d k)) ks)"
proof -
  have m: "map_run (map OpFind ks) m = (map (\<lambda>k. Found (m k)) ks, m)" for m :: "'a \<Rightarrow> 'b option"
    by (induction ks) (auto simp: map_step_def)
  obtain rs d' where r: "dict_run hash (map OpFind ks) d = Some (rs, d')" "dict_ok hash d'" "rs = map (\<lambda>k. Found (dict_map d k)) ks"
    "dict_map d' = dict_map d"
    using dict_run_refines[OF assms(1), of "map OpFind ks"] assms(4) m by (auto simp: returns_def)
  have "\<not> dictIsRehashing d'" using finds_end_rehashing[OF assms(1,2,4)] assms(3) r(1) by (auto simp: returns_def)
  moreover from this have "ht1 d' = dictReset" using dict_okD(1)[OF r(2)] by (auto simp: tables_ok_def dictIsRehashing_def split: if_splits)
  ultimately show ?thesis using r by (simp add: returns_def)
qed


text \<open>Five keys: the last insertion starts to rehash from four buckets to eight, and leaves four entries to move.\<close>

definition five_keys :: "(nat, nat) dict" where
  "five_keys = \<lparr>ht0 = \<lparr>ht_table = [[(0, 0)], [(1, 10)], [(2, 20)], [(3, 30)]], ht_size = 4, ht_sizemask = 3, ht_used = 4\<rparr>,
     ht1 = \<lparr>ht_table = [[], [], [], [], [(4, 40)], [], [], []], ht_size = 8, ht_sizemask = 7, ht_used = 1\<rparr>,
     rehashidx = 0, iterators = 0, can_resize = True\<rparr>"

lemma five_keys_ok: "dict_ok word_of_nat five_keys"
proof -
  have k: "mask 2 = (3 :: u64)" "mask 3 = (7 :: u64)" by (simp_all add: mask_eq_exp_minus_1)
  have n: "(\<forall>i<4. P i) \<longleftrightarrow> P 0 \<and> P 1 \<and> P 2 \<and> P 3"
    "(\<forall>i<8. P i) \<longleftrightarrow> P 0 \<and> P 1 \<and> P 2 \<and> P 3 \<and> P 4 \<and> P 5 \<and> P 6 \<and> P 7" for P :: "nat \<Rightarrow> bool"
    by (auto simp: eval_nat_numeral All_less_Suc)
  have b: "bucket 0 (ht0 five_keys) = 0" "bucket 1 (ht0 five_keys) = 1" "bucket 2 (ht0 five_keys) = 2" "bucket 3 (ht0 five_keys) = 3"
    "bucket 4 (ht1 five_keys) = 4"
    by (simp_all add: five_keys_def bucket_def)
  have s: "length (ht_table (ht0 five_keys)) = 4" "length (ht_table (ht1 five_keys)) = 8"
    "ht_size (ht0 five_keys) = 4" "ht_size (ht1 five_keys) = 8" "ht_sizemask (ht0 five_keys) = mask 2" "ht_sizemask (ht1 five_keys) = mask 3"
    "ht_used (ht0 five_keys) = 4" "ht_used (ht1 five_keys) = 1" "length (ht_entries (ht0 five_keys)) = 4" "length (ht_entries (ht1 five_keys)) = 1"
    by (simp_all add: five_keys_def k ht_entries_def)
  have t: "ht_table (ht0 five_keys) = [[(0, 0)], [(1, 10)], [(2, 20)], [(3, 30)]]" "ht_table (ht1 five_keys) = [[], [], [], [], [(4, 40)], [], [], []]"
    by (simp_all add: five_keys_def)
  have "\<forall>i<length (ht_table (ht0 five_keys)). \<forall>e\<in>set (ht_table (ht0 five_keys) ! i). bucket (word_of_nat (fst e)) (ht0 five_keys) = i"
    unfolding s n unfolding t using b by simp
  moreover have "\<forall>i<length (ht_table (ht1 five_keys)). \<forall>e\<in>set (ht_table (ht1 five_keys) ! i). bucket (word_of_nat (fst e)) (ht1 five_keys) = i"
    unfolding s n unfolding t using b by simp
  ultimately have "ht_ok word_of_nat (ht0 five_keys)" "ht_ok word_of_nat (ht1 five_keys)"
    unfolding ht_ok_def by (intro conjI exI[of _ 2] exI[of _ 3]; simp add: s)+
  moreover have "rehashidx five_keys = 0" by (simp add: five_keys_def)
  ultimately have "tables_ok word_of_nat five_keys" by (simp add: tables_ok_def t)
  then show ?thesis by (simp add: dict_ok_def) (simp add: five_keys_def dict_entries_def ht_entries_def)
qed

theorem rehashing_ends_witness:
  "dictIsRehashing five_keys \<and>
    returns (dict_run word_of_nat (map OpFind [7, 0, 1, 4, 3]) five_keys) (\<lambda>(rs, d).
      \<not> dictIsRehashing d \<and> rs = [Found None, Found (Some 0), Found (Some 10), Found (Some 40), Found (Some 30)])"
proof -
  have "iterators five_keys = 0" "ht_used (ht0 five_keys) < length [7, 0, 1, 4, 3 :: nat]"
    "length (dict_entries five_keys) + length [7, 0, 1, 4, 3 :: nat] \<le> 2 ^ 29" "dictIsRehashing five_keys"
    by (simp_all add: five_keys_def dict_entries_def ht_entries_def dictIsRehashing_def)
  note facts = this
  have m: "dict_map five_keys 7 = None" "dict_map five_keys 0 = Some 0" "dict_map five_keys 1 = Some 10"
    "dict_map five_keys 4 = Some 40" "dict_map five_keys 3 = Some 30"
    by (simp_all add: five_keys_def dict_map_def dict_entries_def ht_entries_def)
  have "returns (dict_run word_of_nat (map OpFind [7, 0, 1, 4, 3]) five_keys) (\<lambda>(rs, d).
      \<not> dictIsRehashing d \<and> rs = [Found None, Found (Some 0), Found (Some 10), Found (Some 40), Found (Some 30)])"
    by (rule returns_mono[OF rehashing_ends[OF five_keys_ok facts(1-3)]]) (clarsimp simp: m[simplified])
  then show ?thesis using facts(4) by blast
qed

end
