(* ===== verification/DictScan.thy ===== *)
theory DictScan
  imports Dict
begin

text \<open>
  The stateless iteration of dict.c: \<open>dictScan\<close>, whose cursor counts in the reversed bits of the bucket number, so that a scan can go on
  while the table grows. The guarantee is proved, with the condition under which it holds, and the case in which it fails.
\<close>

subsection \<open>Reversing the bits\<close>

text \<open>The loop of \<open>rev\<close>, with \<open>s\<close> halved before each round.\<close>

fun rev_loop :: "nat \<Rightarrow> u64 \<Rightarrow> u64 \<Rightarrow> u64" where
  "rev_loop s0 msk v =
     (let s = s0 div 2
      in if s > 0 then
           let msk = msk XOR push_bit s msk
           in rev_loop s msk ((drop_bit s v AND msk) OR (push_bit s v AND NOT msk))
         else v)"

declare rev_loop.simps [simp del]

definition rev64 :: "u64 \<Rightarrow> u64" where
  "rev64 v = rev_loop 64 (NOT 0) v"

definition rev_step :: "nat \<Rightarrow> u64 \<Rightarrow> u64 \<Rightarrow> u64" where
  "rev_step s msk v = (drop_bit s v AND msk) OR (push_bit s v AND NOT msk)"

lemma rev_loop_step:
  "s > 0 \<Longrightarrow> rev_loop (2 * s) msk v = rev_loop s (msk XOR push_bit s msk) (rev_step s (msk XOR push_bit s msk) v)"
  by (simp add: rev_loop.simps[of "2 * s"] rev_step_def Let_def)

lemma rev_masks:
  "(NOT 0 :: u64) XOR push_bit 32 (NOT 0) = 0x00000000FFFFFFFF"
  "(0x00000000FFFFFFFF :: u64) XOR push_bit 16 0x00000000FFFFFFFF = 0x0000FFFF0000FFFF"
  "(0x0000FFFF0000FFFF :: u64) XOR push_bit 8 0x0000FFFF0000FFFF = 0x00FF00FF00FF00FF"
  "(0x00FF00FF00FF00FF :: u64) XOR push_bit 4 0x00FF00FF00FF00FF = 0x0F0F0F0F0F0F0F0F"
  "(0x0F0F0F0F0F0F0F0F :: u64) XOR push_bit 2 0x0F0F0F0F0F0F0F0F = 0x3333333333333333"
  "(0x3333333333333333 :: u64) XOR push_bit 1 0x3333333333333333 = 0x5555555555555555"
  by code_simp+

lemma rev64_steps:
  "rev64 v = rev_step 1 0x5555555555555555 (rev_step 2 0x3333333333333333 (rev_step 4 0x0F0F0F0F0F0F0F0F
     (rev_step 8 0x00FF00FF00FF00FF (rev_step 16 0x0000FFFF0000FFFF (rev_step 32 0x00000000FFFFFFFF v)))))"
proof -
  have "rev_loop 1 m w = w" for m w by (subst rev_loop.simps) (simp add: Let_def)
  then show ?thesis
    using rev_loop_step[of 32 "NOT 0" v]
    unfolding rev64_def rev_masks
    by (simp add: rev_loop_step[of 16, simplified] rev_loop_step[of 8, simplified] rev_loop_step[of 4, simplified]
        rev_loop_step[of 2, simplified] rev_loop_step[of 1, simplified] rev_masks[unfolded One_nat_def] flip: One_nat_def del: push_bit_numeral)
qed

text \<open>A round moves bit \<open>i\<close> by \<open>s\<close> places, up or down.\<close>

lemma bit_rev_step:
  "i < 64 \<Longrightarrow> bit (rev_step s msk v) i = (if bit msk i then bit v (i + s) else s \<le> i \<and> bit v (i - s))"
  by (auto simp: rev_step_def bit_or_iff bit_and_iff bit_not_iff bit_drop_bit_eq bit_push_bit_iff ac_simps bit_imp_le_length)


definition rev_place :: "nat \<Rightarrow> u64 \<Rightarrow> nat \<Rightarrow> nat" where
  "rev_place s msk i = (if bit msk i then i + s else i - s)"

definition rev_places :: "nat \<Rightarrow> nat" where
  "rev_places i = rev_place 32 0x00000000FFFFFFFF (rev_place 16 0x0000FFFF0000FFFF (rev_place 8 0x00FF00FF00FF00FF
     (rev_place 4 0x0F0F0F0F0F0F0F0F (rev_place 2 0x3333333333333333 (rev_place 1 0x5555555555555555 i)))))"

text \<open>Each round stays within the word; checked for every place.\<close>

definition rev_stays :: "nat \<Rightarrow> u64 \<Rightarrow> bool" where
  "rev_stays s msk \<longleftrightarrow> (\<forall>i\<in>set [0..<64]. if bit msk i then i + s < 64 else s \<le> i)"

lemma rev_stays_all:
  "rev_stays 32 0x00000000FFFFFFFF" "rev_stays 16 0x0000FFFF0000FFFF" "rev_stays 8 0x00FF00FF00FF00FF"
  "rev_stays 4 0x0F0F0F0F0F0F0F0F" "rev_stays 2 0x3333333333333333" "rev_stays 1 0x5555555555555555"
  by code_simp+

lemma rev_places_eq: "\<forall>i\<in>set [0..<64]. rev_places i = 63 - i"
  by code_simp

lemma bit_rev_place:
  assumes "rev_stays s msk" and "i < 64"
  shows "bit (rev_step s msk v) i = bit v (rev_place s msk i) \<and> rev_place s msk i < 64"
proof -
  have "i \<in> set [0..<64]" using assms(2) by simp
  then have "if bit msk i then i + s < 64 else s \<le> i" using assms(1) unfolding rev_stays_def by blast
  then show ?thesis using bit_rev_step[OF assms(2), of s msk v] assms(2) by (cases "bit msk i") (simp_all add: rev_place_def)
qed

theorem bit_rev64: "i < 64 \<Longrightarrow> bit (rev64 v) i = bit v (63 - i)"
proof -
  assume i: "i < 64"
  have "bit (rev64 v) i = bit v (rev_places i)"
    unfolding rev64_steps rev_places_def
    using i by (simp add: bit_rev_place rev_stays_all del: One_nat_def)
  moreover have "i \<in> set [0..<64]" using i by simp
  then have "rev_places i = 63 - i" using rev_places_eq by blast
  ultimately show ?thesis by simp
qed

lemma rev64_rev64 [simp]: "rev64 (rev64 v) = v"
  by (rule bit_word_eqI) (simp add: bit_rev64)

lemma rev64_0 [simp]: "rev64 0 = 0"
  by (rule bit_word_eqI) (simp add: bit_rev64)

lemma rev64_zero: "unat (rev64 v) = 0 \<longleftrightarrow> v = 0"
  by (metis rev64_0 rev64_rev64 unsigned_0 unsigned_eq_0_iff)

lemma rev64_or: "rev64 (v OR w) = rev64 v OR rev64 w"
  by (rule bit_word_eqI) (simp add: bit_rev64 bit_or_iff)

lemma rev64_high: "k \<le> 64 \<Longrightarrow> rev64 (NOT (mask k)) = mask (64 - k)"
  by (rule bit_word_eqI) (auto simp: bit_rev64 bit_not_iff bit_mask_iff)

subsection \<open>The cursor in reversed order\<close>

lemma nat_drop: "unat (drop_bit j w) = unat w div 2 ^ j"
proof -
  have "unat (drop_bit j w) = drop_bit j (unat w)" by (rule unat_drop_bit_eq)
  then show ?thesis by (simp only: drop_bit_eq_div[of j "unat w"])
qed

text \<open>Two words are in the same bucket of a table of \<open>2 ^ k\<close> buckets when the first \<open>k\<close> bits of their reversals agree.\<close>

lemma same_bucket:
  assumes "k \<le> 64"
  shows "x AND mask k = v AND mask k \<longleftrightarrow> unat (rev64 x) div 2 ^ (64 - k) = unat (rev64 v) div 2 ^ (64 - k)"
proof -
  have "x AND mask k = v AND mask k \<longleftrightarrow> (\<forall>i<k. bit x i = bit v i)"
  proof
    assume eq: "x AND mask k = v AND mask k"
    show "\<forall>i<k. bit x i = bit v i"
    proof (intro allI impI)
      fix i assume "i < k"
      then have "bit (x AND mask k) i = bit x i" "bit (v AND mask k) i = bit v i" using assms by (simp_all add: bit_and_iff bit_mask_iff)
      then show "bit x i = bit v i" using eq by simp
    qed
  next
    assume "\<forall>i<k. bit x i = bit v i"
    then show "x AND mask k = v AND mask k" by (intro bit_word_eqI) (auto simp: bit_and_iff bit_mask_iff)
  qed
  also have "\<dots> \<longleftrightarrow> drop_bit (64 - k) (rev64 x) = drop_bit (64 - k) (rev64 v)"
  proof
    assume all: "\<forall>i<k. bit x i = bit v i"
    show "drop_bit (64 - k) (rev64 x) = drop_bit (64 - k) (rev64 v)"
    proof (rule bit_word_eqI)
      fix n assume n: "n < LENGTH(64)"
      show "bit (drop_bit (64 - k) (rev64 x)) n = bit (drop_bit (64 - k) (rev64 v)) n"
      proof (cases "64 - k + n < 64")
        case True
        then have "63 - (64 - k + n) < k" by linarith
        then show ?thesis using True all by (simp add: bit_drop_bit_eq bit_rev64)
      next
        case False
        then show ?thesis by (simp add: bit_drop_bit_eq impossible_bit)
      qed
    qed
  next
    assume eq: "drop_bit (64 - k) (rev64 x) = drop_bit (64 - k) (rev64 v)"
    show "\<forall>i<k. bit x i = bit v i"
    proof (intro allI impI)
      fix i assume i: "i < k"
      define n where "n = k - 1 - i"
      have n: "64 - k + n < 64" "63 - (64 - k + n) = i" using i assms by (auto simp: n_def)
      have "bit (drop_bit (64 - k) (rev64 w)) n = bit w i" for w using n by (simp add: bit_drop_bit_eq bit_rev64)
      then show "bit x i = bit v i" using eq by metis
    qed
  qed
  also have "\<dots> \<longleftrightarrow> unat (drop_bit (64 - k) (rev64 x)) = unat (drop_bit (64 - k) (rev64 v))" by (simp add: word_unat_eq_iff)
  finally show ?thesis by (simp add: nat_drop)
qed

text \<open>The last lines of \<open>dictScan\<close>.\<close>

definition scan_next :: "u64 \<Rightarrow> u64 \<Rightarrow> u64" where
  "scan_next m v = rev64 (rev64 (v OR NOT m) + 1)"

lemma or_mask_Suc:
  fixes w :: u64
  shows "(w OR mask j) + 1 = push_bit j (drop_bit j w) + 2 ^ j"
proof -
  have "w OR mask j = push_bit j (drop_bit j w) OR mask j"
    by (rule bit_word_eqI) (auto simp: bit_or_iff bit_mask_iff bit_push_bit_iff bit_drop_bit_eq)
  moreover have "push_bit j (drop_bit j w) AND mask j = 0"
    by (rule bit_word_eqI) (auto simp: bit_and_iff bit_mask_iff bit_push_bit_iff)
  ultimately have "w OR mask j = push_bit j (drop_bit j w) + mask j" by (simp add: disjunctive_add_eq_or)
  then show ?thesis by (simp add: mask_eq_exp_minus_1)
qed

lemma push_drop_nat: "j < 64 \<Longrightarrow> unat (push_bit j (drop_bit j w) :: u64) = unat w div 2 ^ j * 2 ^ j"
proof -
  assume j: "j < 64"
  have "unat w div 2 ^ j * 2 ^ j \<le> unat w" by simp
  moreover have "push_bit j (drop_bit j w) = word_of_nat (unat w div 2 ^ j * 2 ^ j)"
    by (simp add: push_bit_eq_mult flip: nat_drop)
  ultimately show ?thesis by (simp only: le_unat_uoi)
qed

text \<open>In the reversed order the cursor moves to the start of the next block of \<open>2 ^ (64 - k)\<close> numbers, and it keeps only \<open>k\<close> bits.\<close>

lemma scan_next_nat:
  assumes k: "1 \<le> k" "k \<le> 64"
  shows "unat (rev64 (scan_next (mask k) v)) = (unat (rev64 v) div 2 ^ (64 - k) + 1) * 2 ^ (64 - k) mod 2 ^ 64"
proof -
  let ?j = "64 - k"
  have j: "?j < 64" using k by simp
  have "(2 :: nat) ^ ?j < 2 ^ 64" using j by (intro power_strict_increasing) auto
  then have p: "unat (2 ^ ?j :: u64) = 2 ^ ?j" using unat_of_nat[where 'a = 64, of "2 ^ ?j"] by simp
  have "rev64 (scan_next (mask k) v) = push_bit ?j (drop_bit ?j (rev64 v)) + 2 ^ ?j"
    using k by (simp add: scan_next_def rev64_or rev64_high or_mask_Suc)
  then have "unat (rev64 (scan_next (mask k) v)) = (unat (rev64 v) div 2 ^ ?j * 2 ^ ?j + 2 ^ ?j) mod 2 ^ 64"
    using push_drop_nat[OF j, of "rev64 v"] p by (simp add: unat_word_ariths)
  then show ?thesis by (simp add: algebra_simps)
qed

lemma scan_next_low:
  assumes k: "1 \<le> k" "k \<le> 64"
  shows "scan_next (mask k) v AND NOT (mask k) = 0"
proof -
  let ?j = "64 - k"
  let ?r = "push_bit ?j (drop_bit ?j (rev64 v)) + 2 ^ ?j"
  have r: "scan_next (mask k) v = rev64 ?r" using k by (simp add: scan_next_def rev64_or rev64_high or_mask_Suc)
  have "?r = push_bit ?j (drop_bit ?j (rev64 v) + 1)" by (simp add: push_bit_add push_bit_eq_mult algebra_simps)
  then have low: "i < ?j \<Longrightarrow> \<not> bit ?r i" for i by (simp add: bit_push_bit_iff)
  show ?thesis unfolding r
  proof (rule bit_word_eqI)
    fix i assume "i < LENGTH(64)"
    then have i: "i < 64" by simp
    show "bit (rev64 ?r AND NOT (mask k)) i = bit 0 i"
    proof (cases "i < k")
      case True
      then show ?thesis by (simp add: bit_and_iff bit_not_iff bit_mask_iff)
    next
      case False
      then have "63 - i < ?j" using i k by linarith
      then show ?thesis using low[of "63 - i"] i by (simp add: bit_and_iff bit_rev64)
    qed
  qed
qed


subsection \<open>A call of the scan\<close>

definition scan_bucket :: "('k, 'v) dictht \<Rightarrow> u64 \<Rightarrow> ('k, 'v) entry list option" where
  "scan_bucket t v = ht_get t (unat (v AND ht_sizemask t))"

text \<open>Lines 1376 to 1389: the buckets of the larger table that a bucket of the smaller one expands to.\<close>

partial_function (option) scan_expand :: "('k, 'v) dictht \<Rightarrow> u64 \<Rightarrow> u64 \<Rightarrow> u64 \<Rightarrow> (('k, 'v) entry list \<times> u64) option" where
  "scan_expand t1 m0 m1 v =
     Option.bind (scan_bucket t1 v) (\<lambda>es.
       (let v1 = (((v OR m0) + 1) AND NOT m0) OR (v AND m0)
        in if v1 AND (m0 XOR m1) \<noteq> 0
           then Option.bind (scan_expand t1 m0 m1 v1) (\<lambda>(es1, v2). Some (es @ es1, v2))
           else Some (es, v1)))"

definition dictScan :: "('k, 'v) dict \<Rightarrow> u64 \<Rightarrow> (('k, 'v) entry list \<times> u64) option" where
  "dictScan d v =
     (if dictSize d = 0 then Some ([], 0)
      else if \<not> dictIsRehashing d then do {
        es \<leftarrow> scan_bucket (ht0 d) v;
        Some (es, scan_next (ht_sizemask (ht0 d)) v)
      }
      else do {
        let (t0, t1) = (if ht_size (ht0 d) > ht_size (ht1 d) then (ht1 d, ht0 d) else (ht0 d, ht1 d));
        es0 \<leftarrow> scan_bucket t0 v;
        (es1, v1) \<leftarrow> scan_expand t1 (ht_sizemask t0) (ht_sizemask t1) v;
        Some (es0 @ es1, scan_next (ht_sizemask t0) v1)
      })"

text \<open>A scan that sees the dictionary in a sequence of states.\<close>

primrec scan_run :: "('k, 'v) dict list \<Rightarrow> u64 \<Rightarrow> (('k, 'v) entry list \<times> u64) option" where
  "scan_run [] v = Some ([], v)"
| "scan_run (d # ds) v = do {
     (es, v1) \<leftarrow> dictScan d v;
     (out, v2) \<leftarrow> scan_run ds v1;
     Some (es @ out, v2)
   }"

subsection \<open>Buckets as remainders\<close>

lemma and_mask_mod: "unat (w AND mask k) = unat w mod 2 ^ k" for w :: "'a :: len word"
  by (simp add: unsigned_take_bit_eq flip: take_bit_eq_mask) (simp add: take_bit_eq_mod)

lemma bucket_mod: "ht_sizemask t = mask k \<Longrightarrow> bucket h t = unat h mod 2 ^ k"
proof -
  assume k: "ht_sizemask t = mask k"
  have "unat h < 2 ^ 32" using unsigned_less[of h] by simp
  then have "unat (ucast h :: u64) = unat h" by (simp add: unsigned_ucast_eq take_bit_nat_eq_self)
  then show ?thesis using k by (simp add: bucket_def and_mask_mod)
qed

lemma ht_level:
  assumes "ht_ok hash t"
  shows "\<exists>k. 2 \<le> k \<and> k \<le> 30 \<and> ht_size t = 2 ^ k \<and> ht_sizemask t = mask k \<and> length (ht_table t) = 2 ^ k"
  using assms by (auto simp: ht_ok_def)

lemma bucket_entries:
  assumes ok: "ht_ok hash t" and k: "ht_sizemask t = mask k" and i: "i < length (ht_table t)"
  shows "set (ht_table t ! i) = {e \<in> set (ht_entries t). unat (hash (fst e)) mod 2 ^ k = i}"
proof -
  have "e \<in> set (ht_table t ! i) \<longleftrightarrow> e \<in> set (ht_entries t) \<and> bucket (hash (fst e)) t = i" for e
    using ht_member[OF ok, of e] ht_okD(2)[OF ok i, of e] by metis
  then show ?thesis using bucket_mod[OF k] by auto
qed

lemma scan_bucket_spec:
  assumes ok: "ht_ok hash t" and k: "ht_sizemask t = mask k" "length (ht_table t) = 2 ^ k"
  shows "returns (scan_bucket t v) (\<lambda>es. set es = {e \<in> set (ht_entries t). unat (hash (fst e)) mod 2 ^ k = unat v mod 2 ^ k})"
proof -
  have "unat v mod 2 ^ k < length (ht_table t)" using k(2) by simp
  then show ?thesis using bucket_entries[OF ok k(1)] by (simp add: scan_bucket_def ht_get_def k(1) and_mask_mod returns_def)
qed

subsection \<open>Expanding a bucket\<close>

lemma nat64: "n < 2 ^ 64 \<Longrightarrow> unat (word_of_nat n :: u64) = n"
  by (simp add: unat_of_nat)

lemma expand_step:
  fixes v :: u64
  assumes "v = word_of_nat (low + i * 2 ^ k0)" and "low < 2 ^ k0" and "Suc i * 2 ^ k0 + low < 2 ^ 64"
  shows "(((v OR mask k0) + 1) AND NOT (mask k0)) OR (v AND mask k0) = word_of_nat (low + Suc i * 2 ^ k0)"
proof -
  have lt: "low + i * 2 ^ k0 < 2 ^ 64" using assms(3) by simp
  have un: "unat v = low + i * 2 ^ k0" unfolding assms(1) by (rule nat64[OF lt])
  have d: "drop_bit k0 v = word_of_nat i"
  proof -
    have "unat (drop_bit k0 v) = i" using nat_drop[of k0 v] un assms(2) by simp
    moreover have "i \<le> i * 2 ^ k0" by simp
    then have "i < 2 ^ 64" using lt by linarith
    ultimately show ?thesis by (simp add: word_unat_eq_iff nat64)
  qed
  have m: "v AND mask k0 = word_of_nat low"
  proof -
    have "unat (v AND mask k0) = low" using and_mask_mod[of v k0] un assms(2) by simp
    moreover have "low < 2 ^ 64" using lt by simp
    ultimately show ?thesis by (simp add: word_unat_eq_iff nat64)
  qed
  have a: "((v OR mask k0) + 1) = push_bit k0 (word_of_nat i + 1)" unfolding or_mask_Suc d by (simp add: push_bit_eq_mult algebra_simps)
  have b: "push_bit k0 w AND NOT (mask k0) = push_bit k0 w" for w :: u64
    by (rule bit_word_eqI) (auto simp: bit_and_iff bit_not_iff bit_mask_iff bit_push_bit_iff)
  have c: "push_bit k0 w OR (v AND mask k0) = push_bit k0 w + (v AND mask k0)" for w :: u64
  proof -
    have "push_bit k0 w AND (v AND mask k0) = 0" by (rule bit_word_eqI) (auto simp: bit_and_iff bit_mask_iff bit_push_bit_iff)
    then show ?thesis by (simp add: disjunctive_add_eq_or)
  qed
  show ?thesis unfolding a b c unfolding m by (simp add: push_bit_eq_mult algebra_simps)
qed

lemma expand_more:
  fixes v :: u64
  assumes "v = word_of_nat (low + i * 2 ^ k0)" and "low < 2 ^ k0" and "low + i * 2 ^ k0 < 2 ^ 64" and "i \<le> 2 ^ n"
  shows "v AND (mask k0 XOR mask (k0 + n)) \<noteq> 0 \<longleftrightarrow> 0 < i \<and> i < 2 ^ n"
proof -
  have un: "unat v = low + i * 2 ^ k0" unfolding assms(1) by (rule nat64[OF assms(3)])
  have "v AND (mask k0 XOR mask (k0 + n)) = push_bit k0 (drop_bit k0 v AND mask n)"
    by (rule bit_word_eqI) (auto simp: bit_and_iff bit_xor_iff bit_mask_iff bit_push_bit_iff bit_drop_bit_eq)
  moreover have "unat (drop_bit k0 v AND mask n) = i mod 2 ^ n" using nat_drop[of k0 v] un assms(2) by (simp add: and_mask_mod)
  moreover have "push_bit k0 (drop_bit k0 v AND mask n) = 0 \<longleftrightarrow> drop_bit k0 v AND mask n = 0"
  proof
    assume z: "push_bit k0 (drop_bit k0 v AND mask n) = 0"
    show "drop_bit k0 v AND mask n = 0"
    proof (rule bit_word_eqI)
      fix j assume "j < LENGTH(64)"
      show "bit (drop_bit k0 v AND mask n) j = bit 0 j"
      proof (cases "k0 + j < 64")
        case True
        then have "bit (push_bit k0 (drop_bit k0 v AND mask n)) (k0 + j) = bit (drop_bit k0 v AND mask n) j"
          by (simp only: bit_push_bit_iff) simp
        then show ?thesis unfolding z by simp
      next
        case False
        then show ?thesis by (simp add: bit_and_iff bit_drop_bit_eq impossible_bit)
      qed
    qed
  qed simp
  ultimately have "v AND (mask k0 XOR mask (k0 + n)) \<noteq> 0 \<longleftrightarrow> i mod 2 ^ n \<noteq> 0" by (simp add: unat_eq_zero flip: unat_eq_0)
  then show ?thesis using assms(4) by (cases "i = 2 ^ n") auto
qed


lemma scan_expand_spec:
  assumes ok: "ht_ok hash t1" and k1: "ht_sizemask t1 = mask (k0 + n)" "length (ht_table t1) = 2 ^ (k0 + n)" and K: "k0 + n \<le> 30"
    and low: "low < 2 ^ k0" and i: "i < 2 ^ n"
  shows "returns (scan_expand t1 (mask k0) (mask (k0 + n)) (word_of_nat (low + i * 2 ^ k0))) (\<lambda>(es, v').
    set es = {e \<in> set (ht_entries t1). unat (hash (fst e)) mod 2 ^ k0 = low \<and> i \<le> unat (hash (fst e)) mod 2 ^ (k0 + n) div 2 ^ k0} \<and>
    v' AND mask k0 = word_of_nat low)"
  using i
proof (induction "2 ^ n - i" arbitrary: i rule: less_induct)
  case less
  let ?X = "\<lambda>e. unat (hash (fst e))"
  let ?v = "word_of_nat (low + i * 2 ^ k0) :: u64"
  let ?v1 = "word_of_nat (low + Suc i * 2 ^ k0) :: u64"
  have "Suc i * 2 ^ k0 \<le> 2 ^ n * 2 ^ k0" using less.prems by (intro mult_le_mono1) simp
  also have "\<dots> = 2 ^ (k0 + n)" by (simp add: power_add)
  finally have le: "Suc i * 2 ^ k0 \<le> 2 ^ (k0 + n)" .
  have "(2 :: nat) ^ (k0 + n) \<le> 2 ^ 30" "(2 :: nat) ^ k0 \<le> 2 ^ 30"
    using power_increasing[OF K, of "2 :: nat"] power_increasing[of k0 30 "2 :: nat"] K by simp_all
  then have lt: "Suc i * 2 ^ k0 + low < 2 ^ 64" "low + Suc i * 2 ^ k0 < 2 ^ 64" "low + i * 2 ^ k0 < 2 ^ 64" using le low by simp_all
  have b: "low + i * 2 ^ k0 < 2 ^ (k0 + n)" using le low by simp
  obtain es where es: "scan_bucket t1 ?v = Some es" "set es = {e \<in> set (ht_entries t1). ?X e mod 2 ^ (k0 + n) = low + i * 2 ^ k0}"
  proof -
    have r: "unat ?v mod 2 ^ (k0 + n) = low + i * 2 ^ k0" unfolding nat64[OF lt(3)] using b by simp
    show ?thesis using that returnsD[OF scan_bucket_spec[OF ok k1, of ?v]] unfolding r by blast
  qed
  have idx: "?X e mod 2 ^ (k0 + n) = low + i * 2 ^ k0 \<longleftrightarrow> ?X e mod 2 ^ k0 = low \<and> ?X e mod 2 ^ (k0 + n) div 2 ^ k0 = i" for e
  proof -
    have m: "?X e mod 2 ^ (k0 + n) mod 2 ^ k0 = ?X e mod 2 ^ k0" by (simp add: mod_mod_cancel le_imp_power_dvd)
    show ?thesis
    proof
      assume "?X e mod 2 ^ (k0 + n) = low + i * 2 ^ k0"
      then show "?X e mod 2 ^ k0 = low \<and> ?X e mod 2 ^ (k0 + n) div 2 ^ k0 = i" using m low by simp
    next
      assume "?X e mod 2 ^ k0 = low \<and> ?X e mod 2 ^ (k0 + n) div 2 ^ k0 = i"
      then show "?X e mod 2 ^ (k0 + n) = low + i * 2 ^ k0"
        using m div_mult_mod_eq[of "?X e mod 2 ^ (k0 + n)" "2 ^ k0"] by (simp add: add.commute)
    qed
  qed
  have v1: "(((?v OR mask k0) + 1) AND NOT (mask k0)) OR (?v AND mask k0) = ?v1" by (rule expand_step[OF refl low lt(1)])
  have more: "?v1 AND (mask k0 XOR mask (k0 + n)) \<noteq> 0 \<longleftrightarrow> Suc i < 2 ^ n"
    using expand_more[OF refl low lt(2), of n] less.prems by simp
  show ?case
  proof (cases "Suc i < 2 ^ n")
    case True
    have "2 ^ n - Suc i < 2 ^ n - i" using less.prems by simp
    from less.hyps[OF this True] obtain es1 v' where r: "scan_expand t1 (mask k0) (mask (k0 + n)) ?v1 = Some (es1, v')"
      "set es1 = {e \<in> set (ht_entries t1). ?X e mod 2 ^ k0 = low \<and> Suc i \<le> ?X e mod 2 ^ (k0 + n) div 2 ^ k0}"
      "v' AND mask k0 = word_of_nat low" by (auto simp: returns_def)
    have "?v1 AND (mask k0 XOR mask (k0 + n)) \<noteq> 0" using more True by blast
    then have "scan_expand t1 (mask k0) (mask (k0 + n)) ?v = Some (es @ es1, v')"
      by (subst scan_expand.simps) (simp only: es(1) v1 Let_def simp_thms if_True r(1) Option.bind.bind_lunit prod.case)
    moreover have "set (es @ es1) = {e \<in> set (ht_entries t1). ?X e mod 2 ^ k0 = low \<and> i \<le> ?X e mod 2 ^ (k0 + n) div 2 ^ k0}"
      unfolding set_append es(2) r(2) idx by auto
    ultimately show ?thesis using r(3) by (simp only: returns_Some prod.case)
  next
    case False
    then have "\<not> ?v1 AND (mask k0 XOR mask (k0 + n)) \<noteq> 0" using more by blast
    then have run: "scan_expand t1 (mask k0) (mask (k0 + n)) ?v = Some (es, ?v1)"
      by (subst scan_expand.simps) (simp only: es(1) v1 Let_def simp_thms if_False Option.bind.bind_lunit)
    have "?X e mod 2 ^ (k0 + n) div 2 ^ k0 < 2 ^ n" for e by (simp add: less_mult_imp_div_less power_add mult.commute)
    then have "set es = {e \<in> set (ht_entries t1). ?X e mod 2 ^ k0 = low \<and> i \<le> ?X e mod 2 ^ (k0 + n) div 2 ^ k0}"
      unfolding es(2) idx using False less.prems by (auto simp: not_less le_Suc_eq) (metis Suc_lessI le_antisym less_Suc_eq_le)+
    moreover have "unat (?v1 AND mask k0) = low"
      unfolding and_mask_mod nat64[OF lt(2)] by (simp only: mod_mult_self1 mod_less[OF low])
    then have "?v1 AND mask k0 = word_of_nat low" using nat64[of low] lt by (simp add: word_unat_eq_iff)
    ultimately show ?thesis unfolding run by (simp only: returns_Some prod.case)
  qed
qed


subsection \<open>What a call returns\<close>

definition small_size :: "('k, 'v) dict \<Rightarrow> nat" where
  "small_size d = (if dictIsRehashing d then min (ht_size (ht0 d)) (ht_size (ht1 d)) else ht_size (ht0 d))"

text \<open>Both tables of a dictionary that rehashes, the smaller one first.\<close>

lemma scan_both:
  assumes ok0: "ht_ok hash t0" and ok1: "ht_ok hash t1" and le: "ht_size t0 \<le> ht_size t1"
    and k0: "ht_size t0 = 2 ^ k0" "ht_sizemask t0 = mask k0" and v: "unat v < 2 ^ k0"
  shows "returns (do { es0 \<leftarrow> scan_bucket t0 v; (es1, v1) \<leftarrow> scan_expand t1 (ht_sizemask t0) (ht_sizemask t1) v;
      Some (es0 @ es1, scan_next (ht_sizemask t0) v1) })
    (\<lambda>(es, v'). set es = {e \<in> set (ht_entries t0) \<union> set (ht_entries t1). unat (hash (fst e)) mod 2 ^ k0 = unat v mod 2 ^ k0} \<and>
      v' = scan_next (mask k0) v)"
proof -
  obtain k1 where k1: "2 \<le> k1" "k1 \<le> 30" "ht_size t1 = 2 ^ k1" "ht_sizemask t1 = mask k1" "length (ht_table t1) = 2 ^ k1"
    using ht_level[OF ok1] by blast
  have "k0 \<le> k1" using le k0(1) k1(3) power_le_imp_le_exp[of "2 :: nat" k0 k1] by simp
  then obtain n where n: "k1 = k0 + n" using le_Suc_ex by blast
  have len0: "length (ht_table t0) = 2 ^ k0" using ht_ok_size[OF ok0] k0(1) by simp
  obtain es0 where e0: "scan_bucket t0 v = Some es0"
    "set es0 = {e \<in> set (ht_entries t0). unat (hash (fst e)) mod 2 ^ k0 = unat v mod 2 ^ k0}"
    using scan_bucket_spec[OF ok0 k0(2) len0, of v] by (auto simp: returns_def)
  have vw: "word_of_nat (unat v + 0 * 2 ^ k0) = v" by simp
  obtain es1 v1 where e1: "scan_expand t1 (mask k0) (mask (k0 + n)) v = Some (es1, v1)"
    "set es1 = {e \<in> set (ht_entries t1). unat (hash (fst e)) mod 2 ^ k0 = unat v}" "v1 AND mask k0 = v"
  proof -
    have "returns (scan_expand t1 (mask k0) (mask (k0 + n)) v) (\<lambda>(es, v'). set es = {e \<in> set (ht_entries t1).
        unat (hash (fst e)) mod 2 ^ k0 = unat v \<and> 0 \<le> unat (hash (fst e)) mod 2 ^ (k0 + n) div 2 ^ k0} \<and> v' AND mask k0 = word_of_nat (unat v))"
      using scan_expand_spec[OF ok1 k1(4,5)[unfolded n] k1(2)[unfolded n] v, of 0] unfolding vw by simp
    then obtain r where r: "scan_expand t1 (mask k0) (mask (k0 + n)) v = Some r"
      "set (fst r) = {e \<in> set (ht_entries t1). unat (hash (fst e)) mod 2 ^ k0 = unat v}" "snd r AND mask k0 = word_of_nat (unat v)"
      unfolding returns_def by (auto simp: split_beta)
    then show ?thesis using that[of "fst r" "snd r"] by simp
  qed
  have or: "w OR NOT (mask k0) = (w AND mask k0) OR NOT (mask k0)" for w :: u64
    by (rule bit_word_eqI) (auto simp: bit_or_iff bit_and_iff bit_not_iff)
  have "v1 OR NOT (mask k0) = v OR NOT (mask k0)" using or[of v1] unfolding e1(3) .
  then have "scan_next (mask k0) v1 = scan_next (mask k0) v" unfolding scan_next_def by simp
  then have "do { es0 \<leftarrow> scan_bucket t0 v; (es1, v1) \<leftarrow> scan_expand t1 (ht_sizemask t0) (ht_sizemask t1) v;
      Some (es0 @ es1, scan_next (ht_sizemask t0) v1) } = Some (es0 @ es1, scan_next (mask k0) v)"
    by (simp add: k0(2) k1(4) n e0(1) e1(1))
  moreover have "set (es0 @ es1) = {e \<in> set (ht_entries t0) \<union> set (ht_entries t1). unat (hash (fst e)) mod 2 ^ k0 = unat v mod 2 ^ k0}"
    unfolding set_append e0(2) e1(2) mod_less[OF v] by blast
  ultimately show ?thesis by (simp only: returns_Some prod.case simp_thms)
qed

lemma dictScan_spec:
  assumes ok: "dict_ok hash d" and ne: "dict_entries d \<noteq> []"
  shows "\<exists>k. 2 \<le> k \<and> k \<le> 30 \<and> small_size d = 2 ^ k \<and> (\<forall>v. unat v < 2 ^ k \<longrightarrow>
    returns (dictScan d v) (\<lambda>(es, v'). set es = {e \<in> set (dict_entries d). unat (hash (fst e)) mod 2 ^ k = unat v mod 2 ^ k} \<and>
      v' = scan_next (mask k) v))"
proof -
  note tok = dict_okD(1)[OF ok]
  have t: "ht_table (ht0 d) \<noteq> []" using tables_ok_unused[OF tok] ne by blast
  note h0 = tables_okD(1)[OF tok t]
  obtain k0 where k0: "2 \<le> k0" "k0 \<le> 30" "ht_size (ht0 d) = 2 ^ k0" "ht_sizemask (ht0 d) = mask k0" "length (ht_table (ht0 d)) = 2 ^ k0"
    using ht_level[OF h0] by blast
  show ?thesis
  proof (cases "dictIsRehashing d")
    case False
    note h1 = tables_okD(3)[OF tok t False]
    have "dictSize d \<noteq> 0" using ne h1 ht_okD(1)[OF h0] by (simp add: dictSize_def dict_entries_def)
    then have run: "dictScan d v = (scan_bucket (ht0 d) v) \<bind> (\<lambda>es. Some (es, scan_next (mask k0) v))" for v
      using False by (simp add: dictScan_def k0(4))
    have "returns (dictScan d v) (\<lambda>(es, v'). set es = {e \<in> set (dict_entries d). unat (hash (fst e)) mod 2 ^ k0 = unat v mod 2 ^ k0} \<and>
      v' = scan_next (mask k0) v)" for v
      unfolding run using scan_bucket_spec[OF h0 k0(4,5), of v] h1 by (auto simp: returns_def dict_entries_def)
    moreover have "small_size d = 2 ^ k0" using k0(3) False by (simp add: small_size_def)
    ultimately show ?thesis using k0(1,2) by blast
  next
    case True
    note h1 = tables_okD(2)[OF tok t True]
    obtain k1 where k1: "2 \<le> k1" "k1 \<le> 30" "ht_size (ht1 d) = 2 ^ k1" "ht_sizemask (ht1 d) = mask k1" using ht_level[OF h1] by blast
    have sz: "dictSize d \<noteq> 0" using ne ht_okD(1)[OF h0] ht_okD(1)[OF h1] by (auto simp: dictSize_def dict_entries_def)
    show ?thesis
    proof (cases "ht_size (ht0 d) > ht_size (ht1 d)")
      case sm: True
      have "small_size d = 2 ^ k1" using sm True k1(3) by (simp add: small_size_def)
      moreover have "returns (dictScan d v) (\<lambda>(es, v'). set es = {e \<in> set (dict_entries d). unat (hash (fst e)) mod 2 ^ k1 = unat v mod 2 ^ k1} \<and>
        v' = scan_next (mask k1) v)" if "unat v < 2 ^ k1" for v
        using scan_both[OF h1 h0 less_imp_le[OF sm] k1(3,4) that] sz True sm
        by (simp add: dictScan_def dict_entries_def Un_commute)
      ultimately show ?thesis using k1 by blast
    next
      case sm: False
      have "small_size d = 2 ^ k0" using sm True k0(3) by (simp add: small_size_def)
      moreover have "returns (dictScan d v) (\<lambda>(es, v'). set es = {e \<in> set (dict_entries d). unat (hash (fst e)) mod 2 ^ k0 = unat v mod 2 ^ k0} \<and>
        v' = scan_next (mask k0) v)" if "unat v < 2 ^ k0" for v
        using scan_both[OF h0 h1 _ k0(3,4) that] sz True sm by (simp add: dictScan_def dict_entries_def)
      ultimately show ?thesis using k0 by blast
    qed
  qed
qed

subsection \<open>What a scan returns\<close>

text \<open>The place of a key in the order of the scan.\<close>

definition scan_place :: "u32 \<Rightarrow> nat" where
  "scan_place h = unat (rev64 (ucast h))"

lemma scan_place_bucket:
  assumes "k \<le> 64"
  shows "unat h mod 2 ^ k = unat v mod 2 ^ k \<longleftrightarrow> scan_place h div 2 ^ (64 - k) = unat (rev64 v) div 2 ^ (64 - k)"
proof -
  have "unat h < 2 ^ 32" using unsigned_less[of h] by simp
  then have "unat (ucast h :: u64) = unat h" by (simp add: unsigned_ucast_eq take_bit_nat_eq_self)
  then have "unat h mod 2 ^ k = unat v mod 2 ^ k \<longleftrightarrow> ucast h AND mask k = v AND mask k" by (simp add: word_unat_eq_iff and_mask_mod)
  then show ?thesis using same_bucket[OF assms, of "ucast h" v] by (simp add: scan_place_def)
qed

text \<open>A call that does not reach the key stays before it, and does not end the scan.\<close>

lemma scan_progress:
  assumes k: "1 \<le> k" "k \<le> 64" and le: "unat (rev64 v) \<le> scan_place h" and no: "unat h mod 2 ^ k \<noteq> unat v mod 2 ^ k"
  shows "unat (rev64 (scan_next (mask k) v)) \<le> scan_place h \<and> scan_next (mask k) v \<noteq> 0"
proof -
  let ?j = "64 - k"
  have ne: "scan_place h div 2 ^ ?j \<noteq> unat (rev64 v) div 2 ^ ?j" using scan_place_bucket[OF k(2), of h v] no by simp
  have "unat (rev64 v) div 2 ^ ?j \<le> scan_place h div 2 ^ ?j" using le by (rule div_le_mono)
  then have "unat (rev64 v) div 2 ^ ?j + 1 \<le> scan_place h div 2 ^ ?j" using ne by simp
  then have "(unat (rev64 v) div 2 ^ ?j + 1) * 2 ^ ?j \<le> scan_place h div 2 ^ ?j * 2 ^ ?j" by (rule mult_le_mono1)
  also have "\<dots> \<le> scan_place h" by simp
  finally have b: "(unat (rev64 v) div 2 ^ ?j + 1) * 2 ^ ?j \<le> scan_place h" .
  moreover have "scan_place h < 2 ^ 64" unfolding scan_place_def using unsigned_less[of "rev64 (ucast h)"] by simp
  ultimately have u: "unat (rev64 (scan_next (mask k) v)) = (unat (rev64 v) div 2 ^ ?j + 1) * 2 ^ ?j"
    using scan_next_nat[OF k, of v] by simp
  then have "unat (rev64 (scan_next (mask k) v)) \<noteq> 0" by simp
  then have "scan_next (mask k) v \<noteq> 0" by (metis rev64_0 unsigned_0)
  then show ?thesis using u b by simp
qed

lemma scan_next_less: "1 \<le> k \<Longrightarrow> k \<le> 64 \<Longrightarrow> unat (scan_next (mask k) v) < 2 ^ k"
proof -
  assume k: "1 \<le> k" "k \<le> 64"
  have "scan_next (mask k) v = scan_next (mask k) v AND mask k"
  proof (rule bit_word_eqI)
    fix i assume "i < LENGTH(64)"
    then have i: "i < 64" by simp
    show "bit (scan_next (mask k) v) i = bit (scan_next (mask k) v AND mask k) i"
      using arg_cong[OF scan_next_low[OF k, of v], of "\<lambda>w. bit w i"] i by (auto simp: bit_and_iff bit_not_iff bit_mask_iff)
  qed
  then show ?thesis using and_mask_mod[of "scan_next (mask k) v" k] by (metis mod_less_divisor zero_less_numeral zero_less_power)
qed

lemma scan_run_total:
  assumes "\<forall>d\<in>set ds. dict_ok hash d \<and> dict_entries d \<noteq> []" and "sorted (map small_size ds)" and "\<forall>d\<in>set ds. unat v < small_size d"
  shows "\<exists>r. scan_run ds v = Some r"
  using assms
proof (induction ds arbitrary: v)
  case (Cons d ds)
  have ok: "dict_ok hash d" "dict_entries d \<noteq> []" using Cons.prems(1) by auto
  obtain k where k: "2 \<le> k" "k \<le> 30" "small_size d = 2 ^ k"
    "unat v < 2 ^ k \<longrightarrow> returns (dictScan d v) (\<lambda>(es, v'). set es = {e \<in> set (dict_entries d). unat (hash (fst e)) mod 2 ^ k = unat v mod 2 ^ k} \<and>
      v' = scan_next (mask k) v)"
    using dictScan_spec[OF ok] by blast
  have "unat v < 2 ^ k" using Cons.prems(3) k(3) by simp
  then obtain es where es: "dictScan d v = Some (es, scan_next (mask k) v)" using k(4) by (auto simp: returns_def)
  have "\<forall>d'\<in>set ds. unat (scan_next (mask k) v) < small_size d'"
    using Cons.prems(2) scan_next_less[of k v] k(1-3) by fastforce
  then have "\<exists>r. scan_run ds (scan_next (mask k) v) = Some r" using Cons.IH Cons.prems(1,2) by simp
  then show ?case using es by auto
qed simp

lemma scan_run_reaches:
  assumes "\<forall>d\<in>set ds. dict_ok hash d \<and> dict_map d key \<noteq> None" and "sorted (map small_size ds)"
    and "\<forall>d\<in>set ds. unat v < small_size d" and "unat (rev64 v) \<le> scan_place (hash key)"
  shows "returns (scan_run ds v) (\<lambda>(out, v'). key \<in> fst ` set out \<or>
    unat (rev64 v') \<le> scan_place (hash key) \<and> (ds \<noteq> [] \<longrightarrow> v' \<noteq> 0))"
  using assms
proof (induction ds arbitrary: v)
  case Nil
  then show ?case by (simp add: wp)
next
  case (Cons d ds)
  have ok: "dict_ok hash d" "dict_map d key \<noteq> None" using Cons.prems(1) by auto
  then obtain x where x: "(key, x) \<in> set (dict_entries d)" by (auto simp: dict_map_def dest: map_of_SomeD)
  then have ne: "dict_entries d \<noteq> []" by auto
  obtain k where k: "2 \<le> k" "k \<le> 30" "small_size d = 2 ^ k"
    "unat v < 2 ^ k \<longrightarrow> returns (dictScan d v) (\<lambda>(es, v'). set es = {e \<in> set (dict_entries d). unat (hash (fst e)) mod 2 ^ k = unat v mod 2 ^ k} \<and>
      v' = scan_next (mask k) v)"
    using dictScan_spec[OF ok(1) ne] by blast
  have "unat v < 2 ^ k" using Cons.prems(3) k(3) by simp
  then obtain es where es: "dictScan d v = Some (es, scan_next (mask k) v)"
    "set es = {e \<in> set (dict_entries d). unat (hash (fst e)) mod 2 ^ k = unat v mod 2 ^ k}" using k(4) by (auto simp: returns_def)
  let ?v1 = "scan_next (mask k) v"
  have lt: "\<forall>d'\<in>set ds. unat ?v1 < small_size d'"
    using Cons.prems(2) scan_next_less[of k v] k(1-3) by fastforce
  show ?case
  proof (cases "unat (hash key) mod 2 ^ k = unat v mod 2 ^ k")
    case True
    then have hit: "key \<in> fst ` set es" using es(2) x by force
    have "\<forall>d\<in>set ds. dict_ok hash d \<and> dict_entries d \<noteq> []" using Cons.prems(1) by (auto simp: dict_map_def)
    then obtain out v' where "scan_run ds ?v1 = Some (out, v')" using scan_run_total[of ds hash ?v1, OF _ _ lt] Cons.prems(2) by auto
    then show ?thesis using hit es(1) by (auto simp: returns_def)
  next
    case False
    have p: "unat (rev64 ?v1) \<le> scan_place (hash key)" "?v1 \<noteq> 0" using scan_progress[OF _ _ Cons.prems(4) False] k(1,2) by simp_all
    have ih: "returns (scan_run ds ?v1) (\<lambda>(out, v'). key \<in> fst ` set out \<or> unat (rev64 v') \<le> scan_place (hash key) \<and> (ds \<noteq> [] \<longrightarrow> v' \<noteq> 0))"
      by (rule Cons.IH) (use Cons.prems(1,2) lt p(1) in auto)
    obtain out v' where o: "scan_run ds ?v1 = Some (out, v')"
      "key \<in> fst ` set out \<or> unat (rev64 v') \<le> scan_place (hash key) \<and> (ds \<noteq> [] \<longrightarrow> v' \<noteq> 0)" using ih by (auto simp: returns_def)
    have "v' \<noteq> 0 \<or> key \<in> fst ` set out" using o p(2) by (cases ds) auto
    then show ?thesis using o es(1) by (auto simp: returns_def)
  qed
qed


subsection \<open>Properties of a scan\<close>

text \<open>Property C19. The guarantee of \<open>dictScan\<close>: a scan that starts with cursor 0 and ends with cursor 0 has returned every key that was in the
  dictionary all the time, whatever was added, deleted or moved between the calls, as long as the smallest table never becomes
  smaller during the scan. No call reads outside a table, and the loop over the larger table ends.\<close>

theorem scan_complete:
  assumes "ds \<noteq> []" and "\<forall>d\<in>set ds. dict_ok hash d \<and> dict_map d key \<noteq> None" and "sorted (map small_size ds)"
  shows "returns (scan_run ds 0) (\<lambda>(out, v). v = 0 \<longrightarrow> key \<in> fst ` set out)"
proof -
  have "\<forall>d\<in>set ds. unat (0 :: u64) < small_size d"
  proof
    fix d assume "d \<in> set ds"
    then have "dict_ok hash d" "dict_entries d \<noteq> []" using assms(2) by (auto simp: dict_map_def)
    from dictScan_spec[OF this] obtain k where "small_size d = 2 ^ k" by blast
    then show "unat (0 :: u64) < small_size d" by simp
  qed
  from scan_run_reaches[OF assms(2,3) this] have "returns (scan_run ds 0) (\<lambda>(out, v'). key \<in> fst ` set out \<or>
    unat (rev64 v') \<le> scan_place (hash key) \<and> (ds \<noteq> [] \<longrightarrow> v' \<noteq> 0))" by simp
  then show ?thesis by (rule returns_mono) (use assms(1) in auto)
qed

lemma scan_run_sound:
  assumes "\<forall>d\<in>set ds. dict_ok hash d \<and> dict_entries d \<noteq> [] \<and> set (dict_entries d) = A" and "sorted (map small_size ds)"
    and "\<forall>d\<in>set ds. unat v < small_size d"
  shows "returns (scan_run ds v) (\<lambda>(out, v'). set out \<subseteq> A)"
  using assms
proof (induction ds arbitrary: v)
  case Nil
  then show ?case by (simp add: wp)
next
  case (Cons d ds)
  have ok: "dict_ok hash d" "dict_entries d \<noteq> []" "set (dict_entries d) = A" using Cons.prems(1) by auto
  obtain k where k: "2 \<le> k" "k \<le> 30" "small_size d = 2 ^ k"
    "unat v < 2 ^ k \<longrightarrow> returns (dictScan d v) (\<lambda>(es, v'). set es = {e \<in> set (dict_entries d). unat (hash (fst e)) mod 2 ^ k = unat v mod 2 ^ k} \<and>
      v' = scan_next (mask k) v)"
    using dictScan_spec[OF ok(1,2)] by blast
  have "unat v < 2 ^ k" using Cons.prems(3) k(3) by simp
  then obtain es where es: "dictScan d v = Some (es, scan_next (mask k) v)" "set es \<subseteq> A" using k(4) ok(3) by (auto simp: returns_def)
  have "\<forall>d'\<in>set ds. unat (scan_next (mask k) v) < small_size d'"
    using Cons.prems(2) scan_next_less[of k v] k(1-3) by fastforce
  then have "returns (scan_run ds (scan_next (mask k) v)) (\<lambda>(out, v'). set out \<subseteq> A)" using Cons.IH Cons.prems(1,2) by simp
  then show ?case using es by (auto simp: returns_def)
qed

lemma scan_replicate:
  assumes ok: "dict_ok hash d" and ne: "dict_entries d \<noteq> []" and k: "2 \<le> k" "k \<le> 30" "small_size d = 2 ^ k"
    and v: "unat v < 2 ^ k" "unat (rev64 v) = a * 2 ^ (64 - k)" and n: "a + n \<le> 2 ^ k"
  shows "returns (scan_run (replicate n d) v) (\<lambda>(out, v'). unat (rev64 v') = (a + n) * 2 ^ (64 - k) mod 2 ^ 64)"
  using v n
proof (induction n arbitrary: v a)
  case 0
  moreover have "unat (rev64 v) < 2 ^ 64" using unsigned_less[of "rev64 v"] by simp
  ultimately show ?case by (simp add: wp)
next
  case (Suc n)
  obtain k' where k': "small_size d = 2 ^ k'"
    "unat v < 2 ^ k' \<longrightarrow> returns (dictScan d v) (\<lambda>(es, v'). set es = {e \<in> set (dict_entries d). unat (hash (fst e)) mod 2 ^ k' = unat v mod 2 ^ k'} \<and>
      v' = scan_next (mask k') v)"
    using dictScan_spec[OF ok ne] by blast
  have "k' = k" using k(3) k'(1) by simp
  then obtain es where es: "dictScan d v = Some (es, scan_next (mask k) v)" using k'(2) Suc.prems(1) by (auto simp: returns_def)
  have p: "(2 :: nat) ^ k * 2 ^ (64 - k) = 2 ^ 64" using k(1,2) by (simp flip: power_add)
  have u: "unat (rev64 (scan_next (mask k) v)) = (a + 1) * 2 ^ (64 - k) mod 2 ^ 64"
    using scan_next_nat[of k v] k(1,2) Suc.prems(2) by simp
  show ?case
  proof (cases "n = 0")
    case True
    then show ?thesis using es u by (simp add: returns_def)
  next
    case False
    then have "a + 1 < 2 ^ k" using Suc.prems(3) by simp
    then have "(a + 1) * 2 ^ (64 - k) < 2 ^ k * 2 ^ (64 - k)" by (intro mult_strict_right_mono) auto
    then have u': "unat (rev64 (scan_next (mask k) v)) = (a + 1) * 2 ^ (64 - k)" using u p by simp
    have lt: "unat (scan_next (mask k) v) < 2 ^ k" using scan_next_less[of k v] k(1,2) by simp
    have "returns (scan_run (replicate n d) (scan_next (mask k) v)) (\<lambda>(out, v'). unat (rev64 v') = (a + 1 + n) * 2 ^ (64 - k) mod 2 ^ 64)"
      by (rule Suc.IH[OF lt u']) (use Suc.prems(3) in simp)
    then show ?thesis using es by (auto simp: returns_def)
  qed
qed

text \<open>Property C21. A scan of a dictionary that does not change ends after as many calls as its smallest table has buckets, not before, and has then
  returned exactly the entries of the dictionary, also in the middle of rehashing.\<close>

theorem scan_ends:
  assumes "dict_ok hash d" and "dict_entries d \<noteq> []"
  shows "returns (scan_run (replicate (small_size d) d) 0) (\<lambda>(out, v). v = 0 \<and> set out = set (dict_entries d)) \<and>
    (\<forall>n. 0 < n \<and> n < small_size d \<longrightarrow> returns (scan_run (replicate n d) 0) (\<lambda>(out, v). v \<noteq> 0))"
proof -
  obtain k where k: "2 \<le> k" "k \<le> 30" "small_size d = 2 ^ k" using dictScan_spec[OF assms] by blast
  have p: "(2 :: nat) ^ k * 2 ^ (64 - k) = 2 ^ 64" using k(1,2) by (simp flip: power_add)
  have r: "returns (scan_run (replicate n d) 0) (\<lambda>(out, v'). unat (rev64 v') = n * 2 ^ (64 - k) mod 2 ^ 64)" if "n \<le> 2 ^ k" for n
    using scan_replicate[OF assms k, of 0 0 n] that by simp
  note z = rev64_zero[symmetric]
  let ?ds = "replicate (small_size d) d"
  have all: "\<forall>d'\<in>set ?ds. dict_ok hash d' \<and> dict_entries d' \<noteq> [] \<and> set (dict_entries d') = set (dict_entries d)" "sorted (map small_size ?ds)"
    "\<forall>d'\<in>set ?ds. unat (0 :: u64) < small_size d'" using assms k(3) by (auto simp: sorted_replicate)
  obtain out v where o: "scan_run ?ds 0 = Some (out, v)" "v = 0"
    using r[of "2 ^ k"] z by (auto simp: returns_def k(3) p)
  have sub: "set out \<subseteq> set (dict_entries d)" using scan_run_sound[OF all] o(1) by (auto simp: returns_def)
  have "e \<in> set out" if e: "e \<in> set (dict_entries d)" for e
  proof -
    have "dict_map d (fst e) \<noteq> None" using e by (auto simp: dict_map_def map_of_eq_None_iff)
    then have "\<forall>d'\<in>set ?ds. dict_ok hash d' \<and> dict_map d' (fst e) \<noteq> None" using assms(1) by simp
    moreover have "\<forall>d'\<in>set ?ds. unat (0 :: u64) < small_size d'" "?ds \<noteq> []" using all(3) k(3) by auto
    ultimately have "fst e \<in> fst ` set out"
      using returnsD[OF scan_run_reaches[of ?ds hash "fst e" 0]] all(2) o by auto
    then obtain e' where e': "e' \<in> set out" "fst e' = fst e" by auto
    then have "e' = e" using sub e dict_okD(2)[OF assms(1)] by (metis subsetD eq_key_imp_eq_value prod.collapse)
    then show ?thesis using e'(1) by simp
  qed
  then have "returns (scan_run ?ds 0) (\<lambda>(out, v). v = 0 \<and> set out = set (dict_entries d))" using o sub by (auto simp: returns_def)
  moreover have "returns (scan_run (replicate n d) 0) (\<lambda>(out, v). v \<noteq> 0)" if n: "0 < n" "n < small_size d" for n
  proof (rule returns_mono[OF r])
    show "n \<le> 2 ^ k" using n k(3) by simp
  next
    fix x :: "('a, 'b) entry list \<times> u64"
    assume x: "case x of (out, v') \<Rightarrow> unat (rev64 v') = n * 2 ^ (64 - k) mod 2 ^ 64"
    have "n * 2 ^ (64 - k) < 2 ^ k * 2 ^ (64 - k)" using n k(3) by (intro mult_strict_right_mono) auto
    then have "n * 2 ^ (64 - k) mod 2 ^ 64 \<noteq> 0" using p n(1) by simp
    then show "case x of (out, v) \<Rightarrow> v \<noteq> 0" using x z by auto
  qed
  ultimately show ?thesis by blast
qed


theorem scan_complete_witness:
  "returns (scan_run (replicate 4 five_keys) 0) (\<lambda>(out, v). v = 0 \<and> 3 \<in> fst ` set out)"
proof -
  have sz: "small_size five_keys = 4" by (simp add: small_size_def five_keys_def dictIsRehashing_def)
  have ne: "dict_entries five_keys \<noteq> []" by (simp add: five_keys_def dict_entries_def ht_entries_def)
  have k: "dict_map five_keys 3 \<noteq> None" by (simp add: five_keys_def dict_map_def dict_entries_def ht_entries_def)
  obtain out v where o: "scan_run (replicate 4 five_keys) 0 = Some (out, v)" "unat (rev64 v) = 0"
    using scan_replicate[OF five_keys_ok ne, of 2 0 0 4] sz by (auto simp: returns_def)
  have "returns (scan_run (replicate 4 five_keys) 0) (\<lambda>(out, v). v = 0 \<longrightarrow> 3 \<in> fst ` set out)"
    by (rule scan_complete) (use five_keys_ok k in \<open>auto simp: sorted_replicate\<close>)
  then show ?thesis using o rev64_zero[of v] by (simp add: wp)
qed

theorem scan_ends_witness:
  "returns (scan_run (replicate 4 five_keys) 0)
    (\<lambda>(out, v). v = 0 \<and> set out = {(0, 0), (1, 10), (2, 20), (3, 30), (4, 40)})"
proof -
  have sz: "small_size five_keys = 4" by (simp add: small_size_def five_keys_def dictIsRehashing_def)
  have e: "set (dict_entries five_keys) = {(0, 0), (1, 10), (2, 20), (3, 30), (4, 40)}"
    by (auto simp: five_keys_def dict_entries_def ht_entries_def)
  then have ne: "dict_entries five_keys \<noteq> []" by auto
  show ?thesis using conjunct1[OF scan_ends[OF five_keys_ok ne]] unfolding sz e .
qed

text \<open>One key among sixteen buckets.\<close>

definition sixteen :: "(nat, nat) dict" where
  "sixteen = \<lparr>ht0 = \<lparr>ht_table = (replicate 16 [])[4 := [(4, 40)]], ht_size = 16, ht_sizemask = 15, ht_used = 1\<rparr>, ht1 = dictReset,
     rehashidx = -1, iterators = 0, can_resize = True\<rparr>"

definition sixteen_to_four :: "(nat, nat) dict" where
  "sixteen_to_four = sixteen\<lparr>ht1 := \<lparr>ht_table = replicate 4 [], ht_size = 4, ht_sizemask = 3, ht_used = 0\<rparr>, rehashidx := 0\<rparr>"

lemma sixteen_ok: "dict_ok word_of_nat sixteen"
proof -
  have n: "(\<forall>i<16. P i) \<longleftrightarrow> P 0 \<and> P 1 \<and> P 2 \<and> P 3 \<and> P 4 \<and> P 5 \<and> P 6 \<and> P 7 \<and> P 8 \<and> P 9 \<and> P 10 \<and> P 11 \<and> P 12 \<and> P 13 \<and> P 14 \<and> P 15"
    for P :: "nat \<Rightarrow> bool" by (auto simp: eval_nat_numeral All_less_Suc)
  have s: "length (ht_table (ht0 sixteen)) = 16" "ht_size (ht0 sixteen) = 2 ^ 4" "ht_sizemask (ht0 sixteen) = mask 4"
    "ht_used (ht0 sixteen) = 1" "ht_entries (ht0 sixteen) = [(4, 40)]"
    by (simp_all add: sixteen_def mask_eq_exp_minus_1 ht_entries_def eval_nat_numeral)
  have b: "bucket 4 (ht0 sixteen) = 4" by (simp add: sixteen_def bucket_def)
  have "ht_table (ht0 sixteen) ! i = (if i = 4 then [(4, 40)] else [])" if "i < 16" for i
    using that by (simp add: sixteen_def nth_list_update)
  then have "\<forall>i<length (ht_table (ht0 sixteen)). \<forall>e\<in>set (ht_table (ht0 sixteen) ! i). bucket (word_of_nat (fst e)) (ht0 sixteen) = i"
    using b s(1) by simp
  then have "ht_ok word_of_nat (ht0 sixteen)" unfolding ht_ok_def by (intro conjI exI[of _ 4]) (simp_all add: s)
  moreover have "ht1 sixteen = dictReset" "rehashidx sixteen = -1" by (simp_all add: sixteen_def)
  ultimately show ?thesis using s(1,5) by (auto simp: dict_ok_def tables_ok_def dict_entries_def)
qed

lemma sixteen_resize: "dictResize sixteen = (DICT_OK, sixteen_to_four)"
proof -
  have "next_power 4 4 = 4" by (simp add: next_power.simps[of 4 4])
  then have "dictNextPower 4 = 4" by (simp add: dictNextPower_def DICT_HT_INITIAL_SIZE_def)
  then show ?thesis
    by (simp add: dictResize_def dictExpand_def Let_def sixteen_to_four_def DICT_HT_INITIAL_SIZE_def)
      (simp add: sixteen_def dictIsRehashing_def max_def)
qed

lemma rev64_power: "i < 64 \<Longrightarrow> rev64 (2 ^ i) = 2 ^ (63 - i)"
  by (rule bit_word_eqI) (auto simp: bit_rev64 bit_exp_iff)

lemma sixteen_next:
  "scan_next 15 0 = 8" "scan_next 3 16 = 2" "scan_next 3 18 = 1" "scan_next 3 17 = 3" "scan_next 3 19 = 0"
proof -
  have m: "mask 4 = (15 :: u64)" "mask 2 = (3 :: u64)" by (simp_all add: mask_eq_exp_minus_1)
  have r: "rev64 (NOT 15) = mask 60" "rev64 (NOT 3) = mask 62"
    using rev64_high[of 4] rev64_high[of 2] unfolding m by simp_all
  have p: "rev64 1 = 0x8000000000000000" "rev64 2 = 0x4000000000000000" "rev64 0x1000000000000000 = 8" "rev64 0x4000000000000000 = 2"
    "rev64 0x8000000000000000 = 1"
    using rev64_power[of 0] rev64_power[of 1] rev64_power[of 60] rev64_power[of 62] rev64_power[of 63] by simp_all
  have o: "(16 OR NOT 3 :: u64) = NOT 3" "(18 OR NOT 3 :: u64) = 2 OR NOT 3" "(17 OR NOT 3 :: u64) = 1 OR NOT 3" "(19 OR NOT 3 :: u64) = (1 OR 2) OR NOT 3"
    "(0xC000000000000000 :: u64) = 0x8000000000000000 OR 0x4000000000000000"
    by simp_all
  have s: "(mask 60 + 1 :: u64) = 0x1000000000000000" "(mask 62 + 1 :: u64) = 0x4000000000000000"
    "((0x4000000000000000 OR mask 62) + 1 :: u64) = 0x8000000000000000" "((0x8000000000000000 OR mask 62) + 1 :: u64) = 0xC000000000000000"
    "(((0x8000000000000000 OR 0x4000000000000000) OR mask 62) + 1 :: u64) = 0"
    by (simp_all add: mask_eq_exp_minus_1)
  show "scan_next 15 0 = 8" unfolding scan_next_def or.left_neutral r s p ..
  show "scan_next 3 16 = 2" unfolding scan_next_def o(1) r s p ..
  show "scan_next 3 18 = 1" unfolding scan_next_def o(2) rev64_or r p s ..
  show "scan_next 3 17 = 3" unfolding scan_next_def o(3) rev64_or r p s(4) o(5) by (simp add: rev64_or p)
  show "scan_next 3 19 = 0" unfolding scan_next_def o(4) rev64_or r p s(5) by simp
qed

lemma sixteen_bucket:
  "scan_bucket (ht0 sixteen_to_four) v = Some (if v AND 15 = 4 then [(4, 40)] else [])" "scan_bucket (ht1 sixteen_to_four) v = Some []"
  "scan_bucket (ht0 sixteen) v = Some (if v AND 15 = 4 then [(4, 40)] else [])"
proof -
  have "unat (v AND mask k) < 2 ^ k" for k unfolding and_mask_mod by simp
  from this[of 4] this[of 2] have lt: "unat (v AND 15) < 16" "unat (v AND 3) < 4" by (simp_all add: mask_eq_exp_minus_1)
  have four: "unat (v AND 15) = 4 \<longleftrightarrow> v AND 15 = 4" by (simp add: word_unat_eq_iff)
  show "scan_bucket (ht0 sixteen_to_four) v = Some (if v AND 15 = 4 then [(4, 40)] else [])"
    "scan_bucket (ht0 sixteen) v = Some (if v AND 15 = 4 then [(4, 40)] else [])" "scan_bucket (ht1 sixteen_to_four) v = Some []"
    using lt four by (simp_all add: scan_bucket_def ht_get_def sixteen_to_four_def sixteen_def nth_list_update)
qed

text \<open>Property C20. The guarantee fails when the table shrinks: a key that is in the dictionary from the first to the last call is never
  returned. After the first call the cursor is 8; the table of 16 buckets then starts to be rehashed into one of 4, and the next call
  visits buckets 8 and 12 of the old table, but not bucket 4, because the loop over the larger table counts up from the cursor in the
  ordinary order while the cursor counts in the reversed one.\<close>

theorem scan_misses_while_shrinking:
  "dict_ok word_of_nat sixteen \<and> dictResize sixteen = (DICT_OK, sixteen_to_four) \<and>
    dict_map sixteen 4 = Some 40 \<and> dict_map sixteen_to_four 4 = Some 40 \<and>
    scan_run [sixteen, sixteen_to_four, sixteen_to_four, sixteen_to_four, sixteen_to_four] 0 = Some ([], 0)"
proof -
  have m: "dict_entries sixteen = [(4, 40)]" "dict_entries sixteen_to_four = [(4, 40)]"
    by (simp_all add: sixteen_to_four_def sixteen_def dict_entries_def ht_entries_def eval_nat_numeral)
  have f: "dictSize sixteen = 1" "\<not> dictIsRehashing sixteen" "ht_sizemask (ht0 sixteen) = 15"
    "dictSize sixteen_to_four = 1" "dictIsRehashing sixteen_to_four" "ht_size (ht0 sixteen_to_four) = 16" "ht_size (ht1 sixteen_to_four) = 4"
    "ht_sizemask (ht0 sixteen_to_four) = 15" "ht_sizemask (ht1 sixteen_to_four) = 3"
    by (simp_all add: sixteen_to_four_def sixteen_def dictSize_def dictIsRehashing_def)
  have c1: "dictScan sixteen 0 = Some ([], 8)" by (simp add: dictScan_def f sixteen_bucket sixteen_next)
  have c2: "dictScan sixteen_to_four 8 = Some ([], 2)" "dictScan sixteen_to_four 2 = Some ([], 1)"
    "dictScan sixteen_to_four 1 = Some ([], 3)" "dictScan sixteen_to_four 3 = Some ([], 0)"
    by (simp_all add: dictScan_def f sixteen_bucket sixteen_next scan_expand.simps Let_def)
  show ?thesis using sixteen_ok sixteen_resize c1 c2 by (simp add: dict_map_def m)
qed

end
