(* ===== verification/ClusterStream.thy ===== *)
theory ClusterStream
  imports ClusterPacket
begin

text \<open>
  The byte streams of the cluster bus: \<open>clusterReadHandler\<close>, which cuts what a socket delivers into packets, \<open>clusterWriteHandler\<close> and the
  output buffer, and \<open>sdsrange\<close>.

  A socket is the list of the chunks it will deliver: a call of \<open>read\<close> takes at most the number of bytes asked for from the first chunk; no
  chunk is EAGAIN, an empty one the end of the stream or an error. The receive buffer is the list of its bytes. What the handler does with a packet
  and with a broken link are the arguments \<open>proc\<close> and \<open>broken\<close>, which \<open>clusterReadHandler\<close> sets to \<open>clusterProcessPacket\<close> on the header that
  \<open>decode\<close> reads from the buffer (the layout the compiler gives to \<open>clusterMsg\<close>) and to \<open>freeClusterLink\<close>.
\<close>

subsection \<open>Reading\<close>

datatype 's stream = Waiting bytes 's | Gone 's

text \<open>\<open>ntohl(hdr->totlen)\<close>.\<close>

definition totlen :: "bytes \<Rightarrow> nat" where
  "totlen rcv = foldl (\<lambda>a b. a * 256 + unat b) 0 (take 4 (drop 4 rcv))"

definition bad_header :: "bytes \<Rightarrow> bool" where
  "bad_header rcv \<longleftrightarrow> take 4 rcv \<noteq> str ''RCmb'' \<or> totlen rcv < unat CLUSTERMSG_MIN_LEN"

text \<open>A \<open>size_t\<close> stored in an \<open>int\<close>.\<close>

definition int_of_size :: "nat \<Rightarrow> int" where
  "int_of_size n = sint (word_of_nat n :: 32 word)"

text \<open>The number of bytes to ask for, lines 2740 to 2764. The difference is computed in 32 bits, stored in an \<open>int\<close>, and compared with
  \<open>sizeof(buf)\<close> as an unsigned number.\<close>

definition read_size :: "bytes \<Rightarrow> int" where
  "read_size rcv =
     (let rcvbuflen = int_of_size (length rcv)
      in if rcvbuflen < 8 then 8 - rcvbuflen
         else let readlen = sint (word_of_nat (totlen rcv) - word_of_int rcvbuflen :: 32 word)
              in if readlen < 0 \<or> readlen > int (unat sizeof_clusterMsg) then int (unat sizeof_clusterMsg) else readlen)"

text \<open>The loop of \<open>clusterReadHandler\<close>. A read that writes past the end of the local buffer is undefined.\<close>

function read_loop :: "(bytes \<Rightarrow> 's \<Rightarrow> (bool \<times> 's) option) \<Rightarrow> ('s \<Rightarrow> 's option) \<Rightarrow> bytes \<Rightarrow> bytes list \<Rightarrow> 's \<Rightarrow> 's stream option" where
  "read_loop proc broken rcv chunks s =
     (if int_of_size (length rcv) = 8 \<and> bad_header rcv then map_option Gone (broken s)
      else (case chunks of
          [] \<Rightarrow> Some (Waiting rcv s)
        | c # cs \<Rightarrow>
            let got = take (nat (read_size rcv)) c;
                rest = (if length c \<le> length got then cs else drop (length got) c # cs);
                rcv1 = rcv @ got
            in if length got > unat sizeof_clusterMsg then None
               else if got = [] then map_option Gone (broken s)
               else if int_of_size (length rcv1) \<ge> 8 \<and> length rcv1 = totlen rcv1
                 then (case proc rcv1 s of
                     None \<Rightarrow> None
                   | Some (valid, s1) \<Rightarrow> if valid then read_loop proc broken [] rest s1 else Some (Gone s1))
                 else read_loop proc broken rcv1 rest s))"
  by pat_completeness auto
termination
  by (relation "measure (\<lambda>(proc, broken, rcv, chunks, s). length (concat chunks))") (auto split: if_splits)

declare read_loop.simps [simp del]

definition clusterReadHandler :: "(bytes \<Rightarrow> clusterMsg) \<Rightarrow> ptr \<Rightarrow> bytes \<Rightarrow> bytes list \<Rightarrow> server \<Rightarrow> server stream option" where
  "clusterReadHandler decode link =
     read_loop (\<lambda>rcv. clusterProcessPacket link (length rcv) (decode rcv)) (freeClusterLink link)"

text \<open>Calls of the handler, each with what the socket has for it.\<close>

definition read_again :: "(bytes \<Rightarrow> 's \<Rightarrow> (bool \<times> 's) option) \<Rightarrow> ('s \<Rightarrow> 's option) \<Rightarrow> bytes list \<Rightarrow> 's stream \<Rightarrow> 's stream option" where
  "read_again proc broken chunks st = (case st of Waiting rcv s \<Rightarrow> read_loop proc broken rcv chunks s | Gone s \<Rightarrow> Some (Gone s))"

subsection \<open>Writing\<close>

definition sdsrange :: "bytes \<Rightarrow> int \<Rightarrow> int \<Rightarrow> bytes" where
  "sdsrange s start0 end0 =
     (if s = [] then s
      else let len = int (length s);
               start = (if start0 < 0 then max 0 (len + start0) else start0);
               stop = (if end0 < 0 then max 0 (len + end0) else end0);
               newlen = (if start > stop then 0 else stop - start + 1)
           in if newlen = 0 then []
              else if start \<ge> len then []
              else if stop \<ge> len then take (nat (if start > len - 1 then 0 else len - 1 - start + 1)) (drop (nat start) s)
              else take (nat newlen) (drop (nat start) s))"

text \<open>\<open>clusterSendMessage\<close> on the buffer, and \<open>clusterWriteHandler\<close> when \<open>write\<close> takes \<open>n\<close> bytes of it: what is written, the buffer, and whether the
  handler stays installed. \<open>None\<close> is a broken link.\<close>

definition send_buffer :: "bytes \<Rightarrow> bytes \<Rightarrow> bytes" where
  "send_buffer sndbuf msg = sndbuf @ msg"

definition clusterWriteHandler :: "nat \<Rightarrow> bytes \<Rightarrow> (bytes \<times> bytes \<times> bool) option" where
  "clusterWriteHandler n sndbuf =
     (let nwritten = min n (length sndbuf)
      in if nwritten = 0 then None
         else let sndbuf1 = sdsrange sndbuf (int nwritten) (-1)
              in Some (take nwritten sndbuf, sndbuf1, sndbuf1 \<noteq> []))"

subsection \<open>Byte by byte\<close>

text \<open>The reference: a packet is complete with its last byte, and a bad header is rejected with its eighth byte.\<close>

definition packet_end :: "(bytes \<Rightarrow> 's \<Rightarrow> (bool \<times> 's) option) \<Rightarrow> ('s \<Rightarrow> 's option) \<Rightarrow> bytes \<Rightarrow> 's \<Rightarrow> 's stream option" where
  "packet_end proc broken rcv s =
     (if 8 \<le> length rcv \<and> length rcv = totlen rcv
      then do { (valid, s1) \<leftarrow> proc rcv s; Some (if valid then Waiting [] s1 else Gone s1) }
      else if length rcv = 8 \<and> bad_header rcv then map_option Gone (broken s)
      else Some (Waiting rcv s))"

definition feed_byte :: "(bytes \<Rightarrow> 's \<Rightarrow> (bool \<times> 's) option) \<Rightarrow> ('s \<Rightarrow> 's option) \<Rightarrow> u8 \<Rightarrow> 's stream \<Rightarrow> 's stream option" where
  "feed_byte proc broken b st = (case st of Waiting rcv s \<Rightarrow> packet_end proc broken (rcv @ [b]) s | Gone s \<Rightarrow> Some (Gone s))"

definition stream_ok :: "bytes \<Rightarrow> bool" where
  "stream_ok rcv \<longleftrightarrow> length rcv < 8 \<or> \<not> bad_header rcv \<and> length rcv < totlen rcv"

text \<open>How many bytes are missing up to the next decision.\<close>

definition room :: "bytes \<Rightarrow> nat" where
  "room rcv = (if length rcv < 8 then 8 - length rcv else totlen rcv - length rcv)"

lemma header_append: "8 \<le> length rcv \<Longrightarrow> totlen (rcv @ x) = totlen rcv" "8 \<le> length rcv \<Longrightarrow> bad_header (rcv @ x) = bad_header rcv"
  by (simp_all add: totlen_def bad_header_def)

lemma totlen_less: "totlen rcv < 2 ^ 32"
proof -
  have "foldl (\<lambda>a b. a * 256 + unat b) a bs < (a + 1) * 256 ^ length bs" for a and bs :: bytes
  proof (induction bs arbitrary: a)
    case (Cons b bs)
    have "unat b < 256" using unsigned_less[of b] by simp
    then have "(a * 256 + unat b + 1) * 256 ^ length bs \<le> (a + 1) * 256 * 256 ^ length bs" by (intro mult_le_mono1) simp
    from less_le_trans[OF Cons.IH this] show ?case by (simp add: algebra_simps)
  qed simp
  from this[of 0 "take 4 (drop 4 rcv)"] have "totlen rcv < 256 ^ length (take 4 (drop 4 rcv))" by (simp add: totlen_def)
  also have "\<dots> \<le> 256 ^ 4" by (intro power_increasing) auto
  finally show ?thesis by simp
qed

lemma int_of_size_small: "n < 2 ^ 31 \<Longrightarrow> int_of_size n = int n"
  by (simp add: int_of_size_def signed_of_nat signed_take_bit_int_eq_self)

lemma min_len: "unat CLUSTERMSG_MIN_LEN = 2208" "unat sizeof_clusterMsg = 4304"
  by (simp_all add: CLUSTERMSG_MIN_LEN_def sizeof_clusterMsg_def)

lemma read_size_room:
  assumes ok: "stream_ok rcv" and len: "length rcv < 2 ^ 31"
  shows "1 \<le> read_size rcv \<and> read_size rcv \<le> int (room rcv) \<and> read_size rcv \<le> 4304"
proof (cases "length rcv < 8")
  case True
  then show ?thesis by (simp add: read_size_def int_of_size_small[OF len] room_def Let_def)
next
  case False
  then have lt: "length rcv < totlen rcv" using ok by (simp add: stream_ok_def)
  define D where "D = totlen rcv - length rcv"
  have D: "1 \<le> D" "D < 2 ^ 32" using lt totlen_less[of rcv] by (auto simp: D_def)
  have "word_of_nat (totlen rcv) - word_of_int (int (length rcv)) = (word_of_nat D :: 32 word)"
    using lt by (simp add: D_def of_nat_diff)
  then have r: "read_size rcv = (let readlen = sint (word_of_nat D :: 32 word) in if readlen < 0 \<or> readlen > 4304 then 4304 else readlen)"
    using False unfolding read_size_def min_len by (simp add: int_of_size_small[OF len] Let_def)
  have "room rcv = D" using False by (simp add: room_def D_def)
  show ?thesis
  proof (cases "D < 2 ^ 31")
    case True
    then have "sint (word_of_nat D :: 32 word) = int D" using int_of_size_small[of D] by (simp add: int_of_size_def)
    then show ?thesis using r D(1) \<open>room rcv = D\<close> by (simp add: Let_def)
  next
    case big: False
    have "1 \<le> read_size rcv \<and> read_size rcv \<le> 4304"
    proof -
      have "sint (word_of_nat D :: 32 word) \<noteq> 0"
      proof
        assume "sint (word_of_nat D :: 32 word) = 0"
        then have "unat (word_of_nat D :: 32 word) = 0" by (simp only: signed_eq_0_iff unsigned_0)
        then show False using D by (simp add: unat_of_nat)
      qed
      then show ?thesis unfolding r Let_def by auto
    qed
    then show ?thesis using big \<open>room rcv = D\<close> by simp
  qed
qed

text \<open>A piece that does not go beyond the next decision only counts with its last byte.\<close>

lemma feed_piece:
  assumes "stream_ok rcv" and "got \<noteq> []" and "length got \<le> room rcv"
  shows "foldM (feed_byte proc broken) got (Waiting rcv s) = packet_end proc broken (rcv @ got) s"
  using assms
proof (induction got arbitrary: rcv)
  case (Cons b got)
  show ?case
  proof (cases "got = []")
    case True
    then show ?thesis by (simp add: feed_byte_def)
  next
    case False
    have "stream_ok (rcv @ [b]) \<and> length got \<le> room (rcv @ [b]) \<and> packet_end proc broken (rcv @ [b]) s = Some (Waiting (rcv @ [b]) s)"
    proof (cases "length rcv < 8")
      case True
      then have "length rcv + 1 < 8" using Cons.prems(3) False by (cases got) (auto simp: room_def)
      then show ?thesis using Cons.prems(3) True by (simp add: stream_ok_def room_def packet_end_def)
    next
      case long: False
      then have "length rcv + 1 < totlen rcv" using Cons.prems False by (cases got) (auto simp: room_def)
      then show ?thesis using Cons.prems long header_append[of rcv "[b]"] by (simp add: stream_ok_def room_def packet_end_def)
    qed
    then show ?thesis using Cons.IH[of "rcv @ [b]"] False by (simp add: feed_byte_def)
  qed
qed simp

lemma feed_gone: "foldM (feed_byte proc broken) bs (Gone s) = Some (Gone s)"
  by (induction bs) (simp_all add: feed_byte_def)

lemma packet_end_ok:
  assumes "stream_ok rcv" and "length got \<le> room rcv" and "\<not> (8 \<le> length (rcv @ got) \<and> length (rcv @ got) = totlen (rcv @ got))"
    and "\<not> (length (rcv @ got) = 8 \<and> bad_header (rcv @ got))"
  shows "stream_ok (rcv @ got)"
proof (cases "length rcv < 8")
  case True
  then show ?thesis using assms(2-) by (auto simp: stream_ok_def room_def bad_header_def min_len)
next
  case False
  then have h: "\<not> bad_header rcv" "length rcv < totlen rcv" "length got \<le> totlen rcv - length rcv" "length rcv + length got \<noteq> totlen rcv"
    using assms header_append[of rcv got] by (simp_all add: stream_ok_def room_def)
  then have "length rcv + length got < totlen rcv" by linarith
  then show ?thesis using False h(1) header_append[of rcv got] by (simp add: stream_ok_def)
qed

lemma read_loop_bad: "length rcv = 8 \<Longrightarrow> bad_header rcv \<Longrightarrow> read_loop proc broken rcv chunks s = map_option Gone (broken s)"
  by (simp add: read_loop.simps[of proc broken rcv] int_of_size_small)

lemma read_loop_bytewise:
  assumes "stream_ok rcv" and "[] \<notin> set chunks" and "length rcv + length (concat chunks) < 2 ^ 31"
  shows "read_loop proc broken rcv chunks s = foldM (feed_byte proc broken) (concat chunks) (Waiting rcv s)"
  using assms
proof (induction "length (concat chunks)" arbitrary: rcv chunks s rule: less_induct)
  case less
  have len: "length rcv < 2 ^ 31" using less.prems(3) by simp
  note rs = read_size_room[OF less.prems(1) len]
  have good: "\<not> (int_of_size (length rcv) = 8 \<and> bad_header rcv)"
    using less.prems(1) int_of_size_small[OF len] by (auto simp: stream_ok_def)
  show ?case
  proof (cases chunks)
    case Nil
    then show ?thesis using good by (simp add: read_loop.simps[of proc broken rcv])
  next
    case (Cons c cs)
    define n where "n = nat (read_size rcv)"
    define got where "got = take n c"
    define rest where "rest = (if length c \<le> length got then cs else drop (length got) c # cs)"
    define rcv1 where "rcv1 = rcv @ got"
    have n: "1 \<le> n" "n \<le> room rcv" "n \<le> 4304" using rs by (auto simp: n_def)
    have c: "c \<noteq> []" using less.prems(2) Cons by auto
    then have g: "got \<noteq> []" "length got \<le> room rcv" "length got \<le> 4304" using n by (auto simp: got_def)
    have cc: "concat chunks = got @ concat rest"
      using Cons append_take_drop_id[of n c] by (auto simp: rest_def got_def min_def split: if_splits)
    have ne: "[] \<notin> set rest" using less.prems(2) Cons by (auto simp: rest_def got_def)
    have lt: "length (concat rest) < length (concat chunks)" using cc g(1) by simp
    have l1: "length rcv1 + length (concat rest) < 2 ^ 31" "length rcv1 < 2 ^ 31" using less.prems(3) cc by (simp_all add: rcv1_def)
    have sz: "int_of_size (length rcv1) \<ge> 8 \<longleftrightarrow> 8 \<le> length rcv1" using int_of_size_small[OF l1(2)] by simp
    have step: "read_loop proc broken rcv chunks s =
        (if 8 \<le> length rcv1 \<and> length rcv1 = totlen rcv1
         then (case proc rcv1 s of None \<Rightarrow> None | Some (valid, s1) \<Rightarrow> if valid then read_loop proc broken [] rest s1 else Some (Gone s1))
         else read_loop proc broken rcv1 rest s)"
    proof -
      have "read_loop proc broken rcv (c # cs) s =
          (if length got > 4304 then None
           else if got = [] then map_option Gone (broken s)
           else if int_of_size (length rcv1) \<ge> 8 \<and> length rcv1 = totlen rcv1
             then (case proc rcv1 s of None \<Rightarrow> None | Some (valid, s1) \<Rightarrow> if valid then read_loop proc broken [] rest s1 else Some (Gone s1))
           else read_loop proc broken rcv1 rest s)"
        by (simp only: read_loop.simps[of proc broken rcv "c # cs" s] if_not_P[OF good] list.case Let_def min_len n_def got_def rest_def rcv1_def)
      also have "\<not> length got > 4304" using g(3) by simp
      ultimately show ?thesis using g(1) unfolding Cons sz by (simp only: if_False simp_thms)
    qed
    have fold: "foldM (feed_byte proc broken) (concat chunks) (Waiting rcv s) =
        packet_end proc broken rcv1 s \<bind> foldM (feed_byte proc broken) (concat rest)"
      unfolding cc foldM_append feed_piece[OF less.prems(1) g(1,2)] rcv1_def ..
    show ?thesis
    proof (cases "8 \<le> length rcv1 \<and> length rcv1 = totlen rcv1")
      case True
      have "read_loop proc broken [] rest s1 = foldM (feed_byte proc broken) (concat rest) (Waiting [] s1)" for s1
        by (rule less.hyps[OF lt]) (use ne l1 in \<open>auto simp: stream_ok_def\<close>)
      then show ?thesis using True
        by (cases "proc rcv1 s") (auto simp: step fold packet_end_def feed_gone)
    next
      case False
      show ?thesis
      proof (cases "length rcv1 = 8 \<and> bad_header rcv1")
        case True
        then show ?thesis using False by (cases "broken s") (simp_all add: step fold packet_end_def feed_gone read_loop_bad)
      next
        case ok: False
        have "stream_ok rcv1" unfolding rcv1_def by (rule packet_end_ok[OF less.prems(1) g(2)]) (use False ok in \<open>simp_all add: rcv1_def\<close>)
        from less.hyps[OF lt this ne l1(1)] show ?thesis
          unfolding step fold packet_end_def if_not_P[OF False] if_not_P[OF ok] by simp
      qed
    qed
  qed
qed


subsection \<open>Packets go through\<close>

text \<open>A packet as \<open>clusterBuildMessageHdr\<close> and the senders make it: the signature and its own length.\<close>

definition framed :: "bytes \<Rightarrow> bool" where
  "framed p \<longleftrightarrow> take 4 p = str ''RCmb'' \<and> totlen p = length p \<and> unat CLUSTERMSG_MIN_LEN \<le> length p"

text \<open>The packets handed over one after the other, until one makes the link go away.\<close>

primrec deliver :: "(bytes \<Rightarrow> 's \<Rightarrow> (bool \<times> 's) option) \<Rightarrow> bytes list \<Rightarrow> 's \<Rightarrow> 's stream option" where
  "deliver proc [] s = Some (Waiting [] s)"
| "deliver proc (p # ps) s = do {
     (valid, s1) \<leftarrow> proc p s;
     if valid then deliver proc ps s1 else Some (Gone s1)
   }"

lemma feed_packet:
  assumes p: "framed p"
  shows "foldM (feed_byte proc broken) p (Waiting [] s) = do { (valid, s1) \<leftarrow> proc p s; Some (if valid then Waiting [] s1 else Gone s1) }"
proof -
  have len: "2208 \<le> length p" "totlen p = length p" using p by (simp_all add: framed_def min_len)
  then have l8: "length (take 8 p) = 8" by simp
  have h: "totlen (take 8 p) = length p" "\<not> bad_header (take 8 p)"
    using header_append[of "take 8 p" "drop 8 p"] l8 p len by (simp_all add: bad_header_def framed_def min_len)
  have "foldM (feed_byte proc broken) (take 8 p) (Waiting [] s) = packet_end proc broken ([] @ take 8 p) s"
    by (rule feed_piece) (use l8 in \<open>auto simp: stream_ok_def room_def\<close>)
  also have "\<dots> = Some (Waiting (take 8 p) s)" using l8 h len by (simp add: packet_end_def)
  finally have a: "foldM (feed_byte proc broken) (take 8 p) (Waiting [] s) = Some (Waiting (take 8 p) s)" .
  have "foldM (feed_byte proc broken) (drop 8 p) (Waiting (take 8 p) s) = packet_end proc broken (take 8 p @ drop 8 p) s"
    by (rule feed_piece) (use l8 h len in \<open>auto simp: stream_ok_def room_def\<close>)
  also have "\<dots> = do { (valid, s1) \<leftarrow> proc p s; Some (if valid then Waiting [] s1 else Gone s1) }" using len by (simp add: packet_end_def)
  finally have b: "foldM (feed_byte proc broken) (drop 8 p) (Waiting (take 8 p) s) =
    do { (valid, s1) \<leftarrow> proc p s; Some (if valid then Waiting [] s1 else Gone s1) }" .
  have "foldM (feed_byte proc broken) p (Waiting [] s) = foldM (feed_byte proc broken) (take 8 p @ drop 8 p) (Waiting [] s)" by simp
  then show ?thesis unfolding foldM_append a using b by simp
qed

lemma feed_packets:
  assumes "\<forall>p\<in>set ps. framed p"
  shows "foldM (feed_byte proc broken) (concat ps) (Waiting [] s) = deliver proc ps s"
  using assms
proof (induction ps arbitrary: s)
  case (Cons p ps)
  have "foldM (feed_byte proc broken) (concat (p # ps)) (Waiting [] s) =
      do { (valid, s1) \<leftarrow> proc p s; Some (if valid then Waiting [] s1 else Gone s1) } \<bind> foldM (feed_byte proc broken) (concat ps)"
    unfolding concat.simps foldM_append using feed_packet[of p proc broken s] Cons.prems by (simp only: list.set_intros)
  then show ?case using Cons by (cases "proc p s") (auto simp: feed_gone)
qed simp

text \<open>The state between two calls of the handler is one in which reading can go on.\<close>

lemma bytewise_ok:
  "foldM (feed_byte proc broken) bs st = Some st' \<Longrightarrow> (\<And>rcv s. st = Waiting rcv s \<Longrightarrow> stream_ok rcv) \<Longrightarrow>
    st' = Waiting rcv' s' \<Longrightarrow> stream_ok rcv' \<and> (\<exists>rcv s. st = Waiting rcv s \<and> length rcv' \<le> length rcv + length bs)"
proof (induction bs arbitrary: st)
  case (Cons b bs)
  obtain st1 where st1: "feed_byte proc broken b st = Some st1" "foldM (feed_byte proc broken) bs st1 = Some st'"
    using Cons.prems(1) by (auto simp: opt_bind)
  show ?case
  proof (cases st)
    case (Gone s)
    then show ?thesis using st1 Cons.prems(3) by (auto simp: feed_byte_def feed_gone)
  next
    case (Waiting rcv s)
    have ok: "stream_ok rcv" by (rule Cons.prems(2)[OF Waiting])
    have "1 \<le> room rcv" using ok by (auto simp: room_def stream_ok_def)
    then have next_ok: "stream_ok r1 \<and> length r1 \<le> length rcv + 1" if "st1 = Waiting r1 s1" for r1 s1
      using st1(1) that Waiting packet_end_ok[OF ok, of "[b]"]
      by (auto simp: feed_byte_def packet_end_def stream_ok_def opt_bind split: if_splits)
    then show ?thesis using Cons.IH[OF st1(2) _ Cons.prems(3)] Waiting by fastforce
  qed
qed auto

lemma read_again_bytewise:
  assumes "\<forall>chunks\<in>set calls. [] \<notin> set chunks" and "case st of Waiting rcv s \<Rightarrow> stream_ok rcv \<and> length rcv + length (concat (concat calls)) < 2 ^ 31
    | Gone s \<Rightarrow> True"
  shows "foldM (read_again proc broken) calls st = foldM (feed_byte proc broken) (concat (concat calls)) st"
  using assms
proof (induction calls arbitrary: st)
  case (Cons chunks calls)
  show ?case
  proof (cases st)
    case (Gone s)
    then show ?thesis using Cons.IH[of st] Cons.prems by (simp add: read_again_def feed_gone)
  next
    case (Waiting rcv s)
    have ok: "stream_ok rcv" "length rcv + length (concat chunks) + length (concat (concat calls)) < 2 ^ 31" using Cons.prems(2) Waiting by auto
    have one: "read_again proc broken chunks st = foldM (feed_byte proc broken) (concat chunks) st"
      using read_loop_bytewise[OF ok(1), of chunks proc broken s] ok(2) Cons.prems(1) Waiting by (simp add: read_again_def)
    show ?thesis
    proof (cases "foldM (feed_byte proc broken) (concat chunks) st")
      case None
      then show ?thesis using one by (simp add: foldM_append)
    next
      case (Some st1)
      have "case st1 of Waiting rcv s \<Rightarrow> stream_ok rcv \<and> length rcv + length (concat (concat calls)) < 2 ^ 31 | Gone s \<Rightarrow> True"
      proof (cases st1)
        case (Waiting r1 s1)
        then show ?thesis using bytewise_ok[OF Some _ Waiting] ok \<open>st = Waiting rcv s\<close> by fastforce
      qed simp
      from Cons.IH[OF _ this] Cons.prems(1) show ?thesis using one Some by (simp add: foldM_append)
    qed
  qed
qed simp


text \<open>Property C17. Packets survive the byte stream: when well-formed packets are sent one after the other, \<open>clusterReadHandler\<close> hands
  exactly these packets over, in order and each once, however the network cuts the stream into reads and into calls of the handler, and stops at
  the first one after which the link is gone. The local buffer is never overrun, as long as less than 2 GB are sent.\<close>

theorem stream_delivers_packets:
  assumes "\<forall>p\<in>set ps. framed p" and "concat (concat calls) = concat ps" and "\<forall>chunks\<in>set calls. [] \<notin> set chunks"
    and "length (concat ps) < 2 ^ 31"
  shows "foldM (read_again proc broken) calls (Waiting [] s) = deliver proc ps s"
  using read_again_bytewise[OF assms(3), of "Waiting [] s" proc broken] assms(2,4) feed_packets[OF assms(1)]
  by (simp add: stream_ok_def)

definition small_packet :: bytes where
  "small_packet = str ''RCmb'' @ [0, 0, 0x08, 0xA0] @ replicate 2200 0"

lemma small_packet_framed: "framed small_packet"
  by (simp add: framed_def small_packet_def totlen_def min_len str_def)

theorem stream_delivers_packets_witness:
  "foldM (read_again (\<lambda>rcv s. Some (True, s @ [rcv])) Some)
     [[take 5 small_packet, drop 5 small_packet @ take 3000 small_packet], [], [small_packet]] (Waiting [] []) =
   Some (Waiting [] [small_packet, small_packet, small_packet])"
proof -
  have len: "length small_packet = 2208" by (simp add: small_packet_def str_def)
  have ne: "take 5 small_packet \<noteq> []" "drop 5 small_packet \<noteq> []" "small_packet \<noteq> []" using len by auto
  have "foldM (read_again (\<lambda>rcv s. Some (True, s @ [rcv])) Some)
     [[take 5 small_packet, drop 5 small_packet @ take 3000 small_packet], [], [small_packet]] (Waiting [] []) =
     deliver (\<lambda>rcv s. Some (True, s @ [rcv])) [small_packet, small_packet, small_packet] []"
    by (rule stream_delivers_packets) (use small_packet_framed len ne in auto)
  then show ?thesis by simp
qed

subsection \<open>A packet that is too long\<close>

definition huge_header :: bytes where
  "huge_header = str ''RCmb'' @ [0xFF, 0xFF, 0xFF, 0xFF]"

lemma huge_header_facts: "length huge_header = 8" "totlen huge_header = 2 ^ 32 - 1" "\<not> bad_header huge_header"
  by (simp_all add: huge_header_def totlen_def bad_header_def min_len str_def)

lemma huge_feed:
  "length bs < 2 ^ 31 \<Longrightarrow> foldM (feed_byte proc broken) (huge_header @ bs) (Waiting [] s) = Some (Waiting (huge_header @ bs) s)"
proof -
  assume len: "length bs < 2 ^ 31"
  note h = huge_header_facts
  have "foldM (feed_byte proc broken) huge_header (Waiting [] s) = packet_end proc broken ([] @ huge_header) s"
    by (rule feed_piece) (use h in \<open>auto simp: stream_ok_def room_def\<close>)
  then have a: "foldM (feed_byte proc broken) huge_header (Waiting [] s) = Some (Waiting huge_header s)"
    using h by (simp add: packet_end_def)
  show ?thesis
  proof (cases "bs = []")
    case False
    have "foldM (feed_byte proc broken) bs (Waiting huge_header s) = packet_end proc broken (huge_header @ bs) s"
      by (rule feed_piece) (use h len False in \<open>auto simp: stream_ok_def room_def\<close>)
    moreover have "length (huge_header @ bs) \<noteq> totlen (huge_header @ bs)" "length (huge_header @ bs) \<noteq> 8"
      using h header_append[of huge_header bs] len False by auto
    ultimately show ?thesis unfolding foldM_append a by (simp add: packet_end_def)
  qed (simp add: a)
qed



subsection \<open>The output buffer\<close>

lemma sdsrange_drop: "n \<le> length s \<Longrightarrow> sdsrange s (int n) (-1) = drop n s"
  by (cases "n = length s") (auto simp: sdsrange_def Let_def nat_diff_distrib)

text \<open>Whatever is sent and written, in any order: what has been written, followed by the buffer, is what was sent.\<close>

datatype link_op = Send bytes | Writable nat

fun link_run :: "link_op list \<Rightarrow> bytes \<times> bytes \<Rightarrow> (bytes \<times> bytes) option" where
  "link_run [] st = Some st"
| "link_run (Send msg # ops) (out, buf) = link_run ops (out, send_buffer buf msg)"
| "link_run (Writable n # ops) (out, buf) =
     (case clusterWriteHandler n buf of None \<Rightarrow> None | Some (w, buf1, _) \<Rightarrow> link_run ops (out @ w, buf1))"

primrec sent :: "link_op list \<Rightarrow> bytes" where
  "sent [] = []"
| "sent (op # ops) = (case op of Send msg \<Rightarrow> msg @ sent ops | Writable n \<Rightarrow> sent ops)"

lemma link_run_order: "link_run ops (out, buf) = Some (out', buf') \<Longrightarrow> out' @ buf' = out @ buf @ sent ops"
proof (induction ops arbitrary: out buf)
  case (Cons op ops)
  show ?case
  proof (cases op)
    case (Send msg)
    then show ?thesis using Cons by (auto simp: send_buffer_def)
  next
    case (Writable n)
    then obtain w buf1 i where w: "clusterWriteHandler n buf = Some (w, buf1, i)" "link_run ops (out @ w, buf1) = Some (out', buf')"
      using Cons.prems by (auto split: option.splits)
    define k where "k = min n (length buf)"
    have "w = take k buf" "buf1 = sdsrange buf (int k) (-1)"
      using w(1) by (auto simp: clusterWriteHandler_def Let_def k_def[symmetric] split: if_splits)
    then have "w @ buf1 = buf" using sdsrange_drop[of k buf] by (simp add: k_def)
    then show ?thesis using Cons.IH[OF w(2)] Writable by simp
  qed
qed simp

end
