(* ===== verification/Crc64.thy ===== *)
theory Crc64
  imports Crc16
begin

text \<open>
  crc64.c: the checksum at the end of a serialised value. It is the CRC of Jones: 64 bits, reflected, initial value
  and final XOR zero. The table driven loop is proved equal to bitwise division, and from that follow the facts that make the
  checksum worth its eight bytes: appending it gives a string of checksum zero, and a change within eight consecutive bytes
  never goes unnoticed.
\<close>

definition crc64_tab :: "u64 list" where
  "crc64_tab = [
    0x0, 0x7ad870c830358979, 0xf5b0e190606b12f2, 0x8f689158505e9b8b,
    0xc038e5739841b68f, 0xbae095bba8743ff6, 0x358804e3f82aa47d, 0x4f50742bc81f2d04,
    0xab28ecb46814fe75, 0xd1f09c7c5821770c, 0x5e980d24087fec87, 0x24407dec384a65fe,
    0x6b1009c7f05548fa, 0x11c8790fc060c183, 0x9ea0e857903e5a08, 0xe478989fa00bd371,
    0x7d08ff3b88be6f81, 0x07d08ff3b88be6f8, 0x88b81eabe8d57d73, 0xf2606e63d8e0f40a,
    0xbd301a4810ffd90e, 0xc7e86a8020ca5077, 0x4880fbd87094cbfc, 0x32588b1040a14285,
    0xd620138fe0aa91f4, 0xacf86347d09f188d, 0x2390f21f80c18306, 0x594882d7b0f40a7f,
    0x1618f6fc78eb277b, 0x6cc0863448deae02, 0xe3a8176c18803589, 0x997067a428b5bcf0,
    0xfa11fe77117cdf02, 0x80c98ebf2149567b, 0x0fa11fe77117cdf0, 0x75796f2f41224489,
    0x3a291b04893d698d, 0x40f16bccb908e0f4, 0xcf99fa94e9567b7f, 0xb5418a5cd963f206,
    0x513912c379682177, 0x2be1620b495da80e, 0xa489f35319033385, 0xde51839b2936bafc,
    0x9101f7b0e12997f8, 0xebd98778d11c1e81, 0x64b116208142850a, 0x1e6966e8b1770c73,
    0x8719014c99c2b083, 0xfdc17184a9f739fa, 0x72a9e0dcf9a9a271, 0x08719014c99c2b08,
    0x4721e43f0183060c, 0x3df994f731b68f75, 0xb29105af61e814fe, 0xc849756751dd9d87,
    0x2c31edf8f1d64ef6, 0x56e99d30c1e3c78f, 0xd9810c6891bd5c04, 0xa3597ca0a188d57d,
    0xec09088b6997f879, 0x96d1784359a27100, 0x19b9e91b09fcea8b, 0x636199d339c963f2,
    0xdf7adabd7a6e2d6f, 0xa5a2aa754a5ba416, 0x2aca3b2d1a053f9d, 0x50124be52a30b6e4,
    0x1f423fcee22f9be0, 0x659a4f06d21a1299, 0xeaf2de5e82448912, 0x902aae96b271006b,
    0x74523609127ad31a, 0x0e8a46c1224f5a63, 0x81e2d7997211c1e8, 0xfb3aa75142244891,
    0xb46ad37a8a3b6595, 0xceb2a3b2ba0eecec, 0x41da32eaea507767, 0x3b024222da65fe1e,
    0xa2722586f2d042ee, 0xd8aa554ec2e5cb97, 0x57c2c41692bb501c, 0x2d1ab4dea28ed965,
    0x624ac0f56a91f461, 0x1892b03d5aa47d18, 0x97fa21650afae693, 0xed2251ad3acf6fea,
    0x095ac9329ac4bc9b, 0x7382b9faaaf135e2, 0xfcea28a2faafae69, 0x8632586aca9a2710,
    0xc9622c4102850a14, 0xb3ba5c8932b0836d, 0x3cd2cdd162ee18e6, 0x460abd1952db919f,
    0x256b24ca6b12f26d, 0x5fb354025b277b14, 0xd0dbc55a0b79e09f, 0xaa03b5923b4c69e6,
    0xe553c1b9f35344e2, 0x9f8bb171c366cd9b, 0x10e3202993385610, 0x6a3b50e1a30ddf69,
    0x8e43c87e03060c18, 0xf49bb8b633338561, 0x7bf329ee636d1eea, 0x012b592653589793,
    0x4e7b2d0d9b47ba97, 0x34a35dc5ab7233ee, 0xbbcbcc9dfb2ca865, 0xc113bc55cb19211c,
    0x5863dbf1e3ac9dec, 0x22bbab39d3991495, 0xadd33a6183c78f1e, 0xd70b4aa9b3f20667,
    0x985b3e827bed2b63, 0xe2834e4a4bd8a21a, 0x6debdf121b863991, 0x1733afda2bb3b0e8,
    0xf34b37458bb86399, 0x8993478dbb8deae0, 0x06fbd6d5ebd3716b, 0x7c23a61ddbe6f812,
    0x3373d23613f9d516, 0x49aba2fe23cc5c6f, 0xc6c333a67392c7e4, 0xbc1b436e43a74e9d,
    0x95ac9329ac4bc9b5, 0xef74e3e19c7e40cc, 0x601c72b9cc20db47, 0x1ac40271fc15523e,
    0x5594765a340a7f3a, 0x2f4c0692043ff643, 0xa02497ca54616dc8, 0xdafce7026454e4b1,
    0x3e847f9dc45f37c0, 0x445c0f55f46abeb9, 0xcb349e0da4342532, 0xb1eceec59401ac4b,
    0xfebc9aee5c1e814f, 0x8464ea266c2b0836, 0x0b0c7b7e3c7593bd, 0x71d40bb60c401ac4,
    0xe8a46c1224f5a634, 0x927c1cda14c02f4d, 0x1d148d82449eb4c6, 0x67ccfd4a74ab3dbf,
    0x289c8961bcb410bb, 0x5244f9a98c8199c2, 0xdd2c68f1dcdf0249, 0xa7f41839ecea8b30,
    0x438c80a64ce15841, 0x3954f06e7cd4d138, 0xb63c61362c8a4ab3, 0xcce411fe1cbfc3ca,
    0x83b465d5d4a0eece, 0xf96c151de49567b7, 0x76048445b4cbfc3c, 0x0cdcf48d84fe7545,
    0x6fbd6d5ebd3716b7, 0x15651d968d029fce, 0x9a0d8ccedd5c0445, 0xe0d5fc06ed698d3c,
    0xaf85882d2576a038, 0xd55df8e515432941, 0x5a3569bd451db2ca, 0x20ed197575283bb3,
    0xc49581ead523e8c2, 0xbe4df122e51661bb, 0x3125607ab548fa30, 0x4bfd10b2857d7349,
    0x04ad64994d625e4d, 0x7e7514517d57d734, 0xf11d85092d094cbf, 0x8bc5f5c11d3cc5c6,
    0x12b5926535897936, 0x686de2ad05bcf04f, 0xe70573f555e26bc4, 0x9ddd033d65d7e2bd,
    0xd28d7716adc8cfb9, 0xa85507de9dfd46c0, 0x273d9686cda3dd4b, 0x5de5e64efd965432,
    0xb99d7ed15d9d8743, 0xc3450e196da80e3a, 0x4c2d9f413df695b1, 0x36f5ef890dc31cc8,
    0x79a59ba2c5dc31cc, 0x037deb6af5e9b8b5, 0x8c157a32a5b7233e, 0xf6cd0afa9582aa47,
    0x4ad64994d625e4da, 0x300e395ce6106da3, 0xbf66a804b64ef628, 0xc5bed8cc867b7f51,
    0x8aeeace74e645255, 0xf036dc2f7e51db2c, 0x7f5e4d772e0f40a7, 0x05863dbf1e3ac9de,
    0xe1fea520be311aaf, 0x9b26d5e88e0493d6, 0x144e44b0de5a085d, 0x6e963478ee6f8124,
    0x21c640532670ac20, 0x5b1e309b16452559, 0xd476a1c3461bbed2, 0xaeaed10b762e37ab,
    0x37deb6af5e9b8b5b, 0x4d06c6676eae0222, 0xc26e573f3ef099a9, 0xb8b627f70ec510d0,
    0xf7e653dcc6da3dd4, 0x8d3e2314f6efb4ad, 0x0256b24ca6b12f26, 0x788ec2849684a65f,
    0x9cf65a1b368f752e, 0xe62e2ad306bafc57, 0x6946bb8b56e467dc, 0x139ecb4366d1eea5,
    0x5ccebf68aecec3a1, 0x2616cfa09efb4ad8, 0xa97e5ef8cea5d153, 0xd3a62e30fe90582a,
    0xb0c7b7e3c7593bd8, 0xca1fc72bf76cb2a1, 0x45775673a732292a, 0x3faf26bb9707a053,
    0x70ff52905f188d57, 0x0a2722586f2d042e, 0x854fb3003f739fa5, 0xff97c3c80f4616dc,
    0x1bef5b57af4dc5ad, 0x61372b9f9f784cd4, 0xee5fbac7cf26d75f, 0x9487ca0fff135e26,
    0xdbd7be24370c7322, 0xa10fceec0739fa5b, 0x2e675fb4576761d0, 0x54bf2f7c6752e8a9,
    0xcdcf48d84fe75459, 0xb71738107fd2dd20, 0x387fa9482f8c46ab, 0x42a7d9801fb9cfd2,
    0x0df7adabd7a6e2d6, 0x772fdd63e7936baf, 0xf8474c3bb7cdf024, 0x829f3cf387f8795d,
    0x66e7a46c27f3aa2c, 0x1c3fd4a417c62355, 0x935745fc4798b8de, 0xe98f353477ad31a7,
    0xa6df411fbfb21ca3, 0xdc0731d78f8795da, 0x536fa08fdfd90e51, 0x29b7d047efec8728]"

definition crc64_step :: "u64 \<Rightarrow> u8 \<Rightarrow> u64" where
  "crc64_step crc byte = crc64_tab ! unat ((ucast crc :: u8) XOR byte) XOR drop_bit 8 crc"

primrec crc64 :: "u64 \<Rightarrow> bytes \<Rightarrow> u64" where
  "crc64 crc [] = crc"
| "crc64 crc (byte # s) = crc64 (crc64_step crc byte) s"

subsection \<open>Bitwise division\<close>

text \<open>The polynomial of the header comment of the file, and its reflection.\<close>

definition jones_poly :: u64 where
  "jones_poly = 0xad93d23594c935a9"

definition crc64_poly :: u64 where
  "crc64_poly = 0x95ac9329ac4bc9b5"

definition div_bit :: "u64 \<Rightarrow> u64" where
  "div_bit c = (if bit c 0 then drop_bit 1 c XOR crc64_poly else drop_bit 1 c)"

definition div_byte :: "u64 \<Rightarrow> u8 \<Rightarrow> u64" where
  "div_byte c b = (div_bit ^^ 8) (c XOR ucast b)"

lemma crc64_poly_reflected: "n < 64 \<Longrightarrow> bit crc64_poly n \<longleftrightarrow> bit jones_poly (63 - n)"
proof -
  have "\<forall>k \<in> set [0..<64]. bit crc64_poly k \<longleftrightarrow> bit jones_poly (63 - k)" by (simp add: crc64_poly_def jones_poly_def upt_rec)
  then show "n < 64 \<Longrightarrow> bit crc64_poly n \<longleftrightarrow> bit jones_poly (63 - n)" by simp
qed

lemma div_bit_xor: "div_bit (a XOR b) = div_bit a XOR div_bit b"
  by (rule bit_word_eqI) (auto simp: div_bit_def bit_simps)

lemma div_bits_xor: "(div_bit ^^ n) (a XOR b) = (div_bit ^^ n) a XOR (div_bit ^^ n) b"
  by (induction n) (simp_all add: div_bit_xor)

lemma div_bits_zero [simp]: "(div_bit ^^ n) 0 = 0"
  by (induction n) (simp_all add: div_bit_def)

subsection \<open>The table\<close>

text \<open>An entry is the remainder of its index. Division is linear, so that the upper half of the first \<open>2 ^ (k + 1)\<close> entries is the lower half with
  the entry at \<open>2 ^ k\<close> added.\<close>

definition entry :: "nat \<Rightarrow> u64" where
  "entry i = (div_bit ^^ 8) (word_of_nat i)"

lemma entry_add:
  assumes "i < 2 ^ k" "k < 64"
  shows "entry (2 ^ k + i) = entry (2 ^ k) XOR entry i"
proof -
  have "(2 ^ k + word_of_nat i :: u64) = 2 ^ k XOR word_of_nat i"
  proof (rule disjunctive_add_eq_xor)
    show "(2 ^ k AND word_of_nat i :: u64) = 0"
      using assms by (auto intro!: bit_word_eqI simp: bit_simps bit_exp_iff bit_iff_odd[of i])
  qed
  then show ?thesis by (simp add: entry_def flip: div_bits_xor)
qed

definition entries :: "nat \<Rightarrow> u64 list" where
  "entries k = map entry [0..<2 ^ k]"

lemma entries_double:
  assumes "k < 64"
  shows "entries (Suc k) = entries k @ map ((XOR) (entry (2 ^ k))) (entries k)"
proof -
  have "[0..<2 ^ Suc k] = [0..<2 ^ k] @ map (\<lambda>i. i + 2 ^ k) [0..<2 ^ k]"
    using upt_add_eq_append[of 0 "2 ^ k" "2 ^ k"] by (simp add: map_add_upt flip: mult_2)
  then show ?thesis using assms by (simp add: entries_def entry_add add.commute[of _ "2 ^ k"])
qed

lemma div_bit8: "(div_bit ^^ 8) c = div_bit (div_bit (div_bit (div_bit (div_bit (div_bit (div_bit (div_bit c)))))))"
  by (simp add: eval_nat_numeral)

lemma div_bit_numeral:
  "div_bit (numeral n) = (if even (numeral n :: u64) then drop_bit 1 (numeral n) else drop_bit 1 (numeral n) XOR crc64_poly)"
  "div_bit 1 = crc64_poly"
  by (simp_all add: div_bit_def bit_0)

lemma entry_powers: "entry 1 = 0x7ad870c830358979"
  "entry 2 = 0xf5b0e190606b12f2"
  "entry 4 = 0xc038e5739841b68f"
  "entry 8 = 0xab28ecb46814fe75"
  "entry 16 = 0x7d08ff3b88be6f81"
  "entry 32 = 0xfa11fe77117cdf02"
  "entry 64 = 0xdf7adabd7a6e2d6f"
  "entry 128 = 0x95ac9329ac4bc9b5"
  unfolding entry_def div_bit8 by (simp_all add: div_bit_numeral crc64_poly_def)

lemma crc64_tab_all: "entries 8 = crc64_tab"
proof -
  have d: "entries m = entries k @ map ((XOR) (entry p)) (entries k)" if "m = Suc k" "p = 2 ^ k" "k < 64" for m k p
    using entries_double that by simp
  have "entries 0 = [0]" by (simp add: entries_def entry_def)
  then show ?thesis
    unfolding d[of 8 7 128, simplified] d[of 7 6 64, simplified] d[of 6 5 32, simplified] d[of 5 4 16, simplified] d[of 4 3 8, simplified]
      d[of 3 2 4, simplified] d[of 2 1 2, simplified] d[of 1 0 1, simplified] entry_powers
    by (simp add: entry_powers(1)[unfolded One_nat_def] crc64_tab_def)
qed

lemma powers_8: "(2::nat) ^ 8 = 256"
  by simp

lemma crc64_tab_nth: "i < 256 \<Longrightarrow> crc64_tab ! i = entry i"
  unfolding crc64_tab_all[symmetric] entries_def powers_8 by (subst nth_map) (simp_all del: upt_rec_numeral)

lemma byte_index: "unat (b :: u8) < 256"
  using unsigned_less[of b] by simp

lemma crc64_index: "unat ((ucast crc :: u8) XOR byte) < length crc64_tab"
proof -
  have "length crc64_tab = 256" unfolding crc64_tab_all[symmetric] entries_def by simp
  then show ?thesis using byte_index by simp
qed

subsection \<open>The loop\<close>

lemma div_bits_add: "(div_bit ^^ m) ((div_bit ^^ n) c) = (div_bit ^^ (m + n)) c"
  by (simp add: funpow_add)

text \<open>Bits that are not at the bottom are only shifted.\<close>

lemma div_bits_high:
  assumes "\<And>i. i < n \<Longrightarrow> \<not> bit c i"
  shows "(div_bit ^^ n) c = drop_bit n c"
  using assms
proof (induction n)
  case (Suc n)
  have "(div_bit ^^ Suc n) c = div_bit (drop_bit n c)" using Suc by simp
  also have "\<dots> = drop_bit (Suc n) c" using Suc.prems[of n] by (simp add: div_bit_def bit_drop_bit_eq)
  finally show ?case .
qed simp

lemma crc64_step_spec: "crc64_step crc b = div_byte crc b"
proof -
  define w where "w = (ucast crc :: u8) XOR b"
  have "crc XOR ucast b = word_of_nat (unat w) XOR push_bit 8 (drop_bit 8 crc)"
    unfolding w_def by (rule bit_word_eqI) (auto simp: bit_simps of_nat_unat)
  moreover have "(div_bit ^^ 8) (push_bit 8 (drop_bit 8 crc)) = drop_bit 8 crc"
  proof -
    have "n < 56" if "bit crc (8 + n)" for n using bit_imp_le_length[OF that] by simp
    then show ?thesis by (subst div_bits_high) (auto intro!: bit_word_eqI simp: bit_simps)
  qed
  ultimately show ?thesis
    unfolding crc64_step_def div_byte_def w_def[symmetric]
    by (simp only: crc64_tab_nth[OF byte_index] entry_def div_bits_xor)
qed

lemma crc64_division: "crc64 crc s = foldl div_byte crc s"
  by (induction s arbitrary: crc) (simp_all add: crc64_step_spec)

lemma crc64_append: "crc64 crc (s @ t) = crc64 (crc64 crc s) t"
  by (simp add: crc64_division)

subsection \<open>Strings of at most eight bytes\<close>

text \<open>The number whose little endian bytes are the string, and the bytes of a number (\<open>memrev64ifbe\<close> makes the stored order little
  endian on every host).\<close>

primrec le64 :: "bytes \<Rightarrow> u64" where
  "le64 [] = 0"
| "le64 (b # bs) = ucast b XOR push_bit 8 (le64 bs)"

definition bytes_le64 :: "u64 \<Rightarrow> bytes" where
  "bytes_le64 w = map (\<lambda>i. ucast (drop_bit (8 * i) w)) [0..<8]"

lemma length_bytes_le64 [simp]: "length (bytes_le64 w) = 8"
  by (simp add: bytes_le64_def)

lemma bit_le64: "length bs \<le> 8 \<Longrightarrow> bit (le64 bs) n \<longleftrightarrow> n div 8 < length bs \<and> bit (bs ! (n div 8)) (n mod 8)"
proof (induction bs arbitrary: n)
  case (Cons b bs)
  show ?case
  proof (cases "n < 8")
    case False
    then have "n div 8 = Suc ((n - 8) div 8)" "n mod 8 = (n - 8) mod 8"
      by (simp_all add: le_div_geq le_mod_geq)
    moreover have "n < 64" if "n div 8 < 8" using that by linarith
    moreover have "bit (le64 (b # bs)) n \<longleftrightarrow> n < 64 \<and> bit (le64 bs) (n - 8)"
      using False bit_imp_le_length[of b n] by (auto simp: bit_simps)
    ultimately show ?thesis using Cons.IH[of "n - 8"] Cons.prems by auto
  qed (use Cons in \<open>simp add: bit_simps\<close>)
qed simp

lemma le64_inj:
  assumes "length v = length w" "length w \<le> 8" "le64 v = le64 w"
  shows "v = w"
proof (rule nth_equalityI)
  fix i assume i: "i < length v"
  have "bit (v ! i) n = bit (w ! i) n" if "n < 8" for n
    using assms i that bit_le64[of v "8 * i + n"] bit_le64[of w "8 * i + n"] by simp
  then show "v ! i = w ! i" by (auto intro!: bit_word_eqI)
qed (use assms in simp)

lemma le64_bytes [simp]: "le64 (bytes_le64 w) = w"
proof (rule bit_word_eqI)
  fix n assume "n < LENGTH(64)"
  then have n: "n div 8 < 8" "8 * (n div 8) + n mod 8 = n" by auto
  then have "bytes_le64 w ! (n div 8) = ucast (drop_bit (8 * (n div 8)) w)" by (simp add: bytes_le64_def)
  then show "bit (le64 (bytes_le64 w)) n \<longleftrightarrow> bit w n"
    using n by (simp add: bit_le64 bit_simps)
qed

lemma crc64_short:
  assumes "length s \<le> 8"
  shows "crc64 crc s = (div_bit ^^ (8 * length s)) (crc XOR le64 s)"
  using assms
proof (induction s arbitrary: crc)
  case (Cons b s)
  have high: "(div_bit ^^ 8) (push_bit 8 (le64 s)) = le64 s"
  proof -
    have "drop_bit 8 (push_bit 8 (le64 s)) = le64 s"
    proof (rule bit_word_eqI)
      fix n assume "n < LENGTH(64)"
      have "n < 56" if "n div 8 < length s" using that Cons.prems by simp
      then show "bit (drop_bit 8 (push_bit 8 (le64 s))) n \<longleftrightarrow> bit (le64 s) n"
        using Cons.prems bit_le64[of s n] by (auto simp: bit_simps)
    qed
    then show ?thesis by (subst div_bits_high) (auto simp: bit_simps)
  qed
  have "crc64 crc (b # s) = (div_bit ^^ (8 * length s)) ((div_bit ^^ 8) (crc XOR ucast b) XOR le64 s)"
    using Cons by (simp add: crc64_step_spec div_byte_def)
  also have "(div_bit ^^ 8) (crc XOR ucast b) XOR le64 s = (div_bit ^^ 8) (crc XOR le64 (b # s))"
    by (subst (1) high[symmetric]) (simp only: le64.simps div_bits_xor ac_simps)
  finally show ?case by (simp only: div_bits_add) (simp add: add.commute)
qed simp

subsection \<open>What the checksum detects\<close>

lemma xor_cancel: "(a :: u64) XOR c = b XOR c \<Longrightarrow> a = b"
proof -
  assume eq: "a XOR c = b XOR c"
  have "a = (a XOR c) XOR c" by (simp add: xor.assoc)
  also have "\<dots> = (b XOR c) XOR c" by (simp only: eq)
  also have "\<dots> = b" by (simp add: xor.assoc)
  finally show "a = b" .
qed

lemma xor_zero: "(a :: u64) XOR b = 0 \<longleftrightarrow> a = b"
  using xor_cancel[of a b b] by auto

lemma div_bit_inj: "div_bit a = div_bit b \<Longrightarrow> a = b"
proof -
  assume eq: "div_bit a = div_bit b"
  have top: "bit (div_bit c) 63 \<longleftrightarrow> bit c 0" for c
    using bit_imp_le_length[of c 64] by (auto simp: div_bit_def bit_simps crc64_poly_def)
  then have "bit a 0 = bit b 0" using eq by metis
  then have "drop_bit 1 a = drop_bit 1 b" using eq by (auto simp: div_bit_def dest: xor_cancel split: if_splits)
  then have "bit (drop_bit 1 a) n = bit (drop_bit 1 b) n" for n by simp
  then have "bit a (Suc n) = bit b (Suc n)" for n by (simp add: bit_drop_bit_eq)
  with \<open>bit a 0 = bit b 0\<close> have "bit a n = bit b n" for n by (cases n) simp_all
  then show "a = b" by (simp add: bit_word_eqI)
qed

lemma div_bits_inj: "(div_bit ^^ n) a = (div_bit ^^ n) b \<Longrightarrow> a = b"
  by (induction n) (auto dest: div_bit_inj)

lemma crc64_state_inj: "crc64 a s = crc64 b s \<Longrightarrow> a = b"
proof (induction s arbitrary: a b)
  case (Cons x s)
  from Cons.prems have "crc64_step a x = crc64_step b x" unfolding crc64.simps by (rule Cons.IH)
  then have "div_byte a x = div_byte b x" by (simp add: crc64_step_spec)
  then have "a XOR ucast x = b XOR ucast x" unfolding div_byte_def by (rule div_bits_inj)
  then show ?case by (rule xor_cancel)
qed simp

lemma crc64_window:
  assumes "length v = length w" "length w \<le> 8" "crc64 crc (a @ v @ b) = crc64 crc (a @ w @ b)"
  shows "v = w"
proof -
  have "crc64 (crc64 crc a) v = crc64 (crc64 crc a) w"
    using assms(3) unfolding crc64_append by (rule crc64_state_inj)
  then have "crc64 crc a XOR le64 v = crc64 crc a XOR le64 w"
    using assms(1,2) crc64_short[of v] crc64_short[of w] by (auto dest: div_bits_inj)
  then have "le64 v = le64 w" unfolding xor.commute[of "crc64 crc a"] by (rule xor_cancel)
  then show ?thesis by (rule le64_inj[OF assms(1,2)])
qed

lemma crc64_residue: "crc64 crc w = 0 \<longleftrightarrow> w = bytes_le64 crc" if "length w = 8"
proof -
  have "crc64 crc w = 0 \<longleftrightarrow> crc XOR le64 w = 0"
    using that div_bits_inj[of 64 "crc XOR le64 w" 0] by (auto simp: crc64_short)
  also have "\<dots> \<longleftrightarrow> le64 w = le64 (bytes_le64 crc)" by (auto simp: xor_zero)
  also have "\<dots> \<longleftrightarrow> w = bytes_le64 crc" using that le64_inj[of w "bytes_le64 crc"] by auto
  finally show ?thesis .
qed

end
