(* ===== verification/Lzf.thy ===== *)
theory Lzf
  imports Prelude
begin

text \<open>
  lzf_c.c and lzf_d.c: the compression of strings in a serialised value, as configured by lzfP.h (\<open>VERY_FAST\<close>, a hash table of
  \<open>2 ^ 16\<close> entries that is not initialised, the input checked). Input and output are arrays with checked accesses: \<open>None\<close> is an access outside of
  them. The hash table holds pointers into the input, here positions; its content at the start is whatever the stack held, so the lemmas are about every
  table. The output array has one byte more than \<open>out_len\<close>, which is what rdb.c allocates: after a full run of literals the control byte of the next run
  may lie there.
\<close>

definition rd :: "bytes \<Rightarrow> nat \<Rightarrow> u8 option" where
  "rd a i = (if i < length a then Some (a ! i) else None)"

definition wr :: "nat \<Rightarrow> u8 \<Rightarrow> bytes \<Rightarrow> bytes option" where
  "wr i b a = (if i < length a then Some (a[i := b]) else None)"

subsection \<open>lzf\_compress\<close>

abbreviation (input) "HLOG \<equiv> 16 :: nat"
abbreviation (input) "MAX_LIT \<equiv> 32 :: nat"
abbreviation (input) "MAX_OFF \<equiv> 8192 :: int"
abbreviation (input) "MAX_REF \<equiv> 264 :: nat"

definition FRST :: "bytes \<Rightarrow> nat \<Rightarrow> u32 option" where
  "FRST a p = do { p0 \<leftarrow> rd a p; p1 \<leftarrow> rd a (p + 1); Some (push_bit 8 (ucast p0) OR ucast p1) }"

definition NEXT :: "u32 \<Rightarrow> bytes \<Rightarrow> nat \<Rightarrow> u32 option" where
  "NEXT v a p = do { p2 \<leftarrow> rd a (p + 2); Some (push_bit 8 v OR ucast p2) }"

definition IDX :: "u32 \<Rightarrow> nat" where
  "IDX h = unat ((drop_bit (3 * 8 - HLOG) h - h * 5) AND mask HLOG)"

record lzf =
  z_ip :: nat
  z_op :: nat
  z_lit :: nat
  z_hval :: u32
  z_htab :: "nat \<Rightarrow> int"
  z_out :: bytes

text \<open>What the body of the loop does next.\<close>

datatype flow = Continue | Break | Return0

text \<open>The sixteen comparisons written out, which may leave the loop; then the loop for the rest.\<close>

fun same_16 :: "bytes \<Rightarrow> nat \<Rightarrow> nat \<Rightarrow> nat \<Rightarrow> nat \<Rightarrow> (nat \<times> bool) option" where
  "same_16 s ref ip len 0 = Some (len, False)"
| "same_16 s ref ip len (Suc n) = do {
     a \<leftarrow> rd s (ref + len + 1);
     b \<leftarrow> rd s (ip + len + 1);
     if a \<noteq> b then Some (len + 1, True) else same_16 s ref ip (len + 1) n
   }"

function same_rest :: "bytes \<Rightarrow> nat \<Rightarrow> nat \<Rightarrow> nat \<Rightarrow> nat \<Rightarrow> nat option" where
  "same_rest s ref ip maxlen len =
     (let len = len + 1
      in if len < maxlen then do {
           a \<leftarrow> rd s (ref + len);
           b \<leftarrow> rd s (ip + len);
           if a = b then same_rest s ref ip maxlen len else Some len
         } else Some len)"
  by pat_completeness auto
termination by (relation "measure (\<lambda>(s, ref, ip, maxlen, len). maxlen - len)") auto

declare same_rest.simps [simp del]

definition match_len :: "bytes \<Rightarrow> nat \<Rightarrow> nat \<Rightarrow> nat \<Rightarrow> nat option" where
  "match_len s ref ip maxlen = do {
     (len, stop) \<leftarrow> (if maxlen > 16 then same_16 s ref ip 2 16 else Some (2, False));
     if stop then Some len else same_rest s ref ip maxlen len
   }"

text \<open>The control byte of the pending run of literals is written before it, and its place given back if the run is empty.\<close>

definition end_run :: "lzf \<Rightarrow> lzf option" where
  "end_run z = (if z_op z < z_lit z + 1 then None else do {
     out \<leftarrow> wr (z_op z - z_lit z - 1) (of_nat (z_lit z) - 1) (z_out z);
     Some (z\<lparr>z_out := out, z_op := (if z_lit z = 0 then z_op z - 1 else z_op z)\<rparr>)
   })"

definition put_literal :: "bytes \<Rightarrow> lzf \<Rightarrow> lzf option" where
  "put_literal s z = do {
     b \<leftarrow> rd s (z_ip z);
     out \<leftarrow> wr (z_op z) b (z_out z);
     let z = z\<lparr>z_lit := z_lit z + 1, z_op := z_op z + 1, z_ip := z_ip z + 1, z_out := out\<rparr>;
     if z_lit z = MAX_LIT then do {
       out \<leftarrow> wr (z_op z - z_lit z - 1) (of_nat (z_lit z) - 1) (z_out z);
       Some (z\<lparr>z_out := out, z_lit := 0, z_op := z_op z + 1\<rparr>)
     } else Some z
   }"

definition put_byte :: "u8 \<Rightarrow> lzf \<Rightarrow> lzf option" where
  "put_byte b z = do { out \<leftarrow> wr (z_op z) b (z_out z); Some (z\<lparr>z_out := out, z_op := z_op z + 1\<rparr>) }"

definition put_match :: "nat \<Rightarrow> nat \<Rightarrow> lzf \<Rightarrow> lzf option" where
  "put_match off len z = do {
     z \<leftarrow> (if len < 7 then put_byte (of_nat (off div 256) + push_bit 5 (of_nat len)) z
          else do { z \<leftarrow> put_byte (of_nat (off div 256) + push_bit 5 7) z; put_byte (of_nat (len - 7)) z });
     z \<leftarrow> put_byte (of_nat off) z;
     Some (z\<lparr>z_lit := 0, z_op := z_op z + 1\<rparr>)
   }"

text \<open>After a match the last two positions of it are entered into the table.\<close>

definition rehash_tail :: "bytes \<Rightarrow> lzf \<Rightarrow> lzf option" where
  "rehash_tail s z = do {
     let ip = z_ip z - 2;
     h \<leftarrow> FRST s ip;
     h \<leftarrow> NEXT h s ip;
     let htab = (z_htab z)(IDX h := int ip);
     let ip = ip + 1;
     h \<leftarrow> NEXT h s ip;
     Some (z\<lparr>z_hval := h, z_htab := htab(IDX h := int ip), z_ip := ip + 1\<rparr>)
   }"

definition is_match :: "bytes \<Rightarrow> int \<Rightarrow> nat \<Rightarrow> bool option" where
  "is_match s ref ip =
     (let off = int ip - ref - 1
      in if 0 \<le> off \<and> off < MAX_OFF \<and> ip + 4 < length s \<and> ref > 0 then do {
           r0 \<leftarrow> rd s (nat ref); i0 \<leftarrow> rd s ip;
           r1 \<leftarrow> rd s (nat ref + 1); i1 \<leftarrow> rd s (ip + 1);
           r2 \<leftarrow> rd s (nat ref + 2); i2 \<leftarrow> rd s (ip + 2);
           Some (r0 = i0 \<and> r1 = i1 \<and> r2 = i2)
         } else Some False)"

definition lzf_match :: "bytes \<Rightarrow> nat \<Rightarrow> nat \<Rightarrow> lzf \<Rightarrow> (flow \<times> lzf) option" where
  "lzf_match s out_len ref z = do {
     let maxlen = min (length s - z_ip z - 2) MAX_REF;
     let off = z_ip z - ref - 1;
     z \<leftarrow> end_run z;
     if z_op z + 3 + 1 \<ge> out_len then Some (Return0, z) else do {
       len \<leftarrow> match_len s ref (z_ip z) maxlen;
       let len = len - 2;
       z \<leftarrow> put_match off len (z\<lparr>z_ip := z_ip z + 1\<rparr>);
       let z = z\<lparr>z_ip := z_ip z + len + 1\<rparr>;
       if z_ip z + 2 \<ge> length s then Some (Break, z) else do {
         z \<leftarrow> rehash_tail s z;
         Some (Continue, z)
       }
     }
   }"

definition lzf_step :: "bytes \<Rightarrow> nat \<Rightarrow> lzf \<Rightarrow> (flow \<times> lzf) option" where
  "lzf_step s out_len z = do {
     hval \<leftarrow> NEXT (z_hval z) s (z_ip z);
     let ref = z_htab z (IDX hval);
     let z = z\<lparr>z_hval := hval, z_htab := (z_htab z)(IDX hval := int (z_ip z))\<rparr>;
     same \<leftarrow> is_match s ref (z_ip z);
     if same then lzf_match s out_len (nat ref) z
     else if z_op z \<ge> out_len then Some (Return0, z)
     else do { z \<leftarrow> put_literal s z; Some (Continue, z) }
   }"

lemma put_literal_ip: "put_literal s z = Some z' \<Longrightarrow> z_ip z' = Suc (z_ip z)"
  by (auto simp: put_literal_def opt_bind Let_def split: if_splits)

lemma put_byte_ip: "put_byte b z = Some z' \<Longrightarrow> z_ip z' = z_ip z"
  by (auto simp: put_byte_def opt_bind)

lemma put_match_ip: "put_match off len z = Some z' \<Longrightarrow> z_ip z' = z_ip z"
  by (auto simp: put_match_def opt_bind dest!: put_byte_ip split: if_splits)

lemma rehash_tail_ip: "rehash_tail s z = Some z' \<Longrightarrow> 2 \<le> z_ip z \<Longrightarrow> z_ip z' = z_ip z"
  by (auto simp: rehash_tail_def opt_bind Let_def)

lemma end_run_ip: "end_run z = Some z' \<Longrightarrow> z_ip z' = z_ip z"
  by (auto simp: end_run_def opt_bind split: if_splits)

lemma lzf_step_ip: "lzf_step s out_len z = Some (Continue, z') \<Longrightarrow> z_ip z < z_ip z'"
  by (auto simp: lzf_step_def lzf_match_def opt_bind Let_def split: if_splits
      dest!: put_literal_ip put_match_ip end_run_ip dest: rehash_tail_ip)

function lzf_loop :: "bytes \<Rightarrow> nat \<Rightarrow> lzf \<Rightarrow> (flow \<times> lzf) option" where
  "lzf_loop s out_len z =
     (if z_ip z + 2 < length s then
        (case lzf_step s out_len z of
           None \<Rightarrow> None
         | Some (Continue, z') \<Rightarrow> lzf_loop s out_len z'
         | Some (Break, z') \<Rightarrow> Some (Break, z')
         | Some (Return0, z') \<Rightarrow> Some (Return0, z'))
      else Some (Break, z))"
  by pat_completeness auto
termination by (relation "measure (\<lambda>(s, out_len, z). length s - z_ip z)") (auto dest: lzf_step_ip)

declare lzf_loop.simps [simp del]

function literals_left :: "bytes \<Rightarrow> lzf \<Rightarrow> lzf option" where
  "literals_left s z =
     (if z_ip z < length s then (case put_literal s z of None \<Rightarrow> None | Some z' \<Rightarrow> literals_left s z') else Some z)"
  by pat_completeness auto
termination by (relation "measure (\<lambda>(s, z). length s - z_ip z)") (auto dest: put_literal_ip)

declare literals_left.simps [simp del]

text \<open>The bytes written to the output; none of them stands for the result 0 (\<open>it does not fit\<close>). The array given holds anything.\<close>

definition lzf_compress :: "(nat \<Rightarrow> int) \<Rightarrow> bytes \<Rightarrow> bytes \<Rightarrow> nat \<Rightarrow> bytes option" where
  "lzf_compress htab s buf out_len =
     (if s = [] \<or> out_len = 0 then Some [] else do {
        h \<leftarrow> FRST s 0;
        (f, z) \<leftarrow> lzf_loop s out_len \<lparr>z_ip = 0, z_op = 1, z_lit = 0, z_hval = h, z_htab = htab, z_out = buf\<rparr>;
        if f = Return0 \<or> z_op z + 3 > out_len then Some [] else do {
          z \<leftarrow> literals_left s z;
          z \<leftarrow> end_run z;
          Some (take (z_op z) (z_out z))
        }
      })"

subsection \<open>lzf\_decompress\<close>

text \<open>The copy of a back reference, byte by byte: it may overlap what it writes.\<close>

fun copy_ref :: "nat \<Rightarrow> nat \<Rightarrow> bytes \<Rightarrow> bytes" where
  "copy_ref ref 0 out = out"
| "copy_ref ref (Suc n) out = copy_ref (ref + 1) n (out @ [out ! ref])"

text \<open>The output so far; the end of the input ends the loop. The empty list is the result 0 (\<open>errno\<close> is set).\<close>

function lzf_blocks :: "nat \<Rightarrow> bytes \<Rightarrow> bytes \<Rightarrow> bytes" where
  "lzf_blocks out_len [] out = out"
| "lzf_blocks out_len (c # cs) out =
     (let ctrl = unat c
      in if ctrl < 32 then
           (if length out + (ctrl + 1) > out_len \<or> ctrl + 1 > length cs then []
            else lzf_blocks out_len (drop (ctrl + 1) cs) (out @ take (ctrl + 1) cs))
         else let len = ctrl div 32; ref = int (length out) - int ((ctrl mod 32) * 256) - 1
         in if cs = [] then []
            else let (len, cs) = (if len = 7 then (len + unat (hd cs), tl cs) else (len, cs))
            in if cs = [] then []
               else let ref = ref - int (unat (hd cs))
               in if length out + len + 2 > out_len \<or> ref < 0 then []
                  else lzf_blocks out_len (tl cs) (copy_ref (nat ref) (len + 2) out))"
  by pat_completeness auto
termination
  by (relation "measure (\<lambda>(out_len, cs, out). length cs)") (auto split: if_splits simp: less_Suc_eq_le)

definition lzf_decompress :: "bytes \<Rightarrow> nat \<Rightarrow> bytes option" where
  "lzf_decompress s out_len = (if s = [] then None else Some (lzf_blocks out_len s []))"

subsection \<open>What the decompressor makes of the blocks\<close>

lemma rd_Some [simp]: "i < length a \<Longrightarrow> rd a i = Some (a ! i)"
  by (simp add: rd_def)

lemma wr_Some [simp]: "i < length a \<Longrightarrow> wr i b a = Some (a[i := b])"
  by (simp add: wr_def)

lemma literal_block:
  assumes "0 < length L" "length L \<le> 32" "length D + length L \<le> m"
  shows "lzf_blocks m ((of_nat (length L) - 1) # L @ Q) D = lzf_blocks m Q (D @ L)"
proof -
  have "of_nat (length L) - 1 = (of_nat (length L - 1) :: u8)" using assms(1) by (cases L) simp_all
  then have "unat (of_nat (length L) - 1 :: u8) = length L - 1"
    using assms(2) by (simp add: unat_of_nat take_bit_nat_eq_self)
  moreover have "length L - 1 < 32" using assms by linarith
  ultimately show ?thesis using assms by (simp add: Let_def)
qed

lemma copy_ref_prefix:
  assumes "ref < ip" "ip + n \<le> length s" "\<And>i. i < n \<Longrightarrow> s ! (ref + i) = s ! (ip + i)"
  shows "copy_ref ref n (take ip s) = take (ip + n) s"
  using assms
proof (induction n arbitrary: ref ip)
  case (Suc n)
  have "take ip s @ [take ip s ! ref] = take (Suc ip) s"
    using Suc.prems(1,2) Suc.prems(3)[of 0] by (simp add: take_Suc_conv_app_nth)
  moreover have "s ! (Suc ref + i) = s ! (Suc ip + i)" if "i < n" for i
    using Suc.prems(3)[of "Suc i"] that by simp
  ultimately show ?case using Suc.IH[of "Suc ref" "Suc ip"] Suc.prems(1,2) by simp
qed simp

text \<open>The bytes of a back reference of \<open>len + 2\<close> bytes.\<close>

definition match_bytes :: "nat \<Rightarrow> nat \<Rightarrow> bytes" where
  "match_bytes off len =
     (if len < 7 then [of_nat (off div 256) + push_bit 5 (of_nat len)]
      else [of_nat (off div 256) + push_bit 5 7, of_nat (len - 7)]) @ [of_nat off]"

lemma match_ctrl:
  assumes "h < 32" "0 < l" "l < 8"
  shows "unat (of_nat h + push_bit 5 (of_nat l) :: u8) = h + 32 * l"
proof -
  have "(of_nat h + push_bit 5 (of_nat l) :: u8) = of_nat (h + 32 * l)"
    by (simp add: push_bit_eq_mult)
  moreover have "h + 32 * l < 256" using assms by linarith
  ultimately show ?thesis by (simp only: unat_of_nat) (simp add: take_bit_nat_eq_self)
qed

lemma match_block:
  assumes off: "off < 8192" and len: "0 < len" "len \<le> 262" and ip: "ref + off + 1 = ip" "ip + len + 2 \<le> length s"
    and same: "\<And>i. i < len + 2 \<Longrightarrow> s ! (ref + i) = s ! (ip + i)"
  shows "lzf_blocks (length s) (match_bytes off len @ Q) (take ip s) = lzf_blocks (length s) Q (take (ip + len + 2) s)"
proof -
  have h: "off div 256 < 32" using off by linarith
  have lo: "unat (of_nat off :: u8) = off mod 256" by (simp add: unat_of_nat take_bit_eq_mod)
  have ref: "int (length (take ip s)) - int (off div 256 * 256) - 1 - int (off mod 256) = int ref"
  proof -
    have l: "length (take ip s) = ip" using ip by simp
    have "int off = int (off div 256 * 256) + int (off mod 256)" by (simp only: div_mult_mod_eq flip: of_nat_add)
    then show ?thesis unfolding l using ip by linarith
  qed
  have copy: "copy_ref ref (len + 2) (take ip s) = take (ip + len + 2) s"
    using copy_ref_prefix[of ref ip "len + 2" s] same ip by simp
  show ?thesis
  proof (cases "len < 7")
    case True
    note c = match_ctrl[of "off div 256" len, OF h len(1)]
    have "(off div 256 + 32 * len) div 32 = len" "(off div 256 + 32 * len) mod 32 = off div 256" using h by simp_all
    then show ?thesis using True len c lo ref copy ip by (simp add: match_bytes_def Let_def)
  next
    case False
    have c: "unat (of_nat (off div 256) + push_bit 5 7 :: u8) = off div 256 + 224"
      using match_ctrl[of "off div 256" 7] h by simp
    have "(off div 256 + 224) div 32 = 7" "(off div 256 + 224) mod 32 = off div 256"
      using h mod_mult_self1[of "off div 256" 7 32] by simp_all
    moreover have "unat (of_nat (len - 7) :: u8) = len - 7"
      using len by (simp add: unat_of_nat take_bit_nat_eq_self)
    ultimately show ?thesis using False len c lo ref copy ip by (simp add: match_bytes_def Let_def)
  qed
qed

subsection \<open>The compressor\<close>

text \<open>The first \<open>k\<close> bytes of the output are blocks that stand for the first \<open>i\<close> bytes of the input.\<close>

definition decoded :: "bytes \<Rightarrow> bytes \<Rightarrow> nat \<Rightarrow> nat \<Rightarrow> bool" where
  "decoded s out k i \<longleftrightarrow>
     (\<forall>Q. lzf_blocks (length s) (take k out @ Q) [] = lzf_blocks (length s) Q (take i s))"

lemma decoded_write: "decoded s out k i \<Longrightarrow> k \<le> j \<Longrightarrow> decoded s (out[j := b]) k i"
  by (simp add: decoded_def)

lemma decoded_blocks:
  assumes "decoded s out k i" "take j out = take k out @ B"
    and "\<And>Q. lzf_blocks (length s) (B @ Q) (take i s) = lzf_blocks (length s) Q (take l s)"
  shows "decoded s out j l"
  using assms by (simp add: decoded_def)

text \<open>The invariant of the loop: complete blocks, the place of a control byte, and a run of fewer than 32 literals.\<close>

definition lzf_inv :: "bytes \<Rightarrow> nat \<Rightarrow> lzf \<Rightarrow> bool" where
  "lzf_inv s n z \<longleftrightarrow> length (z_out z) = n + 1 \<and> z_lit z < 32 \<and> z_lit z + 1 \<le> z_op z \<and> z_lit z \<le> z_ip z \<and> z_ip z \<le> length s \<and>
     decoded s (z_out z) (z_op z - z_lit z - 1) (z_ip z - z_lit z) \<and>
     take (z_lit z) (drop (z_op z - z_lit z) (z_out z)) = take (z_lit z) (drop (z_ip z - z_lit z) s)"

lemma run_block:
  assumes "decoded s out k i" "take l (drop (k + 1) out) = take l (drop i s)"
    and "0 < l" "l \<le> 32" "k + 1 + l \<le> length out" "i + l \<le> length s"
  shows "decoded s (out[k := of_nat l - 1]) (k + 1 + l) (i + l)"
proof (rule decoded_blocks)
  let ?L = "take l (drop i s)"
  have l: "length ?L = l" using assms by simp
  show "decoded s (out[k := of_nat l - 1]) k i" using assms by (simp add: decoded_write)
  have "take (k + 1 + l) (out[k := of_nat l - 1]) = take (k + 1) (out[k := of_nat l - 1]) @ take l (drop (k + 1) out)"
    by (simp only: take_add drop_update_cancel less_add_one)
  then show "take (k + 1 + l) (out[k := of_nat l - 1]) = take k (out[k := of_nat l - 1]) @ (of_nat l - 1) # ?L"
    using assms by (simp add: take_Suc_conv_app_nth)
  show "lzf_blocks (length s) (((of_nat l - 1) # ?L) @ Q) (take i s) = lzf_blocks (length s) Q (take (i + l) s)" for Q
    using literal_block[of ?L "take i s" "length s" Q] assms unfolding l by (simp add: take_add)
qed

lemma put_literal_inv:
  assumes inv: "lzf_inv s n z" and op: "z_op z \<le> n" and ip: "z_ip z < length s"
  obtains z' where "put_literal s z = Some z'" "lzf_inv s n z'" "z_ip z' = z_ip z + 1"
    "z_op z' = z_op z + 1 \<or> z_op z' = z_op z + 2 \<and> z_lit z' = 0"
proof -
  define k where "k = z_op z - z_lit z - 1"
  define i where "i = z_ip z - z_lit z"
  let ?out = "(z_out z)[z_op z := s ! z_ip z]"
  note v = inv[unfolded lzf_inv_def, folded k_def i_def]
  have op_k: "z_op z = k + 1 + z_lit z" and ip_i: "z_ip z = i + z_lit z" using v by (auto simp: k_def i_def)
  have dec: "decoded s ?out k i" using v op_k by (simp add: decoded_write)
  have run: "take (z_lit z + 1) (drop (k + 1) ?out) = take (z_lit z + 1) (drop i s)"
    using v op ip op_k ip_i by (simp add: take_Suc_conv_app_nth drop_update_swap)
  show ?thesis
  proof (cases "z_lit z + 1 = 32")
    case True
    let ?z = "z\<lparr>z_out := ?out[k := of_nat 32 - 1], z_lit := 0, z_op := z_op z + 2, z_ip := z_ip z + 1\<rparr>"
    have "put_literal s z = Some ?z"
      using True v op ip op_k by (simp add: put_literal_def Let_def)
    moreover have "lzf_inv s n ?z"
      using run_block[OF dec run] True v op ip op_k ip_i by (simp add: lzf_inv_def)
    ultimately show ?thesis using that by simp
  next
    case False
    let ?z = "z\<lparr>z_out := ?out, z_lit := z_lit z + 1, z_op := z_op z + 1, z_ip := z_ip z + 1\<rparr>"
    have "put_literal s z = Some ?z"
      using False v op ip by (simp add: put_literal_def Let_def)
    moreover have "lzf_inv s n ?z"
      using dec run False v op ip op_k ip_i by (simp add: lzf_inv_def)
    ultimately show ?thesis using that by simp
  qed
qed

lemma end_run_inv:
  assumes inv: "lzf_inv s n z" and op: "z_op z \<le> n + 1"
  obtains out where "end_run z = Some (z\<lparr>z_out := out, z_op := (if z_lit z = 0 then z_op z - 1 else z_op z)\<rparr>)"
    "length out = n + 1" "decoded s out (if z_lit z = 0 then z_op z - 1 else z_op z) (z_ip z)"
proof -
  define k where "k = z_op z - z_lit z - 1"
  define i where "i = z_ip z - z_lit z"
  note v = inv[unfolded lzf_inv_def, folded k_def i_def]
  have op_k: "z_op z = k + 1 + z_lit z" and ip_i: "z_ip z = i + z_lit z" using v by (auto simp: k_def i_def)
  let ?out = "(z_out z)[k := of_nat (z_lit z) - 1]"
  have "end_run z = Some (z\<lparr>z_out := ?out, z_op := (if z_lit z = 0 then z_op z - 1 else z_op z)\<rparr>)"
    using v op op_k by (simp add: end_run_def)
  moreover have "decoded s ?out (if z_lit z = 0 then z_op z - 1 else z_op z) (z_ip z)"
  proof (cases "z_lit z = 0")
    case True
    then show ?thesis using v op_k ip_i by (simp add: decoded_write)
  next
    case False
    have "take (z_lit z) (drop (k + 1) (z_out z)) = take (z_lit z) (drop i s)" using v op_k by simp
    from run_block[OF _ this] show ?thesis using False v op op_k ip_i by simp
  qed
  ultimately show ?thesis using that v by simp
qed

text \<open>The length of a match: all its bytes agree.\<close>

lemma same_16_spec:
  assumes "\<forall>i \<le> len. s ! (ref + i) = s ! (ip + i)" "ip + len + n < length s" "ref < ip"
  shows "\<exists>len' stop. same_16 s ref ip len n = Some (len', stop) \<and> len \<le> len' \<and> len' \<le> len + n \<and>
    (\<forall>i < len'. s ! (ref + i) = s ! (ip + i)) \<and> (if stop then len < len' else len' = len + n \<and> s ! (ref + len') = s ! (ip + len'))"
  using assms
proof (induction n arbitrary: len)
  case (Suc n)
  show ?case
  proof (cases "s ! (ref + len + 1) = s ! (ip + len + 1)")
    case True
    then have "\<forall>i \<le> len + 1. s ! (ref + i) = s ! (ip + i)" using Suc.prems by (auto simp: le_Suc_eq)
    from Suc.IH[OF this] Suc.prems(2,3) obtain len' stop where r:
      "same_16 s ref ip (len + 1) n = Some (len', stop)" "len + 1 \<le> len'" "len' \<le> len + 1 + n"
      "\<forall>i < len'. s ! (ref + i) = s ! (ip + i)" "if stop then len + 1 < len' else len' = len + 1 + n \<and> s ! (ref + len') = s ! (ip + len')"
      by auto
    then have "same_16 s ref ip len (Suc n) = Some (len', stop)" using True Suc.prems by simp
    then show ?thesis using r by (intro exI[of _ len'] exI[of _ stop]) (auto split: if_splits)
  next
    case False
    then have "same_16 s ref ip len (Suc n) = Some (len + 1, True)" using Suc.prems by simp
    then show ?thesis using Suc.prems(1) by (auto simp: less_Suc_eq_le)
  qed
qed auto

lemma same_rest_spec:
  assumes "\<forall>i \<le> len. s ! (ref + i) = s ! (ip + i)" "ip + maxlen \<le> length s" "ref < ip"
  shows "\<exists>L. same_rest s ref ip maxlen len = Some L \<and> len < L \<and> L \<le> max (len + 1) maxlen \<and>
    (\<forall>i < L. s ! (ref + i) = s ! (ip + i))"
  using assms
proof (induction "maxlen - len" arbitrary: len rule: less_induct)
  case less
  show ?case
  proof (cases "len + 1 < maxlen \<and> s ! (ref + (len + 1)) = s ! (ip + (len + 1))")
    case True
    then have agree: "\<forall>i \<le> len + 1. s ! (ref + i) = s ! (ip + i)" using less.prems by (auto simp: le_Suc_eq)
    have "maxlen - (len + 1) < maxlen - len" using True by linarith
    from less.hyps[of "len + 1", OF this agree] True less.prems(2,3) obtain L where L:
      "same_rest s ref ip maxlen (len + 1) = Some L" "len + 1 < L" "L \<le> max (len + 2) maxlen"
      "\<forall>i < L. s ! (ref + i) = s ! (ip + i)" by auto
    then have "same_rest s ref ip maxlen len = Some L" using True less.prems by (simp add: same_rest.simps[of s ref ip maxlen len])
    then show ?thesis using L True by auto
  next
    case False
    then have "same_rest s ref ip maxlen len = Some (len + 1)"
      using less.prems by (simp add: same_rest.simps[of s ref ip maxlen len])
    then show ?thesis using less.prems(1) by (auto simp: less_Suc_eq_le)
  qed
qed

lemma match_len_spec:
  assumes "\<forall>i < 3. s ! (ref + i) = s ! (ip + i)" "ip + 4 < length s" "ref < ip"
  obtains L where "match_len s ref ip (min (length s - ip - 2) 264) = Some L" "3 \<le> L" "L \<le> 264" "ip + L \<le> length s"
    "\<forall>i < L. s ! (ref + i) = s ! (ip + i)"
proof -
  define m where "m = min (length s - ip - 2) 264"
  have m: "3 \<le> m" "m \<le> 264" "ip + m + 2 \<le> length s" using assms(2) by (auto simp: m_def)
  have three: "\<forall>i \<le> 2. s ! (ref + i) = s ! (ip + i)" using assms(1) by simp
  show ?thesis
  proof (cases "m > 16")
    case True
    obtain len stop where r: "same_16 s ref ip 2 16 = Some (len, stop)" "2 \<le> len" "len \<le> 18"
      "\<forall>i < len. s ! (ref + i) = s ! (ip + i)" "if stop then 2 < len else len = 2 + 16 \<and> s ! (ref + len) = s ! (ip + len)"
      using same_16_spec[of 2 s ref ip 16] three m True assms(3) by auto
    show ?thesis
    proof (cases stop)
      case True
      then have "match_len s ref ip m = Some len" using r(1) \<open>m > 16\<close> by (simp add: match_len_def)
      then show ?thesis using that r m \<open>m > 16\<close> True unfolding m_def by auto
    next
      case False
      then have "\<forall>i \<le> len. s ! (ref + i) = s ! (ip + i)" using r by (auto simp: le_less)
      from same_rest_spec[OF this _ assms(3), of m] m obtain L where L: "same_rest s ref ip m len = Some L" "len < L" "L \<le> max (len + 1) m"
        "\<forall>i < L. s ! (ref + i) = s ! (ip + i)" by auto
      then have "match_len s ref ip m = Some L" using r(1) False \<open>m > 16\<close> by (simp add: match_len_def)
      then show ?thesis using that L r m \<open>m > 16\<close> unfolding m_def by auto
    qed
  next
    case False
    from same_rest_spec[OF three _ assms(3), of m] m obtain L where "same_rest s ref ip m 2 = Some L" "2 < L" "L \<le> max 3 m"
      "\<forall>i < L. s ! (ref + i) = s ! (ip + i)" by auto
    moreover then have "match_len s ref ip m = Some L" using False by (simp add: match_len_def)
    ultimately show ?thesis using that m unfolding m_def by auto
  qed
qed

lemma is_match_spec:
  assumes "is_match s ref ip = Some same" "same"
  shows "0 < ref \<and> ref < int ip \<and> int ip - ref - 1 < 8192 \<and> ip + 4 < length s \<and> (\<forall>i < 3. s ! (nat ref + i) = s ! (ip + i))"
  using assms by (auto simp: is_match_def Let_def opt_bind rd_def eval_nat_numeral All_less_Suc split: if_splits)

lemma is_match_returns:
  assumes "ip + 2 < length s"
  obtains same where "is_match s ref ip = Some same"
proof (cases "0 \<le> int ip - ref - 1 \<and> int ip - ref - 1 < 8192 \<and> ip + 4 < length s \<and> ref > 0")
  case True
  then have "nat ref < length s" "nat ref + 1 < length s" "nat ref + 2 < length s" by linarith+
  then show ?thesis using True assms that by (simp add: is_match_def)
next
  case False
  then have "is_match s ref ip = Some False" unfolding is_match_def Let_def by (rule if_not_P)
  then show ?thesis by (rule that)
qed

lemma put_byte_eq:
  "z_op z < length (z_out z) \<Longrightarrow> put_byte b z = Some (z\<lparr>z_out := (z_out z)[z_op z := b], z_op := z_op z + 1\<rparr>)"
  by (simp add: put_byte_def)

lemma take_update2: "k + 2 \<le> length out \<Longrightarrow> take (k + 2) (out[k := a, k + 1 := b]) = take k out @ [a, b]"
  by (simp add: take_Suc_conv_app_nth)

lemma take_update3: "k + 3 \<le> length out \<Longrightarrow> take (k + 3) (out[k := a, k + 1 := b, k + 2 := c]) = take k out @ [a, b, c]"
  by (simp add: take_Suc_conv_app_nth eval_nat_numeral)

lemma put_match_eq:
  assumes "z_op z + 3 < length (z_out z)"
  obtains out where "put_match off len z = Some (z\<lparr>z_out := out, z_op := z_op z + length (match_bytes off len) + 1, z_lit := 0\<rparr>)"
    "length out = length (z_out z)" "take (z_op z + length (match_bytes off len)) out = take (z_op z) (z_out z) @ match_bytes off len"
proof (cases "len < 7")
  case True
  let ?b = "of_nat (off div 256) + push_bit 5 (of_nat len) :: u8"
  let ?out = "(z_out z)[z_op z := ?b, z_op z + 1 := of_nat off]"
  have m: "match_bytes off len = [?b, of_nat off]" using True by (simp add: match_bytes_def)
  have "put_match off len z = Some (z\<lparr>z_out := ?out, z_op := z_op z + 3, z_lit := 0\<rparr>)"
    using True assms by (simp add: put_match_def put_byte_eq)
  moreover have "take (z_op z + 2) ?out = take (z_op z) (z_out z) @ [?b, of_nat off]"
    by (rule take_update2) (use assms in simp)
  ultimately show ?thesis by (intro that[of ?out]) (simp_all add: m)
next
  case False
  let ?b = "of_nat (off div 256) + push_bit 5 7 :: u8"
  let ?out = "(z_out z)[z_op z := ?b, z_op z + 1 := of_nat (len - 7), z_op z + 2 := of_nat off]"
  have m: "match_bytes off len = [?b, of_nat (len - 7), of_nat off]" using False by (simp add: match_bytes_def)
  have "put_match off len z = Some (z\<lparr>z_out := ?out, z_op := z_op z + 4, z_lit := 0\<rparr>)"
    using False assms by (simp add: put_match_def put_byte_eq)
  moreover have "take (z_op z + 3) ?out = take (z_op z) (z_out z) @ match_bytes off len"
    unfolding m by (rule take_update3) (use assms in simp)
  moreover have "length (match_bytes off len) = 3" by (simp add: m)
  ultimately show ?thesis by (intro that[of ?out]) simp_all
qed

lemma rehash_tail_eq:
  assumes "2 \<le> z_ip z" "z_ip z + 2 \<le> length s"
  obtains h htab where "rehash_tail s z = Some (z\<lparr>z_hval := h, z_htab := htab, z_ip := z_ip z\<rparr>)"
proof -
  obtain ip where ip: "z_ip z = Suc (Suc ip)" using assms(1) by (cases "z_ip z"; cases "z_ip z - 1") auto
  show ?thesis using assms ip that by (simp add: rehash_tail_def FRST_def NEXT_def)
qed

text \<open>One round of the loop never leaves the arrays, and keeps the invariant unless it gives up.\<close>

lemma lzf_match_spec:
  assumes inv: "lzf_inv s n z" and op: "z_op z \<le> n + 1" and ip: "z_ip z + 4 < length s"
    and ref: "0 < ref" "ref < z_ip z" "z_ip z - ref - 1 < 8192" and same: "\<forall>i < 3. s ! (ref + i) = s ! (z_ip z + i)"
  shows "returns (lzf_match s n ref z) (\<lambda>(f, z'). f = Return0 \<or> lzf_inv s n z' \<and> z_op z' \<le> n + 1)"
proof -
  define off where "off = z_ip z - ref - 1"
  have off: "off < 8192" "ref + off + 1 = z_ip z" using ref by (auto simp: off_def)
  obtain out op1 where e: "end_run z = Some (z\<lparr>z_out := out, z_op := op1\<rparr>)" "length out = n + 1" "decoded s out op1 (z_ip z)"
    using end_run_inv[OF inv op] by metis
  obtain L where L: "match_len s ref (z_ip z) (min (length s - z_ip z - 2) 264) = Some L" "3 \<le> L" "L \<le> 264" "z_ip z + L \<le> length s"
    "\<forall>i < L. s ! (ref + i) = s ! (z_ip z + i)"
    by (rule match_len_spec[OF same ip ref(2)])
  show ?thesis
  proof (cases "op1 + 3 + 1 \<ge> n")
    case True
    then show ?thesis using e by (simp add: lzf_match_def returns_def)
  next
    case False
    let ?z = "z\<lparr>z_out := out, z_op := op1, z_ip := z_ip z + 1\<rparr>"
    let ?B = "match_bytes off (L - 2)"
    obtain out2 where m: "put_match off (L - 2) ?z = Some (?z\<lparr>z_out := out2, z_op := op1 + length ?B + 1, z_lit := 0\<rparr>)"
      "length out2 = n + 1" "take (op1 + length ?B) out2 = take op1 out @ ?B"
      using put_match_eq[of ?z off "L - 2"] False e(2) by auto
    define z3 where "z3 = ?z\<lparr>z_out := out2, z_op := op1 + length ?B + 1, z_lit := 0, z_ip := z_ip z + L\<rparr>"
    have B: "length ?B \<le> 3" by (simp add: match_bytes_def)
    have pre: "take op1 out2 = take op1 out"
      using arg_cong[OF m(3), of "take op1"] e(2) False by simp
    have "decoded s out2 (op1 + length ?B) (z_ip z + L)"
    proof (rule decoded_blocks)
      show "decoded s out2 op1 (z_ip z)" using e(3) pre by (simp add: decoded_def)
      show "take (op1 + length ?B) out2 = take op1 out2 @ ?B" using m(3) pre by simp
      have "z_ip z + (L - 2) + 2 = z_ip z + L" using L by simp
      then show "lzf_blocks (length s) (?B @ Q) (take (z_ip z) s) = lzf_blocks (length s) Q (take (z_ip z + L) s)" for Q
        using match_block[OF off(1) _ _ off(2), of "L - 2" s Q] L by simp
    qed
    then have inv3: "lzf_inv s n z3" using m(2) L by (simp add: lzf_inv_def z3_def)
    have op3: "z_op z3 \<le> n + 1" using B False by (simp add: z3_def)
    have run: "lzf_match s n ref z = (if z_ip z3 + 2 \<ge> length s then Some (Break, z3) else do { z \<leftarrow> rehash_tail s z3; Some (Continue, z) })"
    proof -
      have "Suc (Suc (z_ip z + L - 2)) = z_ip z + L" using L(2) by simp
      then show ?thesis using False e(1) L(1,2) m(1) by (simp add: lzf_match_def z3_def off_def Let_def)
    qed
    show ?thesis
    proof (cases "z_ip z3 + 2 \<ge> length s")
      case True
      then show ?thesis using run inv3 op3 by (simp add: returns_def)
    next
      case False
      have "2 \<le> z_ip z3" "z_ip z3 + 2 \<le> length s" using False L(2) by (simp_all add: z3_def)
      then obtain h htab where "rehash_tail s z3 = Some (z3\<lparr>z_hval := h, z_htab := htab, z_ip := z_ip z3\<rparr>)"
        by (rule rehash_tail_eq)
      then show ?thesis using run False inv3 op3 by (simp add: returns_def lzf_inv_def)
    qed
  qed
qed

lemma lzf_step_spec:
  assumes inv: "lzf_inv s n z" and op: "z_op z \<le> n + 1" and ip: "z_ip z + 2 < length s"
  shows "returns (lzf_step s n z) (\<lambda>(f, z'). f = Return0 \<or> lzf_inv s n z' \<and> z_op z' \<le> n + 1)"
proof -
  obtain h where h: "NEXT (z_hval z) s (z_ip z) = Some h" using ip by (simp add: NEXT_def)
  let ?ref = "z_htab z (IDX h)"
  let ?z = "z\<lparr>z_hval := h, z_htab := (z_htab z)(IDX h := int (z_ip z))\<rparr>"
  have inv': "lzf_inv s n ?z" using inv by (simp add: lzf_inv_def)
  obtain same where same: "is_match s ?ref (z_ip z) = Some same" using is_match_returns[OF ip] .
  have step: "lzf_step s n z = (if same then lzf_match s n (nat ?ref) ?z else if z_op z \<ge> n then Some (Return0, ?z)
      else do { z \<leftarrow> put_literal s ?z; Some (Continue, z) })"
    using h same by (simp add: lzf_step_def Let_def)
  show ?thesis
  proof (cases same)
    case True
    note m = is_match_spec[OF same True]
    have "returns (lzf_match s n (nat ?ref) ?z) (\<lambda>(f, z'). f = Return0 \<or> lzf_inv s n z' \<and> z_op z' \<le> n + 1)"
      by (rule lzf_match_spec[OF inv']) (use m op in auto)
    then show ?thesis using step True by simp
  next
    case False
    show ?thesis
    proof (cases "z_op z \<ge> n")
      case False
      obtain z' where "put_literal s ?z = Some z'" "lzf_inv s n z'" "z_op z' = z_op ?z + 1 \<or> z_op z' = z_op ?z + 2 \<and> z_lit z' = 0"
        using put_literal_inv[OF inv'] False ip by auto
      then show ?thesis using step False \<open>\<not> same\<close> by (auto simp: returns_def)
    qed (use step \<open>\<not> same\<close> in \<open>simp add: returns_def\<close>)
  qed
qed

lemma lzf_loop_spec:
  assumes "lzf_inv s n z" "z_op z \<le> n + 1"
  shows "returns (lzf_loop s n z) (\<lambda>(f, z'). f = Return0 \<or> lzf_inv s n z' \<and> z_op z' \<le> n + 1 \<and> z_ip z' + 2 \<ge> length s)"
  using assms
proof (induction s n z rule: lzf_loop.induct)
  case (1 s n z)
  show ?case
  proof (cases "z_ip z + 2 < length s")
    case True
    obtain f z' where st: "lzf_step s n z = Some (f, z')" "f = Return0 \<or> lzf_inv s n z' \<and> z_op z' \<le> n + 1"
      using lzf_step_spec[OF "1.prems" True] by (auto simp: returns_def)
    show ?thesis
    proof (cases f)
      case Continue
      then show ?thesis using "1.IH"[OF True st(1)] st True by (simp add: lzf_loop.simps[of s n z])
    next
      case Break
      have "z_ip z' + 2 \<ge> length s" using st(1) Break
        by (auto simp: lzf_step_def lzf_match_def opt_bind Let_def split: if_splits)
      then show ?thesis using st True Break by (simp add: lzf_loop.simps[of s n z] returns_def)
    qed (use st True in \<open>simp add: lzf_loop.simps[of s n z] returns_def\<close>)
  qed (use "1.prems" in \<open>simp add: lzf_loop.simps[of s n z] returns_def\<close>)
qed

text \<open>At most two literals are left after the loop, for which it has kept three bytes.\<close>

lemma literals_left_spec:
  assumes "lzf_inv s n z" "z_op z + 2 * (length s - z_ip z) \<le> n + 1" "z_op z \<le> n \<or> z_lit z = 0"
  shows "returns (literals_left s z) (\<lambda>z'. lzf_inv s n z' \<and> z_op z' \<le> n + 1 \<and> (z_op z' \<le> n \<or> z_lit z' = 0) \<and> z_ip z' = length s)"
  using assms
proof (induction s z rule: literals_left.induct)
  case (1 s z)
  show ?case
  proof (cases "z_ip z < length s")
    case True
    then have "z_op z \<le> n" using "1.prems"(2) by linarith
    from put_literal_inv[OF "1.prems"(1) this True] obtain z' where z': "put_literal s z = Some z'" "lzf_inv s n z'" "z_ip z' = z_ip z + 1"
      "z_op z' = z_op z + 1 \<or> z_op z' = z_op z + 2 \<and> z_lit z' = 0" .
    have "returns (literals_left s z') (\<lambda>z'. lzf_inv s n z' \<and> z_op z' \<le> n + 1 \<and> (z_op z' \<le> n \<or> z_lit z' = 0) \<and> z_ip z' = length s)"
      by (rule "1.IH"[OF True z'(1,2)]) (use z' True "1.prems" in auto)
    then show ?thesis using True z'(1) by (simp add: literals_left.simps[of s z])
  next
    case False
    moreover have "z_ip z = length s" using False "1.prems"(1) by (simp add: lzf_inv_def)
    ultimately show ?thesis using "1.prems" by (simp add: literals_left.simps[of s z] returns_def)
  qed
qed

subsection \<open>The round trip\<close>

text \<open>Compression ends with a result of at most \<open>out_len\<close> bytes, without leaving the output array of \<open>out_len + 1\<close> bytes or the input, and
  decompression gives the string back.\<close>

lemma lzf_compress_spec:
  assumes s: "2 \<le> length s" and buf: "length buf = n + 1"
  shows "returns (lzf_compress htab s buf n) (\<lambda>c. length c \<le> n \<and> (c \<noteq> [] \<longrightarrow> lzf_decompress c (length s) = Some s))"
proof (cases "n = 0")
  case False
  have "s \<noteq> []" using s by auto
  then obtain h where h: "FRST s 0 = Some h" using s by (simp add: FRST_def)
  let ?z = "\<lparr>z_ip = 0, z_op = 1, z_lit = 0, z_hval = h, z_htab = htab, z_out = buf\<rparr>"
  have "lzf_inv s n ?z" using buf by (simp add: lzf_inv_def decoded_def)
  then obtain f z where loop: "lzf_loop s n ?z = Some (f, z)" "f = Return0 \<or> lzf_inv s n z \<and> z_op z \<le> n + 1 \<and> z_ip z + 2 \<ge> length s"
    using lzf_loop_spec[of s n ?z] by (auto simp: returns_def)
  show ?thesis
  proof (cases "f = Return0 \<or> z_op z + 3 > n")
    case True
    then show ?thesis using s False h loop(1) by (auto simp: lzf_compress_def returns_def)
  next
    case go: False
    then have "length s - z_ip z \<le> 2" using loop(2) by auto
    with go have "z_op z + 2 * (length s - z_ip z) \<le> n + 1" by linarith
    with go obtain z' where z': "literals_left s z = Some z'" "lzf_inv s n z'" "z_op z' \<le> n + 1" "z_op z' \<le> n \<or> z_lit z' = 0" "z_ip z' = length s"
      using literals_left_spec[of s n z] loop(2) by (auto simp: returns_def)
    define op where "op = (if z_lit z' = 0 then z_op z' - 1 else z_op z')"
    obtain out where e: "end_run z' = Some (z'\<lparr>z_out := out, z_op := op\<rparr>)" "length out = n + 1" "decoded s out op (length s)"
      using end_run_inv[OF z'(2,3)] z'(5) unfolding op_def by metis
    have "lzf_compress htab s buf n = Some (take op out)"
      using s False h loop(1) go z'(1) e(1) by (auto simp: lzf_compress_def)
    moreover have "lzf_blocks (length s) (take op out) [] = s"
      using e(3)[unfolded decoded_def, rule_format, of "[]"] by simp
    moreover have "op \<le> n" using z'(3,4) by (auto simp: op_def)
    ultimately show ?thesis using e(2) by (simp add: returns_def lzf_decompress_def)
  qed
qed (simp add: lzf_compress_def returns_def)

text \<open>Property C25.
  Compressing a string of at least two bytes ends with at most \<open>out_len\<close> bytes. Whatever the uninitialised hash table and the output array hold at the
  start, it reads only the input and writes only the output array, of \<open>out_len + 1\<close> bytes as rdb.c allocates it; and unless it gives up (the
  result is empty) the decompressor turns the result back into the string.\<close>

theorem lzf_roundtrip:
  assumes "2 \<le> length s" "length buf = n + 1"
  shows "returns (lzf_compress htab s buf n) (\<lambda>c. length c \<le> n \<and> (c \<noteq> [] \<longrightarrow> lzf_decompress c (length s) = Some s))"
  using assms by (rule lzf_compress_spec)

theorem lzf_roundtrip_witness:
  "returns (lzf_compress (\<lambda>_. 3) (replicate 60 0x61) (replicate 57 0) 56)
     (\<lambda>c. length c \<le> 56 \<and> (c \<noteq> [] \<longrightarrow> lzf_decompress c 60 = Some (replicate 60 0x61)))"
  using lzf_roundtrip[of "replicate 60 0x61" "replicate 57 0" 56 "\<lambda>_. 3"] by (simp only: length_replicate) simp

end
