(* ===== verification/Rdb.thy ===== *)
theory Rdb
  imports CString Lzf
begin

text \<open>
  rdb.c: strings in a serialised value, over the buffers of rio.c. Writing to a buffer appends and cannot fail, so a save operation is the bytes
  it appends; reading takes a prefix, so a load operation gives what follows. A load has three outcomes: \<open>None\<close> is an abort (\<open>redisPanic\<close>, or an access
  out of bounds), \<open>Some None\<close> the result \<open>NULL\<close>, \<open>Some (Some (s, rest))\<close> a string. What is stored is the content of a string object: whether it is held as
  an integer or as bytes does not show in the serialisation, by \<open>rdbSaveStringObject_content\<close>.
\<close>

text \<open>Conversion to \<open>unsigned int\<close>.\<close>

definition to_uint :: "nat \<Rightarrow> nat" where
  "to_uint n = n mod 2 ^ 32"

definition rioRead :: "nat \<Rightarrow> bytes \<Rightarrow> (bytes \<times> bytes) option" where
  "rioRead len r = (if length r < len then None else Some (take len r, drop len r))"

subsection \<open>Lengths\<close>

definition REDIS_RDB_LENERR :: u32 where "REDIS_RDB_LENERR = - 1"

definition rdbSaveLen :: "u32 \<Rightarrow> bytes" where
  "rdbSaveLen len =
     (if len < push_bit 6 1 then [ucast (len AND 0xFF) OR push_bit 6 0]
      else if len < push_bit 14 1 then [ucast (drop_bit 8 len AND 0xFF) OR push_bit 6 1, ucast (len AND 0xFF)]
      else push_bit 6 2 # [ucast (drop_bit 24 len), ucast (drop_bit 16 len), ucast (drop_bit 8 len), ucast len])"

text \<open>Whether an encoded string follows, the length or the encoding, the rest.\<close>

definition rdbLoadLen :: "bytes \<Rightarrow> bool \<times> u32 \<times> bytes" where
  "rdbLoadLen r =
     (case rioRead 1 r of None \<Rightarrow> (False, REDIS_RDB_LENERR, r)
      | Some (buf, r) \<Rightarrow>
          let b0 = hd buf; type = drop_bit 6 (b0 AND 0xC0)
          in if type = 3 then (True, ucast (b0 AND 0x3F), r)
             else if type = 0 then (False, ucast (b0 AND 0x3F), r)
             else if type = 1 then
               (case rioRead 1 r of None \<Rightarrow> (False, REDIS_RDB_LENERR, r)
                | Some (buf, r) \<Rightarrow> (False, push_bit 8 (ucast (b0 AND 0x3F)) OR ucast (hd buf), r))
             else
               (case rioRead 4 r of None \<Rightarrow> (False, REDIS_RDB_LENERR, r)
                | Some (buf, r) \<Rightarrow> (False, push_bit 24 (ucast (buf ! 0)) OR push_bit 16 (ucast (buf ! 1))
                      OR push_bit 8 (ucast (buf ! 2)) OR ucast (buf ! 3), r)))"

subsection \<open>Integers\<close>

definition rdbEncodeInteger :: "int \<Rightarrow> bytes" where
  "rdbEncodeInteger value =
     (if value \<ge> - (2 ^ 7) \<and> value \<le> 2 ^ 7 - 1 then [push_bit 6 3 OR 0, word_of_int value]
      else if value \<ge> - (2 ^ 15) \<and> value \<le> 2 ^ 15 - 1 then
        [push_bit 6 3 OR 1, word_of_int value, word_of_int (drop_bit 8 value)]
      else if value \<ge> - (2 ^ 31) \<and> value \<le> 2 ^ 31 - 1 then
        [push_bit 6 3 OR 2, word_of_int value, word_of_int (drop_bit 8 value), word_of_int (drop_bit 16 value), word_of_int (drop_bit 24 value)]
      else [])"

definition rdbTryIntegerEncoding :: "bytes \<Rightarrow> bytes" where
  "rdbTryIntegerEncoding s =
     (let (value, _, rest) = strtoll s
      in if rest \<noteq> [] then [] else if print_int value \<noteq> s then [] else rdbEncodeInteger value)"

definition rdbLoadIntegerObject :: "u32 \<Rightarrow> bytes \<Rightarrow> (bytes \<times> bytes) option option" where
  "rdbLoadIntegerObject enctype r =
     (if enctype = 0 then
        Some (map_option (\<lambda>(enc, r). (print_int (sint (enc ! 0)), r)) (rioRead 1 r))
      else if enctype = 1 then
        Some (map_option (\<lambda>(enc, r). (print_int (sint (ucast (enc ! 0) OR push_bit 8 (ucast (enc ! 1)) :: u16)), r)) (rioRead 2 r))
      else if enctype = 2 then
        Some (map_option (\<lambda>(enc, r). (print_int (sint (ucast (enc ! 0) OR push_bit 8 (ucast (enc ! 1)) OR push_bit 16 (ucast (enc ! 2))
            OR push_bit 24 (ucast (enc ! 3)) :: u32)), r)) (rioRead 4 r))
      else None)"

subsection \<open>Strings\<close>

text \<open>The option \<open>rdbcompression\<close>, and what memory that is not initialised holds.\<close>

record rdb_env =
  rdb_compression :: bool
  stack_junk :: "nat \<Rightarrow> int"
  heap_junk :: "nat \<Rightarrow> u8"

definition rdbSaveLzfStringObject :: "rdb_env \<Rightarrow> bytes \<Rightarrow> bytes option" where
  "rdbSaveLzfStringObject env s =
     (if length s \<le> 4 then Some [] else do {
        let outlen = length s - 4;
        out \<leftarrow> lzf_compress (stack_junk env) (take (to_uint (length s)) s) (map (heap_junk env) [0..<outlen + 1]) (to_uint outlen);
        if out = [] then Some []
        else Some ((push_bit 6 3 OR 3) # rdbSaveLen (of_nat (length out)) @ rdbSaveLen (of_nat (length s)) @ out)
      })"

definition rdbLoadLzfStringObject :: "bytes \<Rightarrow> (bytes \<times> bytes) option option" where
  "rdbLoadLzfStringObject r =
     (let (_, clen, r) = rdbLoadLen r
      in if clen = REDIS_RDB_LENERR then Some None else
         let (_, len, r) = rdbLoadLen r
         in if len = REDIS_RDB_LENERR then Some None else
            (case rioRead (unat clen) r of None \<Rightarrow> Some None
             | Some (c, r) \<Rightarrow> do {
                 out \<leftarrow> lzf_decompress c (unat len);
                 if out = [] then Some None
                 else Some (Some (out @ replicate (unat len - length out) 0, r))
               }))"

definition rdbSaveRawString :: "rdb_env \<Rightarrow> bytes \<Rightarrow> bytes option" where
  "rdbSaveRawString env s = do {
     let enc = (if length s \<le> 11 then rdbTryIntegerEncoding s else []);
     if enc \<noteq> [] then Some enc else do {
       n \<leftarrow> (if rdb_compression env \<and> length s > 20 then rdbSaveLzfStringObject env s else Some []);
       if n \<noteq> [] then Some n else Some (rdbSaveLen (of_nat (length s)) @ s)
     }
   }"

definition rdbSaveLongLongAsStringObject :: "int \<Rightarrow> bytes" where
  "rdbSaveLongLongAsStringObject value =
     (let enc = rdbEncodeInteger value
      in if enc \<noteq> [] then enc else let s = print_int value in rdbSaveLen (of_nat (length s)) @ s)"

text \<open>A string object: the bytes (\<open>RAW\<close>, \<open>EMBSTR\<close>) or a number (\<open>INT\<close>).\<close>

datatype robj = RawString bytes | IntString int

fun content :: "robj \<Rightarrow> bytes" where
  "content (RawString s) = s"
| "content (IntString n) = print_int n"

fun rdbSaveStringObject :: "rdb_env \<Rightarrow> robj \<Rightarrow> bytes option" where
  "rdbSaveStringObject env (IntString n) = Some (rdbSaveLongLongAsStringObject n)"
| "rdbSaveStringObject env (RawString s) = rdbSaveRawString env s"

definition rdbGenericLoadStringObject :: "bytes \<Rightarrow> (bytes \<times> bytes) option option" where
  "rdbGenericLoadStringObject r =
     (let (isencoded, len, r) = rdbLoadLen r
      in if isencoded then
           (if len = 0 \<or> len = 1 \<or> len = 2 then rdbLoadIntegerObject len r
            else if len = 3 then rdbLoadLzfStringObject r
            else None)
         else if len = REDIS_RDB_LENERR then Some None
         else Some (rioRead (unat len) r))"

subsection \<open>Lengths are read back\<close>

lemma rioRead_prefix [simp]: "length b = n \<Longrightarrow> rioRead n (b @ r) = Some (b, r)"
  by (simp add: rioRead_def)

lemma rioRead_1 [simp]: "rioRead (Suc 0) (b # r) = Some ([b], r)"
  by (simp add: rioRead_def)

lemma rioRead_4 [simp]: "rioRead 4 (a # b # c # d # r) = Some ([a, b, c, d], r)"
  by (simp add: rioRead_def eval_nat_numeral)

lemma bits_below:
  assumes "(l :: 'a::len word) < push_bit k 1" "k < LENGTH('a)"
  shows "bit l n \<Longrightarrow> n < k"
proof -
  have "unat l < unat (2 ^ k :: 'a word)" using assms(1) by (simp add: push_bit_of_1 word_less_nat_alt)
  also have "unat (2 ^ k :: 'a word) = unat (word_of_nat (2 ^ k) :: 'a word)" by simp
  also have "\<dots> = 2 ^ k" unfolding unat_of_nat using assms(2) by (simp add: take_bit_nat_eq_self power_strict_increasing)
  finally have "take_bit k (unat l) = unat l" by (rule take_bit_nat_eq_self)
  then have "bit (unat l) n \<Longrightarrow> n < k" by (metis bit_take_bit_iff)
  then show "bit l n \<Longrightarrow> n < k" by (simp add: bit_unsigned_iff bit_imp_le_length)
qed

lemma masks: "(0xFF :: u32) = mask 8" "(0x3F :: u8) = mask 6" "(0xC0 :: u8) = push_bit 6 (mask 2)"
  by (simp_all add: mask_eq_exp_minus_1)

lemma bytes_of_u32:
  "push_bit 24 (ucast (ucast (drop_bit 24 w) :: u8) :: u32) OR push_bit 16 (ucast (ucast (drop_bit 16 w) :: u8) :: u32)
     OR push_bit 8 (ucast (ucast (drop_bit 8 w) :: u8) :: u32) OR (ucast (ucast w :: u8) :: u32) = (w :: u32)"
proof (rule bit_word_eqI)
  fix n assume "n < LENGTH(32)"
  then consider "n < 8" | "8 \<le> n" "n < 16" | "16 \<le> n" "n < 24" | "24 \<le> n" "n < 32" by fastforce
  then show "bit (push_bit 24 (ucast (ucast (drop_bit 24 w) :: u8) :: u32) OR push_bit 16 (ucast (ucast (drop_bit 16 w) :: u8) :: u32)
      OR push_bit 8 (ucast (ucast (drop_bit 8 w) :: u8) :: u32) OR (ucast (ucast w :: u8) :: u32)) n = bit w n"
    by cases (auto simp: bit_simps)
qed

lemma rdbLoadLen_save: "rdbLoadLen (rdbSaveLen len @ r) = (False, len, r)"
proof -
  consider (six) "len < push_bit 6 1" | (fourteen) "\<not> len < push_bit 6 1" "len < push_bit 14 1" | (all) "\<not> len < push_bit 6 1" "\<not> len < push_bit 14 1"
    by blast
  then show ?thesis
  proof cases
    case six
    define b0 where "b0 = (ucast (len AND 0xFF) OR push_bit 6 0 :: u8)"
    have b: "bit len n \<Longrightarrow> n < 6" for n using bits_below[OF six] by simp
    have "drop_bit 6 (b0 AND 0xC0) = 0" unfolding b0_def masks
      by (rule bit_word_eqI) (auto simp: bit_simps dest: b)
    moreover have "ucast (b0 AND 0x3F) = len" unfolding b0_def masks
      by (rule bit_word_eqI) (auto simp: bit_simps dest: b)
    moreover have "rdbSaveLen len = [b0]" using six by (simp only: rdbSaveLen_def b0_def if_True)
    ultimately show ?thesis by (simp add: rdbLoadLen_def)
  next
    case fourteen
    define c where "c = (push_bit 6 1 :: u8)"
    have c: "bit c n \<longleftrightarrow> n = 6" for n unfolding c_def by (simp only: bit_push_bit_iff bit_1_iff) auto
    define b0 where "b0 = (ucast (drop_bit 8 len AND 0xFF) OR c)"
    define b1 where "b1 = (ucast (len AND 0xFF) :: u8)"
    have b: "bit len n \<Longrightarrow> n < 14" for n using bits_below[OF fourteen(2)] by simp
    have "drop_bit 6 (b0 AND 0xC0) = 1" unfolding b0_def masks
      by (rule bit_word_eqI) (auto simp: bit_simps c dest: b)
    moreover have "push_bit 8 (ucast (b0 AND 0x3F)) OR ucast b1 = len" unfolding b0_def b1_def masks
      by (rule bit_word_eqI) (auto simp: bit_simps c dest: b)
    moreover have "rdbSaveLen len = [b0, b1]" using fourteen by (simp only: rdbSaveLen_def b0_def b1_def c_def if_True if_False)
    ultimately show ?thesis by (simp add: rdbLoadLen_def)
  next
    case all
    have "rdbSaveLen len = [push_bit 6 2, ucast (drop_bit 24 len), ucast (drop_bit 16 len), ucast (drop_bit 8 len), ucast len]"
      using all by (simp only: rdbSaveLen_def if_False)
    then show ?thesis by (simp add: rdbLoadLen_def bytes_of_u32)
  qed
qed

subsection \<open>Integers are read back\<close>

lemma drop_bits_int: "drop_bit n (v :: int) = v div 2 ^ n"
  by (simp add: drop_bit_eq_div)

text \<open>The bytes of a number, put together again.\<close>

lemma bytes_u16: "ucast (word_of_int v :: u8) OR push_bit 8 (ucast (word_of_int (drop_bit 8 v) :: u8)) = (word_of_int v :: u16)"
proof (rule bit_word_eqI)
  fix n assume "n < LENGTH(16)"
  then consider "n < 8" | "8 \<le> n" "n < 16" by fastforce
  then show "bit (ucast (word_of_int v :: u8) OR push_bit 8 (ucast (word_of_int (drop_bit 8 v) :: u8)) :: u16) n = bit (word_of_int v :: u16) n"
    by cases (auto simp: bit_simps)
qed

lemma bytes_u32: "ucast (word_of_int v :: u8) OR push_bit 8 (ucast (word_of_int (drop_bit 8 v) :: u8))
    OR push_bit 16 (ucast (word_of_int (drop_bit 16 v) :: u8)) OR push_bit 24 (ucast (word_of_int (drop_bit 24 v) :: u8)) = (word_of_int v :: u32)"
proof (rule bit_word_eqI)
  fix n assume "n < LENGTH(32)"
  then consider "n < 8" | "8 \<le> n" "n < 16" | "16 \<le> n" "n < 24" | "24 \<le> n" "n < 32" by fastforce
  then show "bit (ucast (word_of_int v :: u8) OR push_bit 8 (ucast (word_of_int (drop_bit 8 v) :: u8))
    OR push_bit 16 (ucast (word_of_int (drop_bit 16 v) :: u8)) OR push_bit 24 (ucast (word_of_int (drop_bit 24 v) :: u8)) :: u32) n = bit (word_of_int v :: u32) n"
    by cases (auto simp: bit_simps)
qed

lemma sint_of_int: "- (2 ^ (LENGTH('a) - 1)) \<le> v \<Longrightarrow> v < 2 ^ (LENGTH('a) - 1) \<Longrightarrow> sint (word_of_int v :: 'a::len word) = v"
  by (simp add: signed_of_int signed_take_bit_int_eq_self)

lemma rdbEncodeInteger_load:
  assumes "rdbEncodeInteger v \<noteq> []"
  shows "rdbGenericLoadStringObject (rdbEncodeInteger v @ r) = Some (Some (print_int v, r))"
proof -
  have ld: "rdbLoadLen ((push_bit 6 3 OR k) # bs) = (True, ucast k, bs)" if "k \<in> {0, 1, 2, 3}" for k bs
    using that by (auto simp: rdbLoadLen_def)
  consider "- (2 ^ 7) \<le> v \<and> v \<le> 2 ^ 7 - 1" | "\<not> (- (2 ^ 7) \<le> v \<and> v \<le> 2 ^ 7 - 1)" "- (2 ^ 15) \<le> v \<and> v \<le> 2 ^ 15 - 1"
    | "\<not> (- (2 ^ 7) \<le> v \<and> v \<le> 2 ^ 7 - 1)" "\<not> (- (2 ^ 15) \<le> v \<and> v \<le> 2 ^ 15 - 1)" "- (2 ^ 31) \<le> v \<and> v \<le> 2 ^ 31 - 1"
    using assms unfolding rdbEncodeInteger_def by (auto split: if_splits)
  then show ?thesis
  proof cases
    case 1
    have "sint (word_of_int v :: u8) = v" by (rule sint_of_int) (use 1 in simp_all)
    moreover have "rdbEncodeInteger v = [push_bit 6 3 OR 0, word_of_int v]" unfolding rdbEncodeInteger_def using 1 by (rule if_P)
    ultimately show ?thesis by (simp add: rdbGenericLoadStringObject_def ld[of 0, simplified] rdbLoadIntegerObject_def)
  next
    case 2
    have "sint (word_of_int v :: u16) = v" by (rule sint_of_int) (use 2 in simp_all)
    moreover have "rdbEncodeInteger v = [push_bit 6 3 OR 1, word_of_int v, word_of_int (drop_bit 8 v)]"
      unfolding rdbEncodeInteger_def if_not_P[OF 2(1)] using 2(2) by (rule if_P)
    ultimately show ?thesis
      using bytes_u16[of v] ld[of 1] by (simp add: rdbGenericLoadStringObject_def rdbLoadIntegerObject_def rioRead_def)
  next
    case 3
    have "sint (word_of_int v :: u32) = v" by (rule sint_of_int) (use 3 in simp_all)
    moreover have "rdbEncodeInteger v = [push_bit 6 3 OR 2, word_of_int v, word_of_int (drop_bit 8 v), word_of_int (drop_bit 16 v), word_of_int (drop_bit 24 v)]"
      unfolding rdbEncodeInteger_def if_not_P[OF 3(1)] if_not_P[OF 3(2)] using 3(3) by (rule if_P)
    ultimately show ?thesis
      using bytes_u32[of v] ld[of 2] by (simp add: rdbGenericLoadStringObject_def rdbLoadIntegerObject_def)
  qed
qed

lemma rdbTryIntegerEncoding_load:
  assumes "rdbTryIntegerEncoding s \<noteq> []"
  shows "rdbGenericLoadStringObject (rdbTryIntegerEncoding s @ r) = Some (Some (s, r))"
proof -
  obtain v e rest where p: "strtoll s = (v, e, rest)" by (cases "strtoll s")
  then have "rdbTryIntegerEncoding s = rdbEncodeInteger v" "print_int v = s"
    using assms by (auto simp: rdbTryIntegerEncoding_def split: if_splits)
  then show ?thesis using rdbEncodeInteger_load[of v r] assms by simp
qed

subsection \<open>Strings are read back\<close>

lemma uint32: "n < 2 ^ 32 \<Longrightarrow> unat (of_nat n :: u32) = n" "n < 2 ^ 32 \<Longrightarrow> to_uint n = n"
  by (simp_all add: unat_of_nat take_bit_nat_eq_self to_uint_def)

lemma not_lenerr: "n < 2 ^ 32 - 1 \<Longrightarrow> (of_nat n :: u32) \<noteq> REDIS_RDB_LENERR"
proof
  assume n: "n < 2 ^ 32 - 1" and "(of_nat n :: u32) = REDIS_RDB_LENERR"
  then have "unat (of_nat n :: u32) = unat (- 1 :: u32)" by (simp add: REDIS_RDB_LENERR_def)
  then show False using n uint32(1)[of n] by (simp add: unsigned_minus_1_eq_mask mask_eq_exp_minus_1)
qed

lemma raw_string_load:
  assumes "length s < 2 ^ 32 - 1"
  shows "rdbGenericLoadStringObject ((rdbSaveLen (of_nat (length s)) @ s) @ r) = Some (Some (s, r))"
  using assms by (simp add: rdbGenericLoadStringObject_def rdbLoadLen_save not_lenerr uint32)

lemma lzf_string_load:
  assumes len: "length s < 2 ^ 32 - 1" "4 < length s"
  shows "returns (rdbSaveLzfStringObject env s) (\<lambda>p. p \<noteq> [] \<longrightarrow> (\<forall>r. rdbGenericLoadStringObject (p @ r) = Some (Some (s, r))))"
proof -
  have u: "to_uint (length s) = length s" "to_uint (length s - 4) = length s - 4" using len uint32(2) by simp_all
  have "returns (lzf_compress (stack_junk env) s (map (heap_junk env) [0..<length s - 4 + 1]) (length s - 4))
      (\<lambda>c. length c \<le> length s - 4 \<and> (c \<noteq> [] \<longrightarrow> lzf_decompress c (length s) = Some s))"
    by (rule lzf_compress_spec) (use len in simp_all)
  then obtain c where c: "lzf_compress (stack_junk env) s (map (heap_junk env) [0..<length s - 4 + 1]) (length s - 4) = Some c"
    "length c \<le> length s - 4" "c \<noteq> [] \<Longrightarrow> lzf_decompress c (length s) = Some s" unfolding returns_def by blast
  have clen: "length c < 2 ^ 32 - 1" using c(2) len by linarith
  have save: "rdbSaveLzfStringObject env s = (if c = [] then Some []
      else Some ((push_bit 6 3 OR 3) # rdbSaveLen (of_nat (length c)) @ rdbSaveLen (of_nat (length s)) @ c))"
    using len c(1) by (simp add: rdbSaveLzfStringObject_def u)
  show ?thesis
  proof (cases "c = []")
    case False
    have "rdbLoadLzfStringObject (rdbSaveLen (of_nat (length c)) @ rdbSaveLen (of_nat (length s)) @ c @ r) = Some (Some (s, r))" for r
      using c(3)[OF False] clen len by (simp add: rdbLoadLzfStringObject_def rdbLoadLen_save not_lenerr uint32) (use len in auto)
    moreover have "rdbLoadLen ((push_bit 6 3 OR 3) # bs) = (True, 3, bs)" for bs by (simp add: rdbLoadLen_def)
    ultimately show ?thesis using save False by (simp add: returns_def rdbGenericLoadStringObject_def)
  qed (use save in \<open>simp add: returns_def\<close>)
qed

lemma rdbSaveRawString_load:
  assumes "length s < 2 ^ 32 - 1"
  shows "returns (rdbSaveRawString env s) (\<lambda>p. \<forall>r. rdbGenericLoadStringObject (p @ r) = Some (Some (s, r)))"
proof -
  define enc where "enc = (if length s \<le> 11 then rdbTryIntegerEncoding s else [])"
  have enc: "rdbGenericLoadStringObject (enc @ r) = Some (Some (s, r))" if "enc \<noteq> []" for r
    using that rdbTryIntegerEncoding_load[of s r] by (auto simp: enc_def split: if_splits)
  obtain n where n: "(if rdb_compression env \<and> length s > 20 then rdbSaveLzfStringObject env s else Some []) = Some n"
    "n \<noteq> [] \<longrightarrow> (\<forall>r. rdbGenericLoadStringObject (n @ r) = Some (Some (s, r)))"
  proof (cases "rdb_compression env \<and> length s > 20")
    case True
    then show ?thesis using that lzf_string_load[OF assms, of env] by (auto simp: returns_def)
  qed (use that in auto)
  have "rdbSaveRawString env s = (if enc \<noteq> [] then Some enc else if n \<noteq> [] then Some n else Some (rdbSaveLen (of_nat (length s)) @ s))"
    by (simp add: rdbSaveRawString_def enc_def[symmetric] n(1) Let_def)
  then show ?thesis using enc n(2) raw_string_load[OF assms] by (auto simp: returns_def)
qed

text \<open>The encoding of an object does not matter: a number in the range of \<open>long\<close> is saved as its digits are.\<close>

lemma length_print_nat: "n < 10 ^ Suc k \<Longrightarrow> length (print_nat n) \<le> Suc k"
proof (induction k arbitrary: n)
  case (Suc k)
  have "length (print_nat (n div 10)) \<le> Suc k" by (rule Suc.IH) (use Suc.prems in \<open>simp add: less_mult_imp_div_less\<close>)
  then show ?case by (subst print_nat.simps) simp
qed (simp add: print_nat.simps)

lemma length_print_int: "\<bar>n\<bar> < 10 ^ Suc k \<Longrightarrow> length (print_int n) \<le> Suc (Suc k)"
proof -
  assume "\<bar>n\<bar> < 10 ^ Suc k"
  then have "nat \<bar>n\<bar> < 10 ^ Suc k" by (simp add: nat_less_iff)
  then have "length (print_nat (nat \<bar>n\<bar>)) \<le> Suc k" by (rule length_print_nat)
  then show ?thesis by (auto simp: print_int_def)
qed

lemma rdbSaveStringObject_content:
  assumes n: "LLONG_MIN \<le> n" "n \<le> LLONG_MAX"
  shows "rdbSaveStringObject env (IntString n) = rdbSaveRawString env (content (IntString n))"
proof -
  have enc: "rdbTryIntegerEncoding (print_int n) = rdbEncodeInteger n"
    using strtoll_print_int[of n] n by (simp add: rdbTryIntegerEncoding_def)
  have "length (print_int n) \<le> Suc (Suc 18)" by (rule length_print_int) (use n in \<open>simp add: LLONG_MIN_def LLONG_MAX_def\<close>)
  then have short: "\<not> length (print_int n) > 20" by simp
  have "length (print_int n) \<le> Suc (Suc 9)" if "rdbEncodeInteger n \<noteq> []"
    by (rule length_print_int) (use that in \<open>auto simp: rdbEncodeInteger_def split: if_splits\<close>)
  then have "(if length (print_int n) \<le> 11 then rdbTryIntegerEncoding (print_int n) else []) = rdbEncodeInteger n"
    using enc by (cases "rdbEncodeInteger n = []") auto
  then show ?thesis using short by (simp add: rdbSaveRawString_def rdbSaveLongLongAsStringObject_def Let_def)
qed

end
