(* ===== verification/Dump.thy ===== *)
theory Dump
  imports ClusterCommand Crc64 Rdb
begin

text \<open>
  DUMP and RESTORE (cluster.c): the serialised value with its version and checksum. A command gives the bytes of its reply, the command that replicas and the
  append only file receive (\<open>server.dirty\<close> has grown, and \<open>call\<close> propagates the argument vector of the client), and the state after it.
  Values are strings; a payload of another type is outside the model, and \<open>rdbLoadObject\<close> gives \<open>None\<close> on it, as on an abort.
  Integers of type \<open>long long\<close> are integers, with \<open>None\<close> where the signed arithmetic of C overflows.
\<close>

subsection \<open>Replies\<close>

definition CRLF :: bytes where "CRLF = [0x0D, 0x0A]"

definition reply_ok :: bytes where "reply_ok = str ''+OK'' @ CRLF"
definition reply_nullbulk :: bytes where "reply_nullbulk = str ''$-1'' @ CRLF"
definition reply_syntaxerr :: bytes where "reply_syntaxerr = str ''-ERR syntax error'' @ CRLF"
definition reply_busykey :: bytes where "reply_busykey = str ''-BUSYKEY Target key name already exists.'' @ CRLF"

definition addReplyError :: "bytes \<Rightarrow> bytes" where
  "addReplyError err = str ''-ERR '' @ err @ CRLF"

definition addReplyBulk :: "bytes \<Rightarrow> bytes" where
  "addReplyBulk s = 0x24 # print_nat (length s) @ CRLF @ s @ CRLF"

type_synonym outcome = "bytes \<times> bytes list option \<times> server"

subsection \<open>Times\<close>

definition long_long :: "int \<Rightarrow> int option" where
  "long_long v = (if LLONG_MIN \<le> v \<and> v \<le> LLONG_MAX then Some v else None)"

definition setExpire :: "bytes \<Rightarrow> int \<Rightarrow> server \<Rightarrow> server option" where
  "setExpire key when s = do { redisAssert (db0 s key \<noteq> None); Some (s\<lparr>expires0 := (expires0 s)(key \<mapsto> when)\<rparr>) }"

subsection \<open>The payload\<close>

definition REDIS_RDB_VERSION :: u16 where "REDIS_RDB_VERSION = 6"
definition REDIS_RDB_TYPE_STRING :: u8 where "REDIS_RDB_TYPE_STRING = 0"

definition createDumpPayload :: "rdb_env \<Rightarrow> robj \<Rightarrow> bytes option" where
  "createDumpPayload rdb ob = do {
     body \<leftarrow> rdbSaveStringObject rdb ob;
     let payload = REDIS_RDB_TYPE_STRING # body;
     let payload = payload @ [ucast (REDIS_RDB_VERSION AND 0xFF), ucast (drop_bit 8 REDIS_RDB_VERSION AND 0xFF)];
     Some (payload @ bytes_le64 (crc64 0 payload))
   }"

definition verifyDumpPayload :: "bytes \<Rightarrow> bool" where
  "verifyDumpPayload p =
     (if length p < 10 then False
      else let footer = drop (length p - 10) p;
               rdbver = push_bit 8 (ucast (footer ! 1)) OR ucast (footer ! 0) :: u16
           in if rdbver \<noteq> REDIS_RDB_VERSION then False
              else bytes_le64 (crc64 0 (take (length p - 8) p)) = drop 2 footer)"

definition rdbIsObjectType :: "u8 \<Rightarrow> bool" where
  "rdbIsObjectType t \<longleftrightarrow> t \<le> 4 \<or> 9 \<le> t \<and> t \<le> 13"

definition rdbLoadObjectType :: "bytes \<Rightarrow> (u8 \<times> bytes) option" where
  "rdbLoadObjectType r = (case rioRead 1 r of None \<Rightarrow> None
     | Some (t, r) \<Rightarrow> if rdbIsObjectType (hd t) then Some (hd t, r) else None)"

definition rdbLoadObject :: "u8 \<Rightarrow> bytes \<Rightarrow> (bytes \<times> bytes) option option" where
  "rdbLoadObject rdbtype r = (if rdbtype = REDIS_RDB_TYPE_STRING then rdbGenericLoadStringObject r else None)"

subsection \<open>The commands\<close>

text \<open>\<open>DUMP key\<close>.\<close>

definition dumpCommand :: "env \<Rightarrow> rdb_env \<Rightarrow> bytes list \<Rightarrow> server \<Rightarrow> outcome option" where
  "dumpCommand env rdb argv s = do {
     (v, s) \<leftarrow> lookupKeyRead env (argv ! 1) s;
     case v of
       None \<Rightarrow> Some (reply_nullbulk, None, s)
     | Some v \<Rightarrow> do { payload \<leftarrow> createDumpPayload rdb (RawString v); Some (addReplyBulk payload, None, s) }
   }"

text \<open>The options from the fourth argument on: \<open>None\<close> is a syntax error.\<close>

fun restore_options :: "bytes list \<Rightarrow> bool \<Rightarrow> bool option" where
  "restore_options [] replace = Some replace"
| "restore_options (a # as) replace =
     (if strcaseeq a (str ''replace'') then restore_options as True else None)"

definition lookupKeyWrite :: "env \<Rightarrow> bytes \<Rightarrow> server \<Rightarrow> (bytes option \<times> server) option" where
  "lookupKeyWrite env key s = do { (_, s) \<leftarrow> expireIfNeeded env key s; Some (db0 s key, s) }"

text \<open>\<open>RESTORE key ttl payload [REPLACE]\<close>.\<close>

definition restore_value :: "bytes list \<Rightarrow> bool \<Rightarrow> server \<Rightarrow> outcome option" where
  "restore_value argv replace s =
     (case getLongLongFromObject (argv ! 2) of
        None \<Rightarrow> Some (addReplyError (str ''value is not an integer or out of range''), None, s)
      | Some ttl \<Rightarrow>
          if ttl < 0 then Some (addReplyError (str ''Invalid TTL value, must be >= 0''), None, s)
          else if \<not> verifyDumpPayload (argv ! 3) then Some (addReplyError (str ''DUMP payload version or checksum are wrong''), None, s)
          else do {
            loaded \<leftarrow> (case rdbLoadObjectType (argv ! 3) of None \<Rightarrow> Some None | Some (type, r) \<Rightarrow> rdbLoadObject type r);
            case loaded of
              None \<Rightarrow> Some (addReplyError (str ''Bad data format''), None, s)
            | Some (obj, _) \<Rightarrow> do {
                let s = (if replace then snd (dbDelete (argv ! 1) s) else s);
                s \<leftarrow> dbAdd (argv ! 1) obj s;
                s \<leftarrow> (if ttl \<noteq> 0 then do { when \<leftarrow> long_long (mstime s + ttl); setExpire (argv ! 1) when s } else Some s);
                Some (reply_ok, Some argv, s)
              }
          })"

definition restoreCommand :: "env \<Rightarrow> bytes list \<Rightarrow> server \<Rightarrow> outcome option" where
  "restoreCommand env argv s =
     (case restore_options (drop 4 argv) False of
        None \<Rightarrow> Some (reply_syntaxerr, None, s)
      | Some replace \<Rightarrow> do {
          (v, s) \<leftarrow> (if \<not> replace then lookupKeyWrite env (argv ! 1) s else Some (None, s));
          if v \<noteq> None then Some (reply_busykey, None, s) else restore_value argv replace s
        })"

subsection \<open>Payloads\<close>

lemma version_bytes: "ucast (REDIS_RDB_VERSION AND 0xFF) = (6 :: u8)" "ucast (drop_bit 8 REDIS_RDB_VERSION AND 0xFF) = (0 :: u8)"
  by (simp_all add: REDIS_RDB_VERSION_def)

lemma createDumpPayload_eq:
  "createDumpPayload rdb ob = map_option (\<lambda>body. (REDIS_RDB_TYPE_STRING # body @ [6, 0]) @ bytes_le64 (crc64 0 (REDIS_RDB_TYPE_STRING # body @ [6, 0])))
     (rdbSaveStringObject rdb ob)"
  by (cases "rdbSaveStringObject rdb ob") (simp_all add: createDumpPayload_def version_bytes Let_def)

text \<open>A payload is accepted exactly if it ends with the version and a checksum that makes the whole have checksum zero.\<close>

lemma verifyDumpPayload_iff:
  "verifyDumpPayload p \<longleftrightarrow> 10 \<le> length p \<and> take 2 (drop (length p - 10) p) = [6, 0] \<and> crc64 0 p = 0"
proof (cases "length p < 10")
  case False
  define footer where "footer = drop (length p - 10) p"
  have len: "length footer = 10" using False by (simp add: footer_def)
  then obtain a b w where f: "footer = a # b # w" "length w = 8" by (auto simp: eval_nat_numeral length_Suc_conv)
  have "p = take (length p - 8) p @ w"
  proof -
    have "length p - 8 = 2 + (length p - 10)" using False by linarith
    then have "drop (length p - 8) p = drop 2 footer" by (simp only: footer_def drop_drop)
    then show ?thesis using f by (metis append_take_drop_id drop_Suc_Cons drop0 numeral_2_eq_2)
  qed
  then have "crc64 0 p = crc64 (crc64 0 (take (length p - 8) p)) w" using crc64_append by metis
  then have crc: "crc64 0 p = 0 \<longleftrightarrow> bytes_le64 (crc64 0 (take (length p - 8) p)) = w" using crc64_residue[OF f(2)] by metis
  have ver: "push_bit 8 (ucast b) OR ucast a = REDIS_RDB_VERSION \<longleftrightarrow> a = 6 \<and> b = 0"
  proof
    assume eq: "push_bit 8 (ucast b) OR ucast a = REDIS_RDB_VERSION"
    have top: "\<not> bit a (8 + n)" for n using bit_imp_le_length[of a "8 + n"] by auto
    have "ucast (push_bit 8 (ucast b) OR ucast a :: u16) = a" "ucast (drop_bit 8 (push_bit 8 (ucast b) OR ucast a :: u16)) = b"
      using top by (auto intro!: bit_word_eqI simp: bit_simps)
    then show "a = 6 \<and> b = 0" unfolding eq by (simp add: REDIS_RDB_VERSION_def)
  qed (simp add: REDIS_RDB_VERSION_def)
  show ?thesis using False crc ver f by (auto simp: verifyDumpPayload_def footer_def[symmetric] Let_def)
qed (simp add: verifyDumpPayload_def)

lemma verify_created:
  assumes "createDumpPayload rdb ob = Some p"
  shows "verifyDumpPayload p"
proof -
  obtain body where p: "p = (REDIS_RDB_TYPE_STRING # body @ [6, 0]) @ bytes_le64 (crc64 0 (REDIS_RDB_TYPE_STRING # body @ [6, 0]))"
    using assms by (auto simp: createDumpPayload_eq)
  have "crc64 0 p = 0" unfolding p crc64_append by (simp add: crc64_residue)
  then show ?thesis unfolding verifyDumpPayload_iff by (simp add: p)
qed

text \<open>The payload that DUMP gives for the string \<open>a\<close>.\<close>

definition small_payload :: bytes where
  "small_payload = [0x00, 0x01, 0x61, 0x06, 0x00, 0x29, 0x13, 0x87, 0x1B, 0x7A, 0x63, 0x41, 0x27]"

lemma small_payload_valid: "verifyDumpPayload small_payload"
  by code_simp

lemma window_detected:
  assumes "verifyDumpPayload (a @ v @ b)" "length w = length v" "length v \<le> 8" "w \<noteq> v"
  shows "\<not> verifyDumpPayload (a @ w @ b)"
proof
  assume "verifyDumpPayload (a @ w @ b)"
  then have "crc64 0 (a @ w @ b) = crc64 0 (a @ v @ b)" using assms(1) by (simp add: verifyDumpPayload_iff)
  then show False using crc64_window[OF assms(2,3)] assms(4) by simp
qed

text \<open>Property C24.
  RESTORE never takes a payload that differs from a valid one in up to eight consecutive bytes (a burst of errors), wherever they are: in the value, in the
  version or in the checksum itself. It answers with an error and leaves the data set as it was.\<close>

theorem corrupt_payload_rejected:
  assumes "verifyDumpPayload (a @ v @ b)" "length w = length v" "length v \<le> 8" "w \<noteq> v"
  shows "\<exists>err. restore_value [cmd, key, ttl, a @ w @ b] replace s = Some (addReplyError err, None, s)"
proof -
  have "\<not> verifyDumpPayload (a @ w @ b)" using assms by (rule window_detected)
  then show ?thesis by (auto simp: restore_value_def split: option.split)
qed

theorem corrupt_payload_rejected_witness:
  "\<exists>err. restore_value [str ''RESTORE'', str ''k'', str ''0'', [0, 1] @ [0x62] @ drop 3 small_payload] False zero_server = Some (addReplyError err, None, zero_server)"
proof -
  have "small_payload = [0, 1] @ [0x61] @ drop 3 small_payload" by (simp add: small_payload_def)
  with small_payload_valid have "verifyDumpPayload ([0, 1] @ [0x61] @ drop 3 small_payload)" by simp
  from corrupt_payload_rejected[OF this, of "[0x62]"] show ?thesis by simp
qed

subsection \<open>Looking up\<close>

lemma lookup_present:
  assumes "present env k s" "expires_ok s"
  shows "lookupKeyRead env k s = Some (db0 s k, s)" "lookupKeyWrite env k s = Some (db0 s k, s)"
proof -
  have "\<exists>b. expireIfNeeded env k s = Some (b, s)"
    using assms by (cases "expires0 s k")
      (auto simp: expireIfNeeded_def getExpire_def present_def expired_def redisAssert_def Let_def)
  then show "lookupKeyRead env k s = Some (db0 s k, s)" "lookupKeyWrite env k s = Some (db0 s k, s)"
    by (auto simp: lookupKeyRead_def lookupKeyWrite_def)
qed

lemma lookup_absent:
  assumes "\<not> present env k s" "expires_ok s"
  obtains s1 where "lookupKeyRead env k s = Some (None, s1)" "lookupKeyWrite env k s = Some (None, s1)"
    "db0 s1 = (db0 s)(k := None)" "expires0 s1 = (expires0 s)(k := None)" "looked env s s1" "mstime s1 = mstime s"
proof (cases "db0 s k = None")
  case True
  then have "expires0 s k = None" using assms(2) by (auto simp: expires_ok_def)
  then show ?thesis using True by (intro that[of s]) (auto simp: lookupKeyRead_def lookupKeyWrite_def expireIfNeeded_def getExpire_def)
next
  case False
  then have ex: "expired env k s" using assms(1) by (simp add: present_def)
  let ?s1 = "snd (dbDelete k (propagateExpire k s))"
  have f: "db0 ?s1 = (db0 s)(k := None)" "expires0 ?s1 = (expires0 s)(k := None)" "mstime ?s1 = mstime s"
    by (auto simp: dbDelete_def slotToKeyDel_def propagateExpire_def do_log_def Let_def fun_eq_iff)
  obtain b where b: "dbDelete k (propagateExpire k s) = (b, ?s1)" by (metis surjective_pairing)
  have "expireIfNeeded env k s = Some (b, ?s1)"
    using ex False b by (auto simp: expireIfNeeded_def getExpire_def expired_def redisAssert_def Let_def)
  then show ?thesis using f looked_delete[OF ex] by (intro that[of ?s1]) (simp_all add: lookupKeyRead_def lookupKeyWrite_def)
qed

subsection \<open>What RESTORE does\<close>

lemma lookupKeyWrite_read: "lookupKeyWrite = lookupKeyRead"
  by (simp add: fun_eq_iff lookupKeyWrite_def lookupKeyRead_def)

text \<open>The effect of a restored key on the data set.\<close>

definition restored :: "bytes \<Rightarrow> bytes \<Rightarrow> int \<Rightarrow> server \<Rightarrow> server \<Rightarrow> bool" where
  "restored key v ttl s s' \<longleftrightarrow> db0 s' = (db0 s)(key \<mapsto> v) \<and>
     expires0 s' = (expires0 s)(key := if ttl = 0 then None else Some (mstime s + ttl)) \<and> mstime s' = mstime s"

lemma dbAdd_eq: "db0 s key = None \<Longrightarrow> dbAdd key val s = Some (slotToKeyAdd key (s\<lparr>db0 := (db0 s)(key \<mapsto> val)\<rparr>))"
  by (simp add: dbAdd_def redisAssert_def)

lemma slotToKeyAdd_fields [simp]: "db0 (slotToKeyAdd key s) = db0 s" "expires0 (slotToKeyAdd key s) = expires0 s"
  "mstime (slotToKeyAdd key s) = mstime s" "effects (slotToKeyAdd key s) = effects s"
  by (simp_all add: slotToKeyAdd_def)

lemma dbDelete_fields: "db0 (snd (dbDelete key s)) = (db0 s)(key := None)" "expires0 (snd (dbDelete key s)) = (expires0 s)(key := None)"
  "mstime (snd (dbDelete key s)) = mstime s" "effects (snd (dbDelete key s)) = effects s"
  by (auto simp: dbDelete_def slotToKeyDel_def Let_def fun_eq_iff)

lemma payload_loads:
  assumes "createDumpPayload rdb (RawString v) = Some p" "length v < 2 ^ 32 - 1"
  obtains rest where "rdbLoadObjectType p = Some (REDIS_RDB_TYPE_STRING, rest)" "\<exists>r. rdbLoadObject REDIS_RDB_TYPE_STRING rest = Some (Some (v, r))"
proof -
  obtain body where body: "rdbSaveRawString rdb v = Some body" "\<And>r. rdbGenericLoadStringObject (body @ r) = Some (Some (v, r))"
    using rdbSaveRawString_load[OF assms(2), of rdb] by (auto simp: returns_def)
  then have "\<exists>f. p = REDIS_RDB_TYPE_STRING # body @ f" using assms(1) by (auto simp: createDumpPayload_eq)
  then obtain f where p: "p = REDIS_RDB_TYPE_STRING # body @ f" ..
  have "rdbLoadObjectType p = Some (REDIS_RDB_TYPE_STRING, body @ f)"
    by (simp add: p rdbLoadObjectType_def rdbIsObjectType_def REDIS_RDB_TYPE_STRING_def)
  moreover have "rdbLoadObject REDIS_RDB_TYPE_STRING (body @ f) = Some (Some (v, f))" using body(2) by (simp add: rdbLoadObject_def)
  ultimately show ?thesis using that by blast
qed

lemma createDumpPayload_returns:
  assumes "length v < 2 ^ 32 - 1"
  obtains p where "createDumpPayload rdb (RawString v) = Some p"
  using rdbSaveRawString_load[OF assms, of rdb] that by (auto simp: returns_def createDumpPayload_eq)

lemma getLongLong_print: "LLONG_MIN \<le> i \<Longrightarrow> i \<le> LLONG_MAX \<Longrightarrow> getLongLongFromObject (print_int i) = Some i"
proof -
  assume i: "LLONG_MIN \<le> i" "i \<le> LLONG_MAX"
  have "\<not> isspace (hd (print_int i))"
  proof (cases "i < 0")
    case False
    then have "isdigit (hd (print_int i))" using hd_print_nat by (simp add: print_int_def)
    then show ?thesis by (auto simp: isdigit_def isspace_def word_le_nat_alt word_less_nat_alt)
  qed (simp add: print_int_def isspace_def)
  then show ?thesis using strtoll_print_int[OF i] by (simp add: getLongLongFromObject_def)
qed

lemma restore_value_payload:
  assumes p: "createDumpPayload rdb (RawString v) = Some p" "length v < 2 ^ 32 - 1"
    and argv: "argv ! 1 = key" "argv ! 2 = print_int ttl" "argv ! 3 = p" and ttl: "0 \<le> ttl" "mstime s + ttl \<le> LLONG_MAX" "0 \<le> mstime s"
    and free: "replace \<or> db0 s key = None \<and> expires0 s key = None"
  shows "\<exists>s'. restore_value argv replace s = Some (reply_ok, Some argv, s') \<and> restored key v ttl s s' \<and> effects s' = effects s"
proof -
  obtain rest r where ld: "rdbLoadObjectType p = Some (REDIS_RDB_TYPE_STRING, rest)" "rdbLoadObject REDIS_RDB_TYPE_STRING rest = Some (Some (v, r))"
    using payload_loads[OF p] by metis
  have l: "getLongLongFromObject (print_int ttl) = Some ttl"
    by (rule getLongLong_print) (use ttl in \<open>auto simp: LLONG_MIN_def LLONG_MAX_def\<close>)
  have a: "argv ! Suc 0 = key" using argv(1) by simp
  define s1 where "s1 = (if replace then snd (dbDelete key s) else s)"
  have s1: "db0 s1 key = None" "expires0 s1 key = None" "mstime s1 = mstime s" "effects s1 = effects s" "(db0 s1)(key \<mapsto> v) = (db0 s)(key \<mapsto> v)"
    "\<And>x. (expires0 s1)(key := x) = (expires0 s)(key := x)"
    using free by (auto simp: s1_def dbDelete_fields)
  define s2 where "s2 = slotToKeyAdd key (s1\<lparr>db0 := (db0 s1)(key \<mapsto> v)\<rparr>)"
  have run: "restore_value argv replace s = do {
      s \<leftarrow> (if ttl \<noteq> 0 then do { when \<leftarrow> long_long (mstime s2 + ttl); setExpire key when s2 } else Some s2);
      Some (reply_ok, Some argv, s) }"
    using ttl(1) dbAdd_eq[OF s1(1), of v]
    by (cases replace) (simp_all add: restore_value_def a argv(2,3) l verify_created[OF p(1)] ld s1_def s2_def Let_def)
  have f: "db0 s2 = (db0 s)(key \<mapsto> v)" "mstime s2 = mstime s" "expires0 s2 = expires0 s1" "effects s2 = effects s"
    using s1 by (simp_all add: s2_def)
  show ?thesis
  proof (cases "ttl = 0")
    case True
    have "expires0 s1 = (expires0 s)(key := None)" using s1(2,6) by (metis fun_upd_triv)
    then show ?thesis using run True f by (simp add: restored_def)
  next
    case False
    have "long_long (mstime s2 + ttl) = Some (mstime s + ttl)" using ttl f by (auto simp: long_long_def LLONG_MIN_def LLONG_MAX_def)
    then show ?thesis using run False f s1(6) by (simp add: restored_def setExpire_def redisAssert_def)
  qed
qed

lemma restoreCommand_payload:
  assumes p: "createDumpPayload rdb (RawString v) = Some p" "length v < 2 ^ 32 - 1"
    and argv: "argv ! 1 = key" "argv ! 2 = print_int ttl" "argv ! 3 = p" and ttl: "0 \<le> ttl" "mstime t + ttl \<le> LLONG_MAX" "0 \<le> mstime t"
    and opts: "restore_options (drop 4 argv) False = Some replace" and free: "replace \<or> \<not> present env key t" and ok: "expires_ok t"
  shows "\<exists>t'. restoreCommand env argv t = Some (reply_ok, Some argv, t') \<and> restored key v ttl t t'"
proof (cases replace)
  case True
  then show ?thesis using restore_value_payload[OF p argv ttl, of True] opts by (auto simp: restoreCommand_def)
next
  case False
  with free have "\<not> present env key t" by simp
  from lookup_absent[OF this ok] obtain t1 where t1: "lookupKeyWrite env key t = Some (None, t1)"
    "db0 t1 = (db0 t)(key := None)" "expires0 t1 = (expires0 t)(key := None)" "mstime t1 = mstime t" by metis
  have "\<exists>s'. restore_value argv False t1 = Some (reply_ok, Some argv, s') \<and> restored key v ttl t1 s' \<and> effects s' = effects t1"
    by (rule restore_value_payload[OF p argv]) (use ttl t1 in auto)
  moreover have "argv ! Suc 0 = key" using argv(1) by simp
  ultimately show ?thesis using False opts t1 by (auto simp: restoreCommand_def restored_def)
qed

text \<open>Property C23.
  What DUMP gives for a key, RESTORE takes, on another node and under another key: the value is the same, it expires after the time given (never for 0), and
  no other key is touched. This holds for every value that the length field can describe, whether it is saved as an integer, compressed or raw.\<close>

theorem dump_restore_roundtrip:
  assumes s: "present env key s" "expires_ok s" "db0 s key = Some v" "length v < 2 ^ 32 - 1"
    and t: "expires_ok t" "\<not> present env' key' t" and ttl: "0 \<le> ttl" "mstime t + ttl \<le> LLONG_MAX" "0 \<le> mstime t"
  shows "\<exists>p t'. dumpCommand env rdb [cmd, key] s = Some (addReplyBulk p, None, s) \<and>
    restoreCommand env' [cmd', key', print_int ttl, p] t = Some (reply_ok, Some [cmd', key', print_int ttl, p], t') \<and> restored key' v ttl t t'"
proof -
  obtain p where p: "createDumpPayload rdb (RawString v) = Some p" using createDumpPayload_returns[OF s(4)] .
  have "dumpCommand env rdb [cmd, key] s = Some (addReplyBulk p, None, s)"
    using lookup_present(1)[OF s(1,2)] s(3) p by (simp add: dumpCommand_def)
  moreover have "\<exists>t'. restoreCommand env' [cmd', key', print_int ttl, p] t = Some (reply_ok, Some [cmd', key', print_int ttl, p], t') \<and> restored key' v ttl t t'"
    by (rule restoreCommand_payload[OF p s(4)]) (use t ttl in simp_all)
  ultimately show ?thesis by blast
qed

theorem dump_restore_roundtrip_witness:
  "\<exists>p t'. dumpCommand \<lparr>loading = False, lua_time_start = None\<rparr> \<lparr>rdb_compression = True, stack_junk = (\<lambda>_. 0), heap_junk = (\<lambda>_. 0)\<rparr>
       [str ''DUMP'', str ''k''] (zero_server\<lparr>db0 := [str ''k'' \<mapsto> str ''value'']\<rparr>)
       = Some (addReplyBulk p, None, zero_server\<lparr>db0 := [str ''k'' \<mapsto> str ''value'']\<rparr>) \<and>
     restoreCommand \<lparr>loading = False, lua_time_start = None\<rparr> [str ''RESTORE'', str ''l'', print_int 500, p] zero_server
       = Some (reply_ok, Some [str ''RESTORE'', str ''l'', print_int 500, p], t') \<and> restored (str ''l'') (str ''value'') 500 zero_server t'"
  by (rule dump_restore_roundtrip) (simp_all add: present_def expired_def expires_ok_def zero_server_def str_def LLONG_MAX_def)

subsection \<open>Payloads that should have been refused\<close>

text \<open>A valid checksum on a string with the encoding 4, which does not exist.\<close>

definition bad_payload :: bytes where
  "bad_payload = [0x00, 0xC4, 0x06, 0x00, 0x3A, 0x5D, 0x98, 0x23, 0x3D, 0xE5, 0x64, 0xC8]"

lemma bad_payload_valid: "verifyDumpPayload bad_payload"
  by code_simp

lemma bad_payload_load: "rdbLoadObjectType bad_payload = Some (REDIS_RDB_TYPE_STRING, tl bad_payload)"
    "rdbLoadObject REDIS_RDB_TYPE_STRING (tl bad_payload) = None"
  by (simp_all add: rdbLoadObjectType_def bad_payload_def rdbIsObjectType_def REDIS_RDB_TYPE_STRING_def rdbLoadObject_def
      rdbGenericLoadStringObject_def rdbLoadLen_def)

text \<open>Property C33.
  The checksum protects against accidents only. A client that computes it can make RESTORE abort the process with a payload of twelve bytes: the loader panics on a
  string whose encoding it does not know, where every other malformed payload is answered with an error.\<close>

theorem restore_payload_aborts:
  assumes "db0 s key = None" "expires_ok s"
  shows "restoreCommand env [cmd, key, str ''0'', bad_payload] s = None"
proof -
  have "\<not> present env key s" using assms(1) by (simp add: present_def)
  from lookup_absent[OF this assms(2)] obtain s1 where "lookupKeyWrite env key s = Some (None, s1)" by metis
  moreover have "getLongLongFromObject (str ''0'') = Some 0" by code_simp
  ultimately show ?thesis
    by (simp add: restoreCommand_def restore_value_def bad_payload_valid bad_payload_load)
qed

theorem restore_payload_aborts_witness:
  "restoreCommand \<lparr>loading = False, lua_time_start = None\<rparr> [str ''RESTORE'', str ''k'', str ''0'', bad_payload] zero_server = None"
  by (rule restore_payload_aborts) (simp_all add: zero_server_def expires_ok_def)

text \<open>The time to live is only checked for its sign: the sum with the clock leaves \<open>long long\<close>.\<close>

lemma restore_ttl_overflow:
  assumes "db0 s key = None" "expires_ok s" "LLONG_MAX < mstime s + ttl" "0 < ttl" "ttl \<le> LLONG_MAX"
  shows "restoreCommand env [cmd, key, print_int ttl, small_payload] s = None"
proof -
  have "\<not> present env key s" using assms(1) by (simp add: present_def)
  from lookup_absent[OF this assms(2)] obtain s1 where s1: "lookupKeyWrite env key s = Some (None, s1)" "db0 s1 = (db0 s)(key := None)" "mstime s1 = mstime s"
    by metis
  have "getLongLongFromObject (print_int ttl) = Some ttl" by (rule getLongLong_print) (use assms in \<open>simp_all add: LLONG_MIN_def\<close>)
  moreover have "rdbLoadObjectType small_payload = Some (REDIS_RDB_TYPE_STRING, tl small_payload)"
    by (simp add: rdbLoadObjectType_def small_payload_def rdbIsObjectType_def REDIS_RDB_TYPE_STRING_def)
  moreover have "rdbLoadObject REDIS_RDB_TYPE_STRING (tl small_payload) = Some (Some ([0x61], drop 3 small_payload))"
    by (simp add: rdbLoadObject_def small_payload_def rdbGenericLoadStringObject_def rdbLoadLen_def rioRead_def REDIS_RDB_LENERR_def)
  moreover have "long_long (mstime s + ttl) = None" using assms(3) by (simp add: long_long_def)
  ultimately show ?thesis using s1 assms(4)
    by (simp add: restoreCommand_def restore_value_def small_payload_valid dbAdd_eq)
qed

end
