(* ===== verification/Spec2Isabelle.thy ===== *)
theory Spec2Isabelle
  imports KeySlot ClusterCommandInv DictScan ClusterStream Dump
begin

text \<open>
  The cluster of Redis 3.0, from src/redis-3.0/src. A Redis Cluster splits the keys into 16384 slots; every node is a process that knows all
  nodes, serves some slots or replicates a node that does, and talks to the others over the cluster bus. The code is cluster.c, and what it
  rests on in crc16.c, dict.c, db.c, sds.c, replication.c, networking.c and object.c.

  \<^bold>\<open>How the parts interact.\<close> A query's keys are hashed to a slot (\<open>keyHashSlot\<close>); \<open>getNodeByQuery\<close> decides from the table of
  slots whether it is served here. The state of a node changes by packets (\<open>clusterProcessPacket\<close>, behind \<open>clusterReadHandler\<close>),
  by the timer (\<open>clusterCron\<close>), before the event loop sleeps (\<open>clusterBeforeSleep\<close>), by accepted connections, and by the administrator
  (\<open>clusterCommand\<close>). Packets carry the sender's slots and epochs, and gossip about other nodes: from them a node learns owners of slots
  (\<open>clusterUpdateSlotsConfigWith\<close>), suspects nodes (PFAIL, then FAIL by a quorum), votes for replicas (\<open>clusterSendFailoverAuthIfNeeded\<close>) or takes
  over as one (\<open>clusterHandleSlaveFailover\<close>). What must survive a restart is written to nodes.conf.

  \<^bold>\<open>The model.\<close> The state of a process is the record \<open>server\<close>: the fields of \<open>clusterState\<close> under their names with the prefix \<open>c_\<close>, and the fields of
  \<open>redisServer\<close> the code uses. Nodes and links live in the maps \<open>heap\<close> and \<open>links\<close> from addresses; \<open>NULL\<close> is 0, and \<open>brk\<close> the next free
  address, so that freeing leaves dangling pointers as in C. An operation returns an option: \<open>None\<close> is an abort, a failed assertion
  or undefined behaviour (a dangling pointer, an access out of bounds). Flags, ports, counts, epochs and lengths of packets are words of their
  width and wrap around; times and offsets are integers. Packets that are sent are appended to \<open>outbox\<close>, other effects
  (writing nodes.conf, closing descriptors, asking a child to act) to \<open>effects\<close>. Random numbers are the stream \<open>rng\<close>, the clock the fields \<open>mstime\<close> and
  \<open>unixtime\<close>, and what the operating system decides (connections, addresses, failures to write) parameters or fields that no lemma restricts.

  \<^bold>\<open>Theories.\<close>
  \<^item> Prelude: words, options, the weakest preconditions \<open>returns\<close> (ends and satisfies) and \<open>whenever\<close> (if it ends), the loop \<open>foldM\<close>.
  \<^item> Crc16, KeySlot: the checksum with its table, equal to polynomial division, and the slot of a key with hash tags.
  \<^item> Bitmap, ClusterState, ClusterSlots: bitmaps of slots, the data of cluster.h, who serves a slot; table, bitmaps and counters agree (\<open>slots_inv\<close>).
  \<^item> ClusterNodes: nodes, their table, replicas, failure reports, the blacklist. The locale \<open>dictionary\<close> is what the code needs of a table of nodes.
  \<^item> Dict, DictScan: dict.c itself. Two tables with incremental rehashing refine a map; the cursor of SCAN counts in reversed bits, its
    guarantee is proved for tables that do not shrink, and refuted for one that does.
  \<^item> ClusterBus, ClusterStream: packets built and sent; the byte streams cut back into packets.
  \<^item> ClusterFail, ClusterHandshake: failure detection, gossip and handshakes; nodes in handshake own nothing.
  \<^item> Keyspace: the keys of a slot (\<open>slots_to_keys\<close>), next to the dictionary of database 0.
  \<^item> ClusterConfig, ClusterElection, ClusterPromote: owners after a claim, epochs and their collisions, the state of the cluster;
    votes, candidates, manual failover and migration of replicas; what a promotion does.
  \<^item> ClusterPacket: every branch of \<open>clusterProcessPacket\<close>.
  \<^item> CString, Sds, NodesConf: numbers and words of lines, quoting, the file nodes.conf written and read.
  \<^item> ClusterCron, ClusterRun: the hooks of timer and event loop, start, reset; runs of a node and the winner of an election across nodes.
  \<^item> ClusterQuery: the keys of a command and the redirection of queries, against a short specification of routing.
  \<^item> ClusterCommand, ClusterCommandInv: the subcommands of CLUSTER with their replies, and what they keep.
  \<^item> Crc64, Lzf, Rdb, Dump: DUMP and RESTORE, from the checksum (equal to polynomial division) and the compressor up to the commands: a
    value that is dumped is restored, and a damaged payload is refused.

  \<^bold>\<open>Lemmas.\<close> \<open>ClusterInv.inv\<close> joins the invariants of slots, nodes and allocation; \<open>ClusterHandshake.sound\<close> adds that owners of slots are known nodes. The relations
  \<open>quiet\<close>, \<open>calm\<close>, \<open>advance\<close> and \<open>parting\<close> between states say how much an operation may change; the collections \<open>keeps\<close>, \<open>quietly\<close>
  and \<open>tidily\<close> hold one fact per operation, and each handler is put together from its parts with them. Elections are safe because
  votes are counted through the acknowledgements in \<open>outbox\<close>: a node acknowledges once per epoch, and two majorities meet.

  \<^bold>\<open>Bounds.\<close> Loops over slots, nodes and bytes are structural or have a measure; the loop that chooses gossip is bounded by its own counter.
  \<open>scan_expand\<close> is a partial function and is proved to end for every table the invariant allows. Tables of a dictionary are at most
  \<open>2 ^ 30\<close> buckets, because \<open>_dictKeyIndex\<close> returns an \<open>int\<close>; streams of the bus are below 2 GB, because the handler counts in an \<open>int\<close>, and the
  theorem on huge packets shows what happens beyond. Epochs are assumed not to be at the end of their 64 bits where one is added to them.

  \<^bold>\<open>Not modelled.\<close> Statistics, logging and key space notifications; locking and truncating nodes.conf (its outcome is a parameter), and lines
  longer than the buffer of \<open>fgets\<close>; the layout of \<open>clusterMsg\<close> in memory, which the compiler fixes (\<open>decode\<close> in ClusterStream);
  MIGRATE, and values other than strings in DUMP and RESTORE; of dict.c the iterators, random keys and hash functions. Data types and their encodings, persistence, the synchronisation of replicas, scripting,
  Sentinel and the command line tools are other subsystems, which the cluster code does not depend on.
\<close>

end
